(* ===== verification/Prelude.thy ===== *)
theory Prelude
  imports Main "HOL-Library.Word" "HOL-Library.Sublist"
begin

text \<open>
  Shared vocabulary of the development: the machine types of the C++ code, the lemma
  collections the component theories extend, little-endian byte strings, and the
  generic facts on lists and words that several components use.
\<close>

unbundle bit_operations_syntax

section \<open>Machine types\<close>

type_synonym u8 = "8 word"
type_synonym u32 = "32 word"
type_synonym u64 = "64 word"
type_synonym bytes = "u8 list"

text \<open>
  \<^item> \<open>le_simps\<close>: rewriting of little-endian encodings to arithmetic;
  \<^item> \<open>frame_simps\<close>: what an operation leaves alone;
  \<^item> \<open>len_simps\<close>: the length of what an operation produces.
\<close>

named_theorems le_simps
named_theorems frame_simps
named_theorems len_simps

section \<open>Little-endian byte strings\<close>

text \<open>The value of a little-endian byte string, and its \<open>k\<close>-byte rendering.\<close>

fun le_nat :: "bytes \<Rightarrow> nat" where
  "le_nat [] = 0"
| "le_nat (b # bs) = unat b + 256 * le_nat bs"

fun to_le :: "nat \<Rightarrow> nat \<Rightarrow> bytes" where
  "to_le 0 n = []"
| "to_le (Suc k) n = word_of_nat n # to_le k (n div 256)"

lemma unat_u8_of_nat [le_simps]: "unat (word_of_nat n :: u8) = n mod 256"
  by (simp add: unat_of_nat)

lemma unat_u8_bound: "unat (b :: u8) < 256"
  using unsigned_less [of b] by simp

lemma length_to_le [simp, len_simps]: "length (to_le k n) = k"
  by (induction k arbitrary: n) auto

lemma le_nat_bound: "le_nat bs < 256 ^ length bs"
proof (induction bs)
  case (Cons b bs)
  have "unat b < 256" by (rule unat_u8_bound)
  with Cons.IH show ?case by (simp only: le_nat.simps length_Cons power_Suc)
qed simp

lemma le_nat_to_le [le_simps]: "le_nat (to_le k n) = n mod 256 ^ k"
  by (induction k arbitrary: n) (simp_all add: le_simps mod_mult2_eq)

lemma to_le_le_nat [le_simps]: "to_le (length bs) (le_nat bs) = bs"
proof (induction bs)
  case (Cons b bs)
  have "(unat b + 256 * le_nat bs) div 256 = le_nat bs"
    using unat_u8_bound [of b] by simp
  moreover have "(word_of_nat (unat b + 256 * le_nat bs) :: u8) = b"
    by (rule word_unat_eq_iff [THEN iffD2])
      (simp only: unat_u8_of_nat mod_mult_self2 mod_less unat_u8_bound)
  ultimately show ?case using Cons.IH by simp
qed simp

lemma to_le_inject:
  "length as = length bs \<Longrightarrow> le_nat as = le_nat bs \<longleftrightarrow> as = bs"
  by (metis to_le_le_nat)

lemma le_nat_append [le_simps]:
  "le_nat (xs @ ys) = le_nat xs + 256 ^ length xs * le_nat ys"
  by (induction xs) (simp_all add: algebra_simps)

lemma le_nat_zeros [simp]: "le_nat (replicate k 0) = 0"
  by (induction k) simp_all

section \<open>Lists\<close>

lemma length_1_conv: "length xs = Suc 0 \<longleftrightarrow> (\<exists>x. xs = [x])"
  by (cases xs) auto

lemma take_length_append [simp]: "length xs = n \<Longrightarrow> take n (xs @ ys) = xs"
  by simp

lemma drop_length_append [simp]: "length xs = n \<Longrightarrow> drop n (xs @ ys) = ys"
  by simp

lemma suffix_take_append: "suffix ys xs \<Longrightarrow> take (length xs - length ys) xs @ ys = xs"
  by (auto simp: suffix_def)

section \<open>Words\<close>

lemma u8_bit7: "bit (b :: u8) 7 \<longleftrightarrow> 128 \<le> unat b"
proof -
  have "bit b 7 \<longleftrightarrow> bit (unat b) 7" by (simp add: bit_unsigned_iff)
  also have "\<dots> \<longleftrightarrow> odd (unat b div 128)" by (simp add: bit_iff_odd)
  also have "\<dots> \<longleftrightarrow> 128 \<le> unat b" 
  proof -
    have "unat b div 128 = (if 128 \<le> unat b then 1 else 0)"
      using unat_u8_bound [of b] by (cases "128 \<le> unat b") (simp_all add: div_nat_eqI)
    then show ?thesis by simp
  qed
  finally show ?thesis .
qed

lemma u8_and_80: "b AND 0x80 = (0::u8) \<longleftrightarrow> unat b < 128"
  using bit_iff_and_push_bit_not_eq_0 [of b 7] u8_bit7 [of b]
  by (auto simp add: push_bit_eq_mult not_le)

lemma u8_and_7f: "unat (b AND 0x7f :: u8) = unat b mod 128"
proof -
  have "b AND 0x7f = take_bit 7 b" by (simp add: take_bit_eq_mask mask_eq_exp_minus_1)
  then show ?thesis by (simp only: unsigned_take_bit_eq) (simp add: take_bit_eq_mod)
qed

lemma and_disjoint_shift:
  fixes r :: "'a::len word"
  assumes "unat r < 2 ^ k"
  shows "r AND push_bit k s = 0"
proof -
  have "take_bit k r = r" using assms 
    by (simp add: word_unat_eq_iff unsigned_take_bit_eq take_bit_nat_eq_self)
  then have "r AND push_bit k s = take_bit k r AND push_bit k s" by simp
  also have "\<dots> = 0" by (rule bit_word_eqI) (auto simp: bit_simps)
  finally show ?thesis .
qed

lemma u8_or_80: "unat b < 128 \<Longrightarrow> unat (b OR 0x80 :: u8) = unat b + 128"
proof -
  assume b: "unat b < 128"
  have "b AND push_bit 7 1 = 0" by (rule and_disjoint_shift) (simp add: b)
  then have "b OR 0x80 = b + 0x80" by (simp add: disjunctive_add_eq_or push_bit_eq_mult)
  with b show ?thesis by (simp add: unat_word_ariths)
qed

lemma or_shift_add:
  fixes r :: u64
  assumes r: "unat r < 2 ^ k" and k: "k + 8 \<le> 64"
  shows "unat (r OR push_bit k (ucast (b::u8))) = unat r + 2 ^ k * unat b"
proof -
  have "r OR push_bit k (ucast b) = r + push_bit k (ucast b)"
    using and_disjoint_shift [OF r] by (simp add: disjunctive_add_eq_or)
  moreover have b: "unat r + 2 ^ k * unat b < 2 ^ 64"
  proof -
    have "unat r + 2 ^ k * unat b < 2 ^ k * (unat b + 1)" using r by simp
    also have "\<dots> \<le> 2 ^ k * 2 ^ 8" using unat_u8_bound [of b] by (intro mult_left_mono) auto
    also have "\<dots> \<le> 2 ^ 64" unfolding power_add [symmetric] using k by (intro power_increasing) auto
    finally show ?thesis .
  qed
  moreover have "unat (push_bit k (ucast b) :: u64) = 2 ^ k * unat b"
  proof -
    have "unat (push_bit k (ucast b) :: u64) = take_bit 64 (push_bit k (unat b))"
      by (simp add: unsigned_push_bit_eq unsigned_ucast_eq take_bit_push_bit)
    also have "\<dots> = 2 ^ k * unat b" using b by (simp add: push_bit_eq_mult take_bit_nat_eq_self mult.commute)
    finally show ?thesis .
  qed
  ultimately show ?thesis by (simp add: unat_word_ariths)
qed

lemma sint_u64_small: "unat (w :: u64) < 2 ^ 63 \<Longrightarrow> sint w = int (unat w)"
proof -
  assume "unat w < 2 ^ 63"
  then have "int (unat w) < int (2 ^ 63)" by (simp only: of_nat_less_iff)
  then have "uint w < 2 ^ 63" by simp
  moreover have "- (2 ^ 63) \<le> uint w" by (rule order_trans [OF _ uint_ge_0]) simp
  ultimately show ?thesis
    by (simp add: sint_uint signed_take_bit_int_eq_self)
qed

lemma clear_top:
  fixes r :: u64
  assumes r: "unat r = m + 2 ^ k * c" and m: "m < 2 ^ k" and c: "c < 256" "128 \<le> c"
    and k: "k + 8 \<le> 64"
  shows "unat (r AND NOT (push_bit k 0x80)) = m + 2 ^ k * (c mod 128)"
proof -
  have eq: "push_bit k 0x80 = push_bit (k + 7) (1 :: u64)"
    by (simp add: push_bit_eq_mult power_add)
  have div: "unat r div 2 ^ (k + 7) = c div 128"
    using r m by (simp add: power_add div_mult2_eq)
  have one: "c div 128 = 1" using c by (simp add: div_nat_eqI)
  have "bit (unat r) (k + 7)" using div one by (simp add: bit_iff_odd)
  then have bit: "bit r (k + 7)" using k by (simp add: bit_unsigned_iff)
  have small: "unat (2 ^ (k + 7) :: u64) = 2 ^ (k + 7)"
  proof -
    have "(2 :: nat) ^ (k + 7) < 2 ^ 64" using k by (intro power_strict_increasing) auto
    moreover have "(2 ^ (k + 7) :: u64) = word_of_nat (2 ^ (k + 7))" by simp
    ultimately show ?thesis by (simp only: unat_of_nat) simp
  qed
  have "r AND NOT (push_bit k 0x80) = unset_bit (k + 7) r"
    by (simp only: eq unset_bit_eq_and_not)
  also have "\<dots> = r - 2 ^ (k + 7)" using bit by (simp add: unset_bit_eq)
  finally have "r AND NOT (push_bit k 0x80) = r - 2 ^ (k + 7)" .
  moreover have "2 ^ (k + 7) \<le> unat r"
    using r c by (simp add: power_add) (metis le_add2 mult_le_mono2 order_trans)
  ultimately have "unat (r AND NOT (push_bit k 0x80)) = unat r - 2 ^ (k + 7)"
    by (simp add: small unat_sub word_le_nat_alt)
  moreover have "c = 128 + c mod 128" using one by (metis mult.right_neutral mult_div_mod_eq)
  ultimately have "unat (r AND NOT (push_bit k 0x80)) = m + 2 ^ k * (128 + c mod 128) - 2 ^ (k + 7)"
    using r by metis
  then show ?thesis by (simp add: power_add algebra_simps)
qed

end
