(* ===== verification/Script.thy ===== *)
theory Script
  imports Prelude
begin

text \<open>
  The script language of \<open>src/script/script.h\<close> and \<open>src/script/script.cpp\<close>: opcodes,
  script numbers (\<open>CScriptNum\<close>), serialized scripts (\<open>CScript\<close>), the instruction
  decoder \<open>GetOp2\<close> and the scans built on it. A script is its byte list; an iterator
  into a script is the suffix it points at, so \<open>pc == end()\<close> is \<open>pc = []\<close>. Sizes are
  natural numbers: a script of \<open>2 ^ 32\<close> bytes or more cannot be held by the code's
  \<open>unsigned int\<close> arithmetic and is not considered.
\<close>

section \<open>Opcodes\<close>

text \<open>\<open>enum opcodetype\<close>: any byte can be cast to it, and the code compares it numerically.\<close>

type_synonym opcodetype = nat
type_synonym valtype = bytes
type_synonym CScript = bytes

abbreviation (input) OP_0 :: opcodetype where "OP_0 \<equiv> 0"
abbreviation (input) OP_FALSE :: opcodetype where "OP_FALSE \<equiv> 0"
abbreviation (input) OP_PUSHDATA1 :: opcodetype where "OP_PUSHDATA1 \<equiv> 76"
abbreviation (input) OP_PUSHDATA2 :: opcodetype where "OP_PUSHDATA2 \<equiv> 77"
abbreviation (input) OP_PUSHDATA4 :: opcodetype where "OP_PUSHDATA4 \<equiv> 78"
abbreviation (input) OP_1NEGATE :: opcodetype where "OP_1NEGATE \<equiv> 79"
abbreviation (input) OP_RESERVED :: opcodetype where "OP_RESERVED \<equiv> 80"
abbreviation (input) OP_1 :: opcodetype where "OP_1 \<equiv> 81"
abbreviation (input) OP_TRUE :: opcodetype where "OP_TRUE \<equiv> 81"
abbreviation (input) OP_2 :: opcodetype where "OP_2 \<equiv> 82"
abbreviation (input) OP_3 :: opcodetype where "OP_3 \<equiv> 83"
abbreviation (input) OP_4 :: opcodetype where "OP_4 \<equiv> 84"
abbreviation (input) OP_5 :: opcodetype where "OP_5 \<equiv> 85"
abbreviation (input) OP_6 :: opcodetype where "OP_6 \<equiv> 86"
abbreviation (input) OP_7 :: opcodetype where "OP_7 \<equiv> 87"
abbreviation (input) OP_8 :: opcodetype where "OP_8 \<equiv> 88"
abbreviation (input) OP_9 :: opcodetype where "OP_9 \<equiv> 89"
abbreviation (input) OP_10 :: opcodetype where "OP_10 \<equiv> 90"
abbreviation (input) OP_11 :: opcodetype where "OP_11 \<equiv> 91"
abbreviation (input) OP_12 :: opcodetype where "OP_12 \<equiv> 92"
abbreviation (input) OP_13 :: opcodetype where "OP_13 \<equiv> 93"
abbreviation (input) OP_14 :: opcodetype where "OP_14 \<equiv> 94"
abbreviation (input) OP_15 :: opcodetype where "OP_15 \<equiv> 95"
abbreviation (input) OP_16 :: opcodetype where "OP_16 \<equiv> 96"
abbreviation (input) OP_NOP :: opcodetype where "OP_NOP \<equiv> 97"
abbreviation (input) OP_VER :: opcodetype where "OP_VER \<equiv> 98"
abbreviation (input) OP_IF :: opcodetype where "OP_IF \<equiv> 99"
abbreviation (input) OP_NOTIF :: opcodetype where "OP_NOTIF \<equiv> 100"
abbreviation (input) OP_VERIF :: opcodetype where "OP_VERIF \<equiv> 101"
abbreviation (input) OP_VERNOTIF :: opcodetype where "OP_VERNOTIF \<equiv> 102"
abbreviation (input) OP_ELSE :: opcodetype where "OP_ELSE \<equiv> 103"
abbreviation (input) OP_ENDIF :: opcodetype where "OP_ENDIF \<equiv> 104"
abbreviation (input) OP_VERIFY :: opcodetype where "OP_VERIFY \<equiv> 105"
abbreviation (input) OP_RETURN :: opcodetype where "OP_RETURN \<equiv> 106"
abbreviation (input) OP_TOALTSTACK :: opcodetype where "OP_TOALTSTACK \<equiv> 107"
abbreviation (input) OP_FROMALTSTACK :: opcodetype where "OP_FROMALTSTACK \<equiv> 108"
abbreviation (input) OP_2DROP :: opcodetype where "OP_2DROP \<equiv> 109"
abbreviation (input) OP_2DUP :: opcodetype where "OP_2DUP \<equiv> 110"
abbreviation (input) OP_3DUP :: opcodetype where "OP_3DUP \<equiv> 111"
abbreviation (input) OP_2OVER :: opcodetype where "OP_2OVER \<equiv> 112"
abbreviation (input) OP_2ROT :: opcodetype where "OP_2ROT \<equiv> 113"
abbreviation (input) OP_2SWAP :: opcodetype where "OP_2SWAP \<equiv> 114"
abbreviation (input) OP_IFDUP :: opcodetype where "OP_IFDUP \<equiv> 115"
abbreviation (input) OP_DEPTH :: opcodetype where "OP_DEPTH \<equiv> 116"
abbreviation (input) OP_DROP :: opcodetype where "OP_DROP \<equiv> 117"
abbreviation (input) OP_DUP :: opcodetype where "OP_DUP \<equiv> 118"
abbreviation (input) OP_NIP :: opcodetype where "OP_NIP \<equiv> 119"
abbreviation (input) OP_OVER :: opcodetype where "OP_OVER \<equiv> 120"
abbreviation (input) OP_PICK :: opcodetype where "OP_PICK \<equiv> 121"
abbreviation (input) OP_ROLL :: opcodetype where "OP_ROLL \<equiv> 122"
abbreviation (input) OP_ROT :: opcodetype where "OP_ROT \<equiv> 123"
abbreviation (input) OP_SWAP :: opcodetype where "OP_SWAP \<equiv> 124"
abbreviation (input) OP_TUCK :: opcodetype where "OP_TUCK \<equiv> 125"
abbreviation (input) OP_CAT :: opcodetype where "OP_CAT \<equiv> 126"
abbreviation (input) OP_SUBSTR :: opcodetype where "OP_SUBSTR \<equiv> 127"
abbreviation (input) OP_LEFT :: opcodetype where "OP_LEFT \<equiv> 128"
abbreviation (input) OP_RIGHT :: opcodetype where "OP_RIGHT \<equiv> 129"
abbreviation (input) OP_SIZE :: opcodetype where "OP_SIZE \<equiv> 130"
abbreviation (input) OP_INVERT :: opcodetype where "OP_INVERT \<equiv> 131"
abbreviation (input) OP_AND :: opcodetype where "OP_AND \<equiv> 132"
abbreviation (input) OP_OR :: opcodetype where "OP_OR \<equiv> 133"
abbreviation (input) OP_XOR :: opcodetype where "OP_XOR \<equiv> 134"
abbreviation (input) OP_EQUAL :: opcodetype where "OP_EQUAL \<equiv> 135"
abbreviation (input) OP_EQUALVERIFY :: opcodetype where "OP_EQUALVERIFY \<equiv> 136"
abbreviation (input) OP_RESERVED1 :: opcodetype where "OP_RESERVED1 \<equiv> 137"
abbreviation (input) OP_RESERVED2 :: opcodetype where "OP_RESERVED2 \<equiv> 138"
abbreviation (input) OP_1ADD :: opcodetype where "OP_1ADD \<equiv> 139"
abbreviation (input) OP_1SUB :: opcodetype where "OP_1SUB \<equiv> 140"
abbreviation (input) OP_2MUL :: opcodetype where "OP_2MUL \<equiv> 141"
abbreviation (input) OP_2DIV :: opcodetype where "OP_2DIV \<equiv> 142"
abbreviation (input) OP_NEGATE :: opcodetype where "OP_NEGATE \<equiv> 143"
abbreviation (input) OP_ABS :: opcodetype where "OP_ABS \<equiv> 144"
abbreviation (input) OP_NOT :: opcodetype where "OP_NOT \<equiv> 145"
abbreviation (input) OP_0NOTEQUAL :: opcodetype where "OP_0NOTEQUAL \<equiv> 146"
abbreviation (input) OP_ADD :: opcodetype where "OP_ADD \<equiv> 147"
abbreviation (input) OP_SUB :: opcodetype where "OP_SUB \<equiv> 148"
abbreviation (input) OP_MUL :: opcodetype where "OP_MUL \<equiv> 149"
abbreviation (input) OP_DIV :: opcodetype where "OP_DIV \<equiv> 150"
abbreviation (input) OP_MOD :: opcodetype where "OP_MOD \<equiv> 151"
abbreviation (input) OP_LSHIFT :: opcodetype where "OP_LSHIFT \<equiv> 152"
abbreviation (input) OP_RSHIFT :: opcodetype where "OP_RSHIFT \<equiv> 153"
abbreviation (input) OP_BOOLAND :: opcodetype where "OP_BOOLAND \<equiv> 154"
abbreviation (input) OP_BOOLOR :: opcodetype where "OP_BOOLOR \<equiv> 155"
abbreviation (input) OP_NUMEQUAL :: opcodetype where "OP_NUMEQUAL \<equiv> 156"
abbreviation (input) OP_NUMEQUALVERIFY :: opcodetype where "OP_NUMEQUALVERIFY \<equiv> 157"
abbreviation (input) OP_NUMNOTEQUAL :: opcodetype where "OP_NUMNOTEQUAL \<equiv> 158"
abbreviation (input) OP_LESSTHAN :: opcodetype where "OP_LESSTHAN \<equiv> 159"
abbreviation (input) OP_GREATERTHAN :: opcodetype where "OP_GREATERTHAN \<equiv> 160"
abbreviation (input) OP_LESSTHANOREQUAL :: opcodetype where "OP_LESSTHANOREQUAL \<equiv> 161"
abbreviation (input) OP_GREATERTHANOREQUAL :: opcodetype where "OP_GREATERTHANOREQUAL \<equiv> 162"
abbreviation (input) OP_MIN :: opcodetype where "OP_MIN \<equiv> 163"
abbreviation (input) OP_MAX :: opcodetype where "OP_MAX \<equiv> 164"
abbreviation (input) OP_WITHIN :: opcodetype where "OP_WITHIN \<equiv> 165"
abbreviation (input) OP_RIPEMD160 :: opcodetype where "OP_RIPEMD160 \<equiv> 166"
abbreviation (input) OP_SHA1 :: opcodetype where "OP_SHA1 \<equiv> 167"
abbreviation (input) OP_SHA256 :: opcodetype where "OP_SHA256 \<equiv> 168"
abbreviation (input) OP_HASH160 :: opcodetype where "OP_HASH160 \<equiv> 169"
abbreviation (input) OP_HASH256 :: opcodetype where "OP_HASH256 \<equiv> 170"
abbreviation (input) OP_CODESEPARATOR :: opcodetype where "OP_CODESEPARATOR \<equiv> 171"
abbreviation (input) OP_CHECKSIG :: opcodetype where "OP_CHECKSIG \<equiv> 172"
abbreviation (input) OP_CHECKSIGVERIFY :: opcodetype where "OP_CHECKSIGVERIFY \<equiv> 173"
abbreviation (input) OP_CHECKMULTISIG :: opcodetype where "OP_CHECKMULTISIG \<equiv> 174"
abbreviation (input) OP_CHECKMULTISIGVERIFY :: opcodetype where "OP_CHECKMULTISIGVERIFY \<equiv> 175"
abbreviation (input) OP_NOP1 :: opcodetype where "OP_NOP1 \<equiv> 176"
abbreviation (input) OP_NOP2 :: opcodetype where "OP_NOP2 \<equiv> 177"
abbreviation (input) OP_NOP3 :: opcodetype where "OP_NOP3 \<equiv> 178"
abbreviation (input) OP_NOP4 :: opcodetype where "OP_NOP4 \<equiv> 179"
abbreviation (input) OP_NOP5 :: opcodetype where "OP_NOP5 \<equiv> 180"
abbreviation (input) OP_NOP6 :: opcodetype where "OP_NOP6 \<equiv> 181"
abbreviation (input) OP_NOP7 :: opcodetype where "OP_NOP7 \<equiv> 182"
abbreviation (input) OP_NOP8 :: opcodetype where "OP_NOP8 \<equiv> 183"
abbreviation (input) OP_NOP9 :: opcodetype where "OP_NOP9 \<equiv> 184"
abbreviation (input) OP_NOP10 :: opcodetype where "OP_NOP10 \<equiv> 185"
abbreviation (input) OP_SMALLINTEGER :: opcodetype where "OP_SMALLINTEGER \<equiv> 250"
abbreviation (input) OP_PUBKEYS :: opcodetype where "OP_PUBKEYS \<equiv> 251"
abbreviation (input) OP_PUBKEYHASH :: opcodetype where "OP_PUBKEYHASH \<equiv> 253"
abbreviation (input) OP_PUBKEY :: opcodetype where "OP_PUBKEY \<equiv> 254"
abbreviation (input) OP_INVALIDOPCODE :: opcodetype where "OP_INVALIDOPCODE \<equiv> 255"

abbreviation (input) MAX_SCRIPT_ELEMENT_SIZE :: nat where "MAX_SCRIPT_ELEMENT_SIZE \<equiv> 520"

definition op_names :: "(opcodetype \<times> string) list" where
  "op_names =
   [(OP_0, ''0''),
    (OP_PUSHDATA1, ''OP_PUSHDATA1''),
    (OP_PUSHDATA2, ''OP_PUSHDATA2''),
    (OP_PUSHDATA4, ''OP_PUSHDATA4''),
    (OP_1NEGATE, ''-1''),
    (OP_RESERVED, ''OP_RESERVED''),
    (OP_1, ''1''),
    (OP_2, ''2''),
    (OP_3, ''3''),
    (OP_4, ''4''),
    (OP_5, ''5''),
    (OP_6, ''6''),
    (OP_7, ''7''),
    (OP_8, ''8''),
    (OP_9, ''9''),
    (OP_10, ''10''),
    (OP_11, ''11''),
    (OP_12, ''12''),
    (OP_13, ''13''),
    (OP_14, ''14''),
    (OP_15, ''15''),
    (OP_16, ''16''),
    (OP_NOP, ''OP_NOP''),
    (OP_VER, ''OP_VER''),
    (OP_IF, ''OP_IF''),
    (OP_NOTIF, ''OP_NOTIF''),
    (OP_VERIF, ''OP_VERIF''),
    (OP_VERNOTIF, ''OP_VERNOTIF''),
    (OP_ELSE, ''OP_ELSE''),
    (OP_ENDIF, ''OP_ENDIF''),
    (OP_VERIFY, ''OP_VERIFY''),
    (OP_RETURN, ''OP_RETURN''),
    (OP_TOALTSTACK, ''OP_TOALTSTACK''),
    (OP_FROMALTSTACK, ''OP_FROMALTSTACK''),
    (OP_2DROP, ''OP_2DROP''),
    (OP_2DUP, ''OP_2DUP''),
    (OP_3DUP, ''OP_3DUP''),
    (OP_2OVER, ''OP_2OVER''),
    (OP_2ROT, ''OP_2ROT''),
    (OP_2SWAP, ''OP_2SWAP''),
    (OP_IFDUP, ''OP_IFDUP''),
    (OP_DEPTH, ''OP_DEPTH''),
    (OP_DROP, ''OP_DROP''),
    (OP_DUP, ''OP_DUP''),
    (OP_NIP, ''OP_NIP''),
    (OP_OVER, ''OP_OVER''),
    (OP_PICK, ''OP_PICK''),
    (OP_ROLL, ''OP_ROLL''),
    (OP_ROT, ''OP_ROT''),
    (OP_SWAP, ''OP_SWAP''),
    (OP_TUCK, ''OP_TUCK''),
    (OP_CAT, ''OP_CAT''),
    (OP_SUBSTR, ''OP_SUBSTR''),
    (OP_LEFT, ''OP_LEFT''),
    (OP_RIGHT, ''OP_RIGHT''),
    (OP_SIZE, ''OP_SIZE''),
    (OP_INVERT, ''OP_INVERT''),
    (OP_AND, ''OP_AND''),
    (OP_OR, ''OP_OR''),
    (OP_XOR, ''OP_XOR''),
    (OP_EQUAL, ''OP_EQUAL''),
    (OP_EQUALVERIFY, ''OP_EQUALVERIFY''),
    (OP_RESERVED1, ''OP_RESERVED1''),
    (OP_RESERVED2, ''OP_RESERVED2''),
    (OP_1ADD, ''OP_1ADD''),
    (OP_1SUB, ''OP_1SUB''),
    (OP_2MUL, ''OP_2MUL''),
    (OP_2DIV, ''OP_2DIV''),
    (OP_NEGATE, ''OP_NEGATE''),
    (OP_ABS, ''OP_ABS''),
    (OP_NOT, ''OP_NOT''),
    (OP_0NOTEQUAL, ''OP_0NOTEQUAL''),
    (OP_ADD, ''OP_ADD''),
    (OP_SUB, ''OP_SUB''),
    (OP_MUL, ''OP_MUL''),
    (OP_DIV, ''OP_DIV''),
    (OP_MOD, ''OP_MOD''),
    (OP_LSHIFT, ''OP_LSHIFT''),
    (OP_RSHIFT, ''OP_RSHIFT''),
    (OP_BOOLAND, ''OP_BOOLAND''),
    (OP_BOOLOR, ''OP_BOOLOR''),
    (OP_NUMEQUAL, ''OP_NUMEQUAL''),
    (OP_NUMEQUALVERIFY, ''OP_NUMEQUALVERIFY''),
    (OP_NUMNOTEQUAL, ''OP_NUMNOTEQUAL''),
    (OP_LESSTHAN, ''OP_LESSTHAN''),
    (OP_GREATERTHAN, ''OP_GREATERTHAN''),
    (OP_LESSTHANOREQUAL, ''OP_LESSTHANOREQUAL''),
    (OP_GREATERTHANOREQUAL, ''OP_GREATERTHANOREQUAL''),
    (OP_MIN, ''OP_MIN''),
    (OP_MAX, ''OP_MAX''),
    (OP_WITHIN, ''OP_WITHIN''),
    (OP_RIPEMD160, ''OP_RIPEMD160''),
    (OP_SHA1, ''OP_SHA1''),
    (OP_SHA256, ''OP_SHA256''),
    (OP_HASH160, ''OP_HASH160''),
    (OP_HASH256, ''OP_HASH256''),
    (OP_CODESEPARATOR, ''OP_CODESEPARATOR''),
    (OP_CHECKSIG, ''OP_CHECKSIG''),
    (OP_CHECKSIGVERIFY, ''OP_CHECKSIGVERIFY''),
    (OP_CHECKMULTISIG, ''OP_CHECKMULTISIG''),
    (OP_CHECKMULTISIGVERIFY, ''OP_CHECKMULTISIGVERIFY''),
    (OP_NOP1, ''OP_NOP1''),
    (OP_NOP2, ''OP_NOP2''),
    (OP_NOP3, ''OP_NOP3''),
    (OP_NOP4, ''OP_NOP4''),
    (OP_NOP5, ''OP_NOP5''),
    (OP_NOP6, ''OP_NOP6''),
    (OP_NOP7, ''OP_NOP7''),
    (OP_NOP8, ''OP_NOP8''),
    (OP_NOP9, ''OP_NOP9''),
    (OP_NOP10, ''OP_NOP10''),
    (OP_INVALIDOPCODE, ''OP_INVALIDOPCODE'')]"

definition GetOpName :: "opcodetype \<Rightarrow> string" where
  "GetOpName opcode = (case map_of op_names opcode of Some s \<Rightarrow> s | None \<Rightarrow> ''OP_UNKNOWN'')"

section \<open>Script numbers\<close>

text \<open>
  \<open>CScriptNum\<close> keeps an \<open>int64_t\<close>. The model keeps its value as an integer; that the
  operators stay inside the 64-bit range, so that none of the code's overflow
  assertions fires, is proved below rather than assumed. The constructor from bytes
  throws \<open>scriptnum_error\<close>, here \<open>None\<close>.
\<close>

abbreviation (input) nMaxNumSize :: nat where "nMaxNumSize \<equiv> 4"

fun abs_bytes :: "nat \<Rightarrow> bytes" where
  "abs_bytes absvalue =
     (if absvalue = 0 then [] else word_of_nat absvalue # abs_bytes (absvalue div 256))"

declare abs_bytes.simps [simp del]

definition CScriptNum_serialize :: "int \<Rightarrow> bytes" where
  "CScriptNum_serialize value =
     (if value = 0 then []
      else let neg = value < 0; result = abs_bytes (nat \<bar>value\<bar>)
           in if last result AND 0x80 \<noteq> 0 then result @ [if neg then 0x80 else 0]
              else if neg then butlast result @ [last result OR 0x80]
              else result)"

definition set_vch :: "bytes \<Rightarrow> int" where
  "set_vch vch =
     (if vch = [] then 0
      else let result = fold (\<lambda>i r. r OR push_bit (8 * i) (ucast (vch ! i) :: u64)) [0..<length vch] 0
           in if last vch AND 0x80 \<noteq> 0
              then - sint (result AND NOT (push_bit (8 * (length vch - 1)) 0x80))
              else sint result)"

definition CScriptNum :: "bytes \<Rightarrow> bool \<Rightarrow> int option" where
  "CScriptNum vch fRequireMinimal =
     (if length vch > nMaxNumSize then None
      else if fRequireMinimal \<and> length vch > 0 \<and> last vch AND 0x7f = 0 \<and>
              (length vch \<le> 1 \<or> vch ! (length vch - 2) AND 0x80 = 0) then None
      else Some (set_vch vch))"

definition getint :: "int \<Rightarrow> int" where
  "getint m_value =
     (if m_value > 2147483647 then 2147483647
      else if m_value < - 2147483648 then - 2147483648
      else m_value)"

section \<open>Serialized scripts\<close>

text \<open>\<open>CScript::operator<<\<close> for an opcode, for data and for an integer.\<close>

definition push_opcode :: "CScript \<Rightarrow> opcodetype \<Rightarrow> CScript" where
  "push_opcode s opcode = s @ [word_of_nat opcode]"

definition push_data :: "CScript \<Rightarrow> valtype \<Rightarrow> CScript" where
  "push_data s b =
     (if length b < OP_PUSHDATA1 then s @ [word_of_nat (length b)] @ b
      else if length b \<le> 0xff then s @ [word_of_nat OP_PUSHDATA1, word_of_nat (length b)] @ b
      else if length b \<le> 0xffff then s @ [word_of_nat OP_PUSHDATA2] @ to_le 2 (length b) @ b
      else s @ [word_of_nat OP_PUSHDATA4] @ to_le 4 (length b) @ b)"

definition push_int64 :: "CScript \<Rightarrow> int \<Rightarrow> CScript" where
  "push_int64 s n =
     (if n = -1 \<or> (n \<ge> 1 \<and> n \<le> 16) then s @ [word_of_int (n + (int OP_1 - 1))]
      else if n = 0 then s @ [word_of_nat OP_0]
      else push_data s (CScriptNum_serialize n))"

text \<open>
  \<open>GetOp2\<close> returns whether an instruction was read, the advanced iterator (it moves
  past what was read even when the instruction is incomplete), the opcode and the data.
\<close>

definition GetOp2 :: "bytes \<Rightarrow> bool \<times> bytes \<times> opcodetype \<times> valtype" where
  "GetOp2 pc =
     (case pc of
        [] \<Rightarrow> (False, [], OP_INVALIDOPCODE, [])
      | c # pc1 \<Rightarrow>
         (let opcode = unat c
          in if opcode \<le> OP_PUSHDATA4 then
               (let w = (if opcode < OP_PUSHDATA1 then 0
                         else if opcode = OP_PUSHDATA1 then 1
                         else if opcode = OP_PUSHDATA2 then 2 else 4)
                in if length pc1 < w then (False, pc1, OP_INVALIDOPCODE, [])
                   else let nSize = (if opcode < OP_PUSHDATA1 then opcode else le_nat (take w pc1));
                            pc2 = drop w pc1
                        in if length pc2 < nSize then (False, pc2, OP_INVALIDOPCODE, [])
                           else (True, drop nSize pc2, opcode, take nSize pc2))
             else (True, pc1, opcode, [])))"

definition DecodeOP_N :: "opcodetype \<Rightarrow> int option" where
  "DecodeOP_N opcode =
     (if opcode = OP_0 then Some 0
      else if opcode \<ge> OP_1 \<and> opcode \<le> OP_16 then Some (int opcode - (int OP_1 - 1))
      else None)"

definition EncodeOP_N :: "int \<Rightarrow> opcodetype option" where
  "EncodeOP_N n =
     (if n \<ge> 0 \<and> n \<le> 16 then (if n = 0 then Some OP_0 else Some (nat (int OP_1 + n - 1)))
      else None)"

lemma GetOp2_shorter: "GetOp2 (c # pc) = (ok, pc', opcode, d) \<Longrightarrow> length pc' \<le> length pc"
  by (auto simp: GetOp2_def Let_def split: if_splits)

lemma GetOp2_decreases [termination_simp]:
  "(ok, pc', opcode, d) = GetOp2 (c # pc) \<Longrightarrow> length pc' < Suc (length pc)"
  using GetOp2_shorter [of c pc ok pc' opcode d] by simp

text \<open>\<open>FindAndDelete\<close>: the inner loop erases occurrences at the iterator, the outer one steps.\<close>

function erase_at :: "CScript \<Rightarrow> bytes \<Rightarrow> nat \<times> bytes" where
  "erase_at b pc =
     (if b \<noteq> [] \<and> length pc \<ge> length b \<and> take (length b) pc = b
      then let (n, pc') = erase_at b (drop (length b) pc) in (Suc n, pc')
      else (0, pc))"
  by pat_completeness auto
termination
  by (relation "measure (\<lambda>(b, pc). length pc)") (auto intro: diff_less)

declare erase_at.simps [simp del]

lemma erase_at_shorter: "erase_at b pc = (n, pc') \<Longrightarrow> length pc' + n * length b = length pc"
proof (induction b pc arbitrary: n pc' rule: erase_at.induct)
  case (1 b pc)
  show ?case
  proof (cases "b \<noteq> [] \<and> length pc \<ge> length b \<and> take (length b) pc = b")
    case True
    obtain m q where mq: "erase_at b (drop (length b) pc) = (m, q)" by fastforce
    with "1.IH" [OF True mq] True "1.prems" show ?thesis
      by (auto simp: erase_at.simps [of b pc])
  next
    case False
    with "1.prems" show ?thesis by (auto simp: erase_at.simps [of b pc] split: if_splits)
  qed
qed

function find_and_delete_loop :: "CScript \<Rightarrow> bytes \<Rightarrow> nat \<times> bytes" where
  "find_and_delete_loop b pc =
     (let (n, pc1) = erase_at b pc
      in case pc1 of
           [] \<Rightarrow> (n, [])
         | c # cs \<Rightarrow>
            (let (ok, pc2, opcode, vch) = GetOp2 pc1
             in if ok then let (m, rest) = find_and_delete_loop b pc2
                           in (n + m, take (length pc1 - length pc2) pc1 @ rest)
                else (n, pc1)))"
  by pat_completeness auto
termination
proof (relation "measure (\<lambda>(b, pc). length pc)", goal_cases)
  case (2 b pc x n pc1 c cs y ok z pc2 w opcode vch)
  then have "length pc1 \<le> length pc" using erase_at_shorter [of b pc n pc1] by simp
  moreover have "length pc2 < length pc1"
    using 2 GetOp2_decreases [of ok pc2 opcode vch c cs] by simp
  ultimately show ?case by simp
qed simp

declare find_and_delete_loop.simps [simp del]

definition FindAndDelete :: "CScript \<Rightarrow> CScript \<Rightarrow> nat \<times> CScript" where
  "FindAndDelete script b = (if b = [] then (0, script) else find_and_delete_loop b script)"

fun Find :: "opcodetype \<Rightarrow> bytes \<Rightarrow> nat" where
  "Find op [] = 0"
| "Find op (c # cs) =
     (let (ok, pc, opcode, vch) = GetOp2 (c # cs)
      in if ok then (if opcode = op then 1 else 0) + Find op pc else 0)"

section \<open>Scans over a script\<close>

fun sigop_loop :: "bool \<Rightarrow> opcodetype \<Rightarrow> bytes \<Rightarrow> nat" where
  "sigop_loop fAccurate lastOpcode [] = 0"
| "sigop_loop fAccurate lastOpcode (c # cs) =
     (let (ok, pc, opcode, vch) = GetOp2 (c # cs)
      in if \<not> ok then 0
         else (if opcode = OP_CHECKSIG \<or> opcode = OP_CHECKSIGVERIFY then 1
               else if opcode = OP_CHECKMULTISIG \<or> opcode = OP_CHECKMULTISIGVERIFY then
                 (if fAccurate \<and> lastOpcode \<ge> OP_1 \<and> lastOpcode \<le> OP_16
                  then nat (the (DecodeOP_N lastOpcode)) else 20)
               else 0) + sigop_loop fAccurate opcode pc)"

definition GetSigOpCount :: "CScript \<Rightarrow> bool \<Rightarrow> nat" where
  "GetSigOpCount script fAccurate = sigop_loop fAccurate OP_INVALIDOPCODE script"

definition IsPayToScriptHash :: "CScript \<Rightarrow> bool" where
  "IsPayToScriptHash script \<longleftrightarrow>
     length script = 23 \<and> unat (script ! 0) = OP_HASH160 \<and> script ! 1 = 0x14 \<and>
     unat (script ! 22) = OP_EQUAL"

fun last_push :: "bytes \<Rightarrow> valtype \<Rightarrow> valtype option" where
  "last_push [] vch = Some vch"
| "last_push (c # cs) vch0 =
     (let (ok, pc, opcode, vch) = GetOp2 (c # cs)
      in if \<not> ok then None else if opcode > OP_16 then None else last_push pc vch)"

definition GetSigOpCount_P2SH :: "CScript \<Rightarrow> CScript \<Rightarrow> nat" where
  "GetSigOpCount_P2SH script scriptSig =
     (if \<not> IsPayToScriptHash script then GetSigOpCount script True
      else case last_push scriptSig [] of
             None \<Rightarrow> 0
           | Some vch \<Rightarrow> GetSigOpCount vch True)"

fun normal_payment_loop :: "nat \<Rightarrow> bytes \<Rightarrow> bool" where
  "normal_payment_loop i [] = True"
| "normal_payment_loop i (c # cs) =
     (let (ok, pc, opcode, vch) = GetOp2 (c # cs)
      in if i = 0 \<and> opcode \<noteq> OP_DUP then False
         else if i = 1 \<and> opcode \<noteq> OP_HASH160 then False
         else if i = 3 \<and> opcode \<noteq> OP_EQUALVERIFY then False
         else if i = 4 \<and> opcode \<noteq> OP_CHECKSIG then False
         else if i = 5 then False
         else normal_payment_loop (Suc i) pc)"

definition IsNormalPaymentScript :: "CScript \<Rightarrow> bool" where
  "IsNormalPaymentScript script \<longleftrightarrow> length script = 25 \<and> normal_payment_loop 0 script"

fun IsPushOnly :: "bytes \<Rightarrow> bool" where
  "IsPushOnly [] = True"
| "IsPushOnly (c # cs) =
     (let (ok, pc, opcode, vch) = GetOp2 (c # cs)
      in if \<not> ok then False else if opcode > OP_16 then False else IsPushOnly pc)"

definition IsUnspendable :: "CScript \<Rightarrow> bool" where
  "IsUnspendable script \<longleftrightarrow> length script > 0 \<and> unat (hd script) = OP_RETURN"

section \<open>Script numbers are sign-magnitude numbers\<close>

text \<open>
  The specification of the encoding: the last byte carries the sign, the other bits are
  the little-endian magnitude; minimal means no superfluous last byte.
\<close>

lemma fold_or_bytes:
  "length vch \<le> 8 \<Longrightarrow>
   unat (fold (\<lambda>i r. r OR push_bit (8 * i) (ucast (vch ! i) :: u64)) [0..<length vch] 0) = le_nat vch"
proof (induction vch rule: rev_induct)
  case (snoc b vch)
  let ?f = "\<lambda>vch i r. r OR push_bit (8 * i) (ucast (vch ! i) :: u64)"
  have cong: "fold (?f (vch @ [b])) [0..<length vch] 0 = fold (?f vch) [0..<length vch] 0"
    by (rule fold_cong) (auto simp: nth_append)
  have "unat (fold (?f vch) [0..<length vch] 0) < 2 ^ (8 * length vch)"
    using snoc le_nat_bound [of vch] by (simp add: power_mult)
  with snoc cong show ?case
    by (simp add: nth_append or_shift_add le_nat_append power_mult)
qed simp

definition sn_value :: "bytes \<Rightarrow> int" where
  "sn_value v = (if v = [] then 0 else
     (if 128 \<le> unat (last v) then - 1 else 1) *
       int (le_nat (butlast v) + 256 ^ (length v - 1) * (unat (last v) mod 128)))"

lemma set_vch_sn_value: 
  assumes "length v \<le> 7" shows "set_vch v = sn_value v"
proof (cases v rule: rev_cases)
  case (snoc vs b)
  let ?r = "fold (\<lambda>i r. r OR push_bit (8 * i) (ucast (v ! i) :: u64)) [0..<length v] 0"
  let ?k = "8 * length vs"
  have r: "unat ?r = le_nat vs + 2 ^ ?k * unat b"
    using fold_or_bytes [of v] assms by (simp add: snoc le_nat_append power_mult)
  have m: "le_nat vs < 2 ^ ?k" using le_nat_bound [of vs] by (simp add: power_mult)
  have k: "?k + 8 \<le> 56" using assms snoc by simp
  have bound: "x < 256 \<Longrightarrow> le_nat vs + 2 ^ ?k * x < 2 ^ 63" for x
  proof -
    assume x: "x < 256"
    have "le_nat vs + 2 ^ ?k * x < 2 ^ ?k * (x + 1)" using m by simp
    also have "\<dots> \<le> 2 ^ ?k * 2 ^ 8" using x by (intro mult_left_mono) auto
    also have "\<dots> \<le> 2 ^ 63" unfolding power_add [symmetric] using k by (intro power_increasing) auto
    finally show ?thesis .
  qed
  show ?thesis
  proof (cases "128 \<le> unat b")
    case True
    have "unat (?r AND NOT (push_bit ?k 0x80)) = le_nat vs + 2 ^ ?k * (unat b mod 128)"
      using clear_top [OF r m unat_u8_bound True] k by simp
    with True bound [of "unat b mod 128"] show ?thesis 
      by (simp add: set_vch_def sn_value_def snoc Let_def u8_and_80 sint_u64_small power_mult)
  next
    case False
    with bound [of "unat b"] r show ?thesis
      by (simp add: set_vch_def sn_value_def snoc Let_def u8_and_80 sint_u64_small power_mult)
  qed
qed (simp add: set_vch_def sn_value_def)


lemma le_nat_abs_bytes: "le_nat (abs_bytes m) = m"
proof (induction m rule: abs_bytes.induct)
  case (1 m)
  then show ?case by (simp add: abs_bytes.simps [of m] le_simps)
qed

lemma abs_bytes_last: "0 < m \<Longrightarrow> abs_bytes m \<noteq> [] \<and> 0 < unat (last (abs_bytes m))"
proof (induction m rule: abs_bytes.induct)
  case (1 m)
  show ?case
  proof (cases "m div 256 = 0")
    case True
    then show ?thesis using 1 by (simp add: abs_bytes.simps [of m] abs_bytes.simps [of 0] le_simps)
  next
    case False
    then show ?thesis using 1 by (simp add: abs_bytes.simps [of m])
  qed
qed

lemma abs_bytes_length: "m < 256 ^ k \<Longrightarrow> length (abs_bytes m) \<le> k"
proof (induction k arbitrary: m)
  case 0
  then show ?case by (simp add: abs_bytes.simps)
next
  case (Suc k)
  then have "m div 256 < 256 ^ k" by (simp add: less_mult_imp_div_less mult.commute)
  from Suc.IH [OF this] show ?case by (simp add: abs_bytes.simps [of m])
qed

lemma le_nat_pos: "bs \<noteq> [] \<Longrightarrow> 0 < unat (last bs) \<Longrightarrow> 0 < le_nat bs"
  by (induction bs) (auto split: if_splits)

lemma abs_bytes_le_nat: "bs \<noteq> [] \<Longrightarrow> 0 < unat (last bs) \<Longrightarrow> abs_bytes (le_nat bs) = bs"
proof (induction bs)
  case (Cons b bs)
  have pos: "0 < le_nat (b # bs)" using Cons.prems by (rule le_nat_pos)
  have div: "le_nat (b # bs) div 256 = le_nat bs" using unat_u8_bound [of b] by simp
  have hd: "(word_of_nat (le_nat (b # bs)) :: u8) = b"
    using to_le_le_nat [of "b # bs"] by simp
  have "abs_bytes (le_nat bs) = bs"
    using Cons by (cases bs) (auto simp: abs_bytes.simps [of 0])
  with pos div hd show ?case by (simp only: abs_bytes.simps [of "le_nat (b # bs)"]) simp
qed simp

lemma sn_value_serialize: "sn_value (CScriptNum_serialize n) = n"
proof (cases "n = 0")
  case False
  let ?m = "nat \<bar>n\<bar>"
  obtain vs c where bs: "abs_bytes ?m = vs @ [c]" and c: "0 < unat c"
    using abs_bytes_last [of ?m] False by (cases "abs_bytes ?m" rule: rev_cases) auto
  have m: "le_nat vs + 256 ^ length vs * unat c = ?m"
    using le_nat_abs_bytes [of ?m] bs by (simp add: le_nat_append)
  show ?thesis
  proof (cases "128 \<le> unat c")
    case True
    then show ?thesis using False bs m
      by (simp add: sn_value_def CScriptNum_serialize_def Let_def u8_and_80 le_nat_append butlast_append)
  next
    case small: False
    have "int (le_nat vs + 256 ^ length vs * unat c) = \<bar>n\<bar>" using m by simp
    with small show ?thesis using False bs
      by (simp add: sn_value_def CScriptNum_serialize_def Let_def u8_and_80 u8_or_80
          del: of_nat_add of_nat_mult)
  qed
qed (simp add: sn_value_def CScriptNum_serialize_def)


lemma serialize_length: "\<bar>n\<bar> < 2 ^ 31 \<Longrightarrow> length (CScriptNum_serialize n) \<le> 4"
proof (cases "n = 0")
  case False
  assume n: "\<bar>n\<bar> < 2 ^ 31"
  let ?m = "nat \<bar>n\<bar>"
  obtain vs c where bs: "abs_bytes ?m = vs @ [c]" and c: "0 < unat c"
    using abs_bytes_last [of ?m] False by (cases "abs_bytes ?m" rule: rev_cases) auto
  have m: "le_nat vs + 256 ^ length vs * unat c = ?m"
    using le_nat_abs_bytes [of ?m] bs by (simp add: le_nat_append)
  have len: "length vs \<le> 3" using abs_bytes_length [of ?m 4] n bs by (simp add: nat_less_iff)
  show ?thesis
  proof (cases "128 \<le> unat c")
    case True
    have "length vs \<noteq> 3"
    proof
      assume "length vs = 3"
      with m True have "256 ^ 3 * 128 \<le> ?m" by (metis le_add2 mult_le_mono2 order_trans)
      with n show False by (simp add: le_nat_iff)
    qed
    with True False bs len show ?thesis by (simp add: CScriptNum_serialize_def Let_def u8_and_80)
  next
    case small: False
    with False bs len show ?thesis by (simp add: CScriptNum_serialize_def Let_def u8_and_80)
  qed
qed (simp add: CScriptNum_serialize_def)

definition minimal_num :: "bytes \<Rightarrow> bool" where
  "minimal_num v \<longleftrightarrow> v = [] \<or> 0 < unat (last v) mod 128 \<or>
     (2 \<le> length v \<and> 128 \<le> unat (last (butlast v)))"

lemma nth_penultimate: "2 \<le> length v \<Longrightarrow> v ! (length v - 2) = last (butlast v)"
  by (cases v rule: rev_cases) (auto simp: nth_append, metis One_nat_def last_conv_nth less_nat_zero_code list.size(3))

lemma CScriptNum_eq:
  "CScriptNum v m = (if length v \<le> 4 \<and> (m \<longrightarrow> minimal_num v) then Some (sn_value v) else None)"
proof -
  have z: "b AND 0x7f = (0::u8) \<longleftrightarrow> unat b mod 128 = 0" for b
    using u8_and_7f [of b] by (simp add: word_unat_eq_iff)
  show ?thesis
    by (auto simp: CScriptNum_def minimal_num_def z u8_and_80 nth_penultimate set_vch_sn_value)
qed

lemma serialize_minimal: "minimal_num (CScriptNum_serialize n)"
proof (cases "n = 0")
  case False
  let ?m = "nat \<bar>n\<bar>"
  obtain vs c where bs: "abs_bytes ?m = vs @ [c]" and c: "0 < unat c"
    using abs_bytes_last [of ?m] False by (cases "abs_bytes ?m" rule: rev_cases) auto
  show ?thesis
    using False bs c by (cases "128 \<le> unat c")
      (simp_all add: CScriptNum_serialize_def minimal_num_def Let_def u8_and_80 u8_or_80 butlast_append)
qed (simp add: CScriptNum_serialize_def minimal_num_def)

lemma serialize_sn_value: "minimal_num v \<Longrightarrow> CScriptNum_serialize (sn_value v) = v"
proof (cases v rule: rev_cases)
  case (snoc vs b)
  assume min: "minimal_num v"
  have b256: "unat b < 256" by (rule unat_u8_bound)
  show ?thesis
  proof (cases "unat b mod 128 = 0")
    case True
    with min snoc have vs: "vs \<noteq> []" "128 \<le> unat (last vs)"
      by (auto simp: minimal_num_def)
    then have pos: "0 < le_nat vs" and ab: "abs_bytes (le_nat vs) = vs"
      by (auto intro: le_nat_pos abs_bytes_le_nat)
    from True b256 have "unat b = 0 \<or> unat b = 128"
      by (cases "unat b < 128") (auto simp: le_mod_geq)
    then have "b = 0 \<or> b = 0x80" by (auto simp: word_unat_eq_iff)
    with vs pos ab snoc True show ?thesis
      by (auto simp: CScriptNum_serialize_def sn_value_def Let_def u8_and_80)
  next
    case False
    define b' where "b' = b AND 0x7f"
    have ub': "unat b' = unat b mod 128" by (simp add: b'_def u8_and_7f)
    have ab: "abs_bytes (le_nat (vs @ [b'])) = vs @ [b']"
      using False ub' by (intro abs_bytes_le_nat) auto
    have pos: "0 < le_nat (vs @ [b'])" using False ub' by (intro le_nat_pos) auto
    have or: "b' OR 0x80 = b" if "128 \<le> unat b"
    proof -
      have "unat (b' OR 0x80) = unat b mod 128 + 128" using ub' by (simp add: u8_or_80)
      also have "\<dots> = unat b" using that b256 by (simp add: le_mod_geq)
      finally show ?thesis by (simp add: word_unat_eq_iff)
    qed
    have eq: "b' = b" if "\<not> 128 \<le> unat b" using that ub' by (simp add: word_unat_eq_iff)
    show ?thesis
    proof (cases "128 \<le> unat b")
      case True
      then have "sn_value v = - int (le_nat (vs @ [b']))" by (simp add: sn_value_def snoc ub' le_nat_append)
      with True pos ab or ub' snoc show ?thesis
        by (simp add: CScriptNum_serialize_def Let_def u8_and_80)
    next
      case small: False
      then have "sn_value v = int (le_nat (vs @ [b']))" by (simp add: sn_value_def snoc ub' le_nat_append)
      with small pos ab eq ub' snoc show ?thesis
        by (simp add: CScriptNum_serialize_def Let_def u8_and_80)
    qed
  qed
qed (simp add: sn_value_def CScriptNum_serialize_def)

lemma sn_value_bound: "length v \<le> 4 \<Longrightarrow> \<bar>sn_value v\<bar> < 2 ^ 31"
proof (cases v rule: rev_cases)
  case (snoc vs b)
  assume "length v \<le> 4"
  then have l: "length vs \<le> 3" using snoc by simp
  have "le_nat vs + 256 ^ length vs * (unat b mod 128) < 256 ^ length vs * (unat b mod 128 + 1)"
    using le_nat_bound [of vs] by simp
  also have "\<dots> \<le> 256 ^ 3 * 128" using l by (intro mult_mono power_increasing) auto
  finally have "le_nat vs + 256 ^ length vs * (unat b mod 128) < 2 ^ 31" by simp
  then have "int (le_nat vs + 256 ^ length vs * (unat b mod 128)) < int (2 ^ 31)"
    by (simp only: of_nat_less_iff)
  then show ?thesis
    by (cases "128 \<le> unat b") (simp_all add: sn_value_def snoc del: of_nat_add of_nat_mult)
qed (simp add: sn_value_def)

section \<open>Decoding\<close>

lemma GetOp2_push_data:
  assumes "length b < 2 ^ 32"
  shows "\<exists>opcode \<le> OP_PUSHDATA4. GetOp2 (push_data [] b @ rest) = (True, rest, opcode, b)"
proof -
  have two: "le_nat (to_le 2 (length b)) = length b" if "length b \<le> 0xffff"
    using that by (simp add: le_nat_to_le)
  have four: "le_nat (to_le 4 (length b)) = length b"
    using assms by (simp add: le_nat_to_le)
  have one: "le_nat [word_of_nat (length b)] = length b" if "length b \<le> 0xff"
    using that by (simp add: le_simps)
  consider "length b < 76" | "76 \<le> length b" "length b \<le> 0xff" | "0xff < length b" "length b \<le> 0xffff"
    | "0xffff < length b" by linarith
  then show ?thesis
  proof cases
    case 1 then show ?thesis by (simp add: GetOp2_def push_data_def le_simps)
  next
    case 2 then show ?thesis using one by (simp add: GetOp2_def push_data_def le_simps)
  next
    case 3 then show ?thesis using two by (simp add: GetOp2_def push_data_def le_simps)
  next
    case 4 then show ?thesis using four by (simp add: GetOp2_def push_data_def le_simps)
  qed
qed

lemma find_and_delete_loop_length:
  "find_and_delete_loop b pc = (n, r) \<Longrightarrow> length r + n * length b = length pc"
proof (induction b pc arbitrary: n r rule: find_and_delete_loop.induct)
  case (1 b pc)
  obtain k pc1 where e: "erase_at b pc = (k, pc1)" by fastforce
  have l: "length pc1 + k * length b = length pc" using erase_at_shorter [OF e] .
  show ?case
  proof (cases pc1)
    case Nil
    with "1.prems" e l show ?thesis by (simp add: find_and_delete_loop.simps [of b pc])
  next
    case (Cons c cs)
    obtain ok pc2 opcode vch where g: "GetOp2 pc1 = (ok, pc2, opcode, vch)" by (metis surj_pair)
    have le: "length pc2 \<le> length cs" using g GetOp2_shorter [of c cs ok pc2 opcode vch] Cons by simp
    obtain m rest where rec: "find_and_delete_loop b pc2 = (m, rest)" by fastforce
    show ?thesis
    proof (cases ok)
      case True
      have ih: "length rest + m * length b = length pc2"
        using "1.IH" [OF e [symmetric] refl Cons g [symmetric] refl refl refl True rec]  .
      show ?thesis using "1.prems" e g rec True l le ih Cons
        by (auto simp: find_and_delete_loop.simps [of b pc] algebra_simps)
    next
      case False
      with "1.prems" e g l Cons show ?thesis by (auto simp: find_and_delete_loop.simps [of b pc])
    qed
  qed
qed

lemma sigop_loop_le: "sigop_loop True l1 pc \<le> sigop_loop False l2 pc"
proof (induction False l2 pc arbitrary: l1 rule: sigop_loop.induct)
  case (2 lo c cs)
  obtain ok pc opcode vch where g: "GetOp2 (c # cs) = (ok, pc, opcode, vch)" by (metis surj_pair)
  have ih: "ok \<Longrightarrow> sigop_loop True opcode pc \<le> sigop_loop False opcode pc"
    using 2 g by simp
  show ?case using g ih by (auto simp: DecodeOP_N_def add_mono)
qed simp

lemma sigop_loop_bound: "sigop_loop a lo pc \<le> 20 * length pc"
proof (induction a lo pc rule: sigop_loop.induct)
  case (2 a lo c cs)
  obtain ok pc opcode vch where g: "GetOp2 (c # cs) = (ok, pc, opcode, vch)" by (metis surj_pair)
  have le: "length pc \<le> length cs" using g by (rule GetOp2_shorter)
  have ih: "ok \<Longrightarrow> sigop_loop a opcode pc \<le> 20 * length pc"
    using 2 g by simp
  show ?case using g ih le by (auto simp: DecodeOP_N_def)
qed simp


lemma GetOp2_suffix: "GetOp2 pc = (ok, pc', opcode, d) \<Longrightarrow> suffix pc' pc"
  by (cases pc) (auto simp: GetOp2_def Let_def split: if_splits intro!: suffix_ConsI suffix_drop)

lemma find_and_delete_loop_none: "find_and_delete_loop b pc = (0, r) \<Longrightarrow> r = pc"
proof (induction b pc arbitrary: r rule: find_and_delete_loop.induct)
  case (1 b pc)
  obtain k pc1 where e: "erase_at b pc = (k, pc1)" by fastforce
  have e0: "k = 0 \<Longrightarrow> pc1 = pc"
    using e by (auto simp: erase_at.simps [of b pc] Let_def split: if_splits prod.splits)
  show ?case
  proof (cases pc1)
    case Nil
    with "1.prems" e e0 show ?thesis by (simp add: find_and_delete_loop.simps [of b pc])
  next
    case (Cons c cs)
    obtain ok pc2 opcode vch where g: "GetOp2 pc1 = (ok, pc2, opcode, vch)" by (metis surj_pair)
    obtain m rest where rec: "find_and_delete_loop b pc2 = (m, rest)" by fastforce
    show ?thesis
    proof (cases ok)
      case True
      have ih: "m = 0 \<Longrightarrow> rest = pc2"
        using "1.IH" [OF e [symmetric] refl Cons g [symmetric] refl refl refl True] rec by simp
      show ?thesis using "1.prems" e g rec True ih e0 Cons suffix_take_append [OF GetOp2_suffix [OF g]]
        by (auto simp: find_and_delete_loop.simps [of b pc])
    next
      case False
      with "1.prems" e g e0 Cons show ?thesis by (auto simp: find_and_delete_loop.simps [of b pc])
    qed
  qed
qed

section \<open>Properties\<close>

text \<open>Round trip: every number of the 4-byte operand range that \<open>getvch\<close> encodes is read
  back unchanged by the \<open>CScriptNum\<close> constructor, with or without the minimality check, so
  the encoder always produces minimal encodings of at most four bytes.\<close>

theorem scriptnum_roundtrip:
  "\<bar>n\<bar> < 2 ^ 31 \<Longrightarrow> CScriptNum (CScriptNum_serialize n) fRequireMinimal = Some n"
  by (simp add: CScriptNum_eq serialize_length serialize_minimal sn_value_serialize)

theorem scriptnum_roundtrip_witness:
  "CScriptNum (CScriptNum_serialize (- 255)) True = Some (- 255)"
  by (rule scriptnum_roundtrip) simp

text \<open>Canonicity: under \<open>fRequireMinimal\<close> a byte vector is accepted as a number only if it
  is exactly the vector the encoder produces for that number, so no two distinct stack
  elements are accepted as the same number.\<close>

theorem scriptnum_canonical:
  "CScriptNum vch True = Some n \<Longrightarrow> CScriptNum_serialize n = vch"
  by (auto simp: CScriptNum_eq serialize_sn_value split: if_splits)

theorem scriptnum_canonical_witness:
  "CScriptNum_serialize (- 255) = [0xff, 0x80]"
  by (rule scriptnum_canonical) (simp add: CScriptNum_eq minimal_num_def sn_value_def)

text \<open>Operands read from the stack lie strictly between \<open>-2^31\<close> and \<open>2^31\<close>, hence
  \<open>getint\<close> never clamps them, and sums, differences, increments and negations of operands
  fit in 33 bits: none of the 64-bit overflow assertions of \<open>CScriptNum\<close> can fire.\<close>

theorem scriptnum_operand_range:
  assumes "CScriptNum v fRequireMinimal = Some a" and "CScriptNum w fRequireMinimal = Some b"
  shows "\<bar>a\<bar> < 2 ^ 31 \<and> getint a = a \<and> \<bar>a + b\<bar> < 2 ^ 32 \<and> \<bar>a - b\<bar> < 2 ^ 32 \<and>
    \<bar>a + 1\<bar> \<le> 2 ^ 31 \<and> \<bar>a - 1\<bar> \<le> 2 ^ 31 \<and> \<bar>- a\<bar> < 2 ^ 31"
proof -
  have "\<bar>a\<bar> < 2 ^ 31" and "\<bar>b\<bar> < 2 ^ 31"
    using assms sn_value_bound [of v] sn_value_bound [of w] by (auto simp: CScriptNum_eq split: if_splits)
  then show ?thesis by (auto simp: getint_def)
qed

theorem scriptnum_operand_range_witness:
  "\<bar>127 + (- 255)\<bar> < (2 ^ 32 :: int)"
  using scriptnum_operand_range [of "[0x7f]" False 127 "[0xff, 0x80]" "- 255"]
  by (simp add: CScriptNum_eq minimal_num_def sn_value_def)

text \<open>Round trip of pushes: whatever data \<open>operator<<\<close> appends to a script, \<open>GetOp2\<close> reads
  back as one push instruction with exactly that data, and leaves the iterator right
  behind it.\<close>

theorem push_data_GetOp2:
  "length b < 2 ^ 32 \<Longrightarrow>
   \<exists>opcode \<le> OP_PUSHDATA4. GetOp2 (push_data [] b @ rest) = (True, rest, opcode, b)"
  by (rule GetOp2_push_data)

theorem push_data_GetOp2_witness:
  "\<exists>opcode \<le> OP_PUSHDATA4. GetOp2 (push_data [] (replicate 300 7) @ [0xac]) = (True, [0xac], opcode, replicate 300 7)"
  by (rule push_data_GetOp2) simp

text \<open>\<open>FindAndDelete\<close> removes whole occurrences only: the result is shorter by exactly the
  reported number of occurrences, and when it reports none the script is unchanged.\<close>

theorem FindAndDelete_accounting:
  assumes "FindAndDelete script b = (nFound, r)"
  shows "length r + nFound * length b = length script \<and> (nFound = 0 \<longrightarrow> r = script)"
  using assms find_and_delete_loop_length [of b script nFound r] find_and_delete_loop_none [of b script r]
  by (auto simp: FindAndDelete_def split: if_splits)

theorem FindAndDelete_accounting_witness:
  "length [0xac] + 1 * length [0x01, 0x07 :: u8] = length [0x01, 0x07, 0xac :: u8]"
proof -
  have "FindAndDelete [0x01, 0x07, 0xac] [0x01, 0x07] = (1, [0xac])"
    by (simp add: FindAndDelete_def find_and_delete_loop.simps erase_at.simps GetOp2_def)
  from FindAndDelete_accounting [OF this] show ?thesis by simp
qed

text \<open>The accurate signature-operation count never exceeds the legacy one, which never exceeds
  20 per script byte, so the block-wide legacy limit bounds the accurate count as well and
  the 32-bit counter cannot wrap on a script of the maximal size.\<close>

theorem GetSigOpCount_bounds:
  "GetSigOpCount script True \<le> GetSigOpCount script False \<and>
   GetSigOpCount script False \<le> 20 * length script"
  by (simp add: GetSigOpCount_def sigop_loop_le sigop_loop_bound)

text \<open>\<open>IsNormalPaymentScript\<close> recognises every pay-to-public-key-hash script, but its scan
  returns true as soon as the bytes run out: a 25-byte script that is \<open>OP_DUP OP_HASH160\<close>
  followed by a 22-byte push, with no \<open>OP_EQUALVERIFY OP_CHECKSIG\<close>, is accepted too.\<close>

theorem IsNormalPaymentScript_truncated:
  assumes "length h = 20" and "length d = 22"
  shows "IsNormalPaymentScript ([0x76, 0xa9, 20] @ h @ [0x88, 0xac]) \<and>
    IsNormalPaymentScript ([0x76, 0xa9, 22] @ d)"
  using assms by (simp add: IsNormalPaymentScript_def GetOp2_def)

theorem IsNormalPaymentScript_truncated_witness:
  "IsNormalPaymentScript ([0x76, 0xa9, 22] @ replicate 22 0)"
  using IsNormalPaymentScript_truncated [of "replicate 20 0" "replicate 22 0"] by simp

end
