(* ===== verification/SigEncoding.thy ===== *)
theory SigEncoding
  imports Script
begin

text \<open>
  The script error codes (\<open>src/script/script_error.h\<close>, \<open>script_error.cpp\<close>), the
  verification flags (\<open>src/script/interpreter.h\<close>), and the encoding checks on signatures
  and public keys at the top of \<open>src/script/interpreter.cpp\<close>, with the big-endian
  comparison of \<open>src/eccryptoverify.cpp\<close> they call.
\<close>

section \<open>Errors and flags\<close>

datatype ScriptError =
    SCRIPT_ERR_OK
  | SCRIPT_ERR_UNKNOWN_ERROR
  | SCRIPT_ERR_EVAL_FALSE
  | SCRIPT_ERR_OP_RETURN
  | SCRIPT_ERR_SCRIPT_SIZE
  | SCRIPT_ERR_PUSH_SIZE
  | SCRIPT_ERR_OP_COUNT
  | SCRIPT_ERR_STACK_SIZE
  | SCRIPT_ERR_SIG_COUNT
  | SCRIPT_ERR_PUBKEY_COUNT
  | SCRIPT_ERR_VERIFY
  | SCRIPT_ERR_EQUALVERIFY
  | SCRIPT_ERR_CHECKMULTISIGVERIFY
  | SCRIPT_ERR_CHECKSIGVERIFY
  | SCRIPT_ERR_NUMEQUALVERIFY
  | SCRIPT_ERR_BAD_OPCODE
  | SCRIPT_ERR_DISABLED_OPCODE
  | SCRIPT_ERR_INVALID_STACK_OPERATION
  | SCRIPT_ERR_INVALID_ALTSTACK_OPERATION
  | SCRIPT_ERR_UNBALANCED_CONDITIONAL
  | SCRIPT_ERR_SIG_HASHTYPE
  | SCRIPT_ERR_SIG_DER
  | SCRIPT_ERR_MINIMALDATA
  | SCRIPT_ERR_SIG_PUSHONLY
  | SCRIPT_ERR_SIG_HIGH_S
  | SCRIPT_ERR_SIG_NULLDUMMY
  | SCRIPT_ERR_PUBKEYTYPE
  | SCRIPT_ERR_DISCOURAGE_UPGRADABLE_NOPS
  | SCRIPT_ERR_ERROR_COUNT

abbreviation (input) SCRIPT_VERIFY_P2SH :: u32 where "SCRIPT_VERIFY_P2SH \<equiv> 1"
abbreviation (input) SCRIPT_VERIFY_STRICTENC :: u32 where "SCRIPT_VERIFY_STRICTENC \<equiv> 2"
abbreviation (input) SCRIPT_VERIFY_DERSIG :: u32 where "SCRIPT_VERIFY_DERSIG \<equiv> 4"
abbreviation (input) SCRIPT_VERIFY_LOW_S :: u32 where "SCRIPT_VERIFY_LOW_S \<equiv> 8"
abbreviation (input) SCRIPT_VERIFY_NULLDUMMY :: u32 where "SCRIPT_VERIFY_NULLDUMMY \<equiv> 16"
abbreviation (input) SCRIPT_VERIFY_SIGPUSHONLY :: u32 where "SCRIPT_VERIFY_SIGPUSHONLY \<equiv> 32"
abbreviation (input) SCRIPT_VERIFY_MINIMALDATA :: u32 where "SCRIPT_VERIFY_MINIMALDATA \<equiv> 64"
abbreviation (input) SCRIPT_VERIFY_DISCOURAGE_UPGRADABLE_NOPS :: u32 where
  "SCRIPT_VERIFY_DISCOURAGE_UPGRADABLE_NOPS \<equiv> 128"

definition has_flag :: "u32 \<Rightarrow> u32 \<Rightarrow> bool" where
  "has_flag flags f \<longleftrightarrow> flags AND f \<noteq> 0"

definition ScriptErrorString :: "ScriptError \<Rightarrow> string" where
  "ScriptErrorString serror =
     (case serror of
        SCRIPT_ERR_OK \<Rightarrow> ''No error''
      | SCRIPT_ERR_EVAL_FALSE \<Rightarrow> ''Script evaluated without error but finished with a false/empty top stack element''
      | SCRIPT_ERR_VERIFY \<Rightarrow> ''Script failed an OP_VERIFY operation''
      | SCRIPT_ERR_EQUALVERIFY \<Rightarrow> ''Script failed an OP_EQUALVERIFY operation''
      | SCRIPT_ERR_CHECKMULTISIGVERIFY \<Rightarrow> ''Script failed an OP_CHECKMULTISIGVERIFY operation''
      | SCRIPT_ERR_CHECKSIGVERIFY \<Rightarrow> ''Script failed an OP_CHECKSIGVERIFY operation''
      | SCRIPT_ERR_NUMEQUALVERIFY \<Rightarrow> ''Script failed an OP_NUMEQUALVERIFY operation''
      | SCRIPT_ERR_SCRIPT_SIZE \<Rightarrow> ''Script is too big''
      | SCRIPT_ERR_PUSH_SIZE \<Rightarrow> ''Push value size limit exceeded''
      | SCRIPT_ERR_OP_COUNT \<Rightarrow> ''Operation limit exceeded''
      | SCRIPT_ERR_STACK_SIZE \<Rightarrow> ''Stack size limit exceeded''
      | SCRIPT_ERR_SIG_COUNT \<Rightarrow> ''Signature count negative or greater than pubkey count''
      | SCRIPT_ERR_PUBKEY_COUNT \<Rightarrow> ''Pubkey count negative or limit exceeded''
      | SCRIPT_ERR_BAD_OPCODE \<Rightarrow> ''Opcode missing or not understood''
      | SCRIPT_ERR_DISABLED_OPCODE \<Rightarrow> ''Attempted to use a disabled opcode''
      | SCRIPT_ERR_INVALID_STACK_OPERATION \<Rightarrow> ''Operation not valid with the current stack size''
      | SCRIPT_ERR_INVALID_ALTSTACK_OPERATION \<Rightarrow> ''Operation not valid with the current altstack size''
      | SCRIPT_ERR_OP_RETURN \<Rightarrow> ''OP_RETURN was encountered''
      | SCRIPT_ERR_UNBALANCED_CONDITIONAL \<Rightarrow> ''Invalid OP_IF construction''
      | SCRIPT_ERR_SIG_HASHTYPE \<Rightarrow> ''Signature hash type missing or not understood''
      | SCRIPT_ERR_SIG_DER \<Rightarrow> ''Non-canonical DER signature''
      | SCRIPT_ERR_MINIMALDATA \<Rightarrow> ''Data push larger than necessary''
      | SCRIPT_ERR_SIG_PUSHONLY \<Rightarrow> ''Only non-push operators allowed in signatures''
      | SCRIPT_ERR_SIG_HIGH_S \<Rightarrow> ''Non-canonical signature: S value is unnecessarily high''
      | SCRIPT_ERR_SIG_NULLDUMMY \<Rightarrow> ''Dummy CHECKMULTISIG argument must be zero''
      | SCRIPT_ERR_DISCOURAGE_UPGRADABLE_NOPS \<Rightarrow> ''NOPx reserved for soft-fork upgrades''
      | SCRIPT_ERR_PUBKEYTYPE \<Rightarrow> ''Public key is neither compressed or uncompressed''
      | _ \<Rightarrow> ''unknown error'')"

section \<open>Big-endian comparison\<close>

text \<open>The first two loops drop the excess of the longer operand, the third compares bytes.\<close>

fun cbe_equal :: "bytes \<Rightarrow> bytes \<Rightarrow> int" where
  "cbe_equal (a # c1) (b # c2) = (if a > b then 1 else if b > a then -1 else cbe_equal c1 c2)"
| "cbe_equal _ _ = 0"

fun cbe_right :: "bytes \<Rightarrow> bytes \<Rightarrow> int" where
  "cbe_right c1 (b # c2) =
     (if length (b # c2) > length c1 then (if b \<noteq> 0 then -1 else cbe_right c1 c2)
      else cbe_equal c1 (b # c2))"
| "cbe_right c1 [] = cbe_equal c1 []"

fun CompareBigEndian :: "bytes \<Rightarrow> bytes \<Rightarrow> int" where
  "CompareBigEndian (a # c1) c2 =
     (if length (a # c1) > length c2 then (if a \<noteq> 0 then 1 else CompareBigEndian c1 c2)
      else cbe_right (a # c1) c2)"
| "CompareBigEndian [] c2 = cbe_right [] c2"

definition vchMaxModOrder :: bytes where
  "vchMaxModOrder =
   [0xFF, 0xFF, 0xFF, 0xFF, 0xFF, 0xFF, 0xFF, 0xFF,
    0xFF, 0xFF, 0xFF, 0xFF, 0xFF, 0xFF, 0xFF, 0xFE,
    0xBA, 0xAE, 0xDC, 0xE6, 0xAF, 0x48, 0xA0, 0x3B,
    0xBF, 0xD2, 0x5E, 0x8C, 0xD0, 0x36, 0x41, 0x40]"

definition vchMaxModHalfOrder :: bytes where
  "vchMaxModHalfOrder =
   [0x7F, 0xFF, 0xFF, 0xFF, 0xFF, 0xFF, 0xFF, 0xFF,
    0xFF, 0xFF, 0xFF, 0xFF, 0xFF, 0xFF, 0xFF, 0xFF,
    0x5D, 0x57, 0x6E, 0x73, 0x57, 0xA4, 0x50, 0x1D,
    0xDF, 0xE9, 0x2F, 0x46, 0x68, 0x1B, 0x20, 0xA0]"

definition eccrypto_Check :: "bytes \<Rightarrow> bool" where
  "eccrypto_Check vch \<longleftrightarrow>
     CompareBigEndian (take 32 vch) [] > 0 \<and> CompareBigEndian (take 32 vch) vchMaxModOrder \<le> 0"

definition CheckSignatureElement :: "bytes \<Rightarrow> nat \<Rightarrow> bool \<Rightarrow> bool" where
  "CheckSignatureElement vch len half \<longleftrightarrow>
     CompareBigEndian (take len vch) [] > 0 \<and>
     CompareBigEndian (take len vch) (if half then vchMaxModHalfOrder else vchMaxModOrder) \<le> 0"

section \<open>Encodings of signatures and public keys\<close>

definition IsCompressedOrUncompressedPubKey :: "valtype \<Rightarrow> bool" where
  "IsCompressedOrUncompressedPubKey vchPubKey =
     (if length vchPubKey < 33 then False
      else if vchPubKey ! 0 = 0x04 then length vchPubKey = 65
      else if vchPubKey ! 0 = 0x02 \<or> vchPubKey ! 0 = 0x03 then length vchPubKey = 33
      else False)"

definition IsValidSignatureEncoding :: "bytes \<Rightarrow> bool" where
  "IsValidSignatureEncoding sig =
     (if length sig < 9 then False
      else if length sig > 73 then False
      else if sig ! 0 \<noteq> 0x30 then False
      else if unat (sig ! 1) \<noteq> length sig - 3 then False
      else let lenR = unat (sig ! 3)
      in if 5 + lenR \<ge> length sig then False
      else let lenS = unat (sig ! (5 + lenR))
      in if lenR + lenS + 7 \<noteq> length sig then False
      else if sig ! 2 \<noteq> 0x02 then False
      else if lenR = 0 then False
      else if sig ! 4 AND 0x80 \<noteq> 0 then False
      else if lenR > 1 \<and> sig ! 4 = 0x00 \<and> \<not> (sig ! 5 AND 0x80 \<noteq> 0) then False
      else if sig ! (lenR + 4) \<noteq> 0x02 then False
      else if lenS = 0 then False
      else if sig ! (lenR + 6) AND 0x80 \<noteq> 0 then False
      else if lenS > 1 \<and> sig ! (lenR + 6) = 0x00 \<and> \<not> (sig ! (lenR + 7) AND 0x80 \<noteq> 0) then False
      else True)"

text \<open>The functions that set \<open>serror\<close> return the error, or success.\<close>

definition IsLowDERSignature :: "valtype \<Rightarrow> ScriptError + unit" where
  "IsLowDERSignature vchSig =
     (if \<not> IsValidSignatureEncoding vchSig then Inl SCRIPT_ERR_SIG_DER
      else let nLenR = unat (vchSig ! 3); nLenS = unat (vchSig ! (5 + nLenR))
           in if \<not> CheckSignatureElement (drop (6 + nLenR) vchSig) nLenS True then Inl SCRIPT_ERR_SIG_HIGH_S
              else Inr ())"

definition IsDefinedHashtypeSignature :: "valtype \<Rightarrow> bool" where
  "IsDefinedHashtypeSignature vchSig =
     (if length vchSig = 0 then False
      else let nHashType = unat (last vchSig AND NOT 0x80)
           in \<not> (nHashType < 1 \<or> nHashType > 3))"

definition CheckSignatureEncoding :: "valtype \<Rightarrow> u32 \<Rightarrow> ScriptError + unit" where
  "CheckSignatureEncoding vchSig flags =
     (if length vchSig = 0 then Inr ()
      else if has_flag flags (SCRIPT_VERIFY_DERSIG OR SCRIPT_VERIFY_LOW_S OR SCRIPT_VERIFY_STRICTENC) \<and>
              \<not> IsValidSignatureEncoding vchSig then Inl SCRIPT_ERR_SIG_DER
      else if has_flag flags SCRIPT_VERIFY_LOW_S \<and> IsLowDERSignature vchSig \<noteq> Inr ()
           then IsLowDERSignature vchSig
      else if has_flag flags SCRIPT_VERIFY_STRICTENC \<and> \<not> IsDefinedHashtypeSignature vchSig
           then Inl SCRIPT_ERR_SIG_HASHTYPE
      else Inr ())"

definition CheckPubKeyEncoding :: "valtype \<Rightarrow> u32 \<Rightarrow> ScriptError + unit" where
  "CheckPubKeyEncoding vchPubKey flags =
     (if has_flag flags SCRIPT_VERIFY_STRICTENC \<and> \<not> IsCompressedOrUncompressedPubKey vchPubKey
      then Inl SCRIPT_ERR_PUBKEYTYPE else Inr ())"

definition CheckMinimalPush :: "valtype \<Rightarrow> opcodetype \<Rightarrow> bool" where
  "CheckMinimalPush vch opcode =
     (if length vch = 0 then opcode = OP_0
      else if length vch = 1 \<and> vch ! 0 \<ge> 1 \<and> vch ! 0 \<le> 16 then opcode = OP_1 + (unat (vch ! 0) - 1)
      else if length vch = 1 \<and> vch ! 0 = 0x81 then opcode = OP_1NEGATE
      else if length vch \<le> 75 then opcode = length vch
      else if length vch \<le> 255 then opcode = OP_PUSHDATA1
      else if length vch \<le> 65535 then opcode = OP_PUSHDATA2
      else True)"

definition CastToBool :: "valtype \<Rightarrow> bool" where
  "CastToBool vch \<longleftrightarrow>
     (case dropWhile (\<lambda>b. b = 0) vch of
        [] \<Rightarrow> False
      | b # rest \<Rightarrow> \<not> (rest = [] \<and> b = 0x80))"

section \<open>Comparison, grammar, flags\<close>

definition be_nat :: "bytes \<Rightarrow> nat" where
  "be_nat bs = le_nat (rev bs)"

lemma be_nat_Cons: "be_nat (b # bs) = unat b * 256 ^ length bs + be_nat bs"
  by (simp add: be_nat_def le_nat_append algebra_simps)

lemma be_nat_zero [simp]: "be_nat (0 # bs) = be_nat bs"
  by (simp add: be_nat_Cons)

lemma be_nat_Nil [simp]: "be_nat [] = 0"
  by (simp add: be_nat_def)

lemma be_nat_bound: "be_nat bs < 256 ^ length bs"
  using le_nat_bound [of "rev bs"] by (simp add: be_nat_def)

lemma be_nat_less_Cons:
  assumes "length c1 = length c2" "(a :: u8) < b"
  shows "be_nat (a # c1) < be_nat (b # c2)"
proof -
  have "be_nat (a # c1) < (unat a + 1) * 256 ^ length c1"
    using be_nat_bound [of c1] by (simp add: be_nat_Cons)
  also have "\<dots> \<le> unat b * 256 ^ length c1"
    using assms(2) by (intro mult_right_mono) (simp_all add: word_less_nat_alt)
  finally show ?thesis using assms(1) by (simp add: be_nat_Cons)
qed

lemma cbe_equal_sgn:
  "length c1 = length c2 \<Longrightarrow> cbe_equal c1 c2 = sgn (int (be_nat c1) - int (be_nat c2))"
proof (induction c1 c2 rule: cbe_equal.induct)
  case (1 a c1 b c2)
  then have l: "length c1 = length c2" by simp
  consider "a > b" | "b > a" | "a = b" by (metis linorder_neqE)
  then show ?case
  proof cases
    case 1
    with be_nat_less_Cons [OF l [symmetric] 1] show ?thesis by (simp add: sgn_if)
  next
    case 2
    with be_nat_less_Cons [OF l 2] show ?thesis by (simp add: sgn_if)
  next
    case 3
    with 1 show ?thesis by (simp add: be_nat_Cons)
  qed
qed simp_all

lemma be_nat_lead: "length bs \<ge> length c \<Longrightarrow> b \<noteq> 0 \<Longrightarrow> be_nat c < be_nat (b # bs)"
proof -
  assume l: "length bs \<ge> length c" and b: "b \<noteq> 0"
  have "0 < unat b" using b by (simp add: unat_gt_0)
  have "be_nat c < 256 ^ length c" by (rule be_nat_bound)
  also have "\<dots> \<le> 256 ^ length bs" using l by (simp add: power_increasing)
  also have "\<dots> \<le> unat b * 256 ^ length bs" using \<open>0 < unat b\<close> by simp
  finally show ?thesis by (simp add: be_nat_Cons)
qed

lemma cbe_right_sgn:
  "length c1 \<le> length c2 \<Longrightarrow> cbe_right c1 c2 = sgn (int (be_nat c1) - int (be_nat c2))"
proof (induction c1 c2 rule: cbe_right.induct)
  case (1 c1 b c2)
  show ?case
  proof (cases "length (b # c2) > length c1")
    case True
    with 1 be_nat_lead [of c1 c2 b] show ?thesis
      by (cases "b = 0") (auto simp: sgn_if)
  next
    case False
    with "1.prems" show ?thesis using cbe_equal_sgn [of c1 "b # c2"] by simp
  qed
qed (simp add: cbe_equal_sgn)

lemma CompareBigEndian_sgn:
  "CompareBigEndian c1 c2 = sgn (int (be_nat c1) - int (be_nat c2))"
proof (induction c1 c2 rule: CompareBigEndian.induct)
  case (1 a c1 c2)
  show ?case
  proof (cases "length (a # c1) > length c2")
    case True
    with 1 be_nat_lead [of c2 c1 a] show ?thesis
      by (cases "a = 0") (auto simp: sgn_if)
  next
    case False
    then show ?thesis using cbe_right_sgn [of "a # c1" c2] by simp
  qed
qed (simp add: cbe_right_sgn)

definition der_int :: "bytes \<Rightarrow> bool" where
  "der_int r \<longleftrightarrow> r \<noteq> [] \<and> unat (r ! 0) < 128 \<and> (length r > 1 \<and> r ! 0 = 0 \<longrightarrow> 128 \<le> unat (r ! 1))"

definition der_signature :: "bytes \<Rightarrow> bytes \<Rightarrow> u8 \<Rightarrow> bytes" where
  "der_signature r s ht =
     [0x30, word_of_nat (length r + length s + 4), 0x02, word_of_nat (length r)] @ r @
     [0x02, word_of_nat (length s)] @ s @ [ht]"

lemma sig_layout:
  assumes "length sig = lenR + lenS + 7"
  shows "sig = [sig ! 0, sig ! 1, sig ! 2, sig ! 3] @ take lenR (drop 4 sig) @
    [sig ! (lenR + 4), sig ! (5 + lenR)] @ take lenS (drop (lenR + 6) sig) @ [sig ! (lenR + lenS + 6)]"
proof -
  have step: "i < length sig \<Longrightarrow> drop i sig = sig ! i # drop (Suc i) sig" for i
    by (rule Cons_nth_drop_Suc [symmetric])
  have a: "sig = sig ! 0 # sig ! 1 # sig ! 2 # sig ! 3 # drop 4 sig"
    using step [of 0] step [of 1] step [of 2] step [of 3] assms by (simp add: numeral_eq_Suc)
  have b: "drop 4 sig = take lenR (drop 4 sig) @ drop (lenR + 4) sig"
    by (metis append_take_drop_id drop_drop)
  have c: "drop (lenR + 4) sig = sig ! (lenR + 4) # sig ! (5 + lenR) # drop (lenR + 6) sig"
    using step [of "lenR + 4"] step [of "lenR + 5"] assms by (simp add: add.commute)
  have d: "drop (lenR + 6) sig = take lenS (drop (lenR + 6) sig) @ drop (lenR + lenS + 6) sig"
    by (metis add.commute add.left_commute append_take_drop_id drop_drop)
  have e: "drop (lenR + lenS + 6) sig = [sig ! (lenR + lenS + 6)]"
    using step [of "lenR + lenS + 6"] assms by simp
  show ?thesis using a b c d e by (metis append.simps(1,2))
qed

lemma IsValidSignatureEncoding_sound:
  assumes "IsValidSignatureEncoding sig"
  shows "\<exists>r s ht. sig = der_signature r s ht \<and> der_int r \<and> der_int s \<and> length sig \<le> 73"
proof -
  define lenR lenS where "lenR = unat (sig ! 3)" and "lenS = unat (sig ! (5 + lenR))"
  have f: "length sig \<le> 73" "sig ! 0 = 0x30" "unat (sig ! 1) = length sig - 3" "length sig = lenR + lenS + 7"
    "sig ! 2 = 0x02" "lenR \<noteq> 0" "unat (sig ! 4) < 128" "lenR > 1 \<Longrightarrow> sig ! 4 = 0 \<Longrightarrow> 128 \<le> unat (sig ! 5)"
    "sig ! (lenR + 4) = 0x02" "lenS \<noteq> 0" "unat (sig ! (lenR + 6)) < 128"
    "lenS > 1 \<Longrightarrow> sig ! (lenR + 6) = 0 \<Longrightarrow> 128 \<le> unat (sig ! (lenR + 7))"
    using assms
    by (auto simp: IsValidSignatureEncoding_def Let_def lenR_def lenS_def u8_and_80 split: if_splits)
  let ?r = "take lenR (drop 4 sig)" and ?s = "take lenS (drop (lenR + 6) sig)"
  have l: "length ?r = lenR" "length ?s = lenS" using f(4) by auto
  have w: "sig ! 1 = word_of_nat (lenR + lenS + 4)" "sig ! 3 = word_of_nat lenR"
    "sig ! (5 + lenR) = word_of_nat lenS"
  proof -
    have "unat (sig ! 1) = lenR + lenS + 4" using f(3,4) by simp
    then show "sig ! 1 = word_of_nat (lenR + lenS + 4)"
      using f(1,4) by (simp add: word_unat_eq_iff unat_u8_of_nat del: of_nat_add)
  qed (simp_all add: lenR_def lenS_def)
  have "sig = der_signature ?r ?s (sig ! (lenR + lenS + 6))"
    unfolding der_signature_def l by (rule sig_layout [OF f(4), unfolded f(2,5,9) w])
  moreover have "der_int ?r" using f l by (auto simp: der_int_def)
  moreover have "der_int ?s" using f l by (auto simp: der_int_def add.commute)
  ultimately show ?thesis using f(1) by blast
qed

lemma IsValidSignatureEncoding_complete:
  assumes "der_int r" "der_int s" "length (der_signature r s ht) \<le> 73"
  shows "IsValidSignatureEncoding (der_signature r s ht)"
proof -
  have l: "length r + length s \<le> 66" using assms(3) by (simp add: der_signature_def)
  then have u: "unat (word_of_nat (length r + length s + 4) :: u8) = length r + length s + 4"
    "unat (word_of_nat (length r) :: u8) = length r" "unat (word_of_nat (length s) :: u8) = length s"
    by (simp_all add: unat_u8_of_nat del: of_nat_add)
  have "2 \<le> length r + length s" using assms(1,2) by (cases r; cases s) (auto simp: der_int_def)
  then show ?thesis
    using assms(1,2) l u
    by (auto simp: IsValidSignatureEncoding_def der_signature_def Let_def nth_append u8_and_80 der_int_def)
qed


lemma has_flag_mono: "f AND f' = f \<Longrightarrow> has_flag f b \<Longrightarrow> has_flag f' b"
proof -
  assume sub: "f AND f' = f" and b: "has_flag f b"
  have "f AND b = f AND (f' AND b)" using sub by (metis and.assoc)
  with b show ?thesis by (auto simp: has_flag_def)
qed

lemma CheckSignatureEncoding_mono:
  "f AND f' = f \<Longrightarrow> CheckSignatureEncoding s f' = Inr () \<Longrightarrow> CheckSignatureEncoding s f = Inr ()"
  by (auto simp: CheckSignatureEncoding_def dest: has_flag_mono split: if_splits)

lemma CheckPubKeyEncoding_mono:
  "f AND f' = f \<Longrightarrow> CheckPubKeyEncoding k f' = Inr () \<Longrightarrow> CheckPubKeyEncoding k f = Inr ()"
  by (auto simp: CheckPubKeyEncoding_def dest: has_flag_mono split: if_splits)

lemma CastToBool_bytes:
  "CastToBool v \<longleftrightarrow> (\<exists>b \<in> set (butlast v). b \<noteq> 0) \<or> (v \<noteq> [] \<and> last v \<noteq> 0 \<and> last v \<noteq> 0x80)"
proof (induction v)
  case (Cons a v)
  show ?case
  proof (cases "a = 0")
    case True
    then have "CastToBool (a # v) = CastToBool v" by (simp add: CastToBool_def)
    with Cons True show ?thesis by (cases v) auto
  qed (auto simp: CastToBool_def)
qed (simp add: CastToBool_def)

lemma le_nat_zero_iff: "le_nat bs = 0 \<longleftrightarrow> (\<forall>b \<in> set bs. b = 0)"
  by (induction bs) (auto simp: unat_eq_zero)

lemma CastToBool_sn_value: "CastToBool v \<longleftrightarrow> sn_value v \<noteq> 0"
proof (cases v rule: rev_cases)
  case (snoc vs b)
  have "unat b mod 128 = 0 \<longleftrightarrow> b = 0 \<or> b = 0x80"
  proof -
    have "unat b mod 128 = 0 \<longleftrightarrow> unat b = 0 \<or> unat b = 128"
      using unat_u8_bound [of b] by (cases "unat b < 128") (auto simp: le_mod_geq)
    then show ?thesis by (auto simp: word_unat_eq_iff)
  qed
  then show ?thesis
    by (auto simp: snoc CastToBool_bytes sn_value_def le_nat_zero_iff simp del: of_nat_add of_nat_mult)
qed (simp add: CastToBool_def sn_value_def)

lemma CastToBool_serialize: "CastToBool (CScriptNum_serialize n) \<longleftrightarrow> n \<noteq> 0"
  by (simp add: CastToBool_sn_value sn_value_serialize)

section \<open>Properties\<close>

text \<open>C30. \<open>IsValidSignatureEncoding\<close> accepts exactly the strict DER signatures: the byte string is
  \<open>0x30 len 0x02 lenR R 0x02 lenS S hashtype\<close> with consistent lengths, where \<open>R\<close> and \<open>S\<close> are
  non-empty, non-negative and without superfluous leading zero, and it has at most 73 bytes. Zero, the single byte \<open>0\<close>, is
  accepted for \<open>R\<close> and \<open>S\<close>, although the comments in the code speak of positive integers without null bytes at the start.
  No index of the check is out of range on the way.\<close>

theorem signature_encoding_grammar:
  "IsValidSignatureEncoding sig \<longleftrightarrow>
   (\<exists>r s ht. sig = der_signature r s ht \<and> der_int r \<and> der_int s \<and> length sig \<le> 73)"
  using IsValidSignatureEncoding_sound IsValidSignatureEncoding_complete by blast

text \<open>The signature in which both numbers are zero passes.\<close>

theorem zero_signature_accepted: "IsValidSignatureEncoding [0x30, 6, 2, 1, 0, 2, 1, 0, 1]"
proof -
  have "[0x30, 6, 2, 1, 0, 2, 1, 0, 1] = der_signature [0] [0] 1" by (simp add: der_signature_def)
  moreover have "der_int [0]" "length (der_signature [0] [0] 1) \<le> 73" by (simp_all add: der_int_def der_signature_def)
  ultimately show ?thesis using IsValidSignatureEncoding_complete by metis
qed

text \<open>\<open>CompareBigEndian\<close> compares the numbers its operands denote, whatever their lengths, and
  \<open>CheckSignatureElement\<close> with \<open>half\<close> accepts exactly the values from 1 to half the group order.\<close>

theorem CompareBigEndian_correct:
  "CompareBigEndian c1 c2 = sgn (int (be_nat c1) - int (be_nat c2)) \<and>
   (CheckSignatureElement vch len half \<longleftrightarrow>
      0 < be_nat (take len vch) \<and>
      be_nat (take len vch) \<le> be_nat (if half then vchMaxModHalfOrder else vchMaxModOrder))"
  by (auto simp: CompareBigEndian_sgn CheckSignatureElement_def sgn_if)

end
