(* ===== verification/Hashing.thy ===== *)
theory Hashing
  imports Prelude
begin

text \<open>
  The hash functions of \<open>src/crypto\<close> (\<open>CSHA1\<close>, \<open>CSHA256\<close>, \<open>CSHA512\<close>, \<open>CRIPEMD160\<close>,
  the two HMAC classes) and of \<open>src/hash.h\<close>, \<open>src/hash.cpp\<close>. The four hasher classes share
  one buffering scheme, \<open>Write\<close>, which is modelled once and instantiated with each
  \<open>Transform\<close>; the locale \<open>md_hasher\<close> proves that it absorbs the padded message block by
  block, however the message is cut into calls, and every class interprets it.

  The code writes its compression rounds out with rotating variable names and a window
  of sixteen message words \<open>w0\<close> to \<open>w15\<close> overwritten in place; the model rotates the
  registers and shifts the window, one list element per source line.
\<close>

section \<open>Byte order\<close>

definition to_be :: "nat \<Rightarrow> nat \<Rightarrow> bytes" where
  "to_be k n = rev (to_le k n)"

definition ReadBE32 :: "bytes \<Rightarrow> u32" where
  "ReadBE32 p = word_of_nat (le_nat (rev (take 4 p)))"

definition ReadBE64 :: "bytes \<Rightarrow> u64" where
  "ReadBE64 p = word_of_nat (le_nat (rev (take 8 p)))"

definition ReadLE32 :: "bytes \<Rightarrow> u32" where
  "ReadLE32 p = word_of_nat (le_nat (take 4 p))"

definition WriteBE32 :: "u32 \<Rightarrow> bytes" where
  "WriteBE32 x = to_be 4 (unat x)"

definition WriteLE32 :: "u32 \<Rightarrow> bytes" where
  "WriteLE32 x = to_le 4 (unat x)"

definition WriteBE64 :: "u64 \<Rightarrow> bytes" where
  "WriteBE64 x = to_be 8 (unat x)"

definition WriteLE64 :: "u64 \<Rightarrow> bytes" where
  "WriteLE64 x = to_le 8 (unat x)"

text \<open>The sixteen words of a block of \<open>w\<close>-byte words.\<close>

definition block_words :: "nat \<Rightarrow> (bytes \<Rightarrow> 'w) \<Rightarrow> bytes \<Rightarrow> 'w list" where
  "block_words w rd chunk = map (\<lambda>i. rd (drop (w * i) chunk)) [0..<16]"

section \<open>The shared buffering scheme\<close>

text \<open>
  The members of a hasher: chaining state \<open>s\<close>, block buffer \<open>buf\<close> and byte count \<open>bytes\<close>.
  The count is a natural number; the code's 64-bit counter wraps, but only
  \<open>bytes % blocksize\<close> and \<open>bytes << 3\<close> truncated to 64 bits are ever read from it.
\<close>

record 's hasher =
  h_s :: 's
  h_buf :: bytes
  h_bytes :: nat

definition memcpy_at :: "bytes \<Rightarrow> nat \<Rightarrow> bytes \<Rightarrow> bytes" where
  "memcpy_at buf off d = take off buf @ d @ drop (off + length d) buf"

function write_chunks :: "nat \<Rightarrow> ('s \<Rightarrow> bytes \<Rightarrow> 's) \<Rightarrow> 's \<Rightarrow> nat \<Rightarrow> bytes \<Rightarrow> 's \<times> nat \<times> bytes" where
  "write_chunks B Transform s n d =
     (if 0 < B \<and> B \<le> length d
      then write_chunks B Transform (Transform s (take B d)) (n + B) (drop B d)
      else (s, n, d))"
  by pat_completeness auto
termination
  by (relation "measure (\<lambda>(B, T, s, n, d). length d)") auto

declare write_chunks.simps [simp del]

definition hasher_Write :: "nat \<Rightarrow> ('s \<Rightarrow> bytes \<Rightarrow> 's) \<Rightarrow> 's hasher \<Rightarrow> bytes \<Rightarrow> 's hasher" where
  "hasher_Write B Transform h d =
     (let bufsize = h_bytes h mod B;
          (h1, d1, bufsize1) =
            (if bufsize \<noteq> 0 \<and> bufsize + length d \<ge> B
             then let b = memcpy_at (h_buf h) bufsize (take (B - bufsize) d)
                  in (h\<lparr>h_buf := b, h_bytes := h_bytes h + (B - bufsize), h_s := Transform (h_s h) b\<rparr>,
                      drop (B - bufsize) d, 0)
             else (h, d, bufsize));
          (s2, n2, d2) = write_chunks B Transform (h_s h1) (h_bytes h1) d1;
          h2 = h1\<lparr>h_s := s2, h_bytes := n2\<rparr>
      in if d2 \<noteq> []
         then h2\<lparr>h_buf := memcpy_at (h_buf h2) bufsize1 d2, h_bytes := h_bytes h2 + length d2\<rparr>
         else h2)"

definition pad_bytes :: "nat \<Rightarrow> bytes" where
  "pad_bytes B = 0x80 # replicate (B - 1) 0"

section \<open>SHA-256\<close>

definition sha256_Ch :: "u32 \<Rightarrow> u32 \<Rightarrow> u32 \<Rightarrow> u32" where
  "sha256_Ch x y z = z XOR (x AND (y XOR z))"

definition sha256_Maj :: "u32 \<Rightarrow> u32 \<Rightarrow> u32 \<Rightarrow> u32" where
  "sha256_Maj x y z = (x AND y) OR (z AND (x OR y))"

definition sha256_Sigma0 :: "u32 \<Rightarrow> u32" where
  "sha256_Sigma0 x = (drop_bit 2 x OR push_bit 30 x) XOR (drop_bit 13 x OR push_bit 19 x) XOR (drop_bit 22 x OR push_bit 10 x)"

definition sha256_Sigma1 :: "u32 \<Rightarrow> u32" where
  "sha256_Sigma1 x = (drop_bit 6 x OR push_bit 26 x) XOR (drop_bit 11 x OR push_bit 21 x) XOR (drop_bit 25 x OR push_bit 7 x)"

definition sha256_sigma0 :: "u32 \<Rightarrow> u32" where
  "sha256_sigma0 x = (drop_bit 7 x OR push_bit 25 x) XOR (drop_bit 18 x OR push_bit 14 x) XOR drop_bit 3 x"

definition sha256_sigma1 :: "u32 \<Rightarrow> u32" where
  "sha256_sigma1 x = (drop_bit 17 x OR push_bit 15 x) XOR (drop_bit 19 x OR push_bit 13 x) XOR drop_bit 10 x"

fun sha256_Round :: "u32 \<times> u32 \<Rightarrow> u32 list \<Rightarrow> u32 list" where
  "sha256_Round (k, w) [a, b, c, d, e, f, g, h] =
     (let t1 = h + sha256_Sigma1 e + sha256_Ch e f g + k + w;
          t2 = sha256_Sigma0 a + sha256_Maj a b c
      in [t1 + t2, a, b, c, d + t1, e, f, g])"
| "sha256_Round _ regs = regs"

definition sha256_Initialize :: "u32 list" where
  "sha256_Initialize =
   [0x6a09e667, 0xbb67ae85, 0x3c6ef372, 0xa54ff53a, 0x510e527f, 0x9b05688c, 0x1f83d9ab, 0x5be0cd19]"

text \<open>The constants in the order of the unrolled \<open>Round\<close> calls, eight calls per row.\<close>

definition sha256_k :: "u32 list" where
  "sha256_k = concat
   [[0x428a2f98, 0x71374491, 0xb5c0fbcf, 0xe9b5dba5, 0x3956c25b, 0x59f111f1, 0x923f82a4, 0xab1c5ed5],
    [0xd807aa98, 0x12835b01, 0x243185be, 0x550c7dc3, 0x72be5d74, 0x80deb1fe, 0x9bdc06a7, 0xc19bf174],
    [0xe49b69c1, 0xefbe4786, 0x0fc19dc6, 0x240ca1cc, 0x2de92c6f, 0x4a7484aa, 0x5cb0a9dc, 0x76f988da],
    [0x983e5152, 0xa831c66d, 0xb00327c8, 0xbf597fc7, 0xc6e00bf3, 0xd5a79147, 0x06ca6351, 0x14292967],
    [0x27b70a85, 0x2e1b2138, 0x4d2c6dfc, 0x53380d13, 0x650a7354, 0x766a0abb, 0x81c2c92e, 0x92722c85],
    [0xa2bfe8a1, 0xa81a664b, 0xc24b8b70, 0xc76c51a3, 0xd192e819, 0xd6990624, 0xf40e3585, 0x106aa070],
    [0x19a4c116, 0x1e376c08, 0x2748774c, 0x34b0bcb5, 0x391c0cb3, 0x4ed8aa4a, 0x5b9cca4f, 0x682e6ff3],
    [0x748f82ee, 0x78a5636f, 0x84c87814, 0x8cc70208, 0x90befffa, 0xa4506ceb, 0xbef9a3f7, 0xc67178f2]]"

fun sha256_expand :: "nat \<Rightarrow> u32 list \<Rightarrow> u32 list" where
  "sha256_expand 0 w = []"
| "sha256_expand (Suc n) w =
     (let x = w ! 0 + sha256_sigma1 (w ! 14) + w ! 9 + sha256_sigma0 (w ! 1)
      in x # sha256_expand n (tl w @ [x]))"

definition sha256_Transform :: "u32 list \<Rightarrow> bytes \<Rightarrow> u32 list" where
  "sha256_Transform s chunk =
     (let w = block_words 4 ReadBE32 chunk
      in map2 (+) s (fold sha256_Round (zip sha256_k (w @ sha256_expand 48 w)) s))"

definition CSHA256_init :: "u32 list hasher" where
  "CSHA256_init = \<lparr>h_s = sha256_Initialize, h_buf = replicate 64 0, h_bytes = 0\<rparr>"

definition CSHA256_Write :: "u32 list hasher \<Rightarrow> bytes \<Rightarrow> u32 list hasher" where
  "CSHA256_Write = hasher_Write 64 sha256_Transform"

definition CSHA256_Finalize :: "u32 list hasher \<Rightarrow> bytes" where
  "CSHA256_Finalize h =
     (let sizedesc = WriteBE64 (word_of_nat (8 * h_bytes h));
          h1 = CSHA256_Write h (take (1 + (119 - h_bytes h mod 64) mod 64) (pad_bytes 64));
          h2 = CSHA256_Write h1 sizedesc
      in concat (map WriteBE32 (h_s h2)))"

definition CSHA256_Reset :: "u32 list hasher \<Rightarrow> u32 list hasher" where
  "CSHA256_Reset h = h\<lparr>h_bytes := 0, h_s := sha256_Initialize\<rparr>"

section \<open>SHA-1\<close>

definition sha1_f1 :: "u32 \<Rightarrow> u32 \<Rightarrow> u32 \<Rightarrow> u32" where
  "sha1_f1 b c d = d XOR (b AND (c XOR d))"

definition sha1_f2 :: "u32 \<Rightarrow> u32 \<Rightarrow> u32 \<Rightarrow> u32" where
  "sha1_f2 b c d = b XOR c XOR d"

definition sha1_f3 :: "u32 \<Rightarrow> u32 \<Rightarrow> u32 \<Rightarrow> u32" where
  "sha1_f3 b c d = (b AND c) OR (d AND (b OR c))"

definition sha1_left :: "u32 \<Rightarrow> u32" where
  "sha1_left x = push_bit 1 x OR drop_bit 31 x"

definition sha1_Initialize :: "u32 list" where
  "sha1_Initialize = [0x67452301, 0xEFCDAB89, 0x98BADCFE, 0x10325476, 0xC3D2E1F0]"

fun sha1_Round :: "((u32 \<Rightarrow> u32 \<Rightarrow> u32 \<Rightarrow> u32) \<times> u32) \<times> u32 \<Rightarrow> u32 list \<Rightarrow> u32 list" where
  "sha1_Round ((f, k), w) [a, b, c, d, e] =
     [e + ((push_bit 5 a OR drop_bit 27 a) + f b c d + k + w), a, push_bit 30 b OR drop_bit 2 b, c, d]"
| "sha1_Round _ regs = regs"

text \<open>Twenty rounds each with \<open>f1, k1\<close>, \<open>f2, k2\<close>, \<open>f3, k3\<close> and \<open>f2, k4\<close>.\<close>

definition sha1_fk :: "((u32 \<Rightarrow> u32 \<Rightarrow> u32 \<Rightarrow> u32) \<times> u32) list" where
  "sha1_fk = replicate 20 (sha1_f1, 0x5A827999) @ replicate 20 (sha1_f2, 0x6ED9EBA1) @
     replicate 20 (sha1_f3, 0x8F1BBCDC) @ replicate 20 (sha1_f2, 0xCA62C1D6)"

fun sha1_expand :: "nat \<Rightarrow> u32 list \<Rightarrow> u32 list" where
  "sha1_expand 0 w = []"
| "sha1_expand (Suc n) w =
     (let x = sha1_left (w ! 0 XOR w ! 13 XOR w ! 8 XOR w ! 2) in x # sha1_expand n (tl w @ [x]))"

definition sha1_Transform :: "u32 list \<Rightarrow> bytes \<Rightarrow> u32 list" where
  "sha1_Transform s chunk =
     (let w = block_words 4 ReadBE32 chunk
      in map2 (+) s (fold sha1_Round (zip sha1_fk (w @ sha1_expand 64 w)) s))"

definition CSHA1_init :: "u32 list hasher" where
  "CSHA1_init = \<lparr>h_s = sha1_Initialize, h_buf = replicate 64 0, h_bytes = 0\<rparr>"

definition CSHA1_Write :: "u32 list hasher \<Rightarrow> bytes \<Rightarrow> u32 list hasher" where
  "CSHA1_Write = hasher_Write 64 sha1_Transform"

definition CSHA1_Finalize :: "u32 list hasher \<Rightarrow> bytes" where
  "CSHA1_Finalize h =
     (let sizedesc = WriteBE64 (word_of_nat (8 * h_bytes h));
          h1 = CSHA1_Write h (take (1 + (119 - h_bytes h mod 64) mod 64) (pad_bytes 64));
          h2 = CSHA1_Write h1 sizedesc
      in concat (map WriteBE32 (h_s h2)))"

section \<open>RIPEMD-160\<close>

definition ripemd160_f1 :: "u32 \<Rightarrow> u32 \<Rightarrow> u32 \<Rightarrow> u32" where
  "ripemd160_f1 x y z = x XOR y XOR z"

definition ripemd160_f2 :: "u32 \<Rightarrow> u32 \<Rightarrow> u32 \<Rightarrow> u32" where
  "ripemd160_f2 x y z = (x AND y) OR (NOT x AND z)"

definition ripemd160_f3 :: "u32 \<Rightarrow> u32 \<Rightarrow> u32 \<Rightarrow> u32" where
  "ripemd160_f3 x y z = (x OR NOT y) XOR z"

definition ripemd160_f4 :: "u32 \<Rightarrow> u32 \<Rightarrow> u32 \<Rightarrow> u32" where
  "ripemd160_f4 x y z = (x AND z) OR (y AND NOT z)"

definition ripemd160_f5 :: "u32 \<Rightarrow> u32 \<Rightarrow> u32 \<Rightarrow> u32" where
  "ripemd160_f5 x y z = x XOR (y OR NOT z)"

definition ripemd160_rol :: "u32 \<Rightarrow> nat \<Rightarrow> u32" where
  "ripemd160_rol x i = push_bit i x OR drop_bit (32 - i) x"

definition ripemd160_Initialize :: "u32 list" where
  "ripemd160_Initialize = [0x67452301, 0xEFCDAB89, 0x98BADCFE, 0x10325476, 0xC3D2E1F0]"

text \<open>\<open>Round\<close>, given the step function and constant of its group, the word index and the rotation.\<close>

fun ripemd160_Round ::
  "u32 list \<Rightarrow> ((u32 \<Rightarrow> u32 \<Rightarrow> u32 \<Rightarrow> u32) \<times> u32) \<times> nat \<times> nat \<Rightarrow> u32 list \<Rightarrow> u32 list" where
  "ripemd160_Round ws ((f, k), x, r) [a, b, c, d, e] =
     [e, ripemd160_rol (a + f b c d + ws ! x + k) r + e, b, ripemd160_rol c 10, d]"
| "ripemd160_Round ws _ regs = regs"

text \<open>\<open>R11\<close> to \<open>R51\<close> (left line) and \<open>R12\<close> to \<open>R52\<close> (right line), sixteen steps of each.\<close>

definition ripemd160_left_fk :: "((u32 \<Rightarrow> u32 \<Rightarrow> u32 \<Rightarrow> u32) \<times> u32) list" where
  "ripemd160_left_fk =
     replicate 16 (ripemd160_f1, 0) @ replicate 16 (ripemd160_f2, 0x5A827999) @
     replicate 16 (ripemd160_f3, 0x6ED9EBA1) @ replicate 16 (ripemd160_f4, 0x8F1BBCDC) @
     replicate 16 (ripemd160_f5, 0xA953FD4E)"

definition ripemd160_right_fk :: "((u32 \<Rightarrow> u32 \<Rightarrow> u32 \<Rightarrow> u32) \<times> u32) list" where
  "ripemd160_right_fk =
     replicate 16 (ripemd160_f5, 0x50A28BE6) @ replicate 16 (ripemd160_f4, 0x5C4DD124) @
     replicate 16 (ripemd160_f3, 0x6D703EF3) @ replicate 16 (ripemd160_f2, 0x7A6D76E9) @
     replicate 16 (ripemd160_f1, 0)"

text \<open>Word index and rotation of every step, in the order of the source lines.\<close>

definition ripemd160_left_xr :: "(nat \<times> nat) list" where
  "ripemd160_left_xr =
   [(0, 11), (1, 14), (2, 15), (3, 12), (4, 5), (5, 8), (6, 7), (7, 9),
    (8, 11), (9, 13), (10, 14), (11, 15), (12, 6), (13, 7), (14, 9), (15, 8),
    (7, 7), (4, 6), (13, 8), (1, 13), (10, 11), (6, 9), (15, 7), (3, 15),
    (12, 7), (0, 12), (9, 15), (5, 9), (2, 11), (14, 7), (11, 13), (8, 12),
    (3, 11), (10, 13), (14, 6), (4, 7), (9, 14), (15, 9), (8, 13), (1, 15),
    (2, 14), (7, 8), (0, 13), (6, 6), (13, 5), (11, 12), (5, 7), (12, 5),
    (1, 11), (9, 12), (11, 14), (10, 15), (0, 14), (8, 15), (12, 9), (4, 8),
    (13, 9), (3, 14), (7, 5), (15, 6), (14, 8), (5, 6), (6, 5), (2, 12),
    (4, 9), (0, 15), (5, 5), (9, 11), (7, 6), (12, 8), (2, 13), (10, 12),
    (14, 5), (1, 12), (3, 13), (8, 14), (11, 11), (6, 8), (15, 5), (13, 6)]"

definition ripemd160_right_xr :: "(nat \<times> nat) list" where
  "ripemd160_right_xr =
   [(5, 8), (14, 9), (7, 9), (0, 11), (9, 13), (2, 15), (11, 15), (4, 5),
    (13, 7), (6, 7), (15, 8), (8, 11), (1, 14), (10, 14), (3, 12), (12, 6),
    (6, 9), (11, 13), (3, 15), (7, 7), (0, 12), (13, 8), (5, 9), (10, 11),
    (14, 7), (15, 7), (8, 12), (12, 7), (4, 6), (9, 15), (1, 13), (2, 11),
    (15, 9), (5, 7), (1, 15), (3, 11), (7, 8), (14, 6), (6, 6), (9, 14),
    (11, 12), (8, 13), (12, 5), (2, 14), (10, 13), (0, 13), (4, 7), (13, 5),
    (8, 15), (6, 5), (4, 8), (1, 11), (3, 14), (11, 14), (15, 6), (0, 14),
    (5, 6), (12, 9), (2, 12), (13, 9), (9, 12), (7, 5), (10, 15), (14, 8),
    (12, 8), (15, 5), (10, 12), (4, 9), (1, 12), (5, 5), (8, 14), (7, 6),
    (6, 8), (2, 13), (13, 6), (14, 5), (0, 15), (3, 13), (9, 11), (11, 11)]"

definition ripemd160_Transform :: "u32 list \<Rightarrow> bytes \<Rightarrow> u32 list" where
  "ripemd160_Transform s chunk =
     (let w = block_words 4 ReadLE32 chunk;
          l = fold (ripemd160_Round w) (zip ripemd160_left_fk ripemd160_left_xr) s;
          r = fold (ripemd160_Round w) (zip ripemd160_right_fk ripemd160_right_xr) s
      in [s ! 1 + l ! 2 + r ! 3, s ! 2 + l ! 3 + r ! 4, s ! 3 + l ! 4 + r ! 0,
          s ! 4 + l ! 0 + r ! 1, s ! 0 + l ! 1 + r ! 2])"

definition CRIPEMD160_init :: "u32 list hasher" where
  "CRIPEMD160_init = \<lparr>h_s = ripemd160_Initialize, h_buf = replicate 64 0, h_bytes = 0\<rparr>"

definition CRIPEMD160_Write :: "u32 list hasher \<Rightarrow> bytes \<Rightarrow> u32 list hasher" where
  "CRIPEMD160_Write = hasher_Write 64 ripemd160_Transform"

definition CRIPEMD160_Finalize :: "u32 list hasher \<Rightarrow> bytes" where
  "CRIPEMD160_Finalize h =
     (let sizedesc = WriteLE64 (word_of_nat (8 * h_bytes h));
          h1 = CRIPEMD160_Write h (take (1 + (119 - h_bytes h mod 64) mod 64) (pad_bytes 64));
          h2 = CRIPEMD160_Write h1 sizedesc
      in concat (map WriteLE32 (h_s h2)))"

section \<open>SHA-512\<close>

definition sha512_Ch :: "u64 \<Rightarrow> u64 \<Rightarrow> u64 \<Rightarrow> u64" where
  "sha512_Ch x y z = z XOR (x AND (y XOR z))"

definition sha512_Maj :: "u64 \<Rightarrow> u64 \<Rightarrow> u64 \<Rightarrow> u64" where
  "sha512_Maj x y z = (x AND y) OR (z AND (x OR y))"

definition sha512_Sigma0 :: "u64 \<Rightarrow> u64" where
  "sha512_Sigma0 x = (drop_bit 28 x OR push_bit 36 x) XOR (drop_bit 34 x OR push_bit 30 x) XOR (drop_bit 39 x OR push_bit 25 x)"

definition sha512_Sigma1 :: "u64 \<Rightarrow> u64" where
  "sha512_Sigma1 x = (drop_bit 14 x OR push_bit 50 x) XOR (drop_bit 18 x OR push_bit 46 x) XOR (drop_bit 41 x OR push_bit 23 x)"

definition sha512_sigma0 :: "u64 \<Rightarrow> u64" where
  "sha512_sigma0 x = (drop_bit 1 x OR push_bit 63 x) XOR (drop_bit 8 x OR push_bit 56 x) XOR drop_bit 7 x"

definition sha512_sigma1 :: "u64 \<Rightarrow> u64" where
  "sha512_sigma1 x = (drop_bit 19 x OR push_bit 45 x) XOR (drop_bit 61 x OR push_bit 3 x) XOR drop_bit 6 x"

fun sha512_Round :: "u64 \<times> u64 \<Rightarrow> u64 list \<Rightarrow> u64 list" where
  "sha512_Round (k, w) [a, b, c, d, e, f, g, h] =
     (let t1 = h + sha512_Sigma1 e + sha512_Ch e f g + k + w;
          t2 = sha512_Sigma0 a + sha512_Maj a b c
      in [t1 + t2, a, b, c, d + t1, e, f, g])"
| "sha512_Round _ regs = regs"

definition sha512_Initialize :: "u64 list" where
  "sha512_Initialize =
   [0x6a09e667f3bcc908, 0xbb67ae8584caa73b, 0x3c6ef372fe94f82b, 0xa54ff53a5f1d36f1,
    0x510e527fade682d1, 0x9b05688c2b3e6c1f, 0x1f83d9abfb41bd6b, 0x5be0cd19137e2179]"

definition sha512_k :: "u64 list" where
  "sha512_k = concat
   [[0x428a2f98d728ae22, 0x7137449123ef65cd, 0xb5c0fbcfec4d3b2f, 0xe9b5dba58189dbbc],
    [0x3956c25bf348b538, 0x59f111f1b605d019, 0x923f82a4af194f9b, 0xab1c5ed5da6d8118],
    [0xd807aa98a3030242, 0x12835b0145706fbe, 0x243185be4ee4b28c, 0x550c7dc3d5ffb4e2],
    [0x72be5d74f27b896f, 0x80deb1fe3b1696b1, 0x9bdc06a725c71235, 0xc19bf174cf692694],
    [0xe49b69c19ef14ad2, 0xefbe4786384f25e3, 0x0fc19dc68b8cd5b5, 0x240ca1cc77ac9c65],
    [0x2de92c6f592b0275, 0x4a7484aa6ea6e483, 0x5cb0a9dcbd41fbd4, 0x76f988da831153b5],
    [0x983e5152ee66dfab, 0xa831c66d2db43210, 0xb00327c898fb213f, 0xbf597fc7beef0ee4],
    [0xc6e00bf33da88fc2, 0xd5a79147930aa725, 0x06ca6351e003826f, 0x142929670a0e6e70],
    [0x27b70a8546d22ffc, 0x2e1b21385c26c926, 0x4d2c6dfc5ac42aed, 0x53380d139d95b3df],
    [0x650a73548baf63de, 0x766a0abb3c77b2a8, 0x81c2c92e47edaee6, 0x92722c851482353b],
    [0xa2bfe8a14cf10364, 0xa81a664bbc423001, 0xc24b8b70d0f89791, 0xc76c51a30654be30],
    [0xd192e819d6ef5218, 0xd69906245565a910, 0xf40e35855771202a, 0x106aa07032bbd1b8],
    [0x19a4c116b8d2d0c8, 0x1e376c085141ab53, 0x2748774cdf8eeb99, 0x34b0bcb5e19b48a8],
    [0x391c0cb3c5c95a63, 0x4ed8aa4ae3418acb, 0x5b9cca4f7763e373, 0x682e6ff3d6b2b8a3],
    [0x748f82ee5defb2fc, 0x78a5636f43172f60, 0x84c87814a1f0ab72, 0x8cc702081a6439ec],
    [0x90befffa23631e28, 0xa4506cebde82bde9, 0xbef9a3f7b2c67915, 0xc67178f2e372532b],
    [0xca273eceea26619c, 0xd186b8c721c0c207, 0xeada7dd6cde0eb1e, 0xf57d4f7fee6ed178],
    [0x06f067aa72176fba, 0x0a637dc5a2c898a6, 0x113f9804bef90dae, 0x1b710b35131c471b],
    [0x28db77f523047d84, 0x32caab7b40c72493, 0x3c9ebe0a15c9bebc, 0x431d67c49c100d4c],
    [0x4cc5d4becb3e42b6, 0x597f299cfc657e2a, 0x5fcb6fab3ad6faec, 0x6c44198c4a475817]]"

fun sha512_expand :: "nat \<Rightarrow> u64 list \<Rightarrow> u64 list" where
  "sha512_expand 0 w = []"
| "sha512_expand (Suc n) w =
     (let x = w ! 0 + sha512_sigma1 (w ! 14) + w ! 9 + sha512_sigma0 (w ! 1)
      in x # sha512_expand n (tl w @ [x]))"

definition sha512_Transform :: "u64 list \<Rightarrow> bytes \<Rightarrow> u64 list" where
  "sha512_Transform s chunk =
     (let w = block_words 8 ReadBE64 chunk
      in map2 (+) s (fold sha512_Round (zip sha512_k (w @ sha512_expand 64 w)) s))"

definition CSHA512_init :: "u64 list hasher" where
  "CSHA512_init = \<lparr>h_s = sha512_Initialize, h_buf = replicate 128 0, h_bytes = 0\<rparr>"

definition CSHA512_Write :: "u64 list hasher \<Rightarrow> bytes \<Rightarrow> u64 list hasher" where
  "CSHA512_Write = hasher_Write 128 sha512_Transform"

definition CSHA512_Finalize :: "u64 list hasher \<Rightarrow> bytes" where
  "CSHA512_Finalize h =
     (let sizedesc = replicate 8 0 @ WriteBE64 (word_of_nat (8 * h_bytes h));
          h1 = CSHA512_Write h (take (1 + (239 - h_bytes h mod 128) mod 128) (pad_bytes 128));
          h2 = CSHA512_Write h1 sizedesc
      in concat (map WriteBE64 (h_s h2)))"

section \<open>HMAC and the hashers of hash.h\<close>

definition CHMAC_SHA256_rkey :: "bytes \<Rightarrow> bytes" where
  "CHMAC_SHA256_rkey key =
     (if length key \<le> 64 then key @ replicate (64 - length key) 0
      else CSHA256_Finalize (CSHA256_Write CSHA256_init key) @ replicate 32 0)"

definition CHMAC_SHA256_init :: "bytes \<Rightarrow> u32 list hasher \<times> u32 list hasher" where
  "CHMAC_SHA256_init key =
     (let rkey = map (\<lambda>b. b XOR 0x5c) (CHMAC_SHA256_rkey key);
          outer = CSHA256_Write CSHA256_init rkey;
          rkey2 = map (\<lambda>b. b XOR (0x5c XOR 0x36)) rkey;
          inner = CSHA256_Write CSHA256_init rkey2
      in (outer, inner))"

definition CHMAC_SHA256_Write :: "u32 list hasher \<times> u32 list hasher \<Rightarrow> bytes \<Rightarrow> u32 list hasher \<times> u32 list hasher" where
  "CHMAC_SHA256_Write c d = (fst c, CSHA256_Write (snd c) d)"

definition CHMAC_SHA256_Finalize :: "u32 list hasher \<times> u32 list hasher \<Rightarrow> bytes" where
  "CHMAC_SHA256_Finalize c = CSHA256_Finalize (CSHA256_Write (fst c) (CSHA256_Finalize (snd c)))"

definition CHMAC_SHA512_rkey :: "bytes \<Rightarrow> bytes" where
  "CHMAC_SHA512_rkey key =
     (if length key \<le> 128 then key @ replicate (128 - length key) 0
      else CSHA512_Finalize (CSHA512_Write CSHA512_init key) @ replicate 64 0)"

definition CHMAC_SHA512_init :: "bytes \<Rightarrow> u64 list hasher \<times> u64 list hasher" where
  "CHMAC_SHA512_init key =
     (let rkey = map (\<lambda>b. b XOR 0x5c) (CHMAC_SHA512_rkey key);
          outer = CSHA512_Write CSHA512_init rkey;
          rkey2 = map (\<lambda>b. b XOR (0x5c XOR 0x36)) rkey;
          inner = CSHA512_Write CSHA512_init rkey2
      in (outer, inner))"

definition CHMAC_SHA512_Write :: "u64 list hasher \<times> u64 list hasher \<Rightarrow> bytes \<Rightarrow> u64 list hasher \<times> u64 list hasher" where
  "CHMAC_SHA512_Write c d = (fst c, CSHA512_Write (snd c) d)"

definition CHMAC_SHA512_Finalize :: "u64 list hasher \<times> u64 list hasher \<Rightarrow> bytes" where
  "CHMAC_SHA512_Finalize c = CSHA512_Finalize (CSHA512_Write (fst c) (CSHA512_Finalize (snd c)))"

text \<open>
  \<open>CHash256\<close> and \<open>CHash160\<close> keep one \<open>CSHA256\<close>. In \<open>CHash256::Finalize\<close> the first
  \<open>Finalize\<close> leaves the member with a used buffer, then \<open>Reset\<close> clears count and state.
\<close>

definition CSHA256_after_Finalize :: "u32 list hasher \<Rightarrow> u32 list hasher" where
  "CSHA256_after_Finalize h =
     CSHA256_Write (CSHA256_Write h (take (1 + (119 - h_bytes h mod 64) mod 64) (pad_bytes 64)))
       (WriteBE64 (word_of_nat (8 * h_bytes h)))"

definition CHash256_Finalize :: "u32 list hasher \<Rightarrow> bytes" where
  "CHash256_Finalize sha =
     CSHA256_Finalize (CSHA256_Write (CSHA256_Reset (CSHA256_after_Finalize sha)) (CSHA256_Finalize sha))"

definition CHash160_Finalize :: "u32 list hasher \<Rightarrow> bytes" where
  "CHash160_Finalize sha = CRIPEMD160_Finalize (CRIPEMD160_Write CRIPEMD160_init (CSHA256_Finalize sha))"

text \<open>\<open>Hash(pbegin, pend)\<close> and its variants for several ranges; \<open>Hash160\<close>.\<close>

definition Hash_ranges :: "bytes list \<Rightarrow> bytes" where
  "Hash_ranges rs = CHash256_Finalize (foldl CSHA256_Write CSHA256_init rs)"

definition Hash :: "bytes \<Rightarrow> bytes" where
  "Hash d = CHash256_Finalize (CSHA256_Write CSHA256_init d)"

definition Hash160 :: "bytes \<Rightarrow> bytes" where
  "Hash160 d = CHash160_Finalize (CSHA256_Write CSHA256_init d)"

definition BIP32Hash :: "bytes \<Rightarrow> u32 \<Rightarrow> u8 \<Rightarrow> bytes \<Rightarrow> bytes" where
  "BIP32Hash chainCode nChild header d =
     CHMAC_SHA512_Finalize (CHMAC_SHA512_Write (CHMAC_SHA512_Write
       (CHMAC_SHA512_Write (CHMAC_SHA512_init chainCode) [header]) d) (to_be 4 (unat nChild)))"

section \<open>Streaming equals block-wise absorption\<close>

text \<open>The specification: a message is absorbed one complete block after the other.\<close>

function absorb :: "nat \<Rightarrow> ('s \<Rightarrow> bytes \<Rightarrow> 's) \<Rightarrow> 's \<Rightarrow> bytes \<Rightarrow> 's" where
  "absorb B T s m = (if 0 < B \<and> B \<le> length m then absorb B T (T s (take B m)) (drop B m) else s)"
  by pat_completeness auto
termination
  by (relation "measure (\<lambda>(B, T, s, m). length m)") auto

declare absorb.simps [simp del]

lemma absorb_short: "length m < B \<Longrightarrow> absorb B T s m = s"
  by (simp add: absorb.simps)

lemma absorb_Nil [simp]: "absorb B T s [] = s"
  by (subst absorb.simps) auto

lemma absorb_zero [simp]: "absorb 0 T s m = s"
  by (subst absorb.simps) simp

lemma absorb_append: "B dvd length m \<Longrightarrow> absorb B T s (m @ m') = absorb B T (absorb B T s m) m'"
proof (induction B T s m rule: absorb.induct)
  case (1 B T s m)
  show ?case
  proof (cases "0 < B \<and> B \<le> length m")
    case True
    with 1 show ?thesis by (simp add: absorb.simps [of B T s "m @ m'"] absorb.simps [of B T s m])
  next
    case False
    with "1.prems" have "m = [] \<or> B = 0" by (auto dest: dvd_imp_le)
    then show ?thesis by auto
  qed
qed

lemma write_chunks_eq:
  "0 < B \<Longrightarrow> write_chunks B T s n d =
     (absorb B T s d, n + B * (length d div B), drop (B * (length d div B)) d)"
proof (induction B T s n d rule: write_chunks.induct)
  case (1 B T s n d)
  show ?case
  proof (cases "B \<le> length d")
    case True
    have "length d div B = Suc ((length d - B) div B)" using True "1.prems" by (simp add: le_div_geq)
    with True 1 show ?thesis
      by (simp add: write_chunks.simps [of B T s n d] absorb.simps [of B T s d] add.commute)
  next
    case False
    with "1.prems" show ?thesis by (simp add: write_chunks.simps absorb.simps)
  qed
qed

text \<open>
  The interface of a hasher: a block size, a compression function, a start state and a
  length descriptor that fills the last block together with the padding.
\<close>

locale md_hasher =
  fixes B :: nat and T :: "'s \<Rightarrow> bytes \<Rightarrow> 's" and iv :: 's
    and padlen :: "nat \<Rightarrow> nat" and desc :: "nat \<Rightarrow> bytes"
  assumes B_pos: "0 < B"
    and pad_fits: "B dvd n + padlen n + length (desc n)"
begin

text \<open>\<open>rep h m\<close>: the hasher \<open>h\<close> has taken in exactly the bytes \<open>m\<close>.\<close>

definition rep :: "'s hasher \<Rightarrow> bytes \<Rightarrow> bool" where
  "rep h m \<longleftrightarrow> length (h_buf h) = B \<and> h_bytes h = length m \<and> h_s h = absorb B T iv m \<and>
     take (length m mod B) (h_buf h) = drop (B * (length m div B)) m"

lemma rep_init: "length b = B \<Longrightarrow> rep \<lparr>h_s = iv, h_buf = b, h_bytes = 0\<rparr> []"
  by (simp add: rep_def)

lemma absorb_split: "absorb B T s m = absorb B T s (take (B * (length m div B)) m)"
proof -
  let ?k = "B * (length m div B)"
  have le: "?k \<le> length m" by (simp add: mult.commute)
  have "absorb B T s (take ?k m @ drop ?k m) = absorb B T (absorb B T s (take ?k m)) (drop ?k m)"
    using le by (intro absorb_append) simp
  moreover have "length (drop ?k m) < B"
    using B_pos by (simp add: minus_mult_div_eq_mod)
  ultimately show ?thesis by (simp add: absorb_short)
qed

lemma rep_same_bytes [simp]: "rep h m \<Longrightarrow> rep (h\<lparr>h_bytes := length m\<rparr>) m"
  by (simp add: rep_def)

lemma rep_bytes: "rep h m \<Longrightarrow> h_bytes h = length m"
  by (simp add: rep_def)

lemma absorb_rest:
  "absorb B T s (m @ d) = absorb B T (absorb B T s m) (drop (B * (length m div B)) m @ d)"
proof -
  let ?k = "B * (length m div B)"
  have "?k \<le> length m" by (simp add: mult.commute)
  then have "absorb B T s (take ?k m @ drop ?k m @ d) = absorb B T (absorb B T s (take ?k m)) (drop ?k m @ d)"
    by (intro absorb_append) simp
  moreover have "take ?k m @ drop ?k m @ d = m @ d" by (metis append_assoc append_take_drop_id)
  ultimately show ?thesis by (simp only: absorb_split [of s m])
qed

text \<open>Writing when the buffer is empty: whole blocks, then the rest into the buffer.\<close>

lemma rep_aligned:
  assumes rep: "rep h m" and al: "B dvd length m"
    and w: "write_chunks B T (h_s h) (h_bytes h) d = (s2, n2, d2)"
  shows "rep (if d2 \<noteq> [] then h\<lparr>h_s := s2, h_buf := memcpy_at (h_buf h) 0 d2, h_bytes := n2 + length d2\<rparr>
              else h\<lparr>h_s := s2, h_bytes := n2\<rparr>) (m @ d)"
proof -
  let ?k = "B * (length d div B)"
  have s2: "s2 = absorb B T (h_s h) d" and n2: "n2 = length m + ?k" and d2: "d2 = drop ?k d"
    using w B_pos rep by (auto simp: write_chunks_eq rep_def)
  have lk: "?k \<le> length d" by (simp add: mult.commute)
  have ld2: "length d2 = length d mod B" by (simp add: d2 minus_mult_div_eq_mod)
  have lt: "length d2 < B" using B_pos by (simp add: ld2)
  have n: "n2 + length d2 = length (m @ d)" using lk by (simp add: n2 d2)
  have st: "s2 = absorb B T iv (m @ d)" using rep al by (simp add: s2 rep_def absorb_append)
  have md: "(length m + length d) mod B = length d2"
      "(length m + length d) div B = length m div B + length d div B"
    using al by (auto simp: ld2 mod_add_left_eq [symmetric] div_plus_div_distrib_dvd_left)
  have "B * (length m div B) = length m" using al by simp
  then have dr: "drop (B * (length (m @ d) div B)) (m @ d) = d2"
    by (simp add: md distrib_left d2)
  show ?thesis
    using rep n st md dr lt by (auto simp: rep_def memcpy_at_def)
qed

lemma rep_fill:
  assumes rep: "rep h m" and d: "length m mod B + length d = B"
  shows "rep (h\<lparr>h_buf := memcpy_at (h_buf h) (length m mod B) d, h_bytes := length m + length d,
               h_s := T (h_s h) (memcpy_at (h_buf h) (length m mod B) d)\<rparr>) (m @ d)"
proof -
  let ?r = "length m mod B" and ?m1 = "drop (B * (length m div B)) m"
  have l1: "length ?m1 = ?r" by (simp add: minus_mult_div_eq_mod)
  have b: "memcpy_at (h_buf h) ?r d = ?m1 @ d"
    using rep d by (simp add: memcpy_at_def rep_def)
  have "length (m @ d) = B * (length m div B + 1)"
    using d by (metis add.assoc distrib_left length_append mult.right_neutral mult_div_mod_eq)
  moreover from this have "absorb B T iv (m @ d) = T (absorb B T iv m) (?m1 @ d)"
    using d B_pos l1 absorb_rest [of iv m d] absorb.simps [of B T "absorb B T iv m" "?m1 @ d"] by simp
  ultimately show ?thesis
    using rep d b l1 B_pos by (simp add: rep_def)
qed

lemma rep_small:
  assumes rep: "rep h m" and d: "length m mod B + length d < B"
  shows "rep (h\<lparr>h_buf := memcpy_at (h_buf h) (length m mod B) d, h_bytes := length m + length d\<rparr>) (m @ d)"
proof -
  let ?r = "length m mod B" and ?m1 = "drop (B * (length m div B)) m"
  have l1: "length ?m1 = ?r" by (simp add: minus_mult_div_eq_mod)
  have e: "length m + length d = B * (length m div B) + (?r + length d)"
    by (metis add.assoc mult_div_mod_eq)
  have md: "(length m + length d) mod B = ?r + length d" "(length m + length d) div B = length m div B"
    using d B_pos by (simp_all only: e mod_mult_self4 mod_less div_mult_self4 div_less)
  have "absorb B T iv (m @ d) = absorb B T iv m"
    using absorb_rest [of iv m d] l1 d by (simp add: absorb_short)
  then show ?thesis using rep d md l1 by (simp add: rep_def memcpy_at_def mult.commute)
qed

lemma rep_Write:
  assumes rep: "rep h m"
  shows "rep (hasher_Write B T h d) (m @ d)"
proof -
  let ?r = "length m mod B"
  have n: "h_bytes h = length m" using rep by (rule rep_bytes)
  consider (al) "?r = 0" | (fill) "?r \<noteq> 0" "B \<le> ?r + length d" | (small) "?r \<noteq> 0" "?r + length d < B"
    by linarith
  then show ?thesis
  proof cases
    case al
    obtain s2 n2 d2 where w: "write_chunks B T (h_s h) (h_bytes h) d = (s2, n2, d2)" by (metis surj_pair)
    have "B dvd length m" using al by (simp add: dvd_eq_mod_eq_0)
    from rep_aligned [OF rep this w] w al n show ?thesis
      by (simp add: hasher_Write_def Let_def split: if_splits)
  next
    case fill
    let ?a = "take (B - ?r) d" and ?d1 = "drop (B - ?r) d"
    let ?b = "memcpy_at (h_buf h) ?r ?a"
    let ?h1 = "h\<lparr>h_buf := ?b, h_bytes := length m + (B - ?r), h_s := T (h_s h) ?b\<rparr>"
    have la: "length ?a = B - ?r" and r: "?r + length ?a = B" using fill B_pos by auto
    have rep1: "rep ?h1 (m @ ?a)" using rep_fill [OF rep r] by (simp only: la)
    obtain s2 n2 d2 where w: "write_chunks B T (h_s ?h1) (h_bytes ?h1) ?d1 = (s2, n2, d2)"
      by (metis surj_pair)
    have "B dvd length (m @ ?a)"
      using r by (metis dvd_triv_left distrib_left length_append mult.right_neutral mult_div_mod_eq add.assoc)
    from rep_aligned [OF rep1 this w] w n fill show ?thesis
      by (simp add: hasher_Write_def Let_def split: if_splits)
  next
    case small
    have "write_chunks B T (h_s h) (length m) d = (h_s h, length m, d)"
      using small by (simp add: write_chunks.simps)
    with small rep_small [OF rep small(2)] n rep show ?thesis
      by (auto simp: hasher_Write_def Let_def)
  qed
qed

lemma rep_Writes: "rep h m \<Longrightarrow> rep (foldl (hasher_Write B T) h ds) (m @ concat ds)"
proof (induction ds arbitrary: h m)
  case (Cons d ds)
  from Cons.IH [OF rep_Write [OF Cons.prems]] show ?case by simp
qed simp

text \<open>Finalising: padding and length descriptor complete the last block.\<close>

definition final_state :: "'s hasher \<Rightarrow> bytes \<Rightarrow> 's" where
  "final_state h pad =
     h_s (hasher_Write B T (hasher_Write B T h (take (padlen (h_bytes h)) pad)) (desc (h_bytes h)))"

definition padded :: "bytes \<Rightarrow> bytes \<Rightarrow> bytes" where
  "padded pad m = m @ take (padlen (length m)) pad @ desc (length m)"

lemma final_state_absorb:
  assumes "rep h m"
  shows "final_state h pad = absorb B T iv (padded pad m)"
proof -
  have "rep (hasher_Write B T (hasher_Write B T h (take (padlen (length m)) pad)) (desc (length m)))
          ((m @ take (padlen (length m)) pad) @ desc (length m))"
    by (intro rep_Write assms)
  then show ?thesis using rep_bytes [OF assms]
    by (simp add: final_state_def padded_def rep_def)
qed

lemma padded_whole_blocks: "padlen (length m) \<le> length pad \<Longrightarrow> B dvd length (padded pad m)"
  using pad_fits [of "length m"] by (simp add: padded_def min_absorb2 add.assoc)

theorem streaming:
  assumes "length b = B"
  shows "final_state (foldl (hasher_Write B T) \<lparr>h_s = iv, h_buf = b, h_bytes = 0\<rparr> ds) pad =
    absorb B T iv (padded pad (concat ds))"
  using final_state_absorb [OF rep_Writes [OF rep_init [OF assms]]] by simp

end


text \<open>Parameters of the four classes: length of the padding and length descriptor.\<close>

definition md_padlen :: "nat \<Rightarrow> nat \<Rightarrow> nat \<Rightarrow> nat" where
  "md_padlen B c n = 1 + (c - n mod B) mod B"

definition be_desc :: "nat \<Rightarrow> bytes" where
  "be_desc n = WriteBE64 (word_of_nat (8 * n))"

definition le_desc :: "nat \<Rightarrow> bytes" where
  "le_desc n = WriteLE64 (word_of_nat (8 * n))"

definition be_desc16 :: "nat \<Rightarrow> bytes" where
  "be_desc16 n = replicate 8 0 @ WriteBE64 (word_of_nat (8 * n))"

lemma length_descs [simp]: "length (be_desc n) = 8" "length (le_desc n) = 8" "length (be_desc16 n) = 16"
  by (simp_all add: be_desc_def le_desc_def be_desc16_def WriteBE64_def WriteLE64_def to_be_def)

lemma md_padlen_fits:
  fixes n :: nat
  assumes "l < B"
  shows "B dvd n + md_padlen B (2 * B - 1 - l) n + l"
proof -
  let ?r = "n mod B" and ?c = "2 * B - 1 - l"
  have r: "?r < B" using assms by simp
  have n: "n = B * (n div B) + ?r" by simp
  show ?thesis
  proof (cases "?r \<le> B - 1 - l")
    case True
    have "(?c - ?r) mod B = (B - 1 - l) - ?r" using True assms by (simp add: le_mod_geq)
    then have "n + md_padlen B ?c n + l = B * (n div B) + B"
      using n True assms unfolding md_padlen_def by linarith
    then show ?thesis by simp
  next
    case False
    have "?c - ?r < B" using False assms by linarith
    then have "md_padlen B ?c n = 1 + (?c - ?r)" by (simp only: md_padlen_def mod_less)
    then have "n + md_padlen B ?c n + l = B * (n div B) + 2 * B"
      using n r assms by linarith
    then show ?thesis by (simp add: dvd_add)
  qed
qed

lemmas pad_fits_64 = md_padlen_fits [of 8 64, simplified]
lemmas pad_fits_128 = md_padlen_fits [of 16 128, simplified]

interpretation sha256: md_hasher 64 sha256_Transform sha256_Initialize "md_padlen 64 119" be_desc
  by unfold_locales (simp_all add: pad_fits_64)

interpretation sha1: md_hasher 64 sha1_Transform sha1_Initialize "md_padlen 64 119" be_desc
  by unfold_locales (simp_all add: pad_fits_64)

interpretation ripemd160: md_hasher 64 ripemd160_Transform ripemd160_Initialize "md_padlen 64 119" le_desc
  by unfold_locales (simp_all add: pad_fits_64)

interpretation sha512: md_hasher 128 sha512_Transform sha512_Initialize "md_padlen 128 239" be_desc16
  by unfold_locales (simp_all add: pad_fits_128)

text \<open>The padded message of the standards, and the digests as functions of the whole message.\<close>

definition md_padded :: "nat \<Rightarrow> nat \<Rightarrow> (nat \<Rightarrow> bytes) \<Rightarrow> bytes \<Rightarrow> bytes" where
  "md_padded B c desc m = m @ [0x80] @ replicate ((c - length m mod B) mod B) 0 @ desc (length m)"

definition sha256_digest :: "bytes \<Rightarrow> bytes" where
  "sha256_digest m = concat (map WriteBE32 (absorb 64 sha256_Transform sha256_Initialize
     (md_padded 64 119 be_desc m)))"

definition sha1_digest :: "bytes \<Rightarrow> bytes" where
  "sha1_digest m = concat (map WriteBE32 (absorb 64 sha1_Transform sha1_Initialize
     (md_padded 64 119 be_desc m)))"

definition ripemd160_digest :: "bytes \<Rightarrow> bytes" where
  "ripemd160_digest m = concat (map WriteLE32 (absorb 64 ripemd160_Transform ripemd160_Initialize
     (md_padded 64 119 le_desc m)))"

definition sha512_digest :: "bytes \<Rightarrow> bytes" where
  "sha512_digest m = concat (map WriteBE64 (absorb 128 sha512_Transform sha512_Initialize
     (md_padded 128 239 be_desc16 m)))"

lemma take_pad_bytes: "k < B \<Longrightarrow> take (1 + k) (pad_bytes B) = [0x80] @ replicate k 0"
  by (simp add: pad_bytes_def min_def)

lemma padded_eq:
  "0 < B \<Longrightarrow> m @ take (md_padlen B c (length m)) (pad_bytes B) @ desc (length m) = md_padded B c desc m"
  by (simp only: md_padlen_def take_pad_bytes mod_less_divisor md_padded_def append_assoc)

lemmas hasher_simps = padded_eq sha256.padded_def sha1.padded_def ripemd160.padded_def sha512.padded_def
  sha256.final_state_def sha1.final_state_def ripemd160.final_state_def sha512.final_state_def
  sha256_digest_def sha1_digest_def ripemd160_digest_def sha512_digest_def

lemma CSHA256_Finalize_eq: "sha256.rep h m \<Longrightarrow> CSHA256_Finalize h = sha256_digest m"
  using sha256.final_state_absorb [of h m "pad_bytes 64"]
  by (simp add: hasher_simps) (simp add: CSHA256_Finalize_def CSHA256_Write_def md_padlen_def be_desc_def Let_def)

lemma CSHA1_Finalize_eq: "sha1.rep h m \<Longrightarrow> CSHA1_Finalize h = sha1_digest m"
  using sha1.final_state_absorb [of h m "pad_bytes 64"]
  by (simp add: hasher_simps) (simp add: CSHA1_Finalize_def CSHA1_Write_def md_padlen_def be_desc_def Let_def)

lemma CRIPEMD160_Finalize_eq: "ripemd160.rep h m \<Longrightarrow> CRIPEMD160_Finalize h = ripemd160_digest m"
  using ripemd160.final_state_absorb [of h m "pad_bytes 64"]
  by (simp add: hasher_simps)
    (simp add: CRIPEMD160_Finalize_def CRIPEMD160_Write_def md_padlen_def le_desc_def Let_def)

lemma CSHA512_Finalize_eq: "sha512.rep h m \<Longrightarrow> CSHA512_Finalize h = sha512_digest m"
  using sha512.final_state_absorb [of h m "pad_bytes 128"]
  by (simp add: hasher_simps)
    (simp add: CSHA512_Finalize_def CSHA512_Write_def md_padlen_def be_desc16_def Let_def)

lemma rep_inits:
  "sha256.rep CSHA256_init []" "sha1.rep CSHA1_init []" "ripemd160.rep CRIPEMD160_init []"
  "sha512.rep CSHA512_init []"
  by (simp_all add: CSHA256_init_def CSHA1_init_def CRIPEMD160_init_def CSHA512_init_def
      sha256.rep_init sha1.rep_init ripemd160.rep_init sha512.rep_init)

lemmas rep_CSHA256_Write = sha256.rep_Write [folded CSHA256_Write_def]
lemmas rep_CSHA512_Write = sha512.rep_Write [folded CSHA512_Write_def]
lemmas rep_CRIPEMD160_Write = ripemd160.rep_Write [folded CRIPEMD160_Write_def]
lemmas rep_CSHA256_Writes = sha256.rep_Writes [OF rep_inits(1), folded CSHA256_Write_def, simplified]
lemmas rep_CSHA1_Writes = sha1.rep_Writes [OF rep_inits(2), folded CSHA1_Write_def, simplified]
lemmas rep_CRIPEMD160_Writes = ripemd160.rep_Writes [OF rep_inits(3), folded CRIPEMD160_Write_def, simplified]
lemmas rep_CSHA512_Writes = sha512.rep_Writes [OF rep_inits(4), folded CSHA512_Write_def, simplified]

lemma rep_CSHA256_Reset:
  "sha256.rep h m \<Longrightarrow> sha256.rep (CSHA256_Reset (CSHA256_after_Finalize h)) []"
proof -
  assume "sha256.rep h m"
  then have "length (h_buf (CSHA256_after_Finalize h)) = 64"
    unfolding CSHA256_after_Finalize_def
    by (metis rep_CSHA256_Write sha256.rep_def)
  then show ?thesis by (simp add: CSHA256_Reset_def sha256.rep_def)
qed

lemma CHash256_Finalize_eq: "sha256.rep h m \<Longrightarrow> CHash256_Finalize h = sha256_digest (sha256_digest m)"
  using rep_CSHA256_Write [OF rep_CSHA256_Reset, of h m "CSHA256_Finalize h"]
  by (simp add: CHash256_Finalize_def CSHA256_Finalize_eq)

lemma CHash160_Finalize_eq: "sha256.rep h m \<Longrightarrow> CHash160_Finalize h = ripemd160_digest (sha256_digest m)"
  using rep_CRIPEMD160_Write [OF rep_inits(3), of "CSHA256_Finalize h"]
  by (simp add: CHash160_Finalize_def CSHA256_Finalize_eq CRIPEMD160_Finalize_eq)

section \<open>Digest lengths\<close>

lemma length_sha256_Round [simp]: "length (sha256_Round kw r) = length r"
  by (induction kw r rule: sha256_Round.induct) (simp_all add: Let_def)

lemma length_sha1_Round [simp]: "length (sha1_Round kw r) = length r"
  by (induction kw r rule: sha1_Round.induct) simp_all

lemma length_sha512_Round [simp]: "length (sha512_Round kw r) = length r"
  by (induction kw r rule: sha512_Round.induct) (simp_all add: Let_def)

lemma length_fold: "(\<And>x r. length (f x r) = length r) \<Longrightarrow> length (fold f xs r) = length r"
  by (induction xs arbitrary: r) simp_all

lemma length_Transforms [simp]:
  "length (sha256_Transform s c) = length s" "length (sha1_Transform s c) = length s"
  "length (sha512_Transform z c) = length z" "length (ripemd160_Transform s c) = 5"
  by (simp_all add: sha256_Transform_def sha1_Transform_def sha512_Transform_def ripemd160_Transform_def
      Let_def length_fold)

lemma length_absorb:
  "(\<And>s c. length (T s c) = length s) \<Longrightarrow> length (absorb B T s m) = length s"
proof (induction B T s m rule: absorb.induct)
  case (1 B T s m)
  then show ?case by (cases "0 < B \<and> B \<le> length m") (auto simp: absorb.simps [of B T s m])
qed

lemma length_absorb_ripemd160:
  "length s = 5 \<Longrightarrow> length (absorb 64 ripemd160_Transform s m) = 5"
proof (induction "64 :: nat" ripemd160_Transform s m rule: absorb.induct)
  case (1 s m)
  then show ?case by (cases "64 \<le> length m") (simp_all add: absorb.simps [of 64 ripemd160_Transform s m])
qed

lemma length_concat_const: "(\<And>x. length (f x) = k) \<Longrightarrow> length (concat (map f xs)) = k * length xs"
  by (induction xs) simp_all

lemmas write_word_defs = WriteBE32_def WriteLE32_def WriteBE64_def WriteLE64_def to_be_def

lemma digest_lengths [simp, len_simps]:
  "length (sha256_digest m) = 32" "length (sha1_digest m) = 20" "length (ripemd160_digest m) = 20"
  "length (sha512_digest m) = 64"
proof -
  have "length (absorb 64 sha256_Transform sha256_Initialize x) = 8"
    "length (absorb 64 sha1_Transform sha1_Initialize x) = 5"
    "length (absorb 64 ripemd160_Transform ripemd160_Initialize x) = 5"
    "length (absorb 128 sha512_Transform sha512_Initialize x) = 8" for x
    by (simp_all add: length_absorb length_absorb_ripemd160 sha256_Initialize_def sha1_Initialize_def
        sha512_Initialize_def ripemd160_Initialize_def)
  then show "length (sha256_digest m) = 32" "length (sha1_digest m) = 20" "length (ripemd160_digest m) = 20"
    "length (sha512_digest m) = 64"
    by (simp_all add: sha256_digest_def sha1_digest_def ripemd160_digest_def sha512_digest_def
        length_concat_const [of _ 4] length_concat_const [of _ 8] write_word_defs)
qed

lemma hmac_masks: "map (\<lambda>b. b XOR (0x5c XOR 0x36)) (map (\<lambda>b :: u8. b XOR 0x5c) k) = map (\<lambda>b. b XOR 0x36) k"
  by (simp add: xor.assoc)

lemma foldl_CHMAC_SHA256_Write:
  "foldl CHMAC_SHA256_Write c ds = (fst c, foldl CSHA256_Write (snd c) ds)"
  by (induction ds arbitrary: c) (simp_all add: CHMAC_SHA256_Write_def)

lemma foldl_CHMAC_SHA512_Write:
  "foldl CHMAC_SHA512_Write c ds = (fst c, foldl CSHA512_Write (snd c) ds)"
  by (induction ds arbitrary: c) (simp_all add: CHMAC_SHA512_Write_def)

lemma HMAC_SHA256_eq:
  "CHMAC_SHA256_Finalize (foldl CHMAC_SHA256_Write (CHMAC_SHA256_init key) ds) =
     sha256_digest (map (\<lambda>b. b XOR 0x5c) (CHMAC_SHA256_rkey key) @
       sha256_digest (map (\<lambda>b. b XOR 0x36) (CHMAC_SHA256_rkey key) @ concat ds))"
proof -
  define k1 where "k1 = map (\<lambda>b :: u8. b XOR 0x5c) (CHMAC_SHA256_rkey key)"
  define k2 where "k2 = map (\<lambda>b :: u8. b XOR 0x36) (CHMAC_SHA256_rkey key)"
  have init: "CHMAC_SHA256_init key = (CSHA256_Write CSHA256_init k1, CSHA256_Write CSHA256_init k2)"
    unfolding CHMAC_SHA256_init_def Let_def hmac_masks k1_def k2_def ..
  have "sha256.rep (foldl CSHA256_Write (CSHA256_Write CSHA256_init k2) ds) (k2 @ concat ds)"
    using sha256.rep_Writes [OF rep_CSHA256_Write [OF rep_inits(1)], of k2 ds] by (simp add: CSHA256_Write_def)
  moreover have "sha256.rep (CSHA256_Write (CSHA256_Write CSHA256_init k1) d) (k1 @ d)" for d
    using rep_CSHA256_Write [OF rep_CSHA256_Write [OF rep_inits(1)], of k1 d] by simp
  ultimately have "CHMAC_SHA256_Finalize (foldl CHMAC_SHA256_Write (CHMAC_SHA256_init key) ds) =
      sha256_digest (k1 @ sha256_digest (k2 @ concat ds))"
    by (simp add: init CHMAC_SHA256_Finalize_def foldl_CHMAC_SHA256_Write CSHA256_Finalize_eq)
  then show ?thesis by (simp only: k1_def k2_def)
qed

lemma HMAC_SHA512_eq:
  "CHMAC_SHA512_Finalize (foldl CHMAC_SHA512_Write (CHMAC_SHA512_init key) ds) =
     sha512_digest (map (\<lambda>b. b XOR 0x5c) (CHMAC_SHA512_rkey key) @
       sha512_digest (map (\<lambda>b. b XOR 0x36) (CHMAC_SHA512_rkey key) @ concat ds))"
proof -
  define k1 where "k1 = map (\<lambda>b :: u8. b XOR 0x5c) (CHMAC_SHA512_rkey key)"
  define k2 where "k2 = map (\<lambda>b :: u8. b XOR 0x36) (CHMAC_SHA512_rkey key)"
  have init: "CHMAC_SHA512_init key = (CSHA512_Write CSHA512_init k1, CSHA512_Write CSHA512_init k2)"
    unfolding CHMAC_SHA512_init_def Let_def hmac_masks k1_def k2_def ..
  have "sha512.rep (foldl CSHA512_Write (CSHA512_Write CSHA512_init k2) ds) (k2 @ concat ds)"
    using sha512.rep_Writes [OF rep_CSHA512_Write [OF rep_inits(4)], of k2 ds] by (simp add: CSHA512_Write_def)
  moreover have "sha512.rep (CSHA512_Write (CSHA512_Write CSHA512_init k1) d) (k1 @ d)" for d
    using rep_CSHA512_Write [OF rep_CSHA512_Write [OF rep_inits(4)], of k1 d] by simp
  ultimately have "CHMAC_SHA512_Finalize (foldl CHMAC_SHA512_Write (CHMAC_SHA512_init key) ds) =
      sha512_digest (k1 @ sha512_digest (k2 @ concat ds))"
    by (simp add: init CHMAC_SHA512_Finalize_def foldl_CHMAC_SHA512_Write CSHA512_Finalize_eq)
  then show ?thesis by (simp only: k1_def k2_def)
qed

section \<open>Properties\<close>

text \<open>C8. Streaming: whatever sequence of \<open>Write\<close> calls feeds a message to a \<open>CSHA256\<close>, \<open>CSHA1\<close>,
  \<open>CRIPEMD160\<close> or \<open>CSHA512\<close> object, \<open>Finalize\<close> returns the digest of the concatenated message:
  the message padded with \<open>0x80\<close>, zeros and its bit length, absorbed block by block by
  \<open>Transform\<close>. The buffer handling neither loses, repeats nor reorders a byte.\<close>

theorem hashers_streaming:
  "CSHA256_Finalize (foldl CSHA256_Write CSHA256_init ds) = sha256_digest (concat ds) \<and>
   CSHA1_Finalize (foldl CSHA1_Write CSHA1_init ds) = sha1_digest (concat ds) \<and>
   CRIPEMD160_Finalize (foldl CRIPEMD160_Write CRIPEMD160_init ds) = ripemd160_digest (concat ds) \<and>
   CSHA512_Finalize (foldl CSHA512_Write CSHA512_init ds) = sha512_digest (concat ds)"
  by (simp add: CSHA256_Finalize_eq [OF rep_CSHA256_Writes] CSHA1_Finalize_eq [OF rep_CSHA1_Writes]
      CRIPEMD160_Finalize_eq [OF rep_CRIPEMD160_Writes] CSHA512_Finalize_eq [OF rep_CSHA512_Writes])

text \<open>The variants of \<open>Hash\<close> for several ranges return the double SHA-256 of the
  concatenation, although \<open>CHash256::Finalize\<close> reuses the same hasher object with a dirty
  buffer, and \<open>Hash160\<close> is RIPEMD-160 of SHA-256; the results have 32 and 20 bytes.\<close>

theorem Hash_double_digest:
  "Hash_ranges rs = Hash (concat rs) \<and> Hash m = sha256_digest (sha256_digest m) \<and>
   Hash160 m = ripemd160_digest (sha256_digest m) \<and> length (Hash m) = 32 \<and> length (Hash160 m) = 20"
  using rep_CSHA256_Writes [of rs] rep_CSHA256_Write [OF rep_inits(1), of "concat rs"]
    rep_CSHA256_Write [OF rep_inits(1), of m]
  by (simp add: Hash_ranges_def Hash_def Hash160_def CHash256_Finalize_eq CHash160_Finalize_eq)

text \<open>The HMAC classes compute HMAC of RFC 2104 over the concatenation of everything written:
  the hash of the key masked with \<open>0x5c\<close> followed by the hash of the key masked with \<open>0x36\<close> and the
  message; keys longer than a block are hashed first.\<close>

theorem HMAC_correct:
  "CHMAC_SHA256_Finalize (foldl CHMAC_SHA256_Write (CHMAC_SHA256_init key) ds) =
     sha256_digest (map (\<lambda>b. b XOR 0x5c) (CHMAC_SHA256_rkey key) @
       sha256_digest (map (\<lambda>b. b XOR 0x36) (CHMAC_SHA256_rkey key) @ concat ds)) \<and>
   CHMAC_SHA512_Finalize (foldl CHMAC_SHA512_Write (CHMAC_SHA512_init key) ds) =
     sha512_digest (map (\<lambda>b. b XOR 0x5c) (CHMAC_SHA512_rkey key) @
       sha512_digest (map (\<lambda>b. b XOR 0x36) (CHMAC_SHA512_rkey key) @ concat ds)) \<and>
   length (CHMAC_SHA256_rkey key) = 64 \<and> length (CHMAC_SHA512_rkey key) = 128"
  using CSHA256_Finalize_eq [OF rep_CSHA256_Write [OF rep_inits(1)], of key]
    CSHA512_Finalize_eq [OF rep_CSHA512_Write [OF rep_inits(4)], of key]
  by (simp only: HMAC_SHA256_eq HMAC_SHA512_eq) (simp add: CHMAC_SHA256_rkey_def CHMAC_SHA512_rkey_def)

end
