(* ===== verification/Interpreter.thy ===== *)
theory Interpreter
  imports SigEncoding Hashing
begin

text \<open>
  The script interpreter, \<open>EvalScript\<close> and \<open>VerifyScript\<close> of \<open>src/script/interpreter.cpp\<close>.

  The stacks are lists with the top first: \<open>stacktop(-1)\<close> is the head, \<open>push_back\<close> is
  \<open>#\<close>. \<open>vfExec\<close> is a list with the innermost conditional first. The opcode switch is split
  into one function per group of cases; a group that only works on the main stack is a
  function on stacks, so that what it leaves alone is visible in its type. An exception
  thrown inside the loop (only \<open>CScriptNum\<close> can throw, the stack accesses are guarded) is
  caught by the code and reported as \<open>SCRIPT_ERR_UNKNOWN_ERROR\<close>. The signature checker, a
  virtual method, is the parameter \<open>checker\<close>.
\<close>

section \<open>Opcode groups on the main stack\<close>

type_synonym stack = "valtype list"

abbreviation (input) "invalid_stack \<equiv> Inl SCRIPT_ERR_INVALID_STACK_OPERATION"

definition vch_bool :: "bool \<Rightarrow> valtype" where
  "vch_bool b = (if b then [1] else [])"

definition push_const_op :: "opcodetype \<Rightarrow> stack \<Rightarrow> ScriptError + stack" where
  "push_const_op opcode s = Inr (CScriptNum_serialize (int opcode - (int OP_1 - 1)) # s)"

definition stack_op :: "bool \<Rightarrow> opcodetype \<Rightarrow> stack \<Rightarrow> ScriptError + stack" where
  "stack_op fRequireMinimal opcode s =
     (if opcode = OP_2DROP then
        (case s of x2 # x1 # r \<Rightarrow> Inr r | _ \<Rightarrow> invalid_stack)
      else if opcode = OP_2DUP then
        (case s of x2 # x1 # r \<Rightarrow> Inr (x2 # x1 # x2 # x1 # r) | _ \<Rightarrow> invalid_stack)
      else if opcode = OP_3DUP then
        (case s of x3 # x2 # x1 # r \<Rightarrow> Inr (x3 # x2 # x1 # x3 # x2 # x1 # r) | _ \<Rightarrow> invalid_stack)
      else if opcode = OP_2OVER then
        (case s of x4 # x3 # x2 # x1 # r \<Rightarrow> Inr (x2 # x1 # x4 # x3 # x2 # x1 # r) | _ \<Rightarrow> invalid_stack)
      else if opcode = OP_2ROT then
        (case s of x6 # x5 # x4 # x3 # x2 # x1 # r \<Rightarrow> Inr (x2 # x1 # x6 # x5 # x4 # x3 # r)
         | _ \<Rightarrow> invalid_stack)
      else if opcode = OP_2SWAP then
        (case s of x4 # x3 # x2 # x1 # r \<Rightarrow> Inr (x2 # x1 # x4 # x3 # r) | _ \<Rightarrow> invalid_stack)
      else if opcode = OP_IFDUP then
        (case s of vch # r \<Rightarrow> Inr (if CastToBool vch then vch # vch # r else vch # r)
         | _ \<Rightarrow> invalid_stack)
      else if opcode = OP_DEPTH then Inr (CScriptNum_serialize (int (length s)) # s)
      else if opcode = OP_DROP then
        (case s of x # r \<Rightarrow> Inr r | _ \<Rightarrow> invalid_stack)
      else if opcode = OP_DUP then
        (case s of x # r \<Rightarrow> Inr (x # x # r) | _ \<Rightarrow> invalid_stack)
      else if opcode = OP_NIP then
        (case s of x2 # x1 # r \<Rightarrow> Inr (x2 # r) | _ \<Rightarrow> invalid_stack)
      else if opcode = OP_OVER then
        (case s of x2 # x1 # r \<Rightarrow> Inr (x1 # x2 # x1 # r) | _ \<Rightarrow> invalid_stack)
      else if opcode = OP_PICK \<or> opcode = OP_ROLL then
        (if length s < 2 then invalid_stack
         else case CScriptNum (hd s) fRequireMinimal of
                None \<Rightarrow> Inl SCRIPT_ERR_UNKNOWN_ERROR
              | Some bn \<Rightarrow>
                 (let n = getint bn; s1 = tl s
                  in if n < 0 \<or> n \<ge> int (length s1) then invalid_stack
                     else let vch = s1 ! nat n
                          in Inr (vch # (if opcode = OP_ROLL
                                         then take (nat n) s1 @ drop (nat n + 1) s1 else s1))))
      else if opcode = OP_ROT then
        (case s of x3 # x2 # x1 # r \<Rightarrow> Inr (x1 # x3 # x2 # r) | _ \<Rightarrow> invalid_stack)
      else if opcode = OP_SWAP then
        (case s of x2 # x1 # r \<Rightarrow> Inr (x1 # x2 # r) | _ \<Rightarrow> invalid_stack)
      else if opcode = OP_TUCK then
        (case s of x2 # x1 # r \<Rightarrow> Inr (x2 # x1 # x2 # r) | _ \<Rightarrow> invalid_stack)
      else if opcode = OP_SIZE then
        (case s of x # r \<Rightarrow> Inr (CScriptNum_serialize (int (length x)) # x # r) | _ \<Rightarrow> invalid_stack)
      else Inl SCRIPT_ERR_BAD_OPCODE)"

definition equal_op :: "opcodetype \<Rightarrow> stack \<Rightarrow> ScriptError + stack" where
  "equal_op opcode s =
     (case s of
        vch2 # vch1 # r \<Rightarrow>
          (let fEqual = (vch1 = vch2)
           in if opcode = OP_EQUALVERIFY
              then (if fEqual then Inr r else Inl SCRIPT_ERR_EQUALVERIFY)
              else Inr (vch_bool fEqual # r))
      | _ \<Rightarrow> invalid_stack)"

definition num1_value :: "opcodetype \<Rightarrow> int \<Rightarrow> int" where
  "num1_value opcode bn =
     (if opcode = OP_1ADD then bn + 1
      else if opcode = OP_1SUB then bn - 1
      else if opcode = OP_NEGATE then - bn
      else if opcode = OP_ABS then (if bn < 0 then - bn else bn)
      else if opcode = OP_NOT then of_bool (bn = 0)
      else of_bool (bn \<noteq> 0))"

definition num1_op :: "bool \<Rightarrow> opcodetype \<Rightarrow> stack \<Rightarrow> ScriptError + stack" where
  "num1_op fRequireMinimal opcode s =
     (case s of
        [] \<Rightarrow> invalid_stack
      | x # r \<Rightarrow>
         (case CScriptNum x fRequireMinimal of
            None \<Rightarrow> Inl SCRIPT_ERR_UNKNOWN_ERROR
          | Some bn \<Rightarrow> Inr (CScriptNum_serialize (num1_value opcode bn) # r)))"

definition num2_value :: "opcodetype \<Rightarrow> int \<Rightarrow> int \<Rightarrow> int" where
  "num2_value opcode bn1 bn2 =
     (if opcode = OP_ADD then bn1 + bn2
      else if opcode = OP_SUB then bn1 - bn2
      else if opcode = OP_BOOLAND then of_bool (bn1 \<noteq> 0 \<and> bn2 \<noteq> 0)
      else if opcode = OP_BOOLOR then of_bool (bn1 \<noteq> 0 \<or> bn2 \<noteq> 0)
      else if opcode = OP_NUMEQUAL then of_bool (bn1 = bn2)
      else if opcode = OP_NUMEQUALVERIFY then of_bool (bn1 = bn2)
      else if opcode = OP_NUMNOTEQUAL then of_bool (bn1 \<noteq> bn2)
      else if opcode = OP_LESSTHAN then of_bool (bn1 < bn2)
      else if opcode = OP_GREATERTHAN then of_bool (bn1 > bn2)
      else if opcode = OP_LESSTHANOREQUAL then of_bool (bn1 \<le> bn2)
      else if opcode = OP_GREATERTHANOREQUAL then of_bool (bn1 \<ge> bn2)
      else if opcode = OP_MIN then (if bn1 < bn2 then bn1 else bn2)
      else (if bn1 > bn2 then bn1 else bn2))"

definition num2_op :: "bool \<Rightarrow> opcodetype \<Rightarrow> stack \<Rightarrow> ScriptError + stack" where
  "num2_op fRequireMinimal opcode s =
     (case s of
        x2 # x1 # r \<Rightarrow>
         (case (CScriptNum x1 fRequireMinimal, CScriptNum x2 fRequireMinimal) of
            (Some bn1, Some bn2) \<Rightarrow>
              (let vch = CScriptNum_serialize (num2_value opcode bn1 bn2)
               in if opcode = OP_NUMEQUALVERIFY
                  then (if CastToBool vch then Inr r else Inl SCRIPT_ERR_NUMEQUALVERIFY)
                  else Inr (vch # r))
          | _ \<Rightarrow> Inl SCRIPT_ERR_UNKNOWN_ERROR)
      | _ \<Rightarrow> invalid_stack)"

definition within_op :: "bool \<Rightarrow> stack \<Rightarrow> ScriptError + stack" where
  "within_op fRequireMinimal s =
     (case s of
        x3 # x2 # x1 # r \<Rightarrow>
         (case (CScriptNum x1 fRequireMinimal, CScriptNum x2 fRequireMinimal, CScriptNum x3 fRequireMinimal) of
            (Some bn1, Some bn2, Some bn3) \<Rightarrow> Inr (vch_bool (bn2 \<le> bn1 \<and> bn1 < bn3) # r)
          | _ \<Rightarrow> Inl SCRIPT_ERR_UNKNOWN_ERROR)
      | _ \<Rightarrow> invalid_stack)"

definition hash_op :: "opcodetype \<Rightarrow> stack \<Rightarrow> ScriptError + stack" where
  "hash_op opcode s =
     (case s of
        [] \<Rightarrow> invalid_stack
      | vch # r \<Rightarrow>
         Inr ((if opcode = OP_RIPEMD160 then CRIPEMD160_Finalize (CRIPEMD160_Write CRIPEMD160_init vch)
               else if opcode = OP_SHA1 then CSHA1_Finalize (CSHA1_Write CSHA1_init vch)
               else if opcode = OP_SHA256 then CSHA256_Finalize (CSHA256_Write CSHA256_init vch)
               else if opcode = OP_HASH160 then CHash160_Finalize (CSHA256_Write CSHA256_init vch)
               else CHash256_Finalize (CSHA256_Write CSHA256_init vch)) # r))"

section \<open>Signature opcodes\<close>

type_synonym sig_checker = "valtype \<Rightarrow> valtype \<Rightarrow> CScript \<Rightarrow> bool"

definition checksig_op :: "sig_checker \<Rightarrow> u32 \<Rightarrow> opcodetype \<Rightarrow> CScript \<Rightarrow> stack \<Rightarrow> ScriptError + stack" where
  "checksig_op checker flags opcode codehash s =
     (case s of
        vchPubKey # vchSig # r \<Rightarrow>
         (let scriptCode = snd (FindAndDelete codehash (push_data [] vchSig))
          in case CheckSignatureEncoding vchSig flags of
               Inl e \<Rightarrow> Inl e
             | Inr _ \<Rightarrow>
                (case CheckPubKeyEncoding vchPubKey flags of
                   Inl e \<Rightarrow> Inl e
                 | Inr _ \<Rightarrow>
                    (let fSuccess = checker vchSig vchPubKey scriptCode
                     in if opcode = OP_CHECKSIGVERIFY
                        then (if fSuccess then Inr r else Inl SCRIPT_ERR_CHECKSIGVERIFY)
                        else Inr (vch_bool fSuccess # r))))
      | _ \<Rightarrow> invalid_stack)"

text \<open>
  The loop of \<open>OP_CHECKMULTISIG\<close>, on the signatures and keys not yet consumed. The last
  equation cannot be reached, because the loop stops as soon as more signatures than keys
  are left.
\<close>

fun multisig_loop :: "sig_checker \<Rightarrow> u32 \<Rightarrow> CScript \<Rightarrow> valtype list \<Rightarrow> valtype list \<Rightarrow> ScriptError + bool" where
  "multisig_loop checker flags scriptCode [] keys = Inr True"
| "multisig_loop checker flags scriptCode (vchSig # sigs) (vchPubKey # keys) =
     (case CheckSignatureEncoding vchSig flags of
        Inl e \<Rightarrow> Inl e
      | Inr _ \<Rightarrow>
         (case CheckPubKeyEncoding vchPubKey flags of
            Inl e \<Rightarrow> Inl e
          | Inr _ \<Rightarrow>
             (let fOk = checker vchSig vchPubKey scriptCode;
                  sigs1 = (if fOk then sigs else vchSig # sigs)
              in if length sigs1 > length keys then Inr False
                 else multisig_loop checker flags scriptCode sigs1 keys)))"
| "multisig_loop checker flags scriptCode (vchSig # sigs) [] = Inr False"

definition delete_sigs :: "CScript \<Rightarrow> valtype list \<Rightarrow> CScript" where
  "delete_sigs codehash sigs = fold (\<lambda>vchSig sc. snd (FindAndDelete sc (push_data [] vchSig))) sigs codehash"

text \<open>The multisig cases also count every key as an operation: the new count is returned.\<close>

definition multisig_op ::
  "sig_checker \<Rightarrow> u32 \<Rightarrow> opcodetype \<Rightarrow> CScript \<Rightarrow> nat \<Rightarrow> stack \<Rightarrow> ScriptError + nat \<times> stack" where
  "multisig_op checker flags opcode codehash nOpCount s =
     (if length s < 1 then invalid_stack
      else case CScriptNum (s ! 0) (has_flag flags SCRIPT_VERIFY_MINIMALDATA) of
        None \<Rightarrow> Inl SCRIPT_ERR_UNKNOWN_ERROR
      | Some bnKeys \<Rightarrow>
     (if getint bnKeys < 0 \<or> getint bnKeys > 20 then Inl SCRIPT_ERR_PUBKEY_COUNT
      else let nKeysCount = nat (getint bnKeys); nOpCount1 = nOpCount + nKeysCount
      in if nOpCount1 > 201 then Inl SCRIPT_ERR_OP_COUNT
      else if length s < 2 + nKeysCount then invalid_stack
      else case CScriptNum (s ! (1 + nKeysCount)) (has_flag flags SCRIPT_VERIFY_MINIMALDATA) of
        None \<Rightarrow> Inl SCRIPT_ERR_UNKNOWN_ERROR
      | Some bnSigs \<Rightarrow>
     (if getint bnSigs < 0 \<or> getint bnSigs > int nKeysCount then Inl SCRIPT_ERR_SIG_COUNT
      else let nSigsCount = nat (getint bnSigs); i = 3 + nKeysCount + nSigsCount
      in if length s < i then invalid_stack
      else let keys = take nKeysCount (drop 1 s);
               sigs = take nSigsCount (drop (2 + nKeysCount) s)
      in case multisig_loop checker flags (delete_sigs codehash sigs) sigs keys of
        Inl e \<Rightarrow> Inl e
      | Inr fSuccess \<Rightarrow>
     (case drop (i - 1) s of
        [] \<Rightarrow> invalid_stack
      | dummy # r \<Rightarrow>
         if has_flag flags SCRIPT_VERIFY_NULLDUMMY \<and> length dummy \<noteq> 0 then Inl SCRIPT_ERR_SIG_NULLDUMMY
         else if opcode = OP_CHECKMULTISIGVERIFY
              then (if fSuccess then Inr (nOpCount1, r) else Inl SCRIPT_ERR_CHECKMULTISIGVERIFY)
              else Inr (nOpCount1, vch_bool fSuccess # r)))))"

section \<open>The evaluation loop\<close>

record eval_state =
  es_stack :: stack
  es_altstack :: stack
  es_vfExec :: "bool list"
  es_nOpCount :: nat
  es_pbegincodehash :: bytes
  es_pc :: bytes

definition on_stack :: "(stack \<Rightarrow> ScriptError + stack) \<Rightarrow> eval_state \<Rightarrow> ScriptError + eval_state" where
  "on_stack f st = (case f (es_stack st) of Inl e \<Rightarrow> Inl e | Inr s \<Rightarrow> Inr (st\<lparr>es_stack := s\<rparr>))"

definition control_op :: "u32 \<Rightarrow> bool \<Rightarrow> opcodetype \<Rightarrow> eval_state \<Rightarrow> ScriptError + eval_state" where
  "control_op flags fExec opcode st =
     (if opcode = OP_NOP then Inr st
      else if OP_NOP1 \<le> opcode \<and> opcode \<le> OP_NOP10 then
        (if has_flag flags SCRIPT_VERIFY_DISCOURAGE_UPGRADABLE_NOPS
         then Inl SCRIPT_ERR_DISCOURAGE_UPGRADABLE_NOPS else Inr st)
      else if opcode = OP_IF \<or> opcode = OP_NOTIF then
        (if fExec then
           (case es_stack st of
              [] \<Rightarrow> Inl SCRIPT_ERR_UNBALANCED_CONDITIONAL
            | vch # r \<Rightarrow>
               (let fValue = CastToBool vch; fValue1 = (if opcode = OP_NOTIF then \<not> fValue else fValue)
                in Inr (st\<lparr>es_stack := r, es_vfExec := fValue1 # es_vfExec st\<rparr>)))
         else Inr (st\<lparr>es_vfExec := False # es_vfExec st\<rparr>))
      else if opcode = OP_ELSE then
        (case es_vfExec st of
           [] \<Rightarrow> Inl SCRIPT_ERR_UNBALANCED_CONDITIONAL
         | b # r \<Rightarrow> Inr (st\<lparr>es_vfExec := (\<not> b) # r\<rparr>))
      else if opcode = OP_ENDIF then
        (case es_vfExec st of
           [] \<Rightarrow> Inl SCRIPT_ERR_UNBALANCED_CONDITIONAL
         | b # r \<Rightarrow> Inr (st\<lparr>es_vfExec := r\<rparr>))
      else if opcode = OP_VERIFY then
        (case es_stack st of
           [] \<Rightarrow> invalid_stack
         | vch # r \<Rightarrow> if CastToBool vch then Inr (st\<lparr>es_stack := r\<rparr>) else Inl SCRIPT_ERR_VERIFY)
      else if opcode = OP_RETURN then Inl SCRIPT_ERR_OP_RETURN
      else Inl SCRIPT_ERR_BAD_OPCODE)"

definition alt_op :: "opcodetype \<Rightarrow> eval_state \<Rightarrow> ScriptError + eval_state" where
  "alt_op opcode st =
     (if opcode = OP_TOALTSTACK then
        (case es_stack st of
           [] \<Rightarrow> invalid_stack
         | x # r \<Rightarrow> Inr (st\<lparr>es_stack := r, es_altstack := x # es_altstack st\<rparr>))
      else
        (case es_altstack st of
           [] \<Rightarrow> Inl SCRIPT_ERR_INVALID_ALTSTACK_OPERATION
         | x # r \<Rightarrow> Inr (st\<lparr>es_stack := x # es_stack st, es_altstack := r\<rparr>)))"

definition exec_op :: "sig_checker \<Rightarrow> u32 \<Rightarrow> bool \<Rightarrow> opcodetype \<Rightarrow> eval_state \<Rightarrow> ScriptError + eval_state" where
  "exec_op checker flags fExec opcode st =
     (let fRequireMinimal = has_flag flags SCRIPT_VERIFY_MINIMALDATA
      in if opcode = OP_1NEGATE \<or> OP_1 \<le> opcode \<and> opcode \<le> OP_16 then on_stack (push_const_op opcode) st
      else if OP_NOP \<le> opcode \<and> opcode \<le> OP_RETURN \<or> OP_NOP1 \<le> opcode \<and> opcode \<le> OP_NOP10
           then control_op flags fExec opcode st
      else if opcode = OP_TOALTSTACK \<or> opcode = OP_FROMALTSTACK then alt_op opcode st
      else if OP_2DROP \<le> opcode \<and> opcode \<le> OP_TUCK \<or> opcode = OP_SIZE
           then on_stack (stack_op fRequireMinimal opcode) st
      else if opcode = OP_EQUAL \<or> opcode = OP_EQUALVERIFY then on_stack (equal_op opcode) st
      else if opcode \<in> {OP_1ADD, OP_1SUB, OP_NEGATE, OP_ABS, OP_NOT, OP_0NOTEQUAL}
           then on_stack (num1_op fRequireMinimal opcode) st
      else if opcode = OP_ADD \<or> opcode = OP_SUB \<or> OP_BOOLAND \<le> opcode \<and> opcode \<le> OP_MAX
           then on_stack (num2_op fRequireMinimal opcode) st
      else if opcode = OP_WITHIN then on_stack (within_op fRequireMinimal) st
      else if OP_RIPEMD160 \<le> opcode \<and> opcode \<le> OP_HASH256 then on_stack (hash_op opcode) st
      else if opcode = OP_CODESEPARATOR then Inr (st\<lparr>es_pbegincodehash := es_pc st\<rparr>)
      else if opcode = OP_CHECKSIG \<or> opcode = OP_CHECKSIGVERIFY
           then on_stack (checksig_op checker flags opcode (es_pbegincodehash st)) st
      else if opcode = OP_CHECKMULTISIG \<or> opcode = OP_CHECKMULTISIGVERIFY then
        (case multisig_op checker flags opcode (es_pbegincodehash st) (es_nOpCount st) (es_stack st) of
           Inl e \<Rightarrow> Inl e
         | Inr (n, s) \<Rightarrow> Inr (st\<lparr>es_stack := s, es_nOpCount := n\<rparr>))
      else Inl SCRIPT_ERR_BAD_OPCODE)"

definition disabled_opcodes :: "opcodetype list" where
  "disabled_opcodes =
     [OP_CAT, OP_SUBSTR, OP_LEFT, OP_RIGHT, OP_INVERT, OP_AND, OP_OR, OP_XOR, OP_2MUL, OP_2DIV,
      OP_MUL, OP_DIV, OP_MOD, OP_LSHIFT, OP_RSHIFT]"

definition exec_phase ::
  "sig_checker \<Rightarrow> u32 \<Rightarrow> bool \<Rightarrow> opcodetype \<Rightarrow> valtype \<Rightarrow> eval_state \<Rightarrow> ScriptError + eval_state" where
  "exec_phase checker flags fExec opcode vchPushValue st =
     (if fExec \<and> opcode \<le> OP_PUSHDATA4 then
        (if has_flag flags SCRIPT_VERIFY_MINIMALDATA \<and> \<not> CheckMinimalPush vchPushValue opcode
         then Inl SCRIPT_ERR_MINIMALDATA
         else Inr (st\<lparr>es_stack := vchPushValue # es_stack st\<rparr>))
      else if fExec \<or> (OP_IF \<le> opcode \<and> opcode \<le> OP_ENDIF)
      then exec_op checker flags fExec opcode st
      else Inr st)"

definition EvalStep :: "sig_checker \<Rightarrow> u32 \<Rightarrow> eval_state \<Rightarrow> ScriptError + eval_state" where
  "EvalStep checker flags st =
     (let fExec = (\<forall>b \<in> set (es_vfExec st). b);
          (ok, pc, opcode, vchPushValue) = GetOp2 (es_pc st)
      in if \<not> ok then Inl SCRIPT_ERR_BAD_OPCODE
      else if length vchPushValue > MAX_SCRIPT_ELEMENT_SIZE then Inl SCRIPT_ERR_PUSH_SIZE
      else if opcode > OP_16 \<and> es_nOpCount st + 1 > 201 then Inl SCRIPT_ERR_OP_COUNT
      else if opcode \<in> set disabled_opcodes then Inl SCRIPT_ERR_DISABLED_OPCODE
      else case exec_phase checker flags fExec opcode vchPushValue
                  (st\<lparr>es_pc := pc, es_nOpCount := es_nOpCount st + (if opcode > OP_16 then 1 else 0)\<rparr>) of
             Inl e \<Rightarrow> Inl e
           | Inr st2 \<Rightarrow>
              if length (es_stack st2) + length (es_altstack st2) > 1000 then Inl SCRIPT_ERR_STACK_SIZE
              else Inr st2)"

lemma hash_op_digests:
  "hash_op opcode (vch # r) =
     Inr ((if opcode = OP_RIPEMD160 then ripemd160_digest vch
           else if opcode = OP_SHA1 then sha1_digest vch
           else if opcode = OP_SHA256 then sha256_digest vch
           else if opcode = OP_HASH160 then ripemd160_digest (sha256_digest vch)
           else sha256_digest (sha256_digest vch)) # r)"
  using rep_CSHA256_Writes [of "[vch]"] rep_CSHA1_Writes [of "[vch]"] rep_CRIPEMD160_Writes [of "[vch]"]
  by (simp add: hash_op_def CSHA256_Finalize_eq CSHA1_Finalize_eq CRIPEMD160_Finalize_eq CHash256_Finalize_eq
      CHash160_Finalize_eq)

text \<open>
  Case rules for the opcode dispatch. The dispatch conditions are dropped or kept as they
  are: splitting them into cases is never needed.
\<close>

lemma if_eq_dropE: "(if c then a else b) = x \<Longrightarrow> (a = x \<Longrightarrow> P) \<Longrightarrow> (b = x \<Longrightarrow> P) \<Longrightarrow> P"
  by (cases c) simp_all

lemma sum_eq_InrE: "(case r of Inl e \<Rightarrow> Inl e | Inr y \<Rightarrow> f y) = Inr z \<Longrightarrow> (\<And>y. r = Inr y \<Longrightarrow> f y = Inr z \<Longrightarrow> P) \<Longrightarrow> P"
  by (cases r) simp_all

lemma option_eq_InrE:
  "(case r of None \<Rightarrow> Inl e | Some y \<Rightarrow> f y) = Inr z \<Longrightarrow> (\<And>y. r = Some y \<Longrightarrow> f y = Inr z \<Longrightarrow> P) \<Longrightarrow> P"
  by (cases r) simp_all

lemma if_eq_InrE: "(if c then Inl e else b) = Inr x \<Longrightarrow> (\<not> c \<Longrightarrow> b = Inr x \<Longrightarrow> P) \<Longrightarrow> P"
  by (cases c) simp_all

lemma exec_op_cases:
  assumes "exec_op checker flags fExec opcode st = Inr st'"
  obtains
    (const) "on_stack (push_const_op opcode) st = Inr st'"
  | (control) "control_op flags fExec opcode st = Inr st'"
  | (alt) "alt_op opcode st = Inr st'"
  | (stack) "on_stack (stack_op (has_flag flags SCRIPT_VERIFY_MINIMALDATA) opcode) st = Inr st'"
  | (equal) "on_stack (equal_op opcode) st = Inr st'"
  | (num1) "on_stack (num1_op (has_flag flags SCRIPT_VERIFY_MINIMALDATA) opcode) st = Inr st'"
  | (num2) "on_stack (num2_op (has_flag flags SCRIPT_VERIFY_MINIMALDATA) opcode) st = Inr st'"
  | (within) "on_stack (within_op (has_flag flags SCRIPT_VERIFY_MINIMALDATA)) st = Inr st'"
  | (hash) "on_stack (hash_op opcode) st = Inr st'"
  | (codesep) "st' = st\<lparr>es_pbegincodehash := es_pc st\<rparr>"
  | (checksig) "on_stack (checksig_op checker flags opcode (es_pbegincodehash st)) st = Inr st'"
  | (multisig) n s where
      "multisig_op checker flags opcode (es_pbegincodehash st) (es_nOpCount st) (es_stack st) = Inr (n, s)"
      "st' = st\<lparr>es_stack := s, es_nOpCount := n\<rparr>"
  using assms unfolding exec_op_def Let_def
  by (elim if_eq_dropE sum_eq_InrE) (assumption | fast)+

lemma on_stack_InrE:
  assumes "on_stack f st = Inr st'"
  obtains s where "f (es_stack st) = Inr s" "st' = st\<lparr>es_stack := s\<rparr>"
  using assms by (auto simp: on_stack_def split: sum.splits)

lemma on_stack_pc: "on_stack f st = Inr st' \<Longrightarrow> es_pc st' = es_pc st"
  by (auto elim: on_stack_InrE)

lemma control_op_pc: "control_op flags b opcode st = Inr st' \<Longrightarrow> es_pc st' = es_pc st"
  unfolding control_op_def Let_def
  by (elim if_eq_dropE) (auto split: list.splits if_splits)

lemma alt_op_pc: "alt_op opcode st = Inr st' \<Longrightarrow> es_pc st' = es_pc st"
  by (auto simp: alt_op_def split: if_splits list.splits)

lemma exec_op_pc: "exec_op checker flags b opcode st = Inr st' \<Longrightarrow> es_pc st' = es_pc st"
  by (cases rule: exec_op_cases, assumption) (simp_all add: on_stack_pc control_op_pc alt_op_pc)

lemma exec_phase_pc: "exec_phase checker flags b opcode vch st = Inr st' \<Longrightarrow> es_pc st' = es_pc st"
  unfolding exec_phase_def by (elim if_eq_dropE) (auto dest: exec_op_pc)

lemma EvalStep_InrE:
  assumes "EvalStep checker flags st = Inr st'"
  obtains pc opcode vch where "GetOp2 (es_pc st) = (True, pc, opcode, vch)" "length vch \<le> MAX_SCRIPT_ELEMENT_SIZE"
    "opcode > OP_16 \<Longrightarrow> es_nOpCount st < 201" "opcode \<notin> set disabled_opcodes"
    "exec_phase checker flags (\<forall>b \<in> set (es_vfExec st). b) opcode vch
       (st\<lparr>es_pc := pc, es_nOpCount := es_nOpCount st + (if opcode > OP_16 then 1 else 0)\<rparr>) = Inr st'"
    "length (es_stack st') + length (es_altstack st') \<le> 1000"
proof -
  obtain ok pc opcode vch where g: "GetOp2 (es_pc st) = (ok, pc, opcode, vch)" by (metis surj_pair)
  show thesis
    by (rule that [of pc opcode vch])
       (use assms g in \<open>auto simp: EvalStep_def Let_def split: if_split_asm sum.splits\<close>)
qed

lemma EvalStep_decreases:
  assumes "EvalStep checker flags st = Inr st'" and "es_pc st \<noteq> []"
  shows "length (es_pc st') < length (es_pc st)"
  using assms(1)
proof (cases rule: EvalStep_InrE)
  case (1 pc opcode vch)
  have "length pc < length (es_pc st)"
    using 1(1) assms(2) by (cases "es_pc st") (auto dest: GetOp2_decreases [OF sym])
  then show ?thesis using exec_phase_pc [OF 1(5)] by simp
qed

function EvalLoop :: "sig_checker \<Rightarrow> u32 \<Rightarrow> eval_state \<Rightarrow> ScriptError + eval_state" where
  "EvalLoop checker flags st =
     (if es_pc st = [] then Inr st
      else case EvalStep checker flags st of
             Inl e \<Rightarrow> Inl e
           | Inr st' \<Rightarrow> EvalLoop checker flags st')"
  by pat_completeness auto
termination
  by (relation "measure (\<lambda>(c, f, st). length (es_pc st))") (auto simp: EvalStep_decreases)

declare EvalLoop.simps [simp del]

definition eval_start :: "stack \<Rightarrow> CScript \<Rightarrow> eval_state" where
  "eval_start s script =
     \<lparr>es_stack = s, es_altstack = [], es_vfExec = [], es_nOpCount = 0, es_pbegincodehash = script,
      es_pc = script\<rparr>"

definition EvalScript :: "sig_checker \<Rightarrow> u32 \<Rightarrow> stack \<Rightarrow> CScript \<Rightarrow> ScriptError + stack" where
  "EvalScript checker flags s script =
     (if length script > 10000 then Inl SCRIPT_ERR_SCRIPT_SIZE
      else case EvalLoop checker flags (eval_start s script) of
             Inl e \<Rightarrow> Inl e
           | Inr st \<Rightarrow> if es_vfExec st \<noteq> [] then Inl SCRIPT_ERR_UNBALANCED_CONDITIONAL
                       else Inr (es_stack st))"

text \<open>\<open>VerifyScript\<close>; \<open>None\<close> is a failed \<open>assert(!stackCopy.empty())\<close>.\<close>

definition VerifyScript :: "sig_checker \<Rightarrow> u32 \<Rightarrow> CScript \<Rightarrow> CScript \<Rightarrow> (ScriptError + unit) option" where
  "VerifyScript checker flags scriptSig scriptPubKey =
     (if has_flag flags SCRIPT_VERIFY_SIGPUSHONLY \<and> \<not> IsPushOnly scriptSig
      then Some (Inl SCRIPT_ERR_SIG_PUSHONLY)
      else case EvalScript checker flags [] scriptSig of
        Inl e \<Rightarrow> Some (Inl e)
      | Inr stackCopy \<Rightarrow>
     (case EvalScript checker flags stackCopy scriptPubKey of
        Inl e \<Rightarrow> Some (Inl e)
      | Inr s \<Rightarrow>
     (if s = [] then Some (Inl SCRIPT_ERR_EVAL_FALSE)
      else if CastToBool (hd s) = False then Some (Inl SCRIPT_ERR_EVAL_FALSE)
      else if has_flag flags SCRIPT_VERIFY_P2SH \<and> IsPayToScriptHash scriptPubKey then
        (if \<not> IsPushOnly scriptSig then Some (Inl SCRIPT_ERR_SIG_PUSHONLY)
         else case stackCopy of
           [] \<Rightarrow> None
         | pubKeySerialized # stackCopy1 \<Rightarrow>
            (case EvalScript checker flags stackCopy1 pubKeySerialized of
               Inl e \<Rightarrow> Some (Inl e)
             | Inr s2 \<Rightarrow>
                if s2 = [] then Some (Inl SCRIPT_ERR_EVAL_FALSE)
                else if \<not> CastToBool (hd s2) then Some (Inl SCRIPT_ERR_EVAL_FALSE)
                else Some (Inr ())))
      else Some (Inr ()))))"

end
