(* ===== verification/InterpreterFlags.thy ===== *)
theory InterpreterFlags
  imports Interpreter
begin

text \<open>
  Verification flags only restrict. The interpreter is run with different flag sets by
  block validation, by the mempool and by the wallet; a script pair that is accepted under
  a set of flags is accepted under every smaller one, so adding a flag is a soft fork.
\<close>

section \<open>Acceptance under fewer flags, group by group\<close>

lemma if_eq_keepI:
  "(if c then a else b) = x \<Longrightarrow> (c \<Longrightarrow> a = x \<Longrightarrow> a' = x) \<Longrightarrow> (\<not> c \<Longrightarrow> b = x \<Longrightarrow> b' = x) \<Longrightarrow>
   (if c then a' else b') = x"
  by (cases c) simp_all

lemma CScriptNum_mono: "CScriptNum v m' = Some n \<Longrightarrow> m \<longrightarrow> m' \<Longrightarrow> CScriptNum v m = Some n"
  by (auto simp: CScriptNum_def split: if_splits)

lemma on_stack_mono:
  "on_stack f st = Inr st' \<Longrightarrow> (\<And>s. f (es_stack st) = Inr s \<Longrightarrow> g (es_stack st) = Inr s) \<Longrightarrow> on_stack g st = Inr st'"
  by (auto simp: on_stack_def split: sum.splits)

lemma stack_op_mono:
  assumes "stack_op m' opcode s = Inr r" and "m \<longrightarrow> m'"
  shows "stack_op m opcode s = Inr r"
proof (cases "m = m'")
  case False
  with assms(2) have m: "\<not> m" "m'" by auto
  have "CScriptNum v True = Some n \<Longrightarrow> CScriptNum v False = Some n" for v n
    by (rule CScriptNum_mono) simp_all
  then have "(case CScriptNum v True of None \<Rightarrow> Inl e | Some n \<Rightarrow> g n) = Inr x \<Longrightarrow>
      (case CScriptNum v False of None \<Rightarrow> Inl e | Some n \<Rightarrow> g n) = Inr x" for v e x and g :: "int \<Rightarrow> ScriptError + stack"
    by (cases "CScriptNum v True") auto
  then show ?thesis
    using assms(1) m unfolding stack_op_def by (simp only: simp_thms) (elim if_eq_keepI, assumption+)
qed (use assms in simp)

lemma num1_op_mono:
  assumes "num1_op m' opcode s = Inr r" and "m \<longrightarrow> m'"
  shows "num1_op m opcode s = Inr r"
  using assms(1) unfolding num1_op_def
  by (auto dest: CScriptNum_mono [OF _ assms(2)] split: list.splits option.splits)

lemma num2_op_mono:
  assumes "num2_op m' opcode s = Inr r" and "m \<longrightarrow> m'"
  shows "num2_op m opcode s = Inr r"
proof -
  obtain x2 x1 t where s: "s = x2 # x1 # t"
    using assms(1) by (auto simp: num2_op_def split: list.splits)
  obtain n1 n2 where n: "CScriptNum x1 m' = Some n1" "CScriptNum x2 m' = Some n2"
    using assms(1) s by (auto simp: num2_op_def split: option.splits)
  with CScriptNum_mono [OF n(1) assms(2)] CScriptNum_mono [OF n(2) assms(2)] assms(1) s show ?thesis
    by (simp add: num2_op_def)
qed

lemma within_op_mono:
  assumes "within_op m' s = Inr r" and "m \<longrightarrow> m'"
  shows "within_op m s = Inr r"
proof -
  obtain x3 x2 x1 t where s: "s = x3 # x2 # x1 # t"
    using assms(1) by (auto simp: within_op_def split: list.splits)
  obtain n1 n2 n3 where n: "CScriptNum x1 m' = Some n1" "CScriptNum x2 m' = Some n2" "CScriptNum x3 m' = Some n3"
    using assms(1) s by (auto simp: within_op_def split: option.splits)
  with n [THEN CScriptNum_mono [OF _ assms(2)]] assms(1) s show ?thesis
    by (simp add: within_op_def)
qed

lemma checksig_op_mono:
  "f AND f' = f \<Longrightarrow> checksig_op checker f' opcode c s = Inr r \<Longrightarrow> checksig_op checker f opcode c s = Inr r"
  by (auto simp: checksig_op_def Let_def CheckSignatureEncoding_mono CheckPubKeyEncoding_mono
      split: list.splits sum.splits)

lemma multisig_loop_mono:
  "f AND f' = f \<Longrightarrow> multisig_loop checker f' sc sigs keys = Inr b \<Longrightarrow> multisig_loop checker f sc sigs keys = Inr b"
proof (induction checker f' sc sigs keys rule: multisig_loop.induct)
  case (2 checker flags scriptCode vchSig sigs vchPubKey keys)
  then show ?case
    by (auto simp: Let_def CheckSignatureEncoding_mono CheckPubKeyEncoding_mono
        split: sum.splits if_splits)
qed simp_all

lemma multisig_op_mono:
  assumes "f AND f' = f" "multisig_op checker f' opcode c n s = Inr r"
  shows "multisig_op checker f opcode c n s = Inr r"
proof -
  have m: "has_flag f b \<longrightarrow> has_flag f' b" for b using assms(1) has_flag_mono by blast
  show ?thesis
    using assms(2) unfolding multisig_op_def Let_def
    apply (elim if_eq_InrE option_eq_InrE sum_eq_InrE)
    apply (drule CScriptNum_mono [OF _ m] multisig_loop_mono [OF assms(1)])+
    apply (simp split: list.splits)
    using m by (auto split: if_splits)
qed

lemma control_op_mono:
  assumes "f AND f' = f" "control_op f' b opcode st = Inr st'"
  shows "control_op f b opcode st = Inr st'"
  using assms(2) unfolding control_op_def
  by (elim if_eq_keepI) (auto dest: has_flag_mono [OF assms(1)] split: if_splits)

section \<open>The whole interpreter\<close>

lemma exec_op_mono:
  assumes sub: "f AND f' = f" and e: "exec_op checker f' b opcode st = Inr st'"
  shows "exec_op checker f b opcode st = Inr st'"
proof -
  have m: "has_flag f x \<longrightarrow> has_flag f' x" for x using sub has_flag_mono by blast
  show ?thesis
    using e unfolding exec_op_def Let_def
    by (elim if_eq_keepI)
       (assumption | erule on_stack_mono control_op_mono [OF sub] stack_op_mono [OF _ m] num1_op_mono [OF _ m]
          num2_op_mono [OF _ m] within_op_mono [OF _ m] checksig_op_mono [OF sub]
        | auto dest: multisig_op_mono [OF sub] split: sum.splits)+
qed

lemma exec_phase_mono:
  assumes sub: "f AND f' = f" and e: "exec_phase checker f' b opcode vch st = Inr st'"
  shows "exec_phase checker f b opcode vch st = Inr st'"
  using e unfolding exec_phase_def
  by (elim if_eq_keepI) (auto dest: has_flag_mono [OF sub] exec_op_mono [OF sub] split: if_splits)

lemma EvalStep_mono:
  assumes sub: "f AND f' = f" and e: "EvalStep checker f' st = Inr st'"
  shows "EvalStep checker f st = Inr st'"
  using e
proof (cases rule: EvalStep_InrE)
  case (1 pc opcode vch)
  then show ?thesis using exec_phase_mono [OF sub 1(5)] by (auto simp: EvalStep_def Let_def)
qed

lemma EvalLoop_mono:
  "f AND f' = f \<Longrightarrow> EvalLoop checker f' st = Inr st' \<Longrightarrow> EvalLoop checker f st = Inr st'"
proof (induction checker f' st rule: EvalLoop.induct)
  case (1 checker f' st)
  show ?case
  proof (cases "es_pc st = []")
    case True
    with 1 show ?thesis by (simp add: EvalLoop.simps)
  next
    case False
    with 1(3) obtain st1 where "EvalStep checker f' st = Inr st1" "EvalLoop checker f' st1 = Inr st'"
      by (subst (asm) EvalLoop.simps) (auto split: sum.splits)
    with 1(1) [OF False] 1(2) False show ?thesis
      by (subst EvalLoop.simps) (simp add: EvalStep_mono [OF 1(2)])
  qed
qed

lemma EvalScript_mono:
  assumes sub: "f AND f' = f" and e: "EvalScript checker f' s script = Inr r"
  shows "EvalScript checker f s script = Inr r"
  using e by (auto simp: EvalScript_def EvalLoop_mono [OF sub] split: if_splits sum.splits)

text \<open>C1. Flags are soft forks: if a spend is accepted under some verification flags, it is accepted
  under every subset of them.\<close>

theorem VerifyScript_flags_mono:
  assumes "flags AND flags' = flags" and "VerifyScript checker flags' scriptSig scriptPubKey = Some (Inr ())"
  shows "VerifyScript checker flags scriptSig scriptPubKey = Some (Inr ())"
proof -
  have m: "has_flag flags x \<Longrightarrow> has_flag flags' x" for x using assms(1) has_flag_mono by blast
  obtain s1 s2 where "EvalScript checker flags' [] scriptSig = Inr s1"
    "EvalScript checker flags' s1 scriptPubKey = Inr s2"
    using assms(2) by (auto simp: VerifyScript_def split: if_splits sum.splits)
  note e = this this [THEN EvalScript_mono [OF assms(1)]]
  have "has_flag flags' SCRIPT_VERIFY_SIGPUSHONLY \<longrightarrow> IsPushOnly scriptSig" "s2 \<noteq> []" "CastToBool (hd s2)"
    using assms(2) e by (auto simp: VerifyScript_def split: if_splits)
  then show ?thesis
    using assms(2) e m [of SCRIPT_VERIFY_SIGPUSHONLY] m [of SCRIPT_VERIFY_P2SH]
    by (auto simp: VerifyScript_def EvalScript_mono [OF assms(1)] split: if_splits list.splits sum.splits)
qed

theorem VerifyScript_flags_mono_witness:
  "VerifyScript (\<lambda>_ _ _. False) SCRIPT_VERIFY_P2SH [0x51] [0x51, 0x87] = Some (Inr ())"
proof (rule VerifyScript_flags_mono [of _ 255])
  show "VerifyScript (\<lambda>_ _ _. False) 255 [0x51] [0x51, 0x87] = Some (Inr ())"
    by code_simp
qed simp

end
