(* ===== verification/InterpreterLimits.thy ===== *)
theory InterpreterLimits
  imports Interpreter
begin

text \<open>
  The interpreter as a state machine: the states that evaluation of a script can reach, and
  the resource limits that hold in all of them.
\<close>

section \<open>Reachable states\<close>

inductive eval_reach :: "sig_checker \<Rightarrow> u32 \<Rightarrow> eval_state \<Rightarrow> eval_state \<Rightarrow> bool" for checker flags where
  reach_start: "eval_reach checker flags st st"
| reach_step: "eval_reach checker flags st st1 \<Longrightarrow> es_pc st1 \<noteq> [] \<Longrightarrow> EvalStep checker flags st1 = Inr st2 \<Longrightarrow>
    eval_reach checker flags st st2"

inductive_cases eval_reachE: "eval_reach checker flags st st'"

lemma eval_reach_trans:
  "eval_reach checker flags st1 st2 \<Longrightarrow> eval_reach checker flags st st1 \<Longrightarrow> eval_reach checker flags st st2"
  by (induction rule: eval_reach.induct) (auto intro: eval_reach.intros)

lemma EvalLoop_reach:
  "EvalLoop checker flags st = Inr st' \<Longrightarrow> eval_reach checker flags st st' \<and> es_pc st' = []"
proof (induction checker flags st rule: EvalLoop.induct)
  case (1 checker flags st)
  show ?case
  proof (cases "es_pc st = []")
    case True
    with 1 show ?thesis by (simp add: EvalLoop.simps reach_start)
  next
    case False
    with 1(2) obtain st1 where e: "EvalStep checker flags st = Inr st1" "EvalLoop checker flags st1 = Inr st'"
      by (subst (asm) EvalLoop.simps) (auto split: sum.splits)
    with 1(1) [OF False] reach_step [OF reach_start False e(1)] show ?thesis
      by (auto intro: eval_reach_trans)
  qed
qed

section \<open>Element sizes\<close>

definition elems_ok :: "stack \<Rightarrow> bool" where
  "elems_ok s \<longleftrightarrow> (\<forall>x \<in> set s. length x \<le> MAX_SCRIPT_ELEMENT_SIZE)"

lemma elems_ok_simps [simp]:
  "elems_ok []"
  "elems_ok (x # s) \<longleftrightarrow> length x \<le> MAX_SCRIPT_ELEMENT_SIZE \<and> elems_ok s"
  "elems_ok (s @ t) \<longleftrightarrow> elems_ok s \<and> elems_ok t"
  by (auto simp: elems_ok_def)

lemma elems_ok_parts: "elems_ok s \<Longrightarrow> elems_ok (take n s)" "elems_ok s \<Longrightarrow> elems_ok (drop n s)"
  "elems_ok s \<Longrightarrow> elems_ok (tl s)"
  by (auto simp: elems_ok_def dest: in_set_takeD in_set_dropD list.set_sel(2) [rotated]) (metis list.set_sel(2) tl_Nil)

lemma serialize_length_ge: "length (CScriptNum_serialize n) \<le> Suc (length (abs_bytes (nat \<bar>n\<bar>)))"
  by (simp add: CScriptNum_serialize_def Let_def)

lemma serialize_fits: "\<bar>n\<bar> < 2 ^ 64 \<Longrightarrow> length (CScriptNum_serialize n) \<le> MAX_SCRIPT_ELEMENT_SIZE"
  using serialize_length_ge [of n] abs_bytes_length [of "nat \<bar>n\<bar>" 8] by (simp add: nat_less_iff)

lemma vch_bool_fits [simp]: "length (vch_bool b) \<le> MAX_SCRIPT_ELEMENT_SIZE"
  by (simp add: vch_bool_def)

lemma operand_bound: "CScriptNum v m = Some n \<Longrightarrow> \<bar>n\<bar> < 2 ^ 31"
  using sn_value_bound by (auto simp: CScriptNum_eq split: if_splits)

lemma if_bound: "\<bar>a\<bar> \<le> k \<Longrightarrow> \<bar>b\<bar> \<le> k \<Longrightarrow> \<bar>if c then a else b\<bar> \<le> (k :: int)"
  by simp

lemma num1_value_bound: "\<bar>n\<bar> < 2 ^ 31 \<Longrightarrow> \<bar>num1_value opcode n\<bar> \<le> 2 ^ 31"
  unfolding num1_value_def by (intro if_bound) auto

lemma num2_value_bound: "\<bar>n1\<bar> < 2 ^ 31 \<Longrightarrow> \<bar>n2\<bar> < 2 ^ 31 \<Longrightarrow> \<bar>num2_value opcode n1 n2\<bar> \<le> 2 ^ 32"
  unfolding num2_value_def by (intro if_bound) auto

lemma num1_fits: "\<bar>n\<bar> < 2 ^ 31 \<Longrightarrow> length (CScriptNum_serialize (num1_value opcode n)) \<le> MAX_SCRIPT_ELEMENT_SIZE"
  by (rule serialize_fits) (use num1_value_bound [of n opcode] in simp)

lemma num2_fits:
  "\<bar>n1\<bar> < 2 ^ 31 \<Longrightarrow> \<bar>n2\<bar> < 2 ^ 31 \<Longrightarrow>
   length (CScriptNum_serialize (num2_value opcode n1 n2)) \<le> MAX_SCRIPT_ELEMENT_SIZE"
  by (rule serialize_fits) (use num2_value_bound [of n1 n2 opcode] in simp)

section \<open>Every group keeps the element limit\<close>

lemma push_const_fits: "push_const_op opcode s = Inr r \<Longrightarrow> opcode < 256 \<Longrightarrow> elems_ok s \<Longrightarrow> elems_ok r"
  by (auto simp: push_const_op_def intro!: serialize_fits)

lemma serialize_size_fits: "n \<le> 1000 \<Longrightarrow> length (CScriptNum_serialize (int n)) \<le> MAX_SCRIPT_ELEMENT_SIZE"
  by (rule serialize_fits) simp

lemma nth_fits: "elems_ok s \<Longrightarrow> i < length s \<Longrightarrow> length (s ! i) \<le> MAX_SCRIPT_ELEMENT_SIZE"
  by (simp add: elems_ok_def)

lemma stack_op_fits:
  assumes "stack_op m opcode s = Inr r" "elems_ok s" "length s \<le> 1000"
  shows "elems_ok r"
  using assms(1)
  unfolding stack_op_def Let_def
  by (elim if_eq_InrE if_eq_dropE option_eq_InrE)
     (use assms(2,3) in \<open>auto simp: elems_ok_parts nth_fits serialize_size_fits split: list.split_asm\<close>)

lemma equal_op_fits: "equal_op opcode s = Inr r \<Longrightarrow> elems_ok s \<Longrightarrow> elems_ok r"
  by (auto simp: equal_op_def Let_def split: list.splits if_splits)

lemma num1_op_fits: "num1_op m opcode s = Inr r \<Longrightarrow> elems_ok s \<Longrightarrow> elems_ok r"
  by (auto simp: num1_op_def num1_fits [OF operand_bound] split: list.splits option.splits)

lemma num2_op_fits: "num2_op m opcode s = Inr r \<Longrightarrow> elems_ok s \<Longrightarrow> elems_ok r"
  by (auto simp: num2_op_def Let_def num2_fits [OF operand_bound operand_bound]
      split: list.splits option.splits if_splits)

lemma within_op_fits: "within_op m s = Inr r \<Longrightarrow> elems_ok s \<Longrightarrow> elems_ok r"
  by (auto simp: within_op_def split: list.splits option.splits)

lemma hash_op_fits: "hash_op opcode s = Inr r \<Longrightarrow> elems_ok s \<Longrightarrow> elems_ok r"
  by (cases s) (auto simp: hash_op_digests hash_op_def [of _ "[]"])

lemma checksig_op_fits: "checksig_op checker flags opcode c s = Inr r \<Longrightarrow> elems_ok s \<Longrightarrow> elems_ok r"
  by (auto simp: checksig_op_def Let_def split: list.splits sum.splits if_splits)

lemma drop_fits: "drop k s = x # r \<Longrightarrow> elems_ok s \<Longrightarrow> elems_ok r"
  using elems_ok_parts(2) [of s k] by simp

lemma multisig_op_fits:
  assumes "multisig_op checker flags opcode c n s = Inr (n', r)" "elems_ok s"
  shows "elems_ok r \<and> n' \<le> 201"
  using assms unfolding multisig_op_def Let_def
  by (elim if_eq_InrE option_eq_InrE sum_eq_InrE)
     (auto split: list.splits if_splits dest: drop_fits)

lemma control_op_fits:
  assumes "control_op flags b opcode st = Inr st'" "elems_ok (es_stack st)"
  shows "elems_ok (es_stack st') \<and> es_altstack st' = es_altstack st \<and> es_nOpCount st' = es_nOpCount st"
  using assms unfolding control_op_def Let_def
  by (elim if_eq_dropE) (auto split: list.splits if_splits)

lemma alt_op_fits:
  assumes "alt_op opcode st = Inr st'" "elems_ok (es_stack st)" "elems_ok (es_altstack st)"
  shows "elems_ok (es_stack st') \<and> elems_ok (es_altstack st') \<and> es_nOpCount st' = es_nOpCount st"
  using assms by (auto simp: alt_op_def split: list.splits if_splits)

section \<open>The invariant\<close>

definition limits_ok :: "eval_state \<Rightarrow> bool" where
  "limits_ok st \<longleftrightarrow>
     length (es_stack st) + length (es_altstack st) \<le> 1000 \<and> es_nOpCount st \<le> 201 \<and>
     elems_ok (es_stack st) \<and> elems_ok (es_altstack st)"

lemma on_stack_limits:
  assumes "on_stack f st = Inr st'" "limits_ok st"
    and "\<And>s r. f s = Inr r \<Longrightarrow> elems_ok s \<Longrightarrow> length s \<le> 1000 \<Longrightarrow> elems_ok r"
  shows "elems_ok (es_stack st') \<and> elems_ok (es_altstack st') \<and> es_nOpCount st' \<le> 201"
  using assms(1,2) by (auto simp: limits_ok_def elim!: on_stack_InrE intro: assms(3))

lemma exec_op_limits:
  assumes "exec_op checker flags b opcode st = Inr st'" "limits_ok st" "opcode < 256"
  shows "elems_ok (es_stack st') \<and> elems_ok (es_altstack st') \<and> es_nOpCount st' \<le> 201"
  using assms(1)
proof (cases rule: exec_op_cases)
  case const
  then show ?thesis by (rule on_stack_limits [OF _ assms(2)]) (erule (1) push_const_fits [OF _ assms(3)])
next
  case control
  with control_op_fits [OF control] assms(2) show ?thesis by (simp add: limits_ok_def)
next
  case alt
  with alt_op_fits [OF alt] assms(2) show ?thesis by (simp add: limits_ok_def)
next
  case codesep
  with assms(2) show ?thesis by (simp add: limits_ok_def)
next
  case multisig
  with multisig_op_fits [OF multisig(1)] assms(2) show ?thesis by (simp add: limits_ok_def)
qed (erule on_stack_limits [OF _ assms(2)],
     (erule (2) stack_op_fits | erule (1) equal_op_fits num1_op_fits num2_op_fits within_op_fits hash_op_fits
       checksig_op_fits))+

lemma GetOp2_opcode: "GetOp2 pc = (True, pc', opcode, vch) \<Longrightarrow> opcode < 256"
  using unat_u8_bound by (auto simp: GetOp2_def Let_def split: list.splits if_splits)

lemma EvalStep_limits:
  assumes "EvalStep checker flags st = Inr st'" "limits_ok st"
  shows "limits_ok st'"
  using assms(1)
proof (cases rule: EvalStep_InrE)
  case (1 pc opcode vch)
  let ?st = "st\<lparr>es_pc := pc, es_nOpCount := es_nOpCount st + (if opcode > OP_16 then 1 else 0)\<rparr>"
  have "limits_ok ?st" using 1(3) assms(2) by (auto simp: limits_ok_def)
  moreover have "opcode < 256" using 1(1) by (rule GetOp2_opcode)
  ultimately have "elems_ok (es_stack st') \<and> elems_ok (es_altstack st') \<and> es_nOpCount st' \<le> 201"
    using 1(5) exec_op_limits [of checker flags _ opcode ?st st'] 1(2)
    unfolding exec_phase_def by (elim if_eq_dropE) (auto simp: limits_ok_def)
  with 1(6) show ?thesis by (simp add: limits_ok_def)
qed

lemma exec_op_codehash:
  assumes "exec_op checker flags b opcode st = Inr st'"
  shows "es_pbegincodehash st' = es_pbegincodehash st \<or> es_pbegincodehash st' = es_pc st"
  using assms
proof (cases rule: exec_op_cases)
  case control
  then show ?thesis
    unfolding control_op_def Let_def by (elim if_eq_dropE) (auto split: list.splits if_splits)
next
  case alt
  then show ?thesis by (auto simp: alt_op_def split: list.splits if_splits)
qed (auto elim: on_stack_InrE)

lemma EvalStep_suffixes:
  assumes "EvalStep checker flags st = Inr st'" "suffix (es_pc st) script" "suffix (es_pbegincodehash st) script"
  shows "suffix (es_pc st') script \<and> suffix (es_pbegincodehash st') script"
  using assms(1)
proof (cases rule: EvalStep_InrE)
  case (1 pc opcode vch)
  have "suffix pc script" using GetOp2_suffix [OF 1(1)] assms(2) by (rule suffix_order.trans)
  moreover have "es_pc st' = pc" using exec_phase_pc [OF 1(5)] by simp
  moreover have "es_pbegincodehash st' = es_pbegincodehash st \<or> es_pbegincodehash st' = pc"
    using 1(5) unfolding exec_phase_def
    by (elim if_eq_dropE) (auto dest: exec_op_codehash)
  ultimately show ?thesis using assms(3) by auto
qed

text \<open>C2. Resource limits: in every state that evaluation of a script reaches, the two stacks hold at
  most 1000 elements together, no element is longer than 520 bytes, at most 201 operations
  have been counted, and both the program counter and the start of the signed code are
  positions inside the script.\<close>

theorem eval_resource_limits:
  assumes "eval_reach checker flags (eval_start s script) st" and "length s \<le> 1000" and "elems_ok s"
  shows "length (es_stack st) + length (es_altstack st) \<le> 1000 \<and> es_nOpCount st \<le> 201 \<and>
    elems_ok (es_stack st) \<and> elems_ok (es_altstack st) \<and>
    suffix (es_pc st) script \<and> suffix (es_pbegincodehash st) script"
proof -
  have "limits_ok st \<and> suffix (es_pc st) script \<and> suffix (es_pbegincodehash st) script"
    using assms
  proof (induction "eval_start s script" st rule: eval_reach.induct)
    case reach_start
    then show ?case by (simp add: limits_ok_def eval_start_def)
  next
    case (reach_step st1 st2)
    then show ?case using EvalStep_limits EvalStep_suffixes by blast
  qed
  then show ?thesis by (simp add: limits_ok_def)
qed

theorem eval_resource_limits_witness:
  "suffix [0x87] [0x51, 0x51, 0x87 :: u8]"
proof -
  let ?s0 = "eval_start [] [0x51, 0x51, 0x87]"
  let ?s1 = "?s0\<lparr>es_stack := [[1]], es_pc := [0x51, 0x87]\<rparr>"
  let ?s2 = "?s0\<lparr>es_stack := [[1], [1]], es_pc := [0x87]\<rparr>"
  have "EvalStep (\<lambda>_ _ _. False) 0 ?s0 = Inr ?s1" "EvalStep (\<lambda>_ _ _. False) 0 ?s1 = Inr ?s2"
    by code_simp+
  then have "eval_reach (\<lambda>_ _ _. False) 0 ?s0 ?s2"
    by (auto intro!: reach_step [OF reach_step [OF reach_start]] simp: eval_start_def)
  from eval_resource_limits [OF this] show ?thesis by (simp add: eval_start_def)
qed

end
