(* ===== verification/Serialize.thy ===== *)
theory Serialize
  imports Prelude
begin

text \<open>
  Serialization, \<open>src/serialize.h\<close>. A stream that is read is its unread bytes; a reader
  returns the value and the bytes that are left, or the exception it throws. The codecs
  share one contract, the locale \<open>codec\<close>: what was written is read back, and nothing but
  what is written for a value is read as that value.
\<close>

section \<open>Streams and fixed-size data\<close>

datatype ser_error =
    end_of_data
  | non_canonical_size
  | size_too_large

type_synonym 'a reader = "bytes \<Rightarrow> ser_error + 'a \<times> bytes"

definition read_bytes :: "nat \<Rightarrow> bytes reader" where
  "read_bytes n bs = (if length bs < n then Inl end_of_data else Inr (take n bs, drop n bs))"

text \<open>\<open>WRITEDATA\<close> and \<open>READDATA\<close> of an unsigned integer of \<open>k\<close> bytes on a little-endian machine.\<close>

definition Serialize_uint :: "nat \<Rightarrow> 'a::len word \<Rightarrow> bytes" where
  "Serialize_uint k w = to_le k (unat w)"

definition Unserialize_uint :: "nat \<Rightarrow> 'a::len word reader" where
  "Unserialize_uint k bs =
     (case read_bytes k bs of Inl e \<Rightarrow> Inl e | Inr (d, r) \<Rightarrow> Inr (word_of_nat (le_nat d), r))"

text \<open>A signed 64-bit integer, kept as an integer.\<close>

definition Serialize_int64 :: "int \<Rightarrow> bytes" where
  "Serialize_int64 v = Serialize_uint 8 (word_of_int v :: u64)"

definition Unserialize_int64 :: "int reader" where
  "Unserialize_int64 bs =
     (case Unserialize_uint 8 bs of Inl e \<Rightarrow> Inl e | Inr (w, r) \<Rightarrow> Inr (sint (w :: u64), r))"

section \<open>Compact sizes\<close>

abbreviation (input) MAX_SIZE :: nat where "MAX_SIZE \<equiv> 0x02000000"

definition GetSizeOfCompactSize :: "nat \<Rightarrow> nat" where
  "GetSizeOfCompactSize nSize =
     (if nSize < 253 then 1
      else if nSize \<le> 0xffff then 1 + 2
      else if nSize \<le> 0xffffffff then 1 + 4
      else 1 + 8)"

definition WriteCompactSize :: "nat \<Rightarrow> bytes" where
  "WriteCompactSize nSize =
     (if nSize < 253 then [word_of_nat nSize]
      else if nSize \<le> 0xffff then 253 # to_le 2 nSize
      else if nSize \<le> 0xffffffff then 254 # to_le 4 nSize
      else 255 # to_le 8 nSize)"

definition ReadCompactSize :: "nat reader" where
  "ReadCompactSize bs =
     (case bs of
        [] \<Rightarrow> Inl end_of_data
      | chSize # r \<Rightarrow>
         (let big = (\<lambda>k lo. case read_bytes k r of
                Inl e \<Rightarrow> Inl e
              | Inr (d, r') \<Rightarrow>
                 (let nSizeRet = le_nat d
                  in if nSizeRet < lo then Inl non_canonical_size
                     else if nSizeRet > MAX_SIZE then Inl size_too_large
                     else Inr (nSizeRet, r')))
          in if chSize < 253 then Inr (unat chSize, r)
             else if chSize = 253 then big 2 253
             else if chSize = 254 then big 4 0x10000
             else big 8 0x100000000))"

section \<open>Variable-length integers\<close>

text \<open>
  The loop of \<open>WriteVarInt\<close> fills \<open>tmp\<close> from the least significant digit, and the digits are
  written in reverse. \<open>fst\<close> says whether a digit is the first one of the loop.
\<close>

fun varint_digits :: "nat \<Rightarrow> nat \<Rightarrow> bytes" where
  "varint_digits flag n =
     (if n \<le> 0x7F then [word_of_nat (n mod 128 + flag)]
      else word_of_nat (n mod 128 + flag) # varint_digits 0x80 (n div 128 - 1))"

declare varint_digits.simps [simp del]

definition WriteVarInt :: "nat \<Rightarrow> bytes" where
  "WriteVarInt n = rev (varint_digits 0 n)"

function GetSizeOfVarInt :: "nat \<Rightarrow> nat" where
  "GetSizeOfVarInt n = (if n \<le> 0x7F then 1 else 1 + GetSizeOfVarInt (n div 128 - 1))"
  by pat_completeness auto
termination by (relation "measure id") auto

declare GetSizeOfVarInt.simps [simp del]

text \<open>\<open>ReadVarInt\<close> into an unsigned type of \<open>w\<close> bits, which wraps around.\<close>

fun read_varint_loop :: "nat \<Rightarrow> nat \<Rightarrow> nat reader" where
  "read_varint_loop w n [] = Inl end_of_data"
| "read_varint_loop w n (chData # r) =
     (let n1 = (n * 128 + unat (chData AND 0x7F)) mod 2 ^ w
      in if chData AND 0x80 \<noteq> 0 then read_varint_loop w ((n1 + 1) mod 2 ^ w) r
         else Inr (n1, r))"

definition ReadVarInt :: "nat \<Rightarrow> nat reader" where
  "ReadVarInt w bs = read_varint_loop w 0 bs"

section \<open>Vectors\<close>

text \<open>Byte vectors are read in blocks of at most 5000000 bytes.\<close>

function read_blocks :: "nat \<Rightarrow> bytes reader" where
  "read_blocks n bs =
     (if n = 0 then Inr ([], bs)
      else let blk = min n 5000000
           in case read_bytes blk bs of
                Inl e \<Rightarrow> Inl e
              | Inr (d, r) \<Rightarrow>
                 (case read_blocks (n - blk) r of
                    Inl e \<Rightarrow> Inl e
                  | Inr (ds, r') \<Rightarrow> Inr (d @ ds, r')))"
  by pat_completeness auto
termination by (relation "measure fst") auto

declare read_blocks.simps [simp del]

definition Serialize_bytes :: "bytes \<Rightarrow> bytes" where
  "Serialize_bytes v = WriteCompactSize (length v) @ v"

definition Unserialize_bytes :: "bytes reader" where
  "Unserialize_bytes bs =
     (case ReadCompactSize bs of Inl e \<Rightarrow> Inl e | Inr (nSize, r) \<Rightarrow> read_blocks nSize r)"

text \<open>Other vectors are read element by element; the batches only steer the allocation.\<close>

fun read_elems :: "'a reader \<Rightarrow> nat \<Rightarrow> 'a list reader" where
  "read_elems rd 0 bs = Inr ([], bs)"
| "read_elems rd (Suc n) bs =
     (case rd bs of
        Inl e \<Rightarrow> Inl e
      | Inr (x, r) \<Rightarrow>
         (case read_elems rd n r of Inl e \<Rightarrow> Inl e | Inr (xs, r') \<Rightarrow> Inr (x # xs, r')))"

definition Serialize_vector :: "('a \<Rightarrow> bytes) \<Rightarrow> 'a list \<Rightarrow> bytes" where
  "Serialize_vector wr v = WriteCompactSize (length v) @ concat (map wr v)"

definition Unserialize_vector :: "'a reader \<Rightarrow> 'a list reader" where
  "Unserialize_vector rd bs =
     (case ReadCompactSize bs of Inl e \<Rightarrow> Inl e | Inr (nSize, r) \<Rightarrow> read_elems rd nSize r)"

section \<open>The contract of a codec\<close>

locale codec =
  fixes wr :: "'a \<Rightarrow> bytes" and rd :: "'a reader" and valid :: "'a \<Rightarrow> bool"
  assumes read_write: "valid x \<Longrightarrow> rd (wr x @ r) = Inr (x, r)"
    and read_canonical: "rd bs = Inr (x, r) \<Longrightarrow> valid x \<and> bs = wr x @ r"
begin

lemma unique_decoding:
  assumes "valid x" "valid y" "wr x @ r = wr y @ t"
  shows "x = y \<and> r = t"
proof -
  have "Inr (x, r) = rd (wr y @ t)" using read_write [OF assms(1), of r] assms(3) by (simp only:)
  then show ?thesis by (simp only: read_write [OF assms(2)] sum.inject prod.inject)
qed

lemma write_inject: "valid x \<Longrightarrow> valid y \<Longrightarrow> wr x = wr y \<longleftrightarrow> x = y"
  using unique_decoding [of x y "[]" "[]"] by (metis append_Nil2)

lemma read_iff: "rd bs = Inr (x, r) \<longleftrightarrow> valid x \<and> bs = wr x @ r"
  using read_write read_canonical by auto

lemma read_elems_iff:
  "read_elems rd n bs = Inr (xs, r) \<longleftrightarrow> length xs = n \<and> list_all valid xs \<and> bs = concat (map wr xs) @ r"
proof (induction n arbitrary: bs xs r)
  case (Suc n)
  show ?case
  proof
    assume "read_elems rd (Suc n) bs = Inr (xs, r)"
    then show "length xs = Suc n \<and> list_all valid xs \<and> bs = concat (map wr xs) @ r"
      using Suc.IH by (auto split: sum.splits simp: read_iff)
  next
    assume "length xs = Suc n \<and> list_all valid xs \<and> bs = concat (map wr xs) @ r"
    then obtain y ys where "xs = y # ys" "length ys = n" "valid y" "list_all valid ys"
      "bs = wr y @ concat (map wr ys) @ r"
      by (cases xs) auto
    then show "read_elems rd (Suc n) bs = Inr (xs, r)"
      using Suc.IH [of "concat (map wr ys) @ r" ys r] by (simp add: read_write)
  qed
qed auto

end

section \<open>The primitive codecs\<close>

lemma read_bytes_append [simp]: "length d = n \<Longrightarrow> read_bytes n (d @ r) = Inr (d, r)"
  by (simp add: read_bytes_def)

lemma read_bytes_iff: "read_bytes n bs = Inr (d, r) \<longleftrightarrow> length d = n \<and> bs = d @ r"
  by (auto simp: read_bytes_def)

lemma uint_codec: "LENGTH('a) = 8 * k \<Longrightarrow> codec (Serialize_uint k) (Unserialize_uint k) (\<lambda>_ :: 'a::len word. True)"
proof
  fix x :: "'a word" and r
  assume k: "LENGTH('a) = 8 * k"
  have p: "(256 :: nat) ^ k = 2 ^ LENGTH('a)" by (simp add: k power_mult)
  show "Unserialize_uint k (Serialize_uint k x @ r) = Inr (x, r)"
    using unsigned_less [of x]
    by (simp add: Unserialize_uint_def Serialize_uint_def le_nat_to_le p)
next
  fix bs and x :: "'a word" and r
  assume k: "LENGTH('a) = 8 * k" and "Unserialize_uint k bs = Inr (x, r)"
  then obtain d where d: "length d = k" "bs = d @ r" "x = word_of_nat (le_nat d)"
    by (auto simp: Unserialize_uint_def read_bytes_iff split: sum.splits)
  have "le_nat d < 2 ^ LENGTH('a)" using le_nat_bound [of d] d(1) by (simp add: k power_mult)
  then have "Serialize_uint k x = d"
    using to_le_le_nat [of d] d by (simp add: Serialize_uint_def unat_of_nat)
  then show "True \<and> bs = Serialize_uint k x @ r" using d by simp
qed

interpretation u32: codec "Serialize_uint 4" "Unserialize_uint 4" "\<lambda>_ :: u32. True"
  by (rule uint_codec) simp

interpretation u64: codec "Serialize_uint 8" "Unserialize_uint 8" "\<lambda>_ :: u64. True"
  by (rule uint_codec) simp

interpretation u256: codec "Serialize_uint 32" "Unserialize_uint 32" "\<lambda>_ :: 256 word. True"
  by (rule uint_codec) simp

definition int64_range :: "int \<Rightarrow> bool" where
  "int64_range v \<longleftrightarrow> - (2 ^ 63) \<le> v \<and> v < 2 ^ 63"

lemma sint_word_of_int64: "int64_range v \<Longrightarrow> sint (word_of_int v :: u64) = v"
  by (simp add: int64_range_def sint_sbintrunc' signed_take_bit_int_eq_self)

lemma int64_range_sint: "int64_range (sint (w :: u64))"
  using sint_range_size [of w] by (simp add: int64_range_def size_word_def)

interpretation int64: codec Serialize_int64 Unserialize_int64 int64_range
proof
  show "int64_range x \<Longrightarrow> Unserialize_int64 (Serialize_int64 x @ r) = Inr (x, r)" for x r
    by (simp add: Unserialize_int64_def Serialize_int64_def u64.read_write sint_word_of_int64)
  show "Unserialize_int64 bs = Inr (x, r) \<Longrightarrow> int64_range x \<and> bs = Serialize_int64 x @ r" for bs x r
    by (auto simp: Unserialize_int64_def Serialize_int64_def u64.read_iff int64_range_sint split: sum.splits)
qed

lemma le_nat_to_le_small: "n < 256 ^ k \<Longrightarrow> le_nat (to_le k n) = n"
  by (simp add: le_nat_to_le)

lemma to_le_of_le_nat: "length d = k \<Longrightarrow> to_le k (le_nat d) = d"
  using to_le_le_nat [of d] by simp

lemma u8_wide: "\<not> chSize < 253 \<Longrightarrow> chSize \<noteq> 253 \<Longrightarrow> chSize \<noteq> 254 \<Longrightarrow> chSize = (255 :: u8)"
  using unat_u8_bound [of chSize] by (simp add: word_less_nat_alt word_unat_eq_iff)

interpretation compact: codec WriteCompactSize ReadCompactSize "\<lambda>n. n \<le> MAX_SIZE"
proof
  fix n r
  assume "n \<le> MAX_SIZE"
  then consider "n < 253" | "253 \<le> n" "n \<le> 0xffff" | "0xffff < n" "n \<le> MAX_SIZE" by linarith
  then show "ReadCompactSize (WriteCompactSize n @ r) = Inr (n, r)"
  proof cases
    case 1
    then have "(word_of_nat n :: u8) < 253" by (simp add: word_less_nat_alt unat_of_nat)
    with 1 show ?thesis by (simp add: ReadCompactSize_def WriteCompactSize_def unat_of_nat Let_def)
  qed (simp_all add: ReadCompactSize_def WriteCompactSize_def le_nat_to_le_small Let_def)
next
  fix bs n r
  assume rd: "ReadCompactSize bs = Inr (n, r)"
  then obtain c t where bs: "bs = c # t" by (cases bs) (auto simp: ReadCompactSize_def)
  consider "c < 253" | "c = 253" | "c = 254" | "c = 255" using u8_wide by blast
  then show "n \<le> MAX_SIZE \<and> bs = WriteCompactSize n @ r"
  proof cases
    case 1
    then have "unat c < 253" by (simp add: word_less_nat_alt)
    with 1 rd bs show ?thesis by (auto simp: ReadCompactSize_def WriteCompactSize_def)
  next
    case 2
    with rd bs obtain d where d: "length d = 2" "t = d @ r" "n = le_nat d" "253 \<le> n" "n \<le> MAX_SIZE"
      by (auto simp: ReadCompactSize_def read_bytes_iff Let_def split: sum.splits if_splits)
    then show ?thesis
      using 2 bs le_nat_bound [of d] to_le_of_le_nat [of d 2] by (simp add: WriteCompactSize_def)
  next
    case 3
    with rd bs obtain d where d: "length d = 4" "t = d @ r" "n = le_nat d" "0x10000 \<le> n" "n \<le> MAX_SIZE"
      by (auto simp: ReadCompactSize_def read_bytes_iff Let_def split: sum.splits if_splits)
    then show ?thesis
      using 3 bs to_le_of_le_nat [of d 4] by (simp add: WriteCompactSize_def)
  next
    case 4
    with rd bs show ?thesis
      by (auto simp: ReadCompactSize_def Let_def split: sum.splits if_splits)
  qed
qed

lemma read_blocks_eq: "read_blocks n bs = read_bytes n bs"
proof (induction n bs rule: read_blocks.induct)
  case (1 n bs)
  show ?case
  proof (cases "n = 0")
    case True
    then show ?thesis by (simp add: read_blocks.simps read_bytes_def)
  next
    case False
    define blk where "blk = min n 5000000"
    have "blk \<le> n" by (simp add: blk_def)
    with 1 [OF False blk_def] show ?thesis
      by (subst read_blocks.simps)
         (auto simp: False Let_def blk_def [symmetric] read_bytes_def add.commute take_add [symmetric]
           simp flip: take_add)
  qed
qed

interpretation bytevec: codec Serialize_bytes Unserialize_bytes "\<lambda>v. length v \<le> MAX_SIZE"
proof
  show "length x \<le> MAX_SIZE \<Longrightarrow> Unserialize_bytes (Serialize_bytes x @ r) = Inr (x, r)" for x r
    by (simp add: Unserialize_bytes_def Serialize_bytes_def compact.read_write read_blocks_eq)
  show "Unserialize_bytes bs = Inr (x, r) \<Longrightarrow> length x \<le> MAX_SIZE \<and> bs = Serialize_bytes x @ r" for bs x r
    by (auto simp: Unserialize_bytes_def Serialize_bytes_def compact.read_iff read_blocks_eq read_bytes_iff
        split: sum.splits)
qed

context codec
begin

lemma vector_codec:
  "codec (Serialize_vector wr) (Unserialize_vector rd) (\<lambda>xs. length xs \<le> MAX_SIZE \<and> list_all valid xs)"
proof
  show "length x \<le> MAX_SIZE \<and> list_all valid x \<Longrightarrow> Unserialize_vector rd (Serialize_vector wr x @ r) = Inr (x, r)"
    for x r
    by (auto simp: Unserialize_vector_def Serialize_vector_def compact.read_write read_elems_iff)
  show "Unserialize_vector rd bs = Inr (x, r) \<Longrightarrow>
      (length x \<le> MAX_SIZE \<and> list_all valid x) \<and> bs = Serialize_vector wr x @ r" for bs x r
    by (auto simp: Unserialize_vector_def Serialize_vector_def compact.read_iff read_elems_iff split: sum.splits)
qed

end

lemma GetSizeOfCompactSize_length: "length (WriteCompactSize n) = GetSizeOfCompactSize n"
  by (simp add: WriteCompactSize_def GetSizeOfCompactSize_def)

section \<open>Variable-length integers\<close>

lemma varint_high_digits:
  "q < 2 ^ w \<Longrightarrow> 7 \<le> w \<Longrightarrow>
   read_varint_loop w 0 (rev (varint_digits 0x80 q) @ r) = read_varint_loop w ((q + 1) mod 2 ^ w) r"
proof (induction "128 :: nat" q arbitrary: r rule: varint_digits.induct)
  case (1 q)
  have b: "unat (word_of_nat (q mod 128 + 128) :: u8) = q mod 128 + 128"
    by (simp add: unat_of_nat del: of_nat_add)
  then have c: "(word_of_nat (q mod 128 + 128) :: u8) AND 0x80 \<noteq> 0"
    "unat ((word_of_nat (q mod 128 + 128) :: u8) AND 0x7F) = q mod 128"
    by (simp_all add: u8_and_80 u8_and_7f del: of_nat_add)
  show ?case
  proof (cases "q \<le> 127")
    case True
    then show ?thesis
      using c 1(2) by (subst varint_digits.simps) (simp add: Let_def del: of_nat_add)
  next
    case False
    have "q div 128 - 1 < 2 ^ w" using 1(2) by (meson div_le_dividend less_imp_diff_less order_le_less_trans)
    moreover have "q div 128 - 1 + 1 = q div 128" using False by (simp add: Suc_leI div_greater_zero_iff)
    moreover have "q div 128 < 2 ^ w" using 1(2) by (meson div_le_dividend order_le_less_trans)
    moreover have "q div 128 * 128 + q mod 128 = q" by simp
    ultimately show ?thesis
      using 1(1) [OF False] c 1(2,3) False
      by (subst varint_digits.simps) (simp add: Let_def del: of_nat_add)
  qed
qed

lemma ReadVarInt_WriteVarInt:
  assumes "n < 2 ^ w" "7 \<le> w"
  shows "ReadVarInt w (WriteVarInt n @ r) = Inr (n, r)"
proof -
  have b: "unat (word_of_nat (n mod 128) :: u8) = n mod 128" by (simp add: unat_of_nat)
  then have c: "(word_of_nat (n mod 128) :: u8) AND 0x80 = 0"
    "unat ((word_of_nat (n mod 128) :: u8) AND 0x7F) = n mod 128"
    by (simp_all add: u8_and_80 u8_and_7f)
  show ?thesis
  proof (cases "n \<le> 127")
    case True
    then show ?thesis
      using c assms by (simp add: ReadVarInt_def WriteVarInt_def varint_digits.simps [of 0 n] Let_def)
  next
    case False
    have "n div 128 - 1 < 2 ^ w" using assms(1) by (meson div_le_dividend less_imp_diff_less order_le_less_trans)
    moreover have "n div 128 - 1 + 1 = n div 128" using False by (simp add: Suc_leI div_greater_zero_iff)
    moreover have "n div 128 < 2 ^ w" using assms(1) by (meson div_le_dividend order_le_less_trans)
    moreover have "n div 128 * 128 + n mod 128 = n" by simp
    ultimately show ?thesis
      using varint_high_digits [of "n div 128 - 1" w] c assms False
      by (simp add: ReadVarInt_def WriteVarInt_def varint_digits.simps [of 0 n] Let_def)
  qed
qed

lemma GetSizeOfVarInt_digits: "length (varint_digits f n) = GetSizeOfVarInt n"
  by (induction f n rule: varint_digits.induct) (simp add: varint_digits.simps GetSizeOfVarInt.simps)

text \<open>Variable-length integers: a number that fits the unsigned type it is read into is read back
  from its encoding, whatever follows, and \<open>GetSizeOfVarInt\<close> predicts the length of the
  encoding.\<close>

theorem varint_roundtrip:
  assumes "n < 2 ^ w" "7 \<le> w"
  shows "ReadVarInt w (WriteVarInt n @ r) = Inr (n, r) \<and> length (WriteVarInt n) = GetSizeOfVarInt n"
  using ReadVarInt_WriteVarInt [OF assms] by (simp add: WriteVarInt_def GetSizeOfVarInt_digits)

theorem varint_roundtrip_witness:
  "ReadVarInt 32 (WriteVarInt 65535 @ [7]) = Inr (65535, [7]) \<and> length (WriteVarInt 65535) = GetSizeOfVarInt 65535"
  by (rule varint_roundtrip) simp_all

end
