(* ===== verification/Transaction.thy ===== *)
theory Transaction
  imports Serialize Script Hashing
begin

text \<open>
  Transactions and blocks, \<open>src/primitives/transaction.h\<close>, \<open>transaction.cpp\<close>,
  \<open>primitives/block.h\<close>, and fee rates, \<open>src/amount.h\<close>, \<open>amount.cpp\<close>. Amounts (\<open>CAmount\<close>, a
  signed 64-bit integer) are integers, with the range written out where the code depends
  on it. Hashes are 256-bit words; the bytes of a digest are the little-endian bytes of the
  word, as in the memory layout of \<open>uint256\<close>. The fields \<open>CTxIn::prevPubKey\<close>,
  \<open>CBlock::payee\<close> and \<open>vMerkleTree\<close> are caches of other components and are left out; the
  cached \<open>CTransaction::hash\<close> is recomputed.
\<close>

section \<open>Data\<close>

type_synonym uint256 = "256 word"
type_synonym CAmount = int

abbreviation (input) COIN :: CAmount where "COIN \<equiv> 100000000"
abbreviation (input) CENT :: CAmount where "CENT \<equiv> 1000000"

definition uint256_of_bytes :: "bytes \<Rightarrow> uint256" where
  "uint256_of_bytes bs = word_of_nat (le_nat bs)"

record COutPoint =
  op_hash :: uint256
  op_n :: u32

record CTxIn =
  ti_prevout :: COutPoint
  ti_scriptSig :: CScript
  ti_nSequence :: u32

record CTxOut =
  to_nValue :: CAmount
  to_scriptPubKey :: CScript
  to_nRounds :: int

record CTransaction =
  tx_nVersion :: u32
  tx_vin :: "CTxIn list"
  tx_vout :: "CTxOut list"
  tx_nLockTime :: u32

record CBlockHeader =
  bh_nVersion :: u32
  bh_hashPrevBlock :: uint256
  bh_hashMerkleRoot :: uint256
  bh_nTime :: u32
  bh_nBits :: u32
  bh_nNonce :: u32

record CBlock =
  blk_header :: CBlockHeader
  blk_vtx :: "CTransaction list"
  blk_vchBlockSig :: bytes

section \<open>Outpoints, inputs and outputs\<close>

definition COutPoint_null :: COutPoint where
  "COutPoint_null = \<lparr>op_hash = 0, op_n = - 1\<rparr>"

definition COutPoint_IsNull :: "COutPoint \<Rightarrow> bool" where
  "COutPoint_IsNull p \<longleftrightarrow> op_hash p = 0 \<and> op_n p = - 1"

definition COutPoint_less :: "COutPoint \<Rightarrow> COutPoint \<Rightarrow> bool" where
  "COutPoint_less a b \<longleftrightarrow> op_hash a < op_hash b \<or> (op_hash a = op_hash b \<and> op_n a < op_n b)"

definition CTxIn_IsFinal :: "CTxIn \<Rightarrow> bool" where
  "CTxIn_IsFinal i \<longleftrightarrow> ti_nSequence i = - 1"

definition CTxOut_new :: "CAmount \<Rightarrow> CScript \<Rightarrow> CTxOut" where
  "CTxOut_new v s = \<lparr>to_nValue = v, to_scriptPubKey = s, to_nRounds = - 10\<rparr>"

definition CTxOut_null :: CTxOut where
  "CTxOut_null = \<lparr>to_nValue = - 1, to_scriptPubKey = [], to_nRounds = - 10\<rparr>"

definition CTxOut_IsNull :: "CTxOut \<Rightarrow> bool" where
  "CTxOut_IsNull out \<longleftrightarrow> to_nValue out = - 1"

definition CTxOut_IsEmpty :: "CTxOut \<Rightarrow> bool" where
  "CTxOut_IsEmpty out \<longleftrightarrow> to_nValue out = 0 \<and> to_scriptPubKey out = []"

section \<open>Transactions\<close>

definition CTransaction_IsNull :: "CTransaction \<Rightarrow> bool" where
  "CTransaction_IsNull tx \<longleftrightarrow> tx_vin tx = [] \<and> tx_vout tx = []"

definition IsCoinBase :: "CTransaction \<Rightarrow> bool" where
  "IsCoinBase tx \<longleftrightarrow> length (tx_vin tx) = 1 \<and> COutPoint_IsNull (ti_prevout (tx_vin tx ! 0))"

definition IsCoinStake :: "CTransaction \<Rightarrow> bool" where
  "IsCoinStake tx \<longleftrightarrow>
     length (tx_vin tx) > 0 \<and> \<not> COutPoint_IsNull (ti_prevout (tx_vin tx ! 0)) \<and>
     length (tx_vout tx) \<ge> 2 \<and> CTxOut_IsEmpty (tx_vout tx ! 0)"

definition IsMasternodeReward :: "COutPoint \<Rightarrow> CTransaction \<Rightarrow> bool" where
  "IsMasternodeReward p tx =
     (if \<not> IsCoinStake tx then False
      else unat (op_n p) = length (tx_vout tx) - 1 \<and>
           to_scriptPubKey (tx_vout tx ! 1) \<noteq> to_scriptPubKey (tx_vout tx ! unat (op_n p)))"

datatype value_error = value_negative | value_wraps

text \<open>\<open>GetValueOut\<close>; the sum is the machine sum, two's complement.\<close>

definition add_int64 :: "int \<Rightarrow> int \<Rightarrow> int" where
  "add_int64 a b = sint (word_of_int (a + b) :: u64)"

fun value_out_loop :: "CAmount \<Rightarrow> CTxOut list \<Rightarrow> value_error + CAmount" where
  "value_out_loop nValueOut [] = Inr nValueOut"
| "value_out_loop nValueOut (out # outs) =
     (if to_nValue out < 0 then Inl value_negative
      else if add_int64 nValueOut (to_nValue out) < nValueOut then Inl value_wraps
      else value_out_loop (add_int64 nValueOut (to_nValue out)) outs)"

definition GetValueOut :: "CTransaction \<Rightarrow> value_error + CAmount" where
  "GetValueOut tx = value_out_loop 0 (tx_vout tx)"

section \<open>Fee rates\<close>

text \<open>
  \<open>CFeeRate\<close>, in satoshis per 1000 bytes. The size is a \<open>size_t\<close>, so the products and
  quotients are taken modulo \<open>2 ^ 64\<close> without sign and converted back.
\<close>

definition CFeeRate_new :: "CAmount \<Rightarrow> nat \<Rightarrow> CAmount" where
  "CFeeRate_new nFeePaid nSize =
     (if nSize > 0 then sint (word_of_int (nFeePaid * 1000) div word_of_nat nSize :: u64) else 0)"

definition GetFee :: "CAmount \<Rightarrow> nat \<Rightarrow> CAmount" where
  "GetFee nSatoshisPerK nSize =
     (let nFee = sint ((word_of_int nSatoshisPerK * word_of_nat nSize) div 1000 :: u64)
      in if nFee = 0 \<and> nSatoshisPerK > 0 then nSatoshisPerK else nFee)"

section \<open>Serialization\<close>

definition Serialize_COutPoint :: "COutPoint \<Rightarrow> bytes" where
  "Serialize_COutPoint p = Serialize_uint 32 (op_hash p) @ Serialize_uint 4 (op_n p)"

definition Unserialize_COutPoint :: "COutPoint reader" where
  "Unserialize_COutPoint bs =
     (case Unserialize_uint 32 bs of
        Inl e \<Rightarrow> Inl e
      | Inr (h, r) \<Rightarrow>
         (case Unserialize_uint 4 r of Inl e \<Rightarrow> Inl e | Inr (n, r') \<Rightarrow> Inr (\<lparr>op_hash = h, op_n = n\<rparr>, r')))"

definition Serialize_CTxIn :: "CTxIn \<Rightarrow> bytes" where
  "Serialize_CTxIn i =
     Serialize_COutPoint (ti_prevout i) @ Serialize_bytes (ti_scriptSig i) @ Serialize_uint 4 (ti_nSequence i)"

definition Unserialize_CTxIn :: "CTxIn reader" where
  "Unserialize_CTxIn bs =
     (case Unserialize_COutPoint bs of
        Inl e \<Rightarrow> Inl e
      | Inr (p, r) \<Rightarrow>
         (case Unserialize_bytes r of
            Inl e \<Rightarrow> Inl e
          | Inr (s, r') \<Rightarrow>
             (case Unserialize_uint 4 r' of
                Inl e \<Rightarrow> Inl e
              | Inr (q, r'') \<Rightarrow> Inr (\<lparr>ti_prevout = p, ti_scriptSig = s, ti_nSequence = q\<rparr>, r''))))"

definition Serialize_CTxOut :: "CTxOut \<Rightarrow> bytes" where
  "Serialize_CTxOut out = Serialize_int64 (to_nValue out) @ Serialize_bytes (to_scriptPubKey out)"

definition Unserialize_CTxOut :: "CTxOut reader" where
  "Unserialize_CTxOut bs =
     (case Unserialize_int64 bs of
        Inl e \<Rightarrow> Inl e
      | Inr (v, r) \<Rightarrow>
         (case Unserialize_bytes r of
            Inl e \<Rightarrow> Inl e
          | Inr (s, r') \<Rightarrow> Inr (CTxOut_null\<lparr>to_nValue := v, to_scriptPubKey := s\<rparr>, r')))"

definition Serialize_CTransaction :: "CTransaction \<Rightarrow> bytes" where
  "Serialize_CTransaction tx =
     Serialize_uint 4 (tx_nVersion tx) @ Serialize_vector Serialize_CTxIn (tx_vin tx) @
     Serialize_vector Serialize_CTxOut (tx_vout tx) @ Serialize_uint 4 (tx_nLockTime tx)"

definition Unserialize_CTransaction :: "CTransaction reader" where
  "Unserialize_CTransaction bs =
     (case Unserialize_uint 4 bs of
        Inl e \<Rightarrow> Inl e
      | Inr (v, r1) \<Rightarrow>
     (case Unserialize_vector Unserialize_CTxIn r1 of
        Inl e \<Rightarrow> Inl e
      | Inr (is, r2) \<Rightarrow>
     (case Unserialize_vector Unserialize_CTxOut r2 of
        Inl e \<Rightarrow> Inl e
      | Inr (os, r3) \<Rightarrow>
     (case Unserialize_uint 4 r3 of
        Inl e \<Rightarrow> Inl e
      | Inr (l, r4) \<Rightarrow> Inr (\<lparr>tx_nVersion = v, tx_vin = is, tx_vout = os, tx_nLockTime = l\<rparr>, r4)))))"

definition CTransaction_GetHash :: "CTransaction \<Rightarrow> uint256" where
  "CTransaction_GetHash tx = uint256_of_bytes (Hash (Serialize_CTransaction tx))"

definition Serialize_CBlockHeader :: "CBlockHeader \<Rightarrow> bytes" where
  "Serialize_CBlockHeader h =
     Serialize_uint 4 (bh_nVersion h) @ Serialize_uint 32 (bh_hashPrevBlock h) @
     Serialize_uint 32 (bh_hashMerkleRoot h) @ Serialize_uint 4 (bh_nTime h) @
     Serialize_uint 4 (bh_nBits h) @ Serialize_uint 4 (bh_nNonce h)"

definition Unserialize_CBlockHeader :: "CBlockHeader reader" where
  "Unserialize_CBlockHeader bs =
     (case Unserialize_uint 4 bs of Inl e \<Rightarrow> Inl e | Inr (v, r1) \<Rightarrow>
     (case Unserialize_uint 32 r1 of Inl e \<Rightarrow> Inl e | Inr (p, r2) \<Rightarrow>
     (case Unserialize_uint 32 r2 of Inl e \<Rightarrow> Inl e | Inr (m, r3) \<Rightarrow>
     (case Unserialize_uint 4 r3 of Inl e \<Rightarrow> Inl e | Inr (t, r4) \<Rightarrow>
     (case Unserialize_uint 4 r4 of Inl e \<Rightarrow> Inl e | Inr (b, r5) \<Rightarrow>
     (case Unserialize_uint 4 r5 of Inl e \<Rightarrow> Inl e | Inr (n, r6) \<Rightarrow>
        Inr (\<lparr>bh_nVersion = v, bh_hashPrevBlock = p, bh_hashMerkleRoot = m, bh_nTime = t, bh_nBits = b,
              bh_nNonce = n\<rparr>, r6)))))))"

text \<open>A block carries its signature only if it is a proof-of-stake block.\<close>

definition IsProofOfStake :: "CTransaction list \<Rightarrow> bool" where
  "IsProofOfStake vtx \<longleftrightarrow> length vtx > 1 \<and> IsCoinStake (vtx ! 1)"

definition Serialize_CBlock :: "CBlock \<Rightarrow> bytes" where
  "Serialize_CBlock b =
     Serialize_CBlockHeader (blk_header b) @ Serialize_vector Serialize_CTransaction (blk_vtx b) @
     (if IsProofOfStake (blk_vtx b) then Serialize_bytes (blk_vchBlockSig b) else [])"

definition Unserialize_CBlock :: "CBlock reader" where
  "Unserialize_CBlock bs =
     (case Unserialize_CBlockHeader bs of Inl e \<Rightarrow> Inl e | Inr (h, r1) \<Rightarrow>
     (case Unserialize_vector Unserialize_CTransaction r1 of Inl e \<Rightarrow> Inl e | Inr (vtx, r2) \<Rightarrow>
     (if IsProofOfStake vtx
      then (case Unserialize_bytes r2 of
              Inl e \<Rightarrow> Inl e
            | Inr (sig, r3) \<Rightarrow> Inr (\<lparr>blk_header = h, blk_vtx = vtx, blk_vchBlockSig = sig\<rparr>, r3))
      else Inr (\<lparr>blk_header = h, blk_vtx = vtx, blk_vchBlockSig = []\<rparr>, r2))))"

section \<open>Sizes\<close>

text \<open>\<open>GetSerializeSize\<close> of the classes, computed without writing.\<close>

definition GetSerializeSize_bytes :: "bytes \<Rightarrow> nat" where
  "GetSerializeSize_bytes v = GetSizeOfCompactSize (length v) + length v"

definition GetSerializeSize_vector :: "('a \<Rightarrow> nat) \<Rightarrow> 'a list \<Rightarrow> nat" where
  "GetSerializeSize_vector sz v = fold (\<lambda>x nSize. nSize + sz x) v (GetSizeOfCompactSize (length v))"

definition GetSerializeSize_CTxIn :: "CTxIn \<Rightarrow> nat" where
  "GetSerializeSize_CTxIn i = 36 + GetSerializeSize_bytes (ti_scriptSig i) + 4"

definition GetSerializeSize_CTxOut :: "CTxOut \<Rightarrow> nat" where
  "GetSerializeSize_CTxOut out = 8 + GetSerializeSize_bytes (to_scriptPubKey out)"

definition GetSerializeSize_CTransaction :: "CTransaction \<Rightarrow> nat" where
  "GetSerializeSize_CTransaction tx =
     4 + GetSerializeSize_vector GetSerializeSize_CTxIn (tx_vin tx) +
     GetSerializeSize_vector GetSerializeSize_CTxOut (tx_vout tx) + 4"

definition CalculateModifiedSize :: "CTransaction \<Rightarrow> nat \<Rightarrow> nat" where
  "CalculateModifiedSize tx nTxSize =
     fold (\<lambda>i n. let offset = 41 + min 110 (length (ti_scriptSig i)) in if n > offset then n - offset else n)
       (tx_vin tx) (if nTxSize = 0 then GetSerializeSize_CTransaction tx else nTxSize)"

definition IsDust :: "CTxOut \<Rightarrow> CAmount \<Rightarrow> bool" where
  "IsDust out minRelayTxFee \<longleftrightarrow> to_nValue out < 3 * GetFee minRelayTxFee (GetSerializeSize_CTxOut out + 148)"

section \<open>The codecs\<close>

definition valid_CTxIn :: "CTxIn \<Rightarrow> bool" where
  "valid_CTxIn i \<longleftrightarrow> length (ti_scriptSig i) \<le> MAX_SIZE"

definition valid_CTxOut :: "CTxOut \<Rightarrow> bool" where
  "valid_CTxOut out \<longleftrightarrow> int64_range (to_nValue out) \<and> length (to_scriptPubKey out) \<le> MAX_SIZE \<and> to_nRounds out = - 10"

definition valid_CTransaction :: "CTransaction \<Rightarrow> bool" where
  "valid_CTransaction tx \<longleftrightarrow>
     length (tx_vin tx) \<le> MAX_SIZE \<and> list_all valid_CTxIn (tx_vin tx) \<and>
     length (tx_vout tx) \<le> MAX_SIZE \<and> list_all valid_CTxOut (tx_vout tx)"

definition valid_CBlock :: "CBlock \<Rightarrow> bool" where
  "valid_CBlock b \<longleftrightarrow>
     length (blk_vtx b) \<le> MAX_SIZE \<and> list_all valid_CTransaction (blk_vtx b) \<and>
     (if IsProofOfStake (blk_vtx b) then length (blk_vchBlockSig b) \<le> MAX_SIZE else blk_vchBlockSig b = [])"

interpretation outpoint: codec Serialize_COutPoint Unserialize_COutPoint "\<lambda>_. True"
proof
  show "Unserialize_COutPoint (Serialize_COutPoint x @ r) = Inr (x, r)" for x r
    by (simp add: Unserialize_COutPoint_def Serialize_COutPoint_def u32.read_write u256.read_write)
  show "Unserialize_COutPoint bs = Inr (x, r) \<Longrightarrow> True \<and> bs = Serialize_COutPoint x @ r" for bs x r
    by (auto simp: Unserialize_COutPoint_def Serialize_COutPoint_def u32.read_iff u256.read_iff split: sum.splits)
qed

interpretation txin: codec Serialize_CTxIn Unserialize_CTxIn valid_CTxIn
proof
  show "valid_CTxIn x \<Longrightarrow> Unserialize_CTxIn (Serialize_CTxIn x @ r) = Inr (x, r)" for x r
    by (simp add: Unserialize_CTxIn_def Serialize_CTxIn_def valid_CTxIn_def u32.read_write outpoint.read_write
        bytevec.read_write)
  show "Unserialize_CTxIn bs = Inr (x, r) \<Longrightarrow> valid_CTxIn x \<and> bs = Serialize_CTxIn x @ r" for bs x r
    by (auto simp: Unserialize_CTxIn_def Serialize_CTxIn_def valid_CTxIn_def u32.read_iff outpoint.read_iff
        bytevec.read_iff split: sum.splits)
qed

interpretation txout: codec Serialize_CTxOut Unserialize_CTxOut valid_CTxOut
proof
  show "valid_CTxOut x \<Longrightarrow> Unserialize_CTxOut (Serialize_CTxOut x @ r) = Inr (x, r)" for x r
    by (simp add: Unserialize_CTxOut_def Serialize_CTxOut_def valid_CTxOut_def int64.read_write bytevec.read_write
        CTxOut_null_def)
  show "Unserialize_CTxOut bs = Inr (x, r) \<Longrightarrow> valid_CTxOut x \<and> bs = Serialize_CTxOut x @ r" for bs x r
    by (auto simp: Unserialize_CTxOut_def Serialize_CTxOut_def valid_CTxOut_def int64.read_iff bytevec.read_iff
        CTxOut_null_def split: sum.splits)
qed

interpretation txins: codec "Serialize_vector Serialize_CTxIn" "Unserialize_vector Unserialize_CTxIn"
  "\<lambda>xs. length xs \<le> MAX_SIZE \<and> list_all valid_CTxIn xs"
  by (rule txin.vector_codec)

interpretation txouts: codec "Serialize_vector Serialize_CTxOut" "Unserialize_vector Unserialize_CTxOut"
  "\<lambda>xs. length xs \<le> MAX_SIZE \<and> list_all valid_CTxOut xs"
  by (rule txout.vector_codec)

interpretation tx: codec Serialize_CTransaction Unserialize_CTransaction valid_CTransaction
proof
  show "valid_CTransaction x \<Longrightarrow> Unserialize_CTransaction (Serialize_CTransaction x @ r) = Inr (x, r)" for x r
    by (simp add: Unserialize_CTransaction_def Serialize_CTransaction_def valid_CTransaction_def u32.read_write
        txins.read_write txouts.read_write)
  show "Unserialize_CTransaction bs = Inr (x, r) \<Longrightarrow> valid_CTransaction x \<and> bs = Serialize_CTransaction x @ r"
    for bs x r
    by (auto simp: Unserialize_CTransaction_def Serialize_CTransaction_def valid_CTransaction_def u32.read_iff
        txins.read_iff txouts.read_iff split: sum.splits)
qed

interpretation txs: codec "Serialize_vector Serialize_CTransaction" "Unserialize_vector Unserialize_CTransaction"
  "\<lambda>xs. length xs \<le> MAX_SIZE \<and> list_all valid_CTransaction xs"
  by (rule tx.vector_codec)

interpretation header: codec Serialize_CBlockHeader Unserialize_CBlockHeader "\<lambda>_. True"
proof
  show "Unserialize_CBlockHeader (Serialize_CBlockHeader x @ r) = Inr (x, r)" for x r
    by (simp add: Unserialize_CBlockHeader_def Serialize_CBlockHeader_def u32.read_write u256.read_write)
  show "Unserialize_CBlockHeader bs = Inr (x, r) \<Longrightarrow> True \<and> bs = Serialize_CBlockHeader x @ r" for bs x r
    by (auto simp: Unserialize_CBlockHeader_def Serialize_CBlockHeader_def u32.read_iff u256.read_iff
        split: sum.splits)
qed

interpretation block: codec Serialize_CBlock Unserialize_CBlock valid_CBlock
proof
  show "valid_CBlock x \<Longrightarrow> Unserialize_CBlock (Serialize_CBlock x @ r) = Inr (x, r)" for x r
    by (cases "IsProofOfStake (blk_vtx x)")
       (simp_all add: Unserialize_CBlock_def Serialize_CBlock_def valid_CBlock_def header.read_write txs.read_write
        bytevec.read_write)
  show "Unserialize_CBlock bs = Inr (x, r) \<Longrightarrow> valid_CBlock x \<and> bs = Serialize_CBlock x @ r" for bs x r
    by (auto simp: Unserialize_CBlock_def Serialize_CBlock_def valid_CBlock_def header.read_iff txs.read_iff
        bytevec.read_iff split: sum.splits if_splits)
qed

section \<open>Sizes and sums\<close>

lemma length_Serialize_uint [simp, len_simps]: "length (Serialize_uint k w) = k"
  by (simp add: Serialize_uint_def)

lemma length_Serialize_int64 [simp, len_simps]: "length (Serialize_int64 v) = 8"
  by (simp add: Serialize_int64_def)

lemma length_Serialize_bytes: "length (Serialize_bytes v) = GetSerializeSize_bytes v"
  by (simp add: Serialize_bytes_def GetSerializeSize_bytes_def GetSizeOfCompactSize_length)

lemma length_Serialize_vector:
  assumes "\<And>x. length (wr x) = sz x"
  shows "length (Serialize_vector wr v) = GetSerializeSize_vector sz v"
proof -
  have "fold (\<lambda>x n. n + sz x) v k = k + length (concat (map wr v))" for k
    by (induction v arbitrary: k) (simp_all add: assms)
  then show ?thesis
    by (simp add: Serialize_vector_def GetSerializeSize_vector_def GetSizeOfCompactSize_length)
qed

lemma length_Serialize_parts:
  "length (Serialize_COutPoint p) = 36"
  "length (Serialize_CTxIn i) = GetSerializeSize_CTxIn i"
  "length (Serialize_CTxOut out) = GetSerializeSize_CTxOut out"
  by (simp_all add: Serialize_COutPoint_def Serialize_CTxIn_def Serialize_CTxOut_def GetSerializeSize_CTxIn_def
      GetSerializeSize_CTxOut_def length_Serialize_bytes)

lemma add_int64_exact: "0 \<le> a \<Longrightarrow> 0 \<le> b \<Longrightarrow> a + b < 2 ^ 63 \<Longrightarrow> add_int64 a b = a + b"
  by (simp add: add_int64_def sint_word_of_int64 int64_range_def del: of_int_add)

lemma add_int64_wraps:
  assumes "0 \<le> a" "a < 2 ^ 63" "0 \<le> b" "b < 2 ^ 63" "2 ^ 63 \<le> a + b"
  shows "add_int64 a b < a"
proof -
  have "sint (word_of_int (a + b) :: u64) = sint (word_of_int (a + b - 2 ^ 64) :: u64)"
    by (rule arg_cong [of _ _ sint]) (simp add: word_of_int_eq_iff take_bit_eq_mod mod_simps del: of_int_add of_int_diff)
  also have "\<dots> = a + b - 2 ^ 64"
    using assms by (intro sint_word_of_int64) (simp add: int64_range_def)
  finally show ?thesis using assms by (simp add: add_int64_def del: of_int_add)
qed

lemma value_out_loop_iff:
  assumes "list_all (\<lambda>out. to_nValue out < 2 ^ 63) outs" "0 \<le> a" "a < 2 ^ 63"
  shows "value_out_loop a outs = Inr v \<longleftrightarrow>
    list_all (\<lambda>out. 0 \<le> to_nValue out) outs \<and> v = a + sum_list (map to_nValue outs) \<and> v < 2 ^ 63"
  using assms
proof (induction outs arbitrary: a)
  case (Cons out outs)
  have s: "list_all (\<lambda>out. 0 \<le> to_nValue out) outs \<Longrightarrow> 0 \<le> sum_list (map to_nValue outs)"
    by (induction outs) auto
  consider "to_nValue out < 0" | "0 \<le> to_nValue out" "a + to_nValue out < 2 ^ 63"
    | "0 \<le> to_nValue out" "2 ^ 63 \<le> a + to_nValue out" by linarith
  then show ?case
  proof cases
    case 2
    with Cons add_int64_exact [of a "to_nValue out"] show ?thesis by (simp add: add.assoc)
  next
    case 3
    with Cons.prems add_int64_wraps [of a "to_nValue out"] s show ?thesis by auto
  qed simp
qed auto

lemma div_le_thousand: "0 \<le> p \<Longrightarrow> 0 \<le> p div 1000 \<and> p div 1000 \<le> (p :: int)"
  using zdiv_mono2 [of p 1 1000] by (simp add: pos_imp_zdiv_nonneg_iff)

section \<open>Properties\<close>

text \<open>C26. The wire format of transactions and blocks is a bijection between valid objects and the byte
  strings that are accepted: a reader accepts exactly the bytes the writer produces for
  a valid object and returns that object and the rest. No two byte strings are read as the
  same object, so an identifier computed from the bytes identifies the object.\<close>

theorem wire_format_canonical:
  "(Unserialize_CTransaction bs = Inr (x, r) \<longleftrightarrow> valid_CTransaction x \<and> bs = Serialize_CTransaction x @ r) \<and>
   (Unserialize_CBlock bs = Inr (b, r) \<longleftrightarrow> valid_CBlock b \<and> bs = Serialize_CBlock b @ r)"
  by (simp add: tx.read_iff block.read_iff)

text \<open>\<open>GetSerializeSize\<close>, on which the size limits and fees rest, is the number of bytes that
  serialization writes.\<close>

theorem serialize_size_exact: "GetSerializeSize_CTransaction tx = length (Serialize_CTransaction tx)"
  by (simp add: GetSerializeSize_CTransaction_def Serialize_CTransaction_def length_Serialize_parts
      length_Serialize_vector [of Serialize_CTxIn GetSerializeSize_CTxIn]
      length_Serialize_vector [of Serialize_CTxOut GetSerializeSize_CTxOut])

text \<open>C37. \<open>GetValueOut\<close> returns a value exactly if no output is negative and the true sum of the
  outputs fits a signed 64-bit integer, and then it returns that sum: the machine additions
  never wrap unnoticed.\<close>

theorem GetValueOut_exact:
  assumes "list_all (\<lambda>out. int64_range (to_nValue out)) (tx_vout tx)"
  shows "GetValueOut tx = Inr v \<longleftrightarrow>
    list_all (\<lambda>out. 0 \<le> to_nValue out) (tx_vout tx) \<and> v = sum_list (map to_nValue (tx_vout tx)) \<and> v < 2 ^ 63"
proof -
  have "list_all (\<lambda>out. to_nValue out < 2 ^ 63) (tx_vout tx)"
    using assms by (simp add: list_all_iff int64_range_def)
  from value_out_loop_iff [OF this, of 0 v] show ?thesis by (simp add: GetValueOut_def)
qed

theorem GetValueOut_exact_witness:
  "GetValueOut \<lparr>tx_nVersion = 1, tx_vin = [], tx_vout = [CTxOut_new 5 [], CTxOut_new 7 []], tx_nLockTime = 0\<rparr> = Inr 12"
  by (subst GetValueOut_exact) (simp_all add: CTxOut_new_def int64_range_def)

text \<open>Fees: as long as the product fits, \<open>GetFee\<close> is the rate times the size rounded down to whole
  satoshis, except that a positive rate never yields a zero fee.\<close>

theorem GetFee_exact:
  assumes "0 \<le> nSatoshisPerK" "nSatoshisPerK * int nSize < 2 ^ 63"
  shows "GetFee nSatoshisPerK nSize =
    (if nSatoshisPerK * int nSize < 1000 then nSatoshisPerK else nSatoshisPerK * int nSize div 1000)"
proof -
  let ?p = "nSatoshisPerK * int nSize"
  have "(word_of_int nSatoshisPerK * word_of_nat nSize :: u64) = word_of_int ?p" by simp
  moreover have "(word_of_int ?p :: u64) div 1000 = word_of_int (?p div 1000)"
    using assms by (simp add: word_div_def uint_word_of_int_eq take_bit_int_eq_self del: of_int_mult)
  moreover have "0 \<le> ?p" using assms(1) by simp
  then have "int64_range (?p div 1000)"
    using assms(2) div_le_thousand [of ?p] by (simp add: int64_range_def)
  ultimately have "sint ((word_of_int nSatoshisPerK * word_of_nat nSize) div 1000 :: u64) = ?p div 1000"
    by (simp add: sint_word_of_int64 del: of_int_mult)
  then show ?thesis using assms by (auto simp: GetFee_def Let_def div_pos_pos_trivial)
qed

theorem GetFee_exact_witness: "GetFee 10000 226 = 2260"
  by (subst GetFee_exact) simp_all

end
