(* ===== verification/TxCoins.thy ===== *)
theory TxCoins
  imports Transaction
begin

text \<open>
  The unspent outputs of one transaction, \<open>CCoins\<close> of \<open>src/coins.h\<close> and \<open>coins.cpp\<close>, and the record that undoes
  a spend, \<open>CTxInUndo\<close> of \<open>undo.h\<close>. How they are stored is the matter of \<open>Compressor\<close>, the views on them of \<open>Coins\<close>.
\<close>

section \<open>The outputs of one transaction\<close>

record CCoins =
  cc_fCoinBase :: bool
  cc_fCoinStake :: bool
  cc_vout :: "CTxOut list"
  cc_nHeight :: int
  cc_nVersion :: int

record CTxInUndo =
  tu_txout :: CTxOut
  tu_fCoinBase :: bool
  tu_fCoinStake :: bool
  tu_nHeight :: u32
  tu_nVersion :: int

definition CTxInUndo_new :: "CTxOut \<Rightarrow> CTxInUndo" where
  "CTxInUndo_new txout =
     \<lparr>tu_txout = txout, tu_fCoinBase = False, tu_fCoinStake = False, tu_nHeight = 0, tu_nVersion = 0\<rparr>"

definition CCoins_empty :: CCoins where
  "CCoins_empty =
     \<lparr>cc_fCoinBase = False, cc_fCoinStake = False, cc_vout = [], cc_nHeight = 0, cc_nVersion = 0\<rparr>"

definition CCoins_Clear :: "CCoins \<Rightarrow> CCoins" where
  "CCoins_Clear c =
     c\<lparr>cc_fCoinBase := False, cc_fCoinStake := False, cc_vout := [], cc_nHeight := 0, cc_nVersion := 0\<rparr>"

text \<open>The loop of \<open>Cleanup\<close> pops spent outputs off the back.\<close>

function cleanup_vout :: "CTxOut list \<Rightarrow> CTxOut list" where
  "cleanup_vout vout = (if vout \<noteq> [] \<and> CTxOut_IsNull (last vout) then cleanup_vout (butlast vout) else vout)"
  by pat_completeness auto
termination by (relation "measure length") auto

declare cleanup_vout.simps [simp del]

definition CCoins_Cleanup :: "CCoins \<Rightarrow> CCoins" where
  "CCoins_Cleanup c = c\<lparr>cc_vout := cleanup_vout (cc_vout c)\<rparr>"

definition ClearUnspendable :: "CCoins \<Rightarrow> CCoins" where
  "ClearUnspendable c =
     CCoins_Cleanup
       (c\<lparr>cc_vout := map (\<lambda>txout. if IsUnspendable (to_scriptPubKey txout) then CTxOut_null else txout) (cc_vout c)\<rparr>)"

definition FromTx :: "CTransaction \<Rightarrow> int \<Rightarrow> CCoins" where
  "FromTx tx nHeight =
     ClearUnspendable
       \<lparr>cc_fCoinBase = IsCoinBase tx, cc_fCoinStake = IsCoinStake tx, cc_vout = tx_vout tx, cc_nHeight = nHeight,
        cc_nVersion = sint (tx_nVersion tx)\<rparr>"

definition IsAvailable :: "CCoins \<Rightarrow> nat \<Rightarrow> bool" where
  "IsAvailable c nPos \<longleftrightarrow> nPos < length (cc_vout c) \<and> \<not> CTxOut_IsNull (cc_vout c ! nPos)"

definition IsPruned :: "CCoins \<Rightarrow> bool" where
  "IsPruned c \<longleftrightarrow> list_all CTxOut_IsNull (cc_vout c)"

definition CCoins_eq :: "CCoins \<Rightarrow> CCoins \<Rightarrow> bool" where
  "CCoins_eq a b =
     (if IsPruned a \<and> IsPruned b then True
      else cc_fCoinBase a = cc_fCoinBase b \<and> cc_fCoinStake a = cc_fCoinStake b \<and> cc_nHeight a = cc_nHeight b \<and>
           cc_nVersion a = cc_nVersion b \<and> cc_vout a = cc_vout b)"

text \<open>\<open>Spend\<close> leaves the coins alone and gives no undo record when it returns false.\<close>

definition Spend :: "CCoins \<Rightarrow> COutPoint \<Rightarrow> (CTxInUndo \<times> CCoins) option" where
  "Spend c out =
     (let n = unat (op_n out) in
      if n \<ge> length (cc_vout c) then None
      else if CTxOut_IsNull (cc_vout c ! n) then None
      else let undo = CTxInUndo_new (cc_vout c ! n);
               c' = CCoins_Cleanup (c\<lparr>cc_vout := (cc_vout c)[n := CTxOut_null]\<rparr>)
           in Some (if cc_vout c' = []
                    then undo\<lparr>tu_nHeight := word_of_int (cc_nHeight c'), tu_fCoinBase := cc_fCoinBase c',
                              tu_fCoinStake := cc_fCoinStake c', tu_nVersion := cc_nVersion c'\<rparr>
                    else undo, c'))"

section \<open>Cleaning up\<close>

lemma IsNull_null [simp]: "CTxOut_IsNull CTxOut_null"
  by (simp add: CTxOut_IsNull_def CTxOut_null_def)

lemma last_cleanup: "cleanup_vout vout \<noteq> [] \<Longrightarrow> \<not> CTxOut_IsNull (last (cleanup_vout vout))"
proof (induction vout rule: cleanup_vout.induct)
  case (1 vout)
  then show ?case
    by (subst (asm) cleanup_vout.simps, subst cleanup_vout.simps) (auto split: if_splits)
qed

lemma cleanup_prefix: "prefix (cleanup_vout vout) vout"
proof (induction vout rule: cleanup_vout.induct)
  case (1 vout)
  then show ?case
    by (subst cleanup_vout.simps) (auto intro: prefix_order.trans [OF _ prefixeq_butlast])
qed

lemma cleanup_fixed: "vout = [] \<or> \<not> CTxOut_IsNull (last vout) \<Longrightarrow> cleanup_vout vout = vout"
  by (subst cleanup_vout.simps) auto

lemma cleanup_idem [simp]: "cleanup_vout (cleanup_vout vout) = cleanup_vout vout"
  using last_cleanup [of vout] by (intro cleanup_fixed) auto

lemma Cleanup_idem [simp]: "CCoins_Cleanup (CCoins_Cleanup c) = CCoins_Cleanup c"
  by (simp add: CCoins_Cleanup_def)

lemma Cleanup_FromTx [simp]: "CCoins_Cleanup (FromTx tx h) = FromTx tx h"
  by (simp add: FromTx_def ClearUnspendable_def)

lemma cleanup_all_null: "list_all CTxOut_IsNull vout \<Longrightarrow> cleanup_vout vout = []"
proof (induction vout rule: cleanup_vout.induct)
  case (1 vout)
  then show ?case
    by (cases "vout = []") (subst cleanup_vout.simps, auto simp: list_all_iff dest: in_set_butlastD)+
qed

lemma IsPruned_Cleanup: "IsPruned c \<Longrightarrow> IsPruned (CCoins_Cleanup c)"
  by (simp add: IsPruned_def CCoins_Cleanup_def cleanup_all_null)

lemma IsPruned_Clear [simp]: "IsPruned (CCoins_Clear c)"
  by (simp add: IsPruned_def CCoins_Clear_def)

lemma Spend_pruned: "IsPruned c \<Longrightarrow> Spend c out = None"
  by (auto simp: IsPruned_def Spend_def list_all_length Let_def)

lemma sint_u32_range: "- (2 ^ 31) \<le> sint (x :: u32)" "sint (x :: u32) < 2 ^ 31"
  using sint_greater_eq [of x] sint_less [of x] by simp_all

definition example_coins :: CCoins where
  "example_coins =
     \<lparr>cc_fCoinBase = False, cc_fCoinStake = True, cc_vout = [CTxOut_new 5 [0x51], CTxOut_new 7 [0x51]],
      cc_nHeight = 9, cc_nVersion = 1\<rparr>"

end
