(* ===== verification/Compressor.thy ===== *)
theory Compressor
  imports TxCoins
begin

text \<open>
  The compact encodings of the coins database: amounts and scripts, \<open>src/compressor.h\<close> and
  \<open>compressor.cpp\<close>, the coins of a transaction, \<open>coins.h\<close> and \<open>coins.cpp\<close>, and undo records,
  \<open>undo.h\<close>. The elliptic-curve operations on public keys that the script compressor
  calls, \<open>CPubKey::IsFullyValid\<close> and \<open>CPubKey::Decompress\<close>, are parameters; what the code
  relies on is \<open>decompress_ok\<close>.
\<close>

section \<open>Amounts\<close>

function compress_loop :: "nat \<Rightarrow> nat \<Rightarrow> nat \<times> nat" where
  "compress_loop n e = (if n mod 10 = 0 \<and> e < 9 then compress_loop (n div 10) (e + 1) else (n, e))"
  by pat_completeness auto
termination by (relation "measure (\<lambda>(n, e). 9 - e)") auto

declare compress_loop.simps [simp del]

text \<open>Amounts and codes are \<open>uint64_t\<close>: the arithmetic after the loop wraps.\<close>

definition CompressAmount :: "nat \<Rightarrow> nat" where
  "CompressAmount n0 =
     (if n0 = 0 then 0
      else case compress_loop n0 0 of
             (n, e) \<Rightarrow>
               if e < 9
               then let d = n mod 10 in (1 + (n div 10 * 9 + d - 1) * 10 + e) mod 2 ^ 64
               else (1 + (n - 1) * 10 + 9) mod 2 ^ 64)"

fun times_ten :: "nat \<Rightarrow> nat \<Rightarrow> nat" where
  "times_ten n 0 = n"
| "times_ten n (Suc e) = times_ten (n * 10 mod 2 ^ 64) e"

definition DecompressAmount :: "nat \<Rightarrow> nat" where
  "DecompressAmount x0 =
     (if x0 = 0 then 0
      else let x = x0 - 1;
               e = x mod 10;
               x' = x div 10
           in times_ten (if e < 9 then (x' div 9 * 10 + (x' mod 9 + 1)) mod 2 ^ 64 else (x' + 1) mod 2 ^ 64) e)"

lemma compress_loop_pow:
  "e + k \<le> 9 \<Longrightarrow> m mod 10 \<noteq> 0 \<or> e + k = 9 \<Longrightarrow> compress_loop (m * 10 ^ k) e = (m, e + k)"
proof (induction k arbitrary: e)
  case 0
  then show ?case by (subst compress_loop.simps) auto
next
  case (Suc k)
  have "compress_loop (m * 10 ^ Suc k) e = compress_loop (m * 10 ^ k) (e + 1)"
    using Suc.prems(1) by (subst compress_loop.simps) (simp add: mult.assoc [symmetric] mult.commute)
  then show ?case using Suc by simp
qed

text \<open>Every positive number has a decimal exponent, cut off at 9.\<close>

lemma decimal_form: "0 < n \<Longrightarrow> k \<le> 9 \<Longrightarrow> \<exists>m e. n = m * 10 ^ e \<and> e \<le> k \<and> (m mod 10 \<noteq> 0 \<or> e = k)" for n :: nat
proof (induction k arbitrary: n)
  case (Suc k)
  show ?case
  proof (cases "n mod 10 = 0")
    case True
    then obtain q where q: "n = q * 10" by (metis mod_0_imp_dvd dvdE mult.commute)
    with Suc.IH [of q] Suc.prems obtain m e where "q = m * 10 ^ e" "e \<le> k" "m mod 10 \<noteq> 0 \<or> e = k" by auto
    then show ?thesis using q by (intro exI [of _ m] exI [of _ "Suc e"]) auto
  next
    case False
    then show ?thesis by (intro exI [of _ n] exI [of _ 0]) auto
  qed
qed auto

lemma times_ten_pow: "n * 10 ^ e < 2 ^ 64 \<Longrightarrow> times_ten n e = n * 10 ^ e"
proof (induction e arbitrary: n)
  case (Suc e)
  have "n * 10 * 10 ^ e < 2 ^ 64" using Suc.prems by (simp add: mult.assoc)
  moreover have "n * 10 \<le> n * 10 * 10 ^ e" by simp
  ultimately have "n * 10 < 2 ^ 64" by linarith
  then show ?case using Suc.IH [of "n * 10"] \<open>n * 10 * 10 ^ e < 2 ^ 64\<close> by (simp add: mult.assoc)
qed simp

text \<open>The code of \<open>m * 10 ^ e\<close>, and back.\<close>

definition amount_code :: "nat \<Rightarrow> nat \<Rightarrow> nat" where
  "amount_code m e = (if e < 9 then 1 + (m div 10 * 9 + m mod 10 - 1) * 10 + e else 1 + (m - 1) * 10 + 9)"

lemma CompressAmount_form:
  assumes "0 < m" "e \<le> 9" "m mod 10 \<noteq> 0 \<or> e = 9"
  shows "CompressAmount (m * 10 ^ e) = amount_code m e mod 2 ^ 64"
  using compress_loop_pow [of 0 e m] assms by (simp add: CompressAmount_def amount_code_def Let_def)

lemma DecompressAmount_form:
  assumes "0 < m" "e \<le> 9" "m mod 10 \<noteq> 0 \<or> e = 9" "m * 10 ^ e < 2 ^ 64"
  shows "DecompressAmount (amount_code m e) = m * 10 ^ e"
proof (cases "e < 9")
  case True
  let ?x = "m div 10 * 9 + m mod 10 - 1"
  obtain r where r: "m mod 10 = Suc r" "r < 9" using assms(3) True by (cases "m mod 10") auto
  have m: "?x = r + m div 10 * 9" by (simp add: r(1))
  have "?x div 9 = m div 10" "?x mod 9 + 1 = m mod 10" unfolding m using r by simp_all
  then have x: "?x div 9 * 10 + (?x mod 9 + 1) = m" by (simp only: div_mult_mod_eq)
  have c: "amount_code m e - 1 = ?x * 10 + e" "amount_code m e \<noteq> 0" using True by (simp_all add: amount_code_def)
  have d: "(?x * 10 + e) mod 10 = e" "(?x * 10 + e) div 10 = ?x" using True by simp_all
  have "m \<le> m * 10 ^ e" by simp
  then have "m < 2 ^ 64" using assms(4) by linarith
  then show ?thesis
    unfolding DecompressAmount_def Let_def c(1) d x using c(2) True times_ten_pow [OF assms(4)] by simp
next
  case False
  then have e: "e = 9" using assms(2) by simp
  have c: "amount_code m e - 1 = (m - 1) * 10 + 9" "amount_code m e \<noteq> 0" by (simp_all add: amount_code_def e)
  have d: "((m - 1) * 10 + 9) mod 10 = 9" "((m - 1) * 10 + 9) div 10 = m - 1" by simp_all
  have "m \<le> m * 10 ^ e" by simp
  then have "m - 1 + 1 < 2 ^ 64" "m - 1 + 1 = m" using assms(1,4) by linarith+
  then show ?thesis
    unfolding DecompressAmount_def Let_def c(1) d using c(2) times_ten_pow [OF assms(4)] by (simp add: e)
qed

lemma amount_code_bound: "0 < m \<Longrightarrow> e \<le> 9 \<Longrightarrow> amount_code m e \<le> 10 * (m * 10 ^ e)"
proof (cases "e < 9")
  case True
  assume m: "0 < m"
  have "m div 10 * 9 + m mod 10 - 1 \<le> m - 1" using div_mult_mod_eq [of m 10] by linarith
  then have "amount_code m e \<le> 1 + (m - 1) * 10 + e" using True by (simp add: amount_code_def)
  also have "\<dots> \<le> 10 * m" using m True by simp
  also have "\<dots> \<le> 10 * (m * 10 ^ e)" by simp
  finally show ?thesis .
next
  case False
  assume "0 < m"
  then have "amount_code m e = 10 * m" using False by (simp add: amount_code_def)
  then show ?thesis by simp
qed

lemma compress_amount_roundtrip:
  assumes "n < 2 ^ 60"
  shows "DecompressAmount (CompressAmount n) = n \<and> CompressAmount n < 2 ^ 64"
proof (cases "n = 0")
  case False
  then obtain m e where n: "n = m * 10 ^ e" "e \<le> 9" "m mod 10 \<noteq> 0 \<or> e = 9" using decimal_form [of n 9] by auto
  then have m: "0 < m" using False by (cases m) auto
  have "amount_code m e < 2 ^ 64" using amount_code_bound [OF m n(2)] assms by (simp add: n(1))
  then show ?thesis
    using CompressAmount_form [OF m n(2,3)] DecompressAmount_form [OF m n(2,3)] assms by (simp add: n(1))
qed (simp add: CompressAmount_def DecompressAmount_def)

section \<open>Scripts\<close>

abbreviation (input) nSpecialScripts :: nat where "nSpecialScripts \<equiv> 6"

definition IsToKeyID :: "CScript \<Rightarrow> bytes option" where
  "IsToKeyID script =
     (if length script = 25 \<and> unat (script ! 0) = OP_DUP \<and> unat (script ! 1) = OP_HASH160 \<and> script ! 2 = 20 \<and>
         unat (script ! 23) = OP_EQUALVERIFY \<and> unat (script ! 24) = OP_CHECKSIG
      then Some (take 20 (drop 3 script)) else None)"

definition IsToScriptID :: "CScript \<Rightarrow> bytes option" where
  "IsToScriptID script =
     (if length script = 23 \<and> unat (script ! 0) = OP_HASH160 \<and> script ! 1 = 20 \<and> unat (script ! 22) = OP_EQUAL
      then Some (take 20 (drop 2 script)) else None)"

definition IsToPubKey :: "(bytes \<Rightarrow> bool) \<Rightarrow> CScript \<Rightarrow> bytes option" where
  "IsToPubKey IsFullyValid script =
     (if length script = 35 \<and> script ! 0 = 33 \<and> unat (script ! 34) = OP_CHECKSIG \<and> (script ! 1 = 2 \<or> script ! 1 = 3)
      then Some (take 33 (drop 1 script))
      else if length script = 67 \<and> script ! 0 = 65 \<and> unat (script ! 66) = OP_CHECKSIG \<and> script ! 1 = 4
      then (let pubkey = take 65 (drop 1 script) in if IsFullyValid pubkey then Some pubkey else None)
      else None)"

definition Compress :: "(bytes \<Rightarrow> bool) \<Rightarrow> CScript \<Rightarrow> bytes option" where
  "Compress IsFullyValid script =
     (case IsToKeyID script of
        Some keyID \<Rightarrow> Some (0 # keyID)
      | None \<Rightarrow>
         (case IsToScriptID script of
            Some scriptID \<Rightarrow> Some (1 # scriptID)
          | None \<Rightarrow>
             (case IsToPubKey IsFullyValid script of
                None \<Rightarrow> None
              | Some pubkey \<Rightarrow>
                 (if pubkey ! 0 = 2 \<or> pubkey ! 0 = 3 then Some (pubkey ! 0 # take 32 (drop 1 pubkey))
                  else if pubkey ! 0 = 4 then Some ((4 OR (pubkey ! 64 AND 1)) # take 32 (drop 1 pubkey))
                  else None))))"

definition GetSpecialSize :: "nat \<Rightarrow> nat" where
  "GetSpecialSize nSize =
     (if nSize = 0 \<or> nSize = 1 then 20
      else if nSize = 2 \<or> nSize = 3 \<or> nSize = 4 \<or> nSize = 5 then 32
      else 0)"

text \<open>The result is the new script; \<open>None\<close> is a failure, which leaves the script alone.\<close>

definition Decompress :: "(bytes \<Rightarrow> bytes option) \<Rightarrow> nat \<Rightarrow> bytes \<Rightarrow> CScript option" where
  "Decompress pubkey_decompress nSize inp =
     (if nSize = 0 then
        Some ([word_of_nat OP_DUP, word_of_nat OP_HASH160, 20] @ take 20 inp @
              [word_of_nat OP_EQUALVERIFY, word_of_nat OP_CHECKSIG])
      else if nSize = 1 then
        Some ([word_of_nat OP_HASH160, 20] @ take 20 inp @ [word_of_nat OP_EQUAL])
      else if nSize = 2 \<or> nSize = 3 then
        Some ([33, word_of_nat nSize] @ take 32 inp @ [word_of_nat OP_CHECKSIG])
      else if nSize = 4 \<or> nSize = 5 then
        (case pubkey_decompress (word_of_nat (nSize - 2) # take 32 inp) of
           None \<Rightarrow> None
         | Some pubkey \<Rightarrow> Some (65 # take 65 pubkey @ [word_of_nat OP_CHECKSIG]))
      else None)"

definition Serialize_script :: "(bytes \<Rightarrow> bool) \<Rightarrow> CScript \<Rightarrow> bytes" where
  "Serialize_script IsFullyValid script =
     (case Compress IsFullyValid script of
        Some compr \<Rightarrow> compr
      | None \<Rightarrow> WriteVarInt ((length script + nSpecialScripts) mod 2 ^ 32) @ script)"

definition GetSerializeSize_script :: "(bytes \<Rightarrow> bool) \<Rightarrow> CScript \<Rightarrow> nat" where
  "GetSerializeSize_script IsFullyValid script =
     (case Compress IsFullyValid script of
        Some compr \<Rightarrow> length compr
      | None \<Rightarrow> length script + GetSizeOfVarInt ((length script + nSpecialScripts) mod 2 ^ 32))"

definition Unserialize_script :: "(bytes \<Rightarrow> bytes option) \<Rightarrow> CScript \<Rightarrow> CScript reader" where
  "Unserialize_script pubkey_decompress script bs =
     (case ReadVarInt 32 bs of
        Inl e \<Rightarrow> Inl e
      | Inr (nSize, r) \<Rightarrow>
         (if nSize < nSpecialScripts
          then (case read_bytes (GetSpecialSize nSize) r of
                  Inl e \<Rightarrow> Inl e
                | Inr (vch, r') \<Rightarrow>
                   Inr (case Decompress pubkey_decompress nSize vch of None \<Rightarrow> script | Some s \<Rightarrow> s, r'))
          else read_bytes (nSize - nSpecialScripts) r))"

text \<open>
  What the script compressor relies on: a valid uncompressed public key is recovered from
  its x coordinate and the parity of its y coordinate.
\<close>

definition decompress_ok :: "(bytes \<Rightarrow> bool) \<Rightarrow> (bytes \<Rightarrow> bytes option) \<Rightarrow> bool" where
  "decompress_ok IsFullyValid pubkey_decompress \<longleftrightarrow>
     (\<forall>pubkey. length pubkey = 65 \<longrightarrow> pubkey ! 0 = 4 \<longrightarrow> IsFullyValid pubkey \<longrightarrow>
        pubkey_decompress ((2 + (pubkey ! 64 AND 1)) # take 32 (drop 1 pubkey)) = Some pubkey)"

lemma ReadVarInt_small: "unat b < 128 \<Longrightarrow> 7 \<le> w \<Longrightarrow> ReadVarInt w (b # r) = Inr (unat b, r)"
proof -
  assume b: "unat b < 128" and w: "7 \<le> w"
  have "(2 :: nat) ^ 7 \<le> 2 ^ w" using w by (rule power_increasing) simp
  then have "unat b < 2 ^ w" using b by simp
  with b show ?thesis by (simp add: ReadVarInt_def Let_def u8_and_80 u8_and_7f)
qed

lemma u8_of_unat: "unat (b :: u8) = n \<Longrightarrow> b = word_of_nat n"
  by auto

lemma take_heads:
  "0 < length s \<Longrightarrow> take 1 s = [s ! 0]" "1 < length s \<Longrightarrow> take 2 s = [s ! 0, s ! 1]"
  "2 < length s \<Longrightarrow> take 3 s = [s ! 0, s ! 1, s ! 2]"
  by (cases s; cases "tl s"; cases "tl (tl s)"; simp add: take_Cons')+

lemma drop_tails:
  "length s = Suc n \<Longrightarrow> drop n s = [s ! n]" "length s = Suc (Suc n) \<Longrightarrow> drop n s = [s ! n, s ! Suc n]"
  by (simp_all add: Cons_nth_drop_Suc [symmetric])

lemma split_script: "s = take a s @ take n (drop a s) @ drop (a + n) s"
  by (metis append_take_drop_id drop_drop add.commute)

lemma IsToKeyID_iff:
  "IsToKeyID s = Some h \<longleftrightarrow>
   length h = 20 \<and> s = [word_of_nat OP_DUP, word_of_nat OP_HASH160, 20] @ h @ [word_of_nat OP_EQUALVERIFY, word_of_nat OP_CHECKSIG]"
proof
  assume l: "IsToKeyID s = Some h"
  then have s: "length s = 25" "s ! 0 = word_of_nat OP_DUP" "s ! 1 = word_of_nat OP_HASH160" "s ! 2 = 20"
    "s ! 23 = word_of_nat OP_EQUALVERIFY" "s ! 24 = word_of_nat OP_CHECKSIG" "h = take 20 (drop 3 s)"
    by (auto simp: IsToKeyID_def dest!: u8_of_unat split: if_splits)
  have "take 3 s = [s ! 0, s ! 1, s ! 2]" "drop 23 s = [s ! 23, s ! 24]"
    using s(1) take_heads(3) [of s] drop_tails(2) [of s 23] by simp_all
  with split_script [of s 3 20] s show
    "length h = 20 \<and> s = [word_of_nat OP_DUP, word_of_nat OP_HASH160, 20] @ h @ [word_of_nat OP_EQUALVERIFY, word_of_nat OP_CHECKSIG]"
    by simp
qed (auto simp: IsToKeyID_def nth_append)

lemma IsToScriptID_iff:
  "IsToScriptID s = Some h \<longleftrightarrow> length h = 20 \<and> s = [word_of_nat OP_HASH160, 20] @ h @ [word_of_nat OP_EQUAL]"
proof
  assume l: "IsToScriptID s = Some h"
  then have s: "length s = 23" "s ! 0 = word_of_nat OP_HASH160" "s ! 1 = 20" "s ! 22 = word_of_nat OP_EQUAL"
    "h = take 20 (drop 2 s)"
    by (auto simp: IsToScriptID_def dest!: u8_of_unat split: if_splits)
  have "take 2 s = [s ! 0, s ! 1]" "drop 22 s = [s ! 22]"
    using s(1) take_heads(2) [of s] drop_tails(1) [of s 22] by simp_all
  with split_script [of s 2 20] s
  show "length h = 20 \<and> s = [word_of_nat OP_HASH160, 20] @ h @ [word_of_nat OP_EQUAL]" by simp
qed (auto simp: IsToScriptID_def nth_append)

lemma IsToPubKey_form:
  assumes "IsToPubKey valid s = Some p"
  shows "s = word_of_nat (length p) # p @ [word_of_nat OP_CHECKSIG] \<and>
    (length p = 33 \<and> (p ! 0 = 2 \<or> p ! 0 = 3) \<or> length p = 65 \<and> p ! 0 = 4 \<and> valid p)"
proof -
  have s: "s = s ! 0 # take n (drop 1 s) @ [s ! Suc n]" if "length s = Suc (Suc n)" for n
    using split_script [of s 1 n] that take_heads(1) [of s] drop_tails(1) [of s "Suc n"] by simp
  have nth: "take n (drop 1 s) ! 0 = s ! 1" if "0 < n" "1 < length s" for n using that by simp
  consider "length s = Suc (Suc 33)" "s ! 0 = 33" "unat (s ! Suc 33) = OP_CHECKSIG" "s ! 1 = 2 \<or> s ! 1 = 3" "p = take 33 (drop 1 s)"
    | "length s = Suc (Suc 65)" "s ! 0 = 65" "unat (s ! Suc 65) = OP_CHECKSIG" "s ! 1 = 4" "p = take 65 (drop 1 s)" "valid p"
    using assms by (auto simp: IsToPubKey_def Let_def split: if_splits)
  then show ?thesis
  proof cases
    case 1
    then show ?thesis using s [of 33] nth [of 33] u8_of_unat [OF 1(3)] by simp
  next
    case 2
    then show ?thesis using s [of 65] nth [of 65] u8_of_unat [OF 2(3)] by simp
  qed
qed

lemma parity_code: "unat (4 OR (b AND 1) :: u8) = 4 + unat b mod 2" "unat (b AND 1 :: u8) = unat b mod 2"
proof -
  show one: "unat (b AND 1 :: u8) = unat b mod 2"
    by (simp add: and_one_eq unat_mod)
  have "(b AND 1) AND push_bit 2 1 = 0"
    by (rule and_disjoint_shift) (simp add: one)
  then have "4 OR (b AND 1) = 4 + (b AND 1)"
    by (simp add: disjunctive_add_eq_or or.commute add.commute push_bit_eq_mult and.commute)
  then show "unat (4 OR (b AND 1) :: u8) = 4 + unat b mod 2"
    using one by (simp add: unat_word_ariths)
qed

text \<open>Every compressed form is a code below 6 and as many bytes as \<open>GetSpecialSize\<close> says, and is decompressed to
  the script it came from.\<close>

lemma Compress_Decompress:
  assumes ec: "decompress_ok valid dec" and c: "Compress valid script = Some compr"
  obtains code d where "compr = code # d" "unat code < nSpecialScripts" "length d = GetSpecialSize (unat code)"
    "Decompress dec (unat code) d = Some script"
proof (cases "IsToKeyID script")
  case (Some h)
  then have "compr = 0 # h" using c by (simp add: Compress_def)
  with Some [unfolded IsToKeyID_iff] show thesis by (intro that [of 0 h]) (auto simp: GetSpecialSize_def Decompress_def)
next
  case noKey: None
  show thesis
  proof (cases "IsToScriptID script")
    case (Some h)
    then have "compr = 1 # h" using c noKey by (simp add: Compress_def)
    with Some [unfolded IsToScriptID_iff] show thesis by (intro that [of 1 h]) (auto simp: GetSpecialSize_def Decompress_def)
  next
    case None
    with c noKey obtain p where p: "IsToPubKey valid script = Some p"
      and cp: "(if p ! 0 = 2 \<or> p ! 0 = 3 then Some (p ! 0 # take 32 (drop 1 p))
                else if p ! 0 = 4 then Some ((4 OR (p ! 64 AND 1)) # take 32 (drop 1 p)) else None) = Some compr"
      by (auto simp: Compress_def split: option.splits)
    note f = IsToPubKey_form [OF p]
    then consider "length p = 33" "p ! 0 = 2 \<or> p ! 0 = 3" | "length p = 65" "p ! 0 = 4" "valid p" by blast
    then show thesis
    proof cases
      case 1
      have len: "unat (p ! 0) = 2 \<or> unat (p ! 0) = 3" "word_of_nat (unat (p ! 0)) = p ! 0" using 1 by auto
      have "p = p ! 0 # take 32 (drop 1 p)"
        using 1(1) by (cases p) simp_all
      then have "script = [33, p ! 0] @ take 32 (drop 1 p) @ [word_of_nat OP_CHECKSIG]" using f 1(1) by simp
      then show thesis
        using that [of "p ! 0" "take 32 (drop 1 p)"] cp 1 len by (auto simp: GetSpecialSize_def Decompress_def)
    next
      case 2
      let ?b = "p ! 64" and ?x = "take 32 (drop 1 p)"
      have code: "unat (4 OR (?b AND 1)) = 4 + unat ?b mod 2" by (rule parity_code)
      have "(word_of_nat (4 + unat ?b mod 2 - 2) :: u8) = 2 + (?b AND 1)"
        using parity_code(2) [of ?b] by (simp add: word_unat_eq_iff unat_word_ariths unat_of_nat)
      then have "dec (word_of_nat (4 + unat ?b mod 2 - 2) # ?x) = Some p"
        using ec 2 by (simp add: decompress_ok_def)
      moreover have "script = 65 # take 65 p @ [word_of_nat OP_CHECKSIG]" using f 2(1) by simp
      moreover have "4 + unat ?b mod 2 = 4 \<or> 4 + unat ?b mod 2 = 5" by linarith
      ultimately show thesis
        using that [of "4 OR (?b AND 1)" ?x] cp 2 by (auto simp: code GetSpecialSize_def Decompress_def)
    qed
  qed
qed

lemma script_roundtrip:
  assumes ec: "decompress_ok valid dec" and len: "length script + nSpecialScripts < 2 ^ 32"
  shows "Unserialize_script dec s0 (Serialize_script valid script @ r) = Inr (script, r)"
    and "length (Serialize_script valid script) = GetSerializeSize_script valid script"
proof -
  show "Unserialize_script dec s0 (Serialize_script valid script @ r) = Inr (script, r)"
  proof (cases "Compress valid script")
    case None
    then show ?thesis
      using len ReadVarInt_WriteVarInt [of "length script + nSpecialScripts" 32 "script @ r"]
      by (simp add: Serialize_script_def Unserialize_script_def)
  next
    case (Some compr)
    from Compress_Decompress [OF ec Some] obtain code d where
      d: "compr = code # d" "unat code < nSpecialScripts" "length d = GetSpecialSize (unat code)"
      "Decompress dec (unat code) d = Some script" .
    then show ?thesis
      using Some ReadVarInt_small [of code 32 "d @ r"] by (simp add: Serialize_script_def Unserialize_script_def)
  qed
qed (simp add: Serialize_script_def GetSerializeSize_script_def WriteVarInt_def GetSizeOfVarInt_digits split: option.splits)

section \<open>Outputs\<close>

definition Serialize_compressed :: "(bytes \<Rightarrow> bool) \<Rightarrow> CTxOut \<Rightarrow> bytes" where
  "Serialize_compressed valid txout =
     WriteVarInt (CompressAmount (unat (word_of_int (to_nValue txout) :: u64))) @
     Serialize_script valid (to_scriptPubKey txout)"

text \<open>Reading into \<open>txout0\<close>.\<close>

definition Unserialize_compressed :: "(bytes \<Rightarrow> bytes option) \<Rightarrow> CTxOut \<Rightarrow> CTxOut reader" where
  "Unserialize_compressed dec txout0 bs =
     (case ReadVarInt 64 bs of
        Inl e \<Rightarrow> Inl e
      | Inr (nVal, r) \<Rightarrow>
         (case Unserialize_script dec (to_scriptPubKey txout0) r of
            Inl e \<Rightarrow> Inl e
          | Inr (script, r') \<Rightarrow>
             Inr (txout0\<lparr>to_nValue := sint (word_of_nat (DecompressAmount nVal) :: u64), to_scriptPubKey := script\<rparr>, r')))"

definition compressible :: "CTxOut \<Rightarrow> bool" where
  "compressible txout \<longleftrightarrow>
     0 \<le> to_nValue txout \<and> to_nValue txout < 2 ^ 60 \<and> length (to_scriptPubKey txout) \<le> MAX_SIZE \<and> to_nRounds txout = - 10"

lemma compressed_roundtrip:
  assumes ec: "decompress_ok valid dec" and out: "compressible txout"
  shows "Unserialize_compressed dec CTxOut_null (Serialize_compressed valid txout @ r) = Inr (txout, r)"
proof -
  obtain n where n: "to_nValue txout = int n" "n < 2 ^ 60"
    using out by (metis compressible_def nonneg_int_cases of_nat_less_iff of_nat_numeral of_nat_power)
  have u: "unat (word_of_nat n :: u64) = n" "sint (word_of_nat n :: u64) = int n"
    using n by (simp_all add: unat_of_nat sint_u64_small)
  have rd: "ReadVarInt 64 (WriteVarInt (CompressAmount n) @ t) = Inr (CompressAmount n, t)" for t
    using compress_amount_roundtrip [OF n(2)] by (intro ReadVarInt_WriteVarInt) auto
  have "length (to_scriptPubKey txout) + nSpecialScripts < 2 ^ 32" using out by (simp add: compressible_def)
  from script_roundtrip(1) [OF ec this] show ?thesis
    using rd compress_amount_roundtrip [OF n(2)] out
    by (cases txout) (use n in \<open>simp add: Unserialize_compressed_def Serialize_compressed_def u CTxOut_null_def compressible_def\<close>)
qed

text \<open>What the database gives back for an output: the number of rounds, a note of the wallet, is not stored, and a spent output
  is null.\<close>

definition disk_out :: "CTxOut \<Rightarrow> CTxOut" where
  "disk_out out = (if CTxOut_IsNull out then CTxOut_null else out\<lparr>to_nRounds := - 10\<rparr>)"

definition recordable_out :: "CTxOut \<Rightarrow> bool" where
  "recordable_out out \<longleftrightarrow>
     CTxOut_IsNull out \<or> 0 \<le> to_nValue out \<and> to_nValue out < 2 ^ 60 \<and> length (to_scriptPubKey out) \<le> MAX_SIZE"

lemma IsNull_disk_out [simp]: "CTxOut_IsNull (disk_out out) = CTxOut_IsNull out"
  by (simp add: disk_out_def CTxOut_IsNull_def CTxOut_null_def)

lemma disk_out_idem [simp]: "disk_out (disk_out out) = disk_out out"
  by (simp add: disk_out_def CTxOut_IsNull_def CTxOut_null_def)

lemma recordable_disk_out: "recordable_out out \<Longrightarrow> recordable_out (disk_out out)"
  by (auto simp: recordable_out_def disk_out_def)

lemma compressed_disk:
  assumes ec: "decompress_ok valid dec" and out: "recordable_out out" "\<not> CTxOut_IsNull out"
  shows "Unserialize_compressed dec CTxOut_null (Serialize_compressed valid out @ r) = Inr (disk_out out, r)"
proof -
  have "compressible (disk_out out)" using out by (simp add: compressible_def recordable_out_def disk_out_def)
  moreover have "Serialize_compressed valid (disk_out out) = Serialize_compressed valid out"
    using out(2) by (simp add: Serialize_compressed_def disk_out_def)
  ultimately show ?thesis using compressed_roundtrip [OF ec, of "disk_out out" r] by simp
qed

section \<open>The coins of a transaction\<close>

text \<open>A \<open>VARINT\<close> of a signed \<open>int\<close>: a negative number is written as one byte.\<close>

definition WriteVarInt_int :: "int \<Rightarrow> bytes" where
  "WriteVarInt_int n = (if n < 0 then [word_of_int n AND 0x7F] else WriteVarInt (nat n))"

definition ReadVarInt_int :: "int reader" where
  "ReadVarInt_int bs =
     (case ReadVarInt 32 bs of Inl e \<Rightarrow> Inl e | Inr (n, r) \<Rightarrow> Inr (sint (word_of_nat n :: u32), r))"

definition GetSizeOfVarInt_int :: "int \<Rightarrow> nat" where
  "GetSizeOfVarInt_int n = (if n < 0 then 1 else GetSizeOfVarInt (nat n))"

definition vout_avail :: "CTxOut list \<Rightarrow> nat \<Rightarrow> bool" where
  "vout_avail vout i \<longleftrightarrow> i < length vout \<and> \<not> CTxOut_IsNull (vout ! i)"

text \<open>The number of iterations of the outer loop of \<open>CalcMaskSize\<close>.\<close>

definition mask_count :: "CTxOut list \<Rightarrow> nat" where
  "mask_count vout = (length vout - 2 + 7) div 8"

definition CalcMaskSize :: "CTxOut list \<Rightarrow> nat \<times> nat" where
  "CalcMaskSize vout =
     fold (\<lambda>b (nLastUsedByte, nNonzeroBytes).
             if list_ex (\<lambda>i. vout_avail vout (2 + b * 8 + i)) [0..<8] then (b + 1, nNonzeroBytes + 1)
             else (nLastUsedByte, nNonzeroBytes))
       [0..<mask_count vout] (0, 0)"

definition chAvail :: "CTxOut list \<Rightarrow> nat \<Rightarrow> u8" where
  "chAvail vout b =
     fold (\<lambda>i ch. if vout_avail vout (2 + b * 8 + i) then ch OR push_bit i 1 else ch) [0..<8] 0"

definition header_code :: "nat \<Rightarrow> CCoins \<Rightarrow> nat" where
  "header_code unit c =
     (let (nMaskSize, nMaskCode) = CalcMaskSize (cc_vout c);
          fFirst = vout_avail (cc_vout c) 0;
          fSecond = vout_avail (cc_vout c) 1
      in (unit * (nMaskCode - (if fFirst \<or> fSecond then 0 else 1)) + of_bool (cc_fCoinBase c) +
          2 * of_bool (cc_fCoinStake c) + 4 * of_bool fFirst + 8 * of_bool fSecond) mod 2 ^ 32)"

definition Serialize_CCoins :: "(bytes \<Rightarrow> bool) \<Rightarrow> CCoins \<Rightarrow> bytes" where
  "Serialize_CCoins valid c =
     WriteVarInt_int (cc_nVersion c) @ WriteVarInt (header_code 16 c) @
     map (chAvail (cc_vout c)) [0..<fst (CalcMaskSize (cc_vout c))] @
     concat (map (Serialize_compressed valid) (filter (\<lambda>out. \<not> CTxOut_IsNull out) (cc_vout c))) @
     WriteVarInt_int (cc_nHeight c)"

text \<open>\<open>GetSerializeSize\<close> computes the header code with the factor 8.\<close>

definition GetSerializeSize_CCoins :: "(bytes \<Rightarrow> bool) \<Rightarrow> CCoins \<Rightarrow> nat" where
  "GetSerializeSize_CCoins valid c =
     GetSizeOfVarInt_int (cc_nVersion c) + GetSizeOfVarInt (header_code 8 c) + fst (CalcMaskSize (cc_vout c)) +
     sum_list (map (\<lambda>out. length (Serialize_compressed valid out)) (filter (\<lambda>out. \<not> CTxOut_IsNull out) (cc_vout c))) +
     GetSizeOfVarInt_int (cc_nHeight c)"

definition bits_of :: "u8 \<Rightarrow> bool list" where
  "bits_of ch = map (\<lambda>p. ch AND push_bit p 1 \<noteq> 0) [0..<8]"

fun read_mask :: "nat \<Rightarrow> bool list \<Rightarrow> bool list reader" where
  "read_mask 0 vAvail bs = Inr (vAvail, bs)"
| "read_mask (Suc nMaskCode) vAvail [] = Inl end_of_data"
| "read_mask (Suc nMaskCode) vAvail (ch # r) =
     read_mask (if ch \<noteq> 0 then nMaskCode else Suc nMaskCode) (vAvail @ bits_of ch) r"

fun read_vout :: "(bytes \<Rightarrow> bytes option) \<Rightarrow> bool list \<Rightarrow> CTxOut list reader" where
  "read_vout dec [] bs = Inr ([], bs)"
| "read_vout dec (f # vAvail) bs =
     (case (if f then Unserialize_compressed dec CTxOut_null bs else Inr (CTxOut_null, bs)) of
        Inl e \<Rightarrow> Inl e
      | Inr (out, r) \<Rightarrow> (case read_vout dec vAvail r of Inl e \<Rightarrow> Inl e | Inr (vout, r') \<Rightarrow> Inr (out # vout, r')))"

definition Unserialize_CCoins :: "(bytes \<Rightarrow> bytes option) \<Rightarrow> CCoins reader" where
  "Unserialize_CCoins dec bs =
     (case ReadVarInt_int bs of Inl e \<Rightarrow> Inl e | Inr (nVersion, r1) \<Rightarrow>
     (case ReadVarInt 32 r1 of Inl e \<Rightarrow> Inl e | Inr (nCode, r2) \<Rightarrow>
     (case read_mask (nCode div 16 + (if bit nCode 2 \<or> bit nCode 3 then 0 else 1)) [bit nCode 2, bit nCode 3] r2 of
        Inl e \<Rightarrow> Inl e | Inr (vAvail, r3) \<Rightarrow>
     (case read_vout dec vAvail r3 of Inl e \<Rightarrow> Inl e | Inr (vout, r4) \<Rightarrow>
     (case ReadVarInt_int r4 of Inl e \<Rightarrow> Inl e | Inr (nHeight, r5) \<Rightarrow>
        Inr (CCoins_Cleanup \<lparr>cc_fCoinBase = bit nCode 0, cc_fCoinStake = bit nCode 1, cc_vout = vout,
               cc_nHeight = nHeight, cc_nVersion = nVersion\<rparr>, r5))))))"

text \<open>The coins that the database can hold: the last output is unspent, unspent outputs have an amount in range, and the height is
  not negative. The version of a transaction may be any \<open>int\<close>.\<close>

definition recordable :: "CCoins \<Rightarrow> bool" where
  "recordable c \<longleftrightarrow>
     cc_vout c \<noteq> [] \<and> \<not> CTxOut_IsNull (last (cc_vout c)) \<and> length (cc_vout c) \<le> MAX_SIZE \<and>
     list_all recordable_out (cc_vout c) \<and>
     - (2 ^ 31) \<le> cc_nVersion c \<and> cc_nVersion c < 2 ^ 31 \<and> 0 \<le> cc_nHeight c \<and> cc_nHeight c < 2 ^ 31"

text \<open>What the database gives back: of a negative version only the low seven bits.\<close>

definition disk_version :: "int \<Rightarrow> int" where
  "disk_version v = (if v < 0 then v mod 128 else v)"

definition disk_coins :: "CCoins \<Rightarrow> CCoins" where
  "disk_coins c = c\<lparr>cc_vout := map disk_out (cc_vout c), cc_nVersion := disk_version (cc_nVersion c)\<rparr>"

lemma disk_version_nonneg: "0 \<le> disk_version v"
  by (simp add: disk_version_def)

lemma disk_version_idem [simp]: "disk_version (disk_version v) = disk_version v"
  using disk_version_nonneg [of v] by (simp add: disk_version_def)

lemma disk_coins_idem [simp]: "disk_coins (disk_coins c) = disk_coins c"
  by (simp add: disk_coins_def)

lemma recordable_not_pruned: "recordable c \<Longrightarrow> \<not> IsPruned c"
  by (auto simp: recordable_def IsPruned_def list_all_iff)

lemma recordable_disk: "recordable c \<Longrightarrow> recordable (disk_coins c)"
proof -
  assume c: "recordable c"
  then have "- (2 ^ 31) \<le> disk_version (cc_nVersion c)" "disk_version (cc_nVersion c) < 2 ^ 31"
    using disk_version_nonneg [of "cc_nVersion c"] pos_mod_bound [of 128 "cc_nVersion c"]
    by (auto simp: recordable_def disk_version_def)
  with c show ?thesis by (auto simp: recordable_def disk_coins_def last_map list_all_iff recordable_disk_out)
qed

lemma IsPruned_disk [simp]: "IsPruned (disk_coins c) = IsPruned c"
  by (simp add: IsPruned_def disk_coins_def list_all_iff)

lemma disk_coins_exact:
  assumes "0 \<le> cc_nVersion c" "list_all (\<lambda>out. if CTxOut_IsNull out then out = CTxOut_null else to_nRounds out = - 10) (cc_vout c)"
  shows "disk_coins c = c"
proof -
  have "map disk_out (cc_vout c) = cc_vout c"
    using assms(2) by (intro map_idI) (auto simp: list_all_iff disk_out_def split: if_splits)
  then show ?thesis using assms(1) by (simp add: disk_coins_def disk_version_def)
qed

lemma varint_int_roundtrip: "0 \<le> n \<Longrightarrow> n < 2 ^ 31 \<Longrightarrow> ReadVarInt_int (WriteVarInt_int n @ r) = Inr (n, r)"
proof -
  assume n: "0 \<le> n" "n < 2 ^ 31"
  then have "nat n < 2 ^ 32" by simp
  moreover have "sint (word_of_nat (nat n) :: u32) = n"
    using n by (simp add: sint_sbintrunc' signed_take_bit_int_eq_self)
  ultimately show ?thesis
    using n by (simp add: ReadVarInt_int_def WriteVarInt_int_def ReadVarInt_WriteVarInt)
qed

lemma varint_int_disk:
  assumes "- (2 ^ 31) \<le> n" "n < 2 ^ 31"
  shows "ReadVarInt_int (WriteVarInt_int n @ r) = Inr (disk_version n, r)"
proof (cases "n < 0")
  case True
  define b where "b = (word_of_int n AND 0x7F :: u8)"
  have "b = take_bit 7 (word_of_int n)" by (simp add: b_def take_bit_eq_mask mask_eq_exp_minus_1)
  then have "uint b = n mod 128" by (simp add: take_bit_eq_mod uint_mod uint_word_of_int mod_mod_cancel)
  then have u: "unat b = nat (n mod 128)" "nat (n mod 128) < 128" by (simp_all add: unat_eq_nat_uint nat_less_iff)
  have "sint (word_of_nat (nat (n mod 128)) :: u32) = n mod 128"
    using pos_mod_bound [of 128 n] by (simp add: sint_sbintrunc' signed_take_bit_int_eq_self)
  then show ?thesis
    using True u ReadVarInt_small [of b 32 r] by (simp add: ReadVarInt_int_def WriteVarInt_int_def disk_version_def flip: b_def)
qed (use assms in \<open>simp add: varint_int_roundtrip disk_version_def\<close>)

lemma bit_fold_or:
  "p < 8 \<Longrightarrow> bit (fold (\<lambda>i ch. if P i then ch OR push_bit i 1 else ch) is (a :: u8)) p \<longleftrightarrow> bit a p \<or> p \<in> set is \<and> P p"
  by (induction "is" arbitrary: a) (auto simp: bit_simps)

lemma bits_of_chAvail: "bits_of (chAvail vout b) = map (\<lambda>i. vout_avail vout (2 + b * 8 + i)) [0..<8]"
proof -
  have "(chAvail vout b AND push_bit p 1 \<noteq> 0) = vout_avail vout (2 + b * 8 + p)" if "p < 8" for p
    using that bit_fold_or [OF that, of "\<lambda>i. vout_avail vout (2 + b * 8 + i)" "[0..<8]" 0]
    by (simp only: bit_iff_and_push_bit_not_eq_0 [symmetric] chAvail_def) simp
  then show ?thesis unfolding bits_of_def by (intro map_cong) auto
qed

lemma chAvail_nonzero: "chAvail vout b \<noteq> 0 \<longleftrightarrow> list_ex (\<lambda>i. vout_avail vout (2 + b * 8 + i)) [0..<8]"
proof
  assume "chAvail vout b \<noteq> 0"
  then obtain p where p: "bit (chAvail vout b) p" by (metis bit_eq_iff bit_0_eq bot_apply bot_bool_def)
  then have "p < 8" using bit_imp_le_length [OF p] by simp
  with p bit_fold_or [OF this, of "\<lambda>i. vout_avail vout (2 + b * 8 + i)" "[0..<8]" 0]
  show "list_ex (\<lambda>i. vout_avail vout (2 + b * 8 + i)) [0..<8]" by (auto simp: chAvail_def list_ex_iff)
next
  assume "list_ex (\<lambda>i. vout_avail vout (2 + b * 8 + i)) [0..<8]"
  then obtain p where p: "p < 8" "vout_avail vout (2 + b * 8 + p)" by (auto simp: list_ex_iff)
  with bit_fold_or [OF p(1), of "\<lambda>i. vout_avail vout (2 + b * 8 + i)" "[0..<8]" 0]
  have "bit (chAvail vout b) p" by (simp add: chAvail_def)
  then show "chAvail vout b \<noteq> 0" by auto
qed

lemma read_mask_write:
  "ms = [] \<or> last ms \<noteq> 0 \<Longrightarrow>
   read_mask (length (filter (\<lambda>ch. ch \<noteq> 0) ms)) va (ms @ r) = Inr (va @ concat (map bits_of ms), r)"
proof (induction ms arbitrary: va)
  case (Cons m ms)
  show ?case
  proof (cases "m = 0")
    case True
    then have "ms \<noteq> []" "last ms \<noteq> 0" using Cons.prems by (auto split: if_splits)
    then have "filter (\<lambda>ch. ch \<noteq> 0) ms \<noteq> []" by (metis (mono_tags, lifting) filter_empty_conv last_in_set)
    then obtain k where "length (filter (\<lambda>ch. ch \<noteq> 0) ms) = Suc k" by (cases "filter (\<lambda>ch. ch \<noteq> 0) ms") auto
    with Cons.IH [of "va @ bits_of m"] True \<open>last ms \<noteq> 0\<close> show ?thesis by simp
  next
    case False
    then show ?thesis using Cons.IH [of "va @ bits_of m"] Cons.prems by (auto split: if_splits)
  qed
qed simp

lemma mask_bits: "concat (map bits_of (map (chAvail vout) [0..<n])) = map (vout_avail vout) [2..<2 + 8 * n]"
proof (induction n)
  case (Suc n)
  have "[2..<2 + 8 * Suc n] = [2..<2 + 8 * n] @ map (\<lambda>i. 2 + n * 8 + i) [0..<8]"
    using upt_add_eq_append [of 2 "2 + 8 * n" 8] map_add_upt [of "2 + 8 * n" 8] by (simp add: ac_simps)
  then show ?case using Suc by (simp add: bits_of_chAvail)
qed simp

lemma calc_mask_fold:
  fixes n :: nat and P :: "nat \<Rightarrow> bool"
  defines "f \<equiv> \<lambda>b (l, k). if P b then (b + 1, k + 1) else (l, k)"
  shows "snd (fold f [0..<n] (0, 0)) = length (filter P [0..<n])"
    and "fst (fold f [0..<n] (0, 0)) = (if n = 0 then 0 else if P (n - 1) then n else fst (fold f [0..<n - 1] (0, 0)))"
proof -
  have f: "f n p = (if P n then (n + 1, snd p + 1) else p)" for n p by (cases p) (simp add: f_def)
  have step: "fold f [0..<Suc n] (0, 0) = f n (fold f [0..<n] (0, 0))" for n by simp
  show "snd (fold f [0..<n] (0, 0)) = length (filter P [0..<n])"
  proof (induction n)
    case (Suc n)
    then show ?case unfolding step f by simp
  qed simp
  show "fst (fold f [0..<n] (0, 0)) = (if n = 0 then 0 else if P (n - 1) then n else fst (fold f [0..<n - 1] (0, 0)))"
  proof (cases n)
    case (Suc m)
    show ?thesis unfolding Suc step f by simp
  qed simp
qed

lemma mask_count_bounds: "length vout \<le> 2 + 8 * mask_count vout" "0 < mask_count vout \<Longrightarrow> 2 + 8 * (mask_count vout - 1) < length vout"
proof -
  have e: "length vout - 2 + 7 = 8 * mask_count vout + (length vout - 2 + 7) mod 8" "(length vout - 2 + 7) mod 8 < 8"
    by (simp_all add: mask_count_def)
  then show "length vout \<le> 2 + 8 * mask_count vout" by linarith
  show "2 + 8 * (mask_count vout - 1) < length vout" if "0 < mask_count vout" using that e by linarith
qed

lemma CalcMaskSize_full:
  assumes "vout \<noteq> []" "\<not> CTxOut_IsNull (last vout)"
  shows "CalcMaskSize vout =
      (mask_count vout, length (filter (\<lambda>ch. ch \<noteq> 0) (map (chAvail vout) [0..<mask_count vout])))"
    and "0 < mask_count vout \<Longrightarrow> chAvail vout (mask_count vout - 1) \<noteq> 0"
proof -
  let ?P = "\<lambda>b. list_ex (\<lambda>i. vout_avail vout (2 + b * 8 + i)) [0..<8]" and ?n = "mask_count vout"
  have used: "?P (?n - 1)" if "0 < ?n"
  proof -
    let ?i = "length vout - 1 - (2 + (?n - 1) * 8)"
    have "?i < 8" "2 + (?n - 1) * 8 + ?i = length vout - 1"
      using mask_count_bounds [of vout] that by linarith+
    moreover have "vout_avail vout (length vout - 1)" using assms by (simp add: vout_avail_def last_conv_nth)
    ultimately have "?i \<in> set [0..<8]" "vout_avail vout (2 + (?n - 1) * 8 + ?i)" by (simp_all only: set_upt atLeastLessThan_iff) simp
    then show ?thesis unfolding list_ex_iff by blast
  qed
  then show "0 < ?n \<Longrightarrow> chAvail vout (?n - 1) \<noteq> 0" by (simp only: chAvail_nonzero)
  have "fst (CalcMaskSize vout) = ?n"
    unfolding CalcMaskSize_def by (rule trans [OF calc_mask_fold(2)]) (use used in auto)
  moreover have "snd (CalcMaskSize vout) = length (filter ?P [0..<?n])" unfolding CalcMaskSize_def by (rule calc_mask_fold(1))
  moreover have "filter (\<lambda>ch. ch \<noteq> 0) (map (chAvail vout) [0..<?n]) = map (chAvail vout) (filter ?P [0..<?n])"
    by (simp only: filter_map comp_def chAvail_nonzero)
  ultimately show "CalcMaskSize vout = (?n, length (filter (\<lambda>ch. ch \<noteq> 0) (map (chAvail vout) [0..<?n])))"
    by (simp only: prod_eq_iff fst_conv snd_conv length_map)
qed

lemma read_vout_write:
  assumes ec: "decompress_ok valid dec"
  shows "list_all recordable_out vs \<Longrightarrow>
   read_vout dec (map (\<lambda>out. \<not> CTxOut_IsNull out) vs)
     (concat (map (Serialize_compressed valid) (filter (\<lambda>out. \<not> CTxOut_IsNull out) vs)) @ r) = Inr (map disk_out vs, r)"
proof (induction vs)
  case (Cons out vs)
  then show ?case by (cases "CTxOut_IsNull out") (simp_all add: compressed_disk [OF ec], simp add: disk_out_def)
qed simp

lemma cleanup_padding: "cleanup_vout (vout @ replicate k CTxOut_null) = cleanup_vout vout"
proof (induction k)
  case (Suc k)
  have "cleanup_vout (xs @ [CTxOut_null]) = cleanup_vout xs" for xs by (subst cleanup_vout.simps) simp
  from this [of "vout @ replicate k CTxOut_null"] show ?case using Suc by (simp add: replicate_append_same)
qed simp

lemma padded_avail:
  assumes "length vout \<le> n"
  shows "map (vout_avail vout) [0..<n] = map (\<lambda>out. \<not> CTxOut_IsNull out) (vout @ replicate (n - length vout) CTxOut_null)"
  using assms by (intro nth_equalityI) (auto simp: vout_avail_def nth_append CTxOut_IsNull_def CTxOut_null_def)

lemma code_bits:
  fixes n q :: nat
  assumes "n = 16 * q + of_bool b0 + 2 * of_bool b1 + 4 * of_bool b2 + 8 * of_bool b3"
  shows "bit n 0 = b0" "bit n 1 = b1" "bit n 2 = b2" "bit n 3 = b3" "n div 16 = q"
proof -
  have d: "n div 2 = 8 * q + of_bool b1 + 2 * of_bool b2 + 4 * of_bool b3"
    "n div 4 = 4 * q + of_bool b2 + 2 * of_bool b3" "n div 8 = 2 * q + of_bool b3"
    unfolding assms by (cases b0; cases b1; cases b2; cases b3; simp)+
  show "n div 16 = q" unfolding assms by (cases b0; cases b1; cases b2; cases b3; simp)
  show "bit n 0 = b0" unfolding assms by (simp add: bit_iff_odd)
  show "bit n 1 = b1" "bit n 2 = b2" "bit n 3 = b3" by (simp_all add: bit_iff_odd d)
qed

lemma header_code_full:
  assumes c: "recordable c"
  defines "k \<equiv> snd (CalcMaskSize (cc_vout c))"
  defines "f0 \<equiv> vout_avail (cc_vout c) 0" and "f1 \<equiv> vout_avail (cc_vout c) 1"
  shows "header_code 16 c = 16 * (k - (if f0 \<or> f1 then 0 else 1)) + of_bool (cc_fCoinBase c) +
      2 * of_bool (cc_fCoinStake c) + 4 * of_bool f0 + 8 * of_bool f1" (is "_ = ?n")
    and "header_code 16 c < 2 ^ 32" and "\<not> f0 \<Longrightarrow> \<not> f1 \<Longrightarrow> 0 < k"
proof -
  let ?v = "cc_vout c"
  have v: "?v \<noteq> []" "\<not> CTxOut_IsNull (last ?v)" "length ?v \<le> MAX_SIZE" using c by (auto simp: recordable_def)
  note full = CalcMaskSize_full [OF v(1,2)]
  have "k \<le> mask_count ?v" unfolding k_def full(1) snd_conv
    using length_filter_le [of "\<lambda>ch. ch \<noteq> 0" "map (chAvail ?v) [0..<mask_count ?v]"] by simp
  moreover have "mask_count ?v \<le> 2 ^ 23" using v(3) by (simp add: mask_count_def)
  ultimately have "?n < 2 ^ 32" by (auto simp: of_bool_def)
  moreover show n: "header_code 16 c = ?n"
    using calculation by (simp add: header_code_def split_beta Let_def k_def f0_def f1_def)
  ultimately show "header_code 16 c < 2 ^ 32" by simp
  show "0 < k" if "\<not> f0" "\<not> f1"
  proof -
    have "vout_avail ?v (length ?v - 1)" using v by (simp add: vout_avail_def last_conv_nth)
    then have "length ?v \<noteq> 1" "length ?v \<noteq> 2" using that v(1) by (auto simp: f0_def f1_def)
    then have "2 < length ?v" using v(1) by (cases ?v; cases "tl ?v"; cases "tl (tl ?v)") auto
    then have pos: "0 < mask_count ?v" using mask_count_bounds(1) [of ?v] by (cases "mask_count ?v") auto
    then have "chAvail ?v (mask_count ?v - 1) \<in> set (filter (\<lambda>ch. ch \<noteq> 0) (map (chAvail ?v) [0..<mask_count ?v]))"
      using full(2) by auto
    then show ?thesis unfolding k_def full(1) snd_conv by (rule length_pos_if_in_set)
  qed
qed

lemma coins_roundtrip:
  assumes ec: "decompress_ok valid dec" and c: "recordable c"
  shows "Unserialize_CCoins dec (Serialize_CCoins valid c @ r) = Inr (disk_coins c, r)"
proof -
  let ?v = "cc_vout c" and ?n = "mask_count (cc_vout c)"
  let ?ms = "map (chAvail ?v) [0..<?n]"
  let ?pad = "?v @ replicate (2 + 8 * ?n - length ?v) CTxOut_null"
  define k where "k = snd (CalcMaskSize ?v)"
  define f0 where "f0 = vout_avail ?v 0"
  define f1 where "f1 = vout_avail ?v 1"
  have v: "?v \<noteq> []" "\<not> CTxOut_IsNull (last ?v)" and ok: "list_all recordable_out ?v" using c by (auto simp: recordable_def)
  note full = CalcMaskSize_full [OF v]
  have k: "k = length (filter (\<lambda>ch. ch \<noteq> 0) ?ms)" unfolding k_def full(1) snd_conv ..
  note code = header_code_full [OF c, folded k_def f0_def f1_def]
  note bits = code_bits [OF code(1)]
  have "?ms = [] \<or> last ?ms \<noteq> 0" using full(2) by (cases ?n) auto
  from read_mask_write [OF this] have mask: "read_mask k [f0, f1] (?ms @ t) = Inr (map (vout_avail ?v) [0..<2 + 8 * ?n], t)" for t
    unfolding k mask_bits by (simp add: f0_def f1_def upt_rec [of 0] upt_rec [of "Suc 0"] numeral_2_eq_2)
  have kk: "k - (if f0 \<or> f1 then 0 else 1) + (if f0 \<or> f1 then 0 else 1) = k" using code(3) by auto
  have "list_all recordable_out ?pad" using ok by (auto simp: list_all_iff recordable_out_def)
  from read_vout_write [OF ec this] have vout: "read_vout dec (map (vout_avail ?v) [0..<2 + 8 * ?n])
      (concat (map (Serialize_compressed valid) (filter (\<lambda>out. \<not> CTxOut_IsNull out) ?v)) @ t) = Inr (map disk_out ?pad, t)" for t
    unfolding padded_avail [OF mask_count_bounds(1)] by simp
  have "disk_out CTxOut_null = CTxOut_null" by (simp add: disk_out_def)
  then have clean: "cleanup_vout (map disk_out ?pad) = map disk_out ?v" using v by (simp add: cleanup_padding cleanup_fixed last_map)
  have int: "ReadVarInt_int (WriteVarInt_int (cc_nVersion c) @ t) = Inr (disk_version (cc_nVersion c), t)"
    "ReadVarInt_int (WriteVarInt_int (cc_nHeight c) @ t) = Inr (cc_nHeight c, t)" for t
    using c by (auto simp: recordable_def intro!: varint_int_disk varint_int_roundtrip)
  have hdr: "ReadVarInt 32 (WriteVarInt (header_code 16 c) @ t) = Inr (header_code 16 c, t)" for t
    using code(2) by (simp add: ReadVarInt_WriteVarInt)
  show ?thesis
    by (simp only: Unserialize_CCoins_def Serialize_CCoins_def append_assoc int hdr sum.case prod.case bits full(1)
        fst_conv kk mask vout CCoins_Cleanup_def CCoins.simps clean) (simp add: disk_coins_def)
qed

text \<open>C27. What the coins database reads back from what it wrote. Coins whose last output is unspent, with the amounts of unspent
  outputs from 0 to below \<open>2 ^ 60\<close>, a height that is not negative and any \<open>int\<close> as version, are recovered from their compact encoding
  (amounts, special scripts, availability mask and header code), whatever follows it, up to what the format does not keep: a negative
  version is cut to its low seven bits, spent outputs become null, and the wallet's number of rounds is reset. Coins with a version that is not
  negative, null spent outputs and no rounds are recovered exactly. Public keys are recovered by the decompression that the code relies on.\<close>

theorem CCoins_roundtrip:
  assumes ec: "decompress_ok valid dec" and c: "recordable c"
  shows "Unserialize_CCoins dec (Serialize_CCoins valid c @ r) = Inr (disk_coins c, r) \<and>
    (0 \<le> cc_nVersion c \<and>
     list_all (\<lambda>out. if CTxOut_IsNull out then out = CTxOut_null else to_nRounds out = - 10) (cc_vout c) \<longrightarrow> disk_coins c = c)"
  using coins_roundtrip [OF assms] disk_coins_exact by blast

definition example_pubkey :: bytes where
  "example_pubkey = 4 # replicate 64 1"

definition example_valid :: "bytes \<Rightarrow> bool" where
  "example_valid p \<longleftrightarrow> p = example_pubkey"

definition example_decompress :: "bytes \<Rightarrow> bytes option" where
  "example_decompress q = (if q = 3 # replicate 32 1 then Some example_pubkey else None)"

lemma example_decompress_ok: "decompress_ok example_valid example_decompress"
  by (simp add: decompress_ok_def example_valid_def example_decompress_def example_pubkey_def)

lemma example_coins_recordable: "recordable example_coins"
  by (simp add: recordable_def recordable_out_def example_coins_def CTxOut_IsNull_def CTxOut_new_def)

text \<open>Coins that are read back exactly, and coins with version \<open>-1\<close>, which come back with version 127.\<close>

theorem CCoins_roundtrip_witness:
  "Unserialize_CCoins example_decompress (Serialize_CCoins example_valid example_coins @ [7]) = Inr (example_coins, [7]) \<and>
   Unserialize_CCoins example_decompress (Serialize_CCoins example_valid (example_coins\<lparr>cc_nVersion := - 1\<rparr>)) =
     Inr (example_coins\<lparr>cc_nVersion := 127\<rparr>, [])"
proof -
  let ?old = "example_coins\<lparr>cc_nVersion := - 1\<rparr>"
  have "recordable ?old" "disk_coins ?old = example_coins\<lparr>cc_nVersion := 127\<rparr>"
    by (simp_all add: recordable_def recordable_out_def example_coins_def CTxOut_IsNull_def CTxOut_new_def disk_coins_def
        disk_version_def disk_out_def)
  moreover have "disk_coins example_coins = example_coins"
    by (simp add: example_coins_def disk_coins_def disk_version_def disk_out_def CTxOut_IsNull_def CTxOut_new_def)
  ultimately show ?thesis
    using CCoins_roundtrip [OF example_decompress_ok example_coins_recordable, of "[7]"]
      CCoins_roundtrip [OF example_decompress_ok, of ?old "[]"] by simp
qed

section \<open>Undo records\<close>

definition Serialize_CTxInUndo :: "(bytes \<Rightarrow> bool) \<Rightarrow> CTxInUndo \<Rightarrow> bytes" where
  "Serialize_CTxInUndo valid u =
     WriteVarInt ((unat (tu_nHeight u) * 4 + 2 * of_bool (tu_fCoinBase u) + of_bool (tu_fCoinStake u)) mod 2 ^ 32) @
     (if tu_nHeight u > 0 then WriteVarInt_int (tu_nVersion u) else []) @
     Serialize_compressed valid (tu_txout u)"

definition Unserialize_CTxInUndo :: "(bytes \<Rightarrow> bytes option) \<Rightarrow> CTxInUndo reader" where
  "Unserialize_CTxInUndo dec bs =
     (case ReadVarInt 32 bs of Inl e \<Rightarrow> Inl e | Inr (nCode, r1) \<Rightarrow>
     (case (if nCode div 4 > 0 then ReadVarInt_int r1 else Inr (0, r1)) of Inl e \<Rightarrow> Inl e | Inr (nVersion, r2) \<Rightarrow>
     (case Unserialize_compressed dec CTxOut_null r2 of Inl e \<Rightarrow> Inl e | Inr (out, r3) \<Rightarrow>
        Inr (\<lparr>tu_txout = out, tu_fCoinBase = bit nCode 1, tu_fCoinStake = bit nCode 0,
              tu_nHeight = word_of_nat (nCode div 4), tu_nVersion = nVersion\<rparr>, r3))))"

definition Serialize_CBlockUndo :: "(bytes \<Rightarrow> bool) \<Rightarrow> CTxInUndo list list \<Rightarrow> bytes" where
  "Serialize_CBlockUndo valid = Serialize_vector (Serialize_vector (Serialize_CTxInUndo valid))"

definition Unserialize_CBlockUndo :: "(bytes \<Rightarrow> bytes option) \<Rightarrow> CTxInUndo list list reader" where
  "Unserialize_CBlockUndo dec = Unserialize_vector (Unserialize_vector (Unserialize_CTxInUndo dec))"

text \<open>The version is only written with a height.\<close>

definition storable_undo :: "CTxInUndo \<Rightarrow> bool" where
  "storable_undo u \<longleftrightarrow>
     compressible (tu_txout u) \<and> unat (tu_nHeight u) < 2 ^ 30 \<and>
     (if tu_nHeight u = 0 then tu_nVersion u = 0 else 0 \<le> tu_nVersion u \<and> tu_nVersion u < 2 ^ 31)"

lemma undo_roundtrip:
  assumes ec: "decompress_ok valid dec" and u: "storable_undo u"
  shows "Unserialize_CTxInUndo dec (Serialize_CTxInUndo valid u @ r) = Inr (u, r)"
proof -
  define n where "n = unat (tu_nHeight u) * 4 + 2 * of_bool (tu_fCoinBase u) + of_bool (tu_fCoinStake u)"
  have h: "unat (tu_nHeight u) < 2 ^ 30" using u by (simp add: storable_undo_def)
  then have n: "n < 2 ^ 32" "n div 4 = unat (tu_nHeight u)" "bit n (Suc 0) = tu_fCoinBase u" "bit n 0 = tu_fCoinStake u"
  proof -
    have "n div 2 = unat (tu_nHeight u) * 2 + of_bool (tu_fCoinBase u)"
      unfolding n_def by (cases "tu_fCoinBase u"; cases "tu_fCoinStake u"; simp)
    then show "bit n (Suc 0) = tu_fCoinBase u" by (simp add: bit_iff_odd)
    show "bit n 0 = tu_fCoinStake u" by (simp add: bit_iff_odd n_def)
    show "n div 4 = unat (tu_nHeight u)" unfolding n_def by (cases "tu_fCoinBase u"; cases "tu_fCoinStake u"; simp)
    show "n < 2 ^ 32" unfolding n_def using h by (cases "tu_fCoinBase u"; cases "tu_fCoinStake u"; simp)
  qed
  have code: "ReadVarInt 32 (WriteVarInt (n mod 2 ^ 32) @ t) = Inr (n, t)" for t
    using n(1) by (simp add: ReadVarInt_WriteVarInt)
  have out: "Unserialize_compressed dec CTxOut_null (Serialize_compressed valid (tu_txout u) @ r) = Inr (tu_txout u, r)"
    using u by (intro compressed_roundtrip [OF ec]) (simp add: storable_undo_def)
  have version: "(if n div 4 > 0 then ReadVarInt_int ((if tu_nHeight u > 0 then WriteVarInt_int (tu_nVersion u) else []) @ t)
      else Inr (0, (if tu_nHeight u > 0 then WriteVarInt_int (tu_nVersion u) else []) @ t)) = Inr (tu_nVersion u, t)" for t
  proof (cases "tu_nHeight u = 0")
    case False
    then have "0 < unat (tu_nHeight u)" "0 < tu_nHeight u" by (simp_all add: unat_gt_0 word_gt_0)
    moreover have "ReadVarInt_int (WriteVarInt_int (tu_nVersion u) @ t) = Inr (tu_nVersion u, t)"
      using u False by (intro varint_int_roundtrip) (auto simp: storable_undo_def)
    ultimately show ?thesis by (simp add: n)
  qed (use u n in \<open>simp add: storable_undo_def\<close>)
  show ?thesis
    unfolding Unserialize_CTxInUndo_def Serialize_CTxInUndo_def n_def [symmetric] append_assoc code sum.case prod.case
      version out using n by simp
qed

lemma Unserialize_vector_write:
  assumes "\<And>x t. x \<in> set xs \<Longrightarrow> rd (wr x @ t) = Inr (x, t)" "length xs \<le> MAX_SIZE"
  shows "Unserialize_vector rd (Serialize_vector wr xs @ r) = Inr (xs, r)"
proof -
  have "(\<And>x t. x \<in> set xs \<Longrightarrow> rd (wr x @ t) = Inr (x, t)) \<Longrightarrow>
      read_elems rd (length xs) (concat (map wr xs) @ r) = Inr (xs, r)" for xs
    by (induction xs) auto
  then show ?thesis using assms by (simp add: Unserialize_vector_def Serialize_vector_def compact.read_write)
qed

text \<open>Undo data: the undo records of a block, with amounts below \<open>2 ^ 60\<close> and heights below \<open>2 ^ 30\<close>, are read back
  from what was written, coinbase and coinstake flags included, whatever follows.\<close>

theorem CBlockUndo_roundtrip:
  assumes ec: "decompress_ok valid dec" and "length undos \<le> MAX_SIZE"
    "\<forall>us \<in> set undos. length us \<le> MAX_SIZE \<and> list_all storable_undo us"
  shows "Unserialize_CBlockUndo dec (Serialize_CBlockUndo valid undos @ r) = Inr (undos, r)"
  unfolding Unserialize_CBlockUndo_def Serialize_CBlockUndo_def
  using assms by (intro Unserialize_vector_write undo_roundtrip) (auto simp: list_all_iff)

theorem CBlockUndo_roundtrip_witness:
  "Unserialize_CBlockUndo example_decompress
     (Serialize_CBlockUndo example_valid
        [[\<lparr>tu_txout = CTxOut_new 5 [0x51], tu_fCoinBase = False, tu_fCoinStake = True, tu_nHeight = 9, tu_nVersion = 1\<rparr>], []] @ [3]) =
   Inr ([[\<lparr>tu_txout = CTxOut_new 5 [0x51], tu_fCoinBase = False, tu_fCoinStake = True, tu_nHeight = 9, tu_nVersion = 1\<rparr>], []], [3])"
  by (rule CBlockUndo_roundtrip [OF example_decompress_ok])
     (simp_all add: storable_undo_def compressible_def CTxOut_new_def)

section \<open>The predicted size\<close>

text \<open>
  \<open>CCoins::GetSerializeSize\<close> computes the header code with the factor 8 that the format had before the
  coinstake flag was added, \<open>Serialize\<close> with 16: the two differ by whatever the variable-length
  encodings of the two codes differ by.
\<close>

lemma GetSerializeSize_CCoins_error:
  assumes "0 \<le> cc_nVersion c" "0 \<le> cc_nHeight c"
  shows "length (Serialize_CCoins valid c) + GetSizeOfVarInt (header_code 8 c) =
    GetSerializeSize_CCoins valid c + GetSizeOfVarInt (header_code 16 c)"
  using assms by (simp add: Serialize_CCoins_def GetSerializeSize_CCoins_def WriteVarInt_int_def GetSizeOfVarInt_int_def
      WriteVarInt_def GetSizeOfVarInt_digits length_concat comp_def)

lemma GetSerializeSize_CCoins_short:
  assumes "0 \<le> cc_nVersion c" "0 \<le> cc_nHeight c" "header_code 8 c < 128" "128 \<le> header_code 16 c"
  shows "GetSerializeSize_CCoins valid c < length (Serialize_CCoins valid c)"
proof -
  have "GetSizeOfVarInt (header_code 8 c) = 1" using assms(3) by (subst GetSizeOfVarInt.simps) simp
  moreover have "2 \<le> GetSizeOfVarInt (header_code 16 c)"
    using assms(4) GetSizeOfVarInt.simps [of "header_code 16 c div 128 - 1"] by (subst GetSizeOfVarInt.simps) simp
  ultimately show ?thesis using GetSerializeSize_CCoins_error [OF assms(1,2), of valid] by linarith
qed

end
