(* ===== verification/Sighash.thy ===== *)
theory Sighash
  imports Transaction Interpreter
begin

text \<open>
  Signature hashes and signature checkers: \<open>CTransactionSignatureSerializer\<close>,
  \<open>SignatureHash\<close> and \<open>TransactionSignatureChecker\<close> at the end of
  \<open>src/script/interpreter.cpp\<close>, the signature cache of \<open>src/script/sigcache.cpp\<close> and the
  container of public keys of \<open>src/pubkey.h\<close>. The elliptic-curve verification itself is
  outside the program and is the parameter \<open>ecdsa_verify\<close>.
\<close>

section \<open>Serialization for signing\<close>

abbreviation (input) SIGHASH_ALL :: u32 where "SIGHASH_ALL \<equiv> 1"
abbreviation (input) SIGHASH_NONE :: u32 where "SIGHASH_NONE \<equiv> 2"
abbreviation (input) SIGHASH_SINGLE :: u32 where "SIGHASH_SINGLE \<equiv> 3"
abbreviation (input) SIGHASH_ANYONECANPAY :: u32 where "SIGHASH_ANYONECANPAY \<equiv> 0x80"

definition fAnyoneCanPay :: "u32 \<Rightarrow> bool" where
  "fAnyoneCanPay nHashType \<longleftrightarrow> nHashType AND SIGHASH_ANYONECANPAY \<noteq> 0"

definition fHashSingle :: "u32 \<Rightarrow> bool" where
  "fHashSingle nHashType \<longleftrightarrow> nHashType AND 0x1f = SIGHASH_SINGLE"

definition fHashNone :: "u32 \<Rightarrow> bool" where
  "fHashNone nHashType \<longleftrightarrow> nHashType AND 0x1f = SIGHASH_NONE"

text \<open>
  The two passes of \<open>SerializeScriptCode\<close>. In the second one, \<open>itBegin\<close> is the start of the
  part not yet written; when an instruction cannot be read, \<open>it\<close> has moved past the part of
  it that was read.
\<close>

fun count_separators :: "bytes \<Rightarrow> nat" where
  "count_separators [] = 0"
| "count_separators (c # cs) =
     (let (ok, it, opcode, vch) = GetOp2 (c # cs)
      in if \<not> ok then 0
         else (if opcode = OP_CODESEPARATOR then 1 else 0) + count_separators it)"

function write_without_separators :: "bytes \<Rightarrow> bytes \<Rightarrow> bytes" where
  "write_without_separators itBegin [] = itBegin"
| "write_without_separators itBegin (c # cs) =
     (let (ok, it, opcode, vch) = GetOp2 (c # cs)
      in if \<not> ok then take (length itBegin - length it) itBegin
         else if opcode = OP_CODESEPARATOR
         then take (length itBegin - length it - 1) itBegin @ write_without_separators it it
         else write_without_separators itBegin it)"
  by pat_completeness auto
termination by (relation "measure (\<lambda>(b, it). length it)") (auto simp: termination_simp)

definition SerializeScriptCode :: "CScript \<Rightarrow> bytes" where
  "SerializeScriptCode scriptCode =
     WriteCompactSize (length scriptCode - count_separators scriptCode) @
     write_without_separators scriptCode scriptCode"

definition SerializeInput :: "CTransaction \<Rightarrow> CScript \<Rightarrow> nat \<Rightarrow> u32 \<Rightarrow> nat \<Rightarrow> bytes" where
  "SerializeInput txTo scriptCode nIn nHashType nInput0 =
     (let nInput = (if fAnyoneCanPay nHashType then nIn else nInput0);
          txin = tx_vin txTo ! nInput
      in Serialize_COutPoint (ti_prevout txin) @
         (if nInput \<noteq> nIn then Serialize_bytes [] else SerializeScriptCode scriptCode) @
         (if nInput \<noteq> nIn \<and> (fHashSingle nHashType \<or> fHashNone nHashType) then Serialize_uint 4 (0 :: u32)
          else Serialize_uint 4 (ti_nSequence txin)))"

definition SerializeOutput :: "CTransaction \<Rightarrow> nat \<Rightarrow> u32 \<Rightarrow> nat \<Rightarrow> bytes" where
  "SerializeOutput txTo nIn nHashType nOutput =
     (if fHashSingle nHashType \<and> nOutput \<noteq> nIn then Serialize_CTxOut CTxOut_null
      else Serialize_CTxOut (tx_vout txTo ! nOutput))"

definition SignatureSerialize :: "CTransaction \<Rightarrow> CScript \<Rightarrow> nat \<Rightarrow> u32 \<Rightarrow> bytes" where
  "SignatureSerialize txTo scriptCode nIn nHashType =
     (let nInputs = (if fAnyoneCanPay nHashType then 1 else length (tx_vin txTo));
          nOutputs = (if fHashNone nHashType then 0
                      else if fHashSingle nHashType then nIn + 1 else length (tx_vout txTo))
      in Serialize_uint 4 (tx_nVersion txTo) @
         WriteCompactSize nInputs @
         concat (map (SerializeInput txTo scriptCode nIn nHashType) [0..<nInputs]) @
         WriteCompactSize nOutputs @
         concat (map (SerializeOutput txTo nIn nHashType) [0..<nOutputs]) @
         Serialize_uint 4 (tx_nLockTime txTo))"

definition SignatureHash :: "CScript \<Rightarrow> CTransaction \<Rightarrow> nat \<Rightarrow> u32 \<Rightarrow> uint256" where
  "SignatureHash scriptCode txTo nIn nHashType =
     (if nIn \<ge> length (tx_vin txTo) then 1
      else if nHashType AND 0x1f = SIGHASH_SINGLE \<and> nIn \<ge> length (tx_vout txTo) then 1
      else uint256_of_bytes
             (Hash (SignatureSerialize txTo scriptCode nIn nHashType @ Serialize_uint 4 nHashType)))"

section \<open>Public keys and checkers\<close>

text \<open>The content of a \<open>CPubKey\<close>: the bytes that count, or \<open>[0xFF]\<close> when it is invalid.\<close>

definition CPubKey_GetLen :: "u8 \<Rightarrow> nat" where
  "CPubKey_GetLen chHeader =
     (if chHeader = 2 \<or> chHeader = 3 then 33
      else if chHeader = 4 \<or> chHeader = 6 \<or> chHeader = 7 then 65 else 0)"

definition CPubKey :: "bytes \<Rightarrow> bytes" where
  "CPubKey vch =
     (let len = (if vch = [] then 0 else CPubKey_GetLen (vch ! 0))
      in if len \<noteq> 0 \<and> len = length vch then vch else [0xFF])"

definition CPubKey_size :: "bytes \<Rightarrow> nat" where
  "CPubKey_size p = CPubKey_GetLen (p ! 0)"

definition CPubKey_IsValid :: "bytes \<Rightarrow> bool" where
  "CPubKey_IsValid p \<longleftrightarrow> CPubKey_size p > 0"

type_synonym ecdsa = "bytes \<Rightarrow> uint256 \<Rightarrow> bytes \<Rightarrow> bool"

definition CPubKey_Verify :: "ecdsa \<Rightarrow> bytes \<Rightarrow> uint256 \<Rightarrow> bytes \<Rightarrow> bool" where
  "CPubKey_Verify ecdsa_verify p hash vchSig =
     (if \<not> CPubKey_IsValid p then False else ecdsa_verify p hash vchSig)"

text \<open>\<open>CheckSig\<close> over any \<open>VerifySignature\<close> (a virtual method), and the plain checker.\<close>

definition CheckSig_with ::
  "(valtype \<Rightarrow> bytes \<Rightarrow> uint256 \<Rightarrow> bool) \<Rightarrow> CTransaction \<Rightarrow> nat \<Rightarrow> sig_checker" where
  "CheckSig_with VerifySignature txTo nIn vchSigIn vchPubKey scriptCode =
     (let pubkey = CPubKey vchPubKey
      in if \<not> CPubKey_IsValid pubkey then False
         else if vchSigIn = [] then False
         else let nHashType = (ucast (last vchSigIn) :: u32);
                  sighash = SignatureHash scriptCode txTo nIn nHashType
              in VerifySignature (butlast vchSigIn) pubkey sighash)"

definition VerifySignature :: "ecdsa \<Rightarrow> valtype \<Rightarrow> bytes \<Rightarrow> uint256 \<Rightarrow> bool" where
  "VerifySignature ecdsa_verify vchSig pubkey sighash = CPubKey_Verify ecdsa_verify pubkey sighash vchSig"

definition CheckSig :: "ecdsa \<Rightarrow> CTransaction \<Rightarrow> nat \<Rightarrow> sig_checker" where
  "CheckSig ecdsa_verify = CheckSig_with (VerifySignature ecdsa_verify)"

section \<open>The signature cache\<close>

text \<open>
  The set of entries in the order of the \<open>std::set\<close>. The position from which an entry is evicted is
  random: \<open>draw\<close> gives for each size how many entries lie below the random key.
\<close>

type_synonym sigdata = "uint256 \<times> bytes \<times> bytes"

definition sigcache_Get :: "sigdata list \<Rightarrow> sigdata \<Rightarrow> bool" where
  "sigcache_Get setValid k \<longleftrightarrow> k \<in> set setValid"

function sigcache_evict :: "(nat \<Rightarrow> nat) \<Rightarrow> int \<Rightarrow> sigdata list \<Rightarrow> sigdata list" where
  "sigcache_evict draw nMaxCacheSize setValid =
     (if setValid \<noteq> [] \<and> int (length setValid) > nMaxCacheSize
      then let p = draw (length setValid);
               i = (if p \<ge> length setValid then 0 else p)
           in sigcache_evict draw nMaxCacheSize (take i setValid @ drop (i + 1) setValid)
      else setValid)"
  by pat_completeness auto
termination
  by (relation "measure (\<lambda>(c, n, s). length s)") (auto simp: Let_def)

declare sigcache_evict.simps [simp del]

definition sigcache_Set ::
  "(nat \<Rightarrow> nat) \<Rightarrow> nat \<Rightarrow> int \<Rightarrow> sigdata list \<Rightarrow> sigdata \<Rightarrow> sigdata list" where
  "sigcache_Set draw pos nMaxCacheSize setValid k =
     (if nMaxCacheSize \<le> 0 then setValid
      else let s = sigcache_evict draw nMaxCacheSize setValid
           in if k \<in> set s then s else take pos s @ k # drop pos s)"

definition CachingVerifySignature ::
  "ecdsa \<Rightarrow> (nat \<Rightarrow> nat) \<Rightarrow> nat \<Rightarrow> int \<Rightarrow> bool \<Rightarrow> sigdata list \<Rightarrow> valtype \<Rightarrow> bytes \<Rightarrow> uint256 \<Rightarrow> bool \<times> sigdata list" where
  "CachingVerifySignature ecdsa_verify draw pos nMaxCacheSize store cache vchSig pubkey sighash =
     (if sigcache_Get cache (sighash, vchSig, pubkey) then (True, cache)
      else if \<not> VerifySignature ecdsa_verify vchSig pubkey sighash then (False, cache)
      else (True, if store then sigcache_Set draw pos nMaxCacheSize cache (sighash, vchSig, pubkey) else cache))"

section \<open>Scripts without code separators\<close>

text \<open>A script all of whose instructions can be read, and the script without its separators.\<close>

fun parses :: "bytes \<Rightarrow> bool" where
  "parses [] = True"
| "parses (c # cs) = (let (ok, pc, opcode, vch) = GetOp2 (c # cs) in ok \<and> parses pc)"

fun strip_separators :: "bytes \<Rightarrow> bytes" where
  "strip_separators [] = []"
| "strip_separators (c # cs) =
     (let (ok, pc, opcode, vch) = GetOp2 (c # cs)
      in (if opcode = OP_CODESEPARATOR then [] else take (length (c # cs) - length pc) (c # cs)) @
         strip_separators pc)"

lemma GetOp2_split:
  assumes "GetOp2 pc = (ok, pc', opcode, vch)"
  shows "pc = take (length pc - length pc') pc @ pc'"
  using GetOp2_suffix [OF assms] suffix_take_append by metis

lemma GetOp2_separator:
  assumes "GetOp2 (c # cs) = (ok, pc, opcode, vch)" "ok"
  shows "opcode = OP_CODESEPARATOR \<longleftrightarrow> c = 0xab" "c = 0xab \<Longrightarrow> pc = cs"
  using assms by (auto simp: GetOp2_def Let_def word_unat_eq_iff split: if_splits)

lemma write_without_separators_strip:
  "parses it \<Longrightarrow> write_without_separators (pre @ it) it = pre @ strip_separators it"
proof (induction it arbitrary: pre rule: parses.induct)
  case (2 c cs)
  obtain pc opcode vch where g: "GetOp2 (c # cs) = (True, pc, opcode, vch)" "parses pc"
    using 2(2) by (auto split: prod.splits)
  note IH = 2(1) [OF g(1) [symmetric] refl refl refl g(2)]
  show ?case
  proof (cases "opcode = OP_CODESEPARATOR")
    case True
    then have "pc = cs" using GetOp2_separator [OF g(1)] by simp
    with True g IH [of "[]"] show ?thesis by simp
  next
    case False
    define ins where "ins = take (length (c # cs) - length pc) (c # cs)"
    have "pre @ c # cs = (pre @ ins) @ pc" using GetOp2_split [OF g(1)] by (simp add: ins_def)
    with False g IH [of "pre @ ins"] show ?thesis by (simp add: ins_def)
  qed
qed simp

lemma length_strip_separators: "parses it \<Longrightarrow> length (strip_separators it) = length it - count_separators it \<and> count_separators it \<le> length it"
proof (induction it rule: parses.induct)
  case (2 c cs)
  obtain pc opcode vch where g: "GetOp2 (c # cs) = (True, pc, opcode, vch)" "parses pc"
    using 2(2) by (auto split: prod.splits)
  note IH = 2(1) [OF g(1) [symmetric] refl refl refl g(2)]
  have "length pc \<le> length cs" using GetOp2_shorter [OF g(1)] .
  moreover have "opcode = OP_CODESEPARATOR \<Longrightarrow> pc = cs" using GetOp2_separator [OF g(1)] by simp
  ultimately show ?case using IH g(1) by auto
qed simp

lemma SerializeScriptCode_strip:
  "parses scriptCode \<Longrightarrow> SerializeScriptCode scriptCode = Serialize_bytes (strip_separators scriptCode)"
  using write_without_separators_strip [of scriptCode "[]"]
  by (simp add: SerializeScriptCode_def Serialize_bytes_def length_strip_separators)

lemma erase_separators:
  "parses pc \<Longrightarrow> \<exists>n pc1. erase_at [0xab] pc = (n, pc1) \<and> parses pc1 \<and> strip_separators pc1 = strip_separators pc \<and>
     length pc1 \<le> length pc \<and> (pc1 = [] \<or> hd pc1 \<noteq> 0xab)"
proof (induction pc rule: parses.induct)
  case (2 c cs)
  obtain pc opcode vch where g: "GetOp2 (c # cs) = (True, pc, opcode, vch)" "parses pc"
    using 2(2) by (auto split: prod.splits)
  show ?case
  proof (cases "c = 0xab")
    case True
    then have "pc = cs" "opcode = OP_CODESEPARATOR" using GetOp2_separator [OF g(1)] by simp_all
    with True g 2(1) [OF g(1) [symmetric] refl refl refl g(2)] show ?thesis
      by (auto simp: erase_at.simps [of _ "_ # _"])
  next
    case False
    with 2(2) show ?thesis by (auto simp: erase_at.simps [of _ "_ # _"])
  qed
qed (simp add: erase_at.simps)

lemma FindAndDelete_separators:
  "parses pc \<Longrightarrow> snd (find_and_delete_loop [0xab] pc) = strip_separators pc"
proof (induction "length pc" arbitrary: pc rule: less_induct)
  case less
  obtain n pc1 where e: "erase_at [0xab] pc = (n, pc1)" "parses pc1" "strip_separators pc1 = strip_separators pc"
    "length pc1 \<le> length pc" "pc1 = [] \<or> hd pc1 \<noteq> 0xab"
    using erase_separators [OF less(2)] by blast
  show ?case
  proof (cases pc1)
    case Nil
    with e show ?thesis by (simp add: find_and_delete_loop.simps)
  next
    case (Cons c cs)
    obtain pc2 opcode vch where g: "GetOp2 (c # cs) = (True, pc2, opcode, vch)" "parses pc2"
      using e(2) Cons by (auto split: prod.splits)
    have "length pc2 < length pc" using GetOp2_shorter [OF g(1)] e(4) Cons by simp
    from less(1) [OF this g(2)] have "snd (find_and_delete_loop [0xab] pc2) = strip_separators pc2" .
    moreover have "opcode \<noteq> OP_CODESEPARATOR" using GetOp2_separator [OF g(1)] e(5) Cons by simp
    ultimately show ?thesis
      using e Cons g
      by (subst find_and_delete_loop.simps) (auto simp: e(3) [symmetric] split: prod.splits)
  qed
qed

section \<open>The reference algorithm\<close>

text \<open>
  The algorithm the in-place serializer replaces, which the unit tests keep as
  \<open>SignatureHashOld\<close>: modify a copy of the transaction, then serialize it.
\<close>

definition blank_scripts :: "CScript \<Rightarrow> nat \<Rightarrow> CTxIn list \<Rightarrow> CTxIn list" where
  "blank_scripts scriptCode nIn vin =
     (let vin1 = map (\<lambda>txin. txin\<lparr>ti_scriptSig := []\<rparr>) vin
      in vin1[nIn := (vin1 ! nIn)\<lparr>ti_scriptSig := scriptCode\<rparr>])"

definition zero_sequences :: "nat \<Rightarrow> CTxIn list \<Rightarrow> CTxIn list" where
  "zero_sequences nIn vin =
     map (\<lambda>i. if i \<noteq> nIn then (vin ! i)\<lparr>ti_nSequence := 0\<rparr> else vin ! i) [0..<length vin]"

definition signing_copy :: "CScript \<Rightarrow> CTransaction \<Rightarrow> nat \<Rightarrow> u32 \<Rightarrow> CTransaction" where
  "signing_copy scriptCode txTo nIn nHashType =
     (let vin1 = blank_scripts (snd (FindAndDelete scriptCode [word_of_nat OP_CODESEPARATOR])) nIn (tx_vin txTo);
          txTmp = (if nHashType AND 0x1f = SIGHASH_NONE
                   then txTo\<lparr>tx_vin := zero_sequences nIn vin1, tx_vout := []\<rparr>
                   else if nHashType AND 0x1f = SIGHASH_SINGLE
                   then txTo\<lparr>tx_vin := zero_sequences nIn vin1,
                             tx_vout := map (\<lambda>i. if i < nIn then CTxOut_null else tx_vout txTo ! i) [0..<nIn + 1]\<rparr>
                   else txTo\<lparr>tx_vin := vin1\<rparr>)
      in if nHashType AND SIGHASH_ANYONECANPAY \<noteq> 0 then txTmp\<lparr>tx_vin := [tx_vin txTmp ! nIn]\<rparr> else txTmp)"

definition SignatureHashOld :: "CScript \<Rightarrow> CTransaction \<Rightarrow> nat \<Rightarrow> u32 \<Rightarrow> uint256" where
  "SignatureHashOld scriptCode txTo nIn nHashType =
     (if nIn \<ge> length (tx_vin txTo) then 1
      else if nHashType AND 0x1f \<noteq> SIGHASH_NONE \<and> nHashType AND 0x1f = SIGHASH_SINGLE \<and> nIn \<ge> length (tx_vout txTo)
      then 1
      else uint256_of_bytes
             (Hash (Serialize_CTransaction (signing_copy scriptCode txTo nIn nHashType) @ Serialize_uint 4 nHashType)))"

lemma nth_blank_scripts:
  "i < length vin \<Longrightarrow> nIn < length vin \<Longrightarrow>
   blank_scripts sc nIn vin ! i = (vin ! i)\<lparr>ti_scriptSig := if i = nIn then sc else []\<rparr>"
  by (simp add: blank_scripts_def Let_def nth_list_update)

lemma length_blank_scripts [simp]: "length (blank_scripts sc nIn vin) = length vin"
  by (simp add: blank_scripts_def Let_def)

lemma length_zero_sequences [simp]: "length (zero_sequences nIn vin) = length vin"
  by (simp add: zero_sequences_def)

definition signing_input :: "CScript \<Rightarrow> CTransaction \<Rightarrow> nat \<Rightarrow> u32 \<Rightarrow> nat \<Rightarrow> CTxIn" where
  "signing_input sc txTo nIn nHashType i =
     (tx_vin txTo ! i)\<lparr>ti_scriptSig := if i = nIn then sc else [],
       ti_nSequence := if i \<noteq> nIn \<and> (fHashSingle nHashType \<or> fHashNone nHashType) then 0
                       else ti_nSequence (tx_vin txTo ! i)\<rparr>"

lemma SerializeInput_signing_input:
  assumes "parses scriptCode" "\<not> fAnyoneCanPay nHashType \<or> i = nIn"
  shows "SerializeInput txTo scriptCode nIn nHashType j =
      Serialize_CTxIn (signing_input (strip_separators scriptCode) txTo nIn nHashType (if fAnyoneCanPay nHashType then nIn else j))"
  using SerializeScriptCode_strip [OF assms(1)]
  by (simp add: SerializeInput_def Serialize_CTxIn_def signing_input_def Let_def)

lemma signing_copy_vin:
  assumes "nIn < length (tx_vin txTo)" "parses scriptCode"
  shows "tx_vin (signing_copy scriptCode txTo nIn nHashType) =
    map (signing_input (strip_separators scriptCode) txTo nIn nHashType)
      (if fAnyoneCanPay nHashType then [nIn] else [0..<length (tx_vin txTo)])"
proof -
  let ?sc = "strip_separators scriptCode"
  define vin1 where "vin1 = blank_scripts ?sc nIn (tx_vin txTo)"
  have fd: "snd (FindAndDelete scriptCode [word_of_nat OP_CODESEPARATOR]) = ?sc"
    using FindAndDelete_separators [OF assms(2)] by (simp add: FindAndDelete_def)
  have zero: "i < length (tx_vin txTo) \<Longrightarrow> fHashSingle nHashType \<or> fHashNone nHashType \<Longrightarrow>
      zero_sequences nIn vin1 ! i = signing_input ?sc txTo nIn nHashType i" for i
    using assms(1) by (simp add: zero_sequences_def vin1_def nth_blank_scripts signing_input_def)
  have keep: "i < length (tx_vin txTo) \<Longrightarrow> \<not> fHashSingle nHashType \<Longrightarrow> \<not> fHashNone nHashType \<Longrightarrow>
      vin1 ! i = signing_input ?sc txTo nIn nHashType i" for i
    using assms(1) by (simp add: vin1_def nth_blank_scripts signing_input_def)
  have len: "length vin1 = length (tx_vin txTo)" by (simp add: vin1_def)
  show ?thesis
    unfolding signing_copy_def fd Let_def vin1_def [symmetric]
    using assms(1) len zero keep
    by (auto simp: fAnyoneCanPay_def fHashSingle_def fHashNone_def intro!: nth_equalityI)
qed

lemma signing_copy_vout:
  assumes "fHashSingle nHashType \<longrightarrow> nIn < length (tx_vout txTo)"
  shows "map Serialize_CTxOut (tx_vout (signing_copy scriptCode txTo nIn nHashType)) =
      map (SerializeOutput txTo nIn nHashType) [0..<if fHashNone nHashType then 0
        else if fHashSingle nHashType then nIn + 1 else length (tx_vout txTo)]"
  using assms
  by (auto simp: signing_copy_def Let_def fHashSingle_def fHashNone_def SerializeOutput_def nth_append
      less_Suc_eq intro!: nth_equalityI)

lemma signing_copy_rest:
  "tx_nVersion (signing_copy scriptCode txTo nIn nHashType) = tx_nVersion txTo"
  "tx_nLockTime (signing_copy scriptCode txTo nIn nHashType) = tx_nLockTime txTo"
  by (simp_all add: signing_copy_def Let_def)

lemma SignatureSerialize_copy:
  assumes "nIn < length (tx_vin txTo)" "parses scriptCode" "fHashSingle nHashType \<longrightarrow> nIn < length (tx_vout txTo)"
  shows "SignatureSerialize txTo scriptCode nIn nHashType =
    Serialize_CTransaction (signing_copy scriptCode txTo nIn nHashType)"
proof -
  let ?ins = "if fAnyoneCanPay nHashType then 1 else length (tx_vin txTo)"
  have "map (SerializeInput txTo scriptCode nIn nHashType) [0..<?ins] =
      map Serialize_CTxIn (tx_vin (signing_copy scriptCode txTo nIn nHashType))"
    using signing_copy_vin [OF assms(1,2)] SerializeInput_signing_input [OF assms(2)] by auto
  moreover note outs = signing_copy_vout [OF assms(3), of scriptCode]
  moreover have "length (tx_vin (signing_copy scriptCode txTo nIn nHashType)) = ?ins"
    using signing_copy_vin [OF assms(1,2)] by simp
  moreover have "length (tx_vout (signing_copy scriptCode txTo nIn nHashType)) = (if fHashNone nHashType then 0
      else if fHashSingle nHashType then nIn + 1 else length (tx_vout txTo))"
    using arg_cong [OF outs, of length] by (simp only: length_map length_upt diff_zero)
  ultimately show ?thesis
    by (simp only: SignatureSerialize_def Serialize_CTransaction_def Serialize_vector_def signing_copy_rest Let_def
        length_map length_upt diff_zero append_assoc)
qed

section \<open>The cache is sound\<close>

lemma sigcache_evict_subset: "set (sigcache_evict draw n s) \<subseteq> set s"
proof (induction draw n s rule: sigcache_evict.induct)
  case (1 draw n s)
  show ?case
  proof (cases "s \<noteq> [] \<and> int (length s) > n")
    case True
    define i where "i = (if draw (length s) \<ge> length s then 0 else draw (length s))"
    have "set (take i s @ drop (i + 1) s) \<subseteq> set s"
      by (auto dest: in_set_takeD in_set_dropD)
    then show ?thesis
      using 1 [OF True refl i_def] True
      by (subst sigcache_evict.simps) (auto simp: Let_def i_def [symmetric])
  next
    case False
    then show ?thesis by (subst sigcache_evict.simps) auto
  qed
qed

lemma sigcache_Set_subset: "set (sigcache_Set draw pos n s k) \<subseteq> insert k (set s)"
  using sigcache_evict_subset [of draw n s]
  by (auto simp: sigcache_Set_def Let_def dest: in_set_takeD in_set_dropD)

section \<open>What the serialization for signing leaves out\<close>

lemma SerializeOutput_vin: "SerializeOutput (txTo\<lparr>tx_vin := v\<rparr>) nIn nHashType = SerializeOutput txTo nIn nHashType"
  by (rule ext) (simp add: SerializeOutput_def)

lemma SignatureSerialize_scripts:
  assumes "nIn < length (tx_vin txTo)"
  shows "SignatureSerialize (txTo\<lparr>tx_vin := map (\<lambda>txin. txin\<lparr>ti_scriptSig := f txin\<rparr>) (tx_vin txTo)\<rparr>) scriptCode nIn nHashType =
    SignatureSerialize txTo scriptCode nIn nHashType"
proof -
  let ?t = "txTo\<lparr>tx_vin := map (\<lambda>txin. txin\<lparr>ti_scriptSig := f txin\<rparr>) (tx_vin txTo)\<rparr>"
  let ?k = "if fAnyoneCanPay nHashType then 1 else length (tx_vin txTo)"
  have "map (SerializeInput ?t scriptCode nIn nHashType) [0..<?k] = map (SerializeInput txTo scriptCode nIn nHashType) [0..<?k]"
    using assms by (auto simp: SerializeInput_def Let_def)
  moreover have "tx_vin ?t = map (\<lambda>txin. txin\<lparr>ti_scriptSig := f txin\<rparr>) (tx_vin txTo)" "tx_vout ?t = tx_vout txTo"
    "tx_nVersion ?t = tx_nVersion txTo" "tx_nLockTime ?t = tx_nLockTime txTo" by simp_all
  ultimately show ?thesis
    by (simp only: SignatureSerialize_def Let_def length_map SerializeOutput_vin)
qed

lemma SignatureSerialize_outputs:
  assumes "fHashNone nHashType"
  shows "SignatureSerialize (txTo\<lparr>tx_vout := outs\<rparr>) scriptCode nIn nHashType = SignatureSerialize txTo scriptCode nIn nHashType"
proof -
  have "SerializeInput (txTo\<lparr>tx_vout := outs\<rparr>) scriptCode nIn nHashType = SerializeInput txTo scriptCode nIn nHashType"
    by (rule ext) (simp add: SerializeInput_def)
  then show ?thesis using assms by (simp add: SignatureSerialize_def)
qed

lemma SignatureSerialize_inputs:
  assumes "fAnyoneCanPay nHashType" "nIn < length (tx_vin txTo)"
  shows "SignatureSerialize (txTo\<lparr>tx_vin := tx_vin txTo @ ins\<rparr>) scriptCode nIn nHashType =
    SignatureSerialize txTo scriptCode nIn nHashType"
proof -
  have "SerializeInput (txTo\<lparr>tx_vin := tx_vin txTo @ ins\<rparr>) scriptCode nIn nHashType =
      SerializeInput txTo scriptCode nIn nHashType"
    by (rule ext) (simp add: SerializeInput_def Let_def nth_append assms)
  then show ?thesis using assms by (simp add: SignatureSerialize_def SerializeOutput_vin)
qed

section \<open>Properties\<close>

text \<open>C7. The in-place serializer computes the signature hash of the reference algorithm, for every
  transaction, input, hash type and script whose instructions can be read.\<close>

theorem SignatureHash_reference:
  assumes "parses scriptCode"
  shows "SignatureHash scriptCode txTo nIn nHashType = SignatureHashOld scriptCode txTo nIn nHashType"
  using SignatureSerialize_copy [OF _ assms, of nIn txTo nHashType]
  by (auto simp: SignatureHash_def SignatureHashOld_def fHashSingle_def)

theorem SignatureHash_reference_witness:
  "SignatureHash [0xab, 0xac] \<lparr>tx_nVersion = 1, tx_vin = [], tx_vout = [], tx_nLockTime = 0\<rparr> 0 1 =
   SignatureHashOld [0xab, 0xac] \<lparr>tx_nVersion = 1, tx_vin = [], tx_vout = [], tx_nLockTime = 0\<rparr> 0 1"
  by (rule SignatureHash_reference) code_simp

text \<open>C28. What \<open>SIGHASH_ALL\<close> commits to: two transactions with the same serialization for signing agree
  in everything but the input scripts, that is in version, lock time, all outputs, all
  outpoints and all sequence numbers. A signature over one of them does not
  authorize a transaction with other outputs or inputs, as long as the hash has no collision.\<close>

theorem sighash_all_commits:
  assumes "valid_CTransaction tx1" "valid_CTransaction tx2"
    and "nIn1 < length (tx_vin tx1)" "nIn2 < length (tx_vin tx2)"
    and "parses sc1" "parses sc2" "length sc1 \<le> MAX_SIZE" "length sc2 \<le> MAX_SIZE"
    and "SignatureSerialize tx1 sc1 nIn1 SIGHASH_ALL = SignatureSerialize tx2 sc2 nIn2 SIGHASH_ALL"
  shows "tx_nVersion tx1 = tx_nVersion tx2 \<and> tx_nLockTime tx1 = tx_nLockTime tx2 \<and> tx_vout tx1 = tx_vout tx2 \<and>
    map ti_prevout (tx_vin tx1) = map ti_prevout (tx_vin tx2) \<and>
    map ti_nSequence (tx_vin tx1) = map ti_nSequence (tx_vin tx2)"
proof -
  have f: "\<not> fAnyoneCanPay 1" "\<not> fHashSingle 1" "\<not> fHashNone 1"
    by (simp_all add: fAnyoneCanPay_def fHashSingle_def fHashNone_def)
  have valid: "valid_CTransaction (signing_copy sc t n 1)"
    if "valid_CTransaction t" "n < length (tx_vin t)" "parses sc" "length sc \<le> MAX_SIZE" for t n sc
    using that signing_copy_vin [OF that(2,3), of 1] length_strip_separators [OF that(3)] f
    by (auto simp: valid_CTransaction_def signing_copy_def Let_def list_all_iff valid_CTxIn_def signing_input_def
        fAnyoneCanPay_def)
  have "signing_copy sc1 tx1 nIn1 1 = signing_copy sc2 tx2 nIn2 1"
    using assms SignatureSerialize_copy f tx.write_inject valid by simp
  note eq = this
  have vin: "map ti_prevout (tx_vin (signing_copy sc t n 1)) = map ti_prevout (tx_vin t)"
    "map ti_nSequence (tx_vin (signing_copy sc t n 1)) = map ti_nSequence (tx_vin t)"
    if "n < length (tx_vin t)" "parses sc" for t n sc
    using signing_copy_vin [OF that, of 1] f by (auto simp: signing_input_def intro!: nth_equalityI)
  have vout: "tx_vout (signing_copy sc t n 1) = tx_vout t" for sc t n
    by (simp add: signing_copy_def Let_def)
  show ?thesis
    using eq vin [OF assms(3,5)] vin [OF assms(4,6)] vout [of sc1 tx1 nIn1] vout [of sc2 tx2 nIn2]
      signing_copy_rest [of sc1 tx1 nIn1 1] signing_copy_rest [of sc2 tx2 nIn2 1]
    by metis
qed

theorem sighash_all_commits_witness:
  "map ti_nSequence [\<lparr>ti_prevout = COutPoint_null, ti_scriptSig = [], ti_nSequence = 5\<rparr>] =
   map ti_nSequence [\<lparr>ti_prevout = COutPoint_null, ti_scriptSig = [0x51], ti_nSequence = 5\<rparr>]"
proof -
  let ?t = "\<lambda>s. \<lparr>tx_nVersion = 1, tx_vin = [\<lparr>ti_prevout = COutPoint_null, ti_scriptSig = s, ti_nSequence = 5\<rparr>],
      tx_vout = [], tx_nLockTime = 0\<rparr>"
  have "SerializeScriptCode [0xac] = SerializeScriptCode [0xab, 0xac]" "parses [0xac]" "parses [0xab, 0xac]"
    by code_simp+
  moreover from this have "SignatureSerialize (?t []) [0xac] 0 1 = SignatureSerialize (?t [0x51]) [0xab, 0xac] 0 1"
    by (simp add: SignatureSerialize_def SerializeInput_def fAnyoneCanPay_def fHashNone_def fHashSingle_def)
  ultimately show ?thesis
    using sighash_all_commits [of "?t []" "?t [0x51]" 0 0 "[0xac]" "[0xab, 0xac]"]
    by (simp add: valid_CTransaction_def valid_CTxIn_def del: parses.simps)
qed

text \<open>What signatures leave open: the signature hash never depends on the input scripts, with
  \<open>SIGHASH_NONE\<close> it does not depend on the outputs, and with \<open>SIGHASH_ANYONECANPAY\<close> it does not depend on
  the other inputs, so that they can be filled in or added after signing.\<close>

theorem sighash_leaves_open:
  "SignatureHash scriptCode (txTo\<lparr>tx_vin := map (\<lambda>txin. txin\<lparr>ti_scriptSig := f txin\<rparr>) (tx_vin txTo)\<rparr>) nIn nHashType =
     SignatureHash scriptCode txTo nIn nHashType \<and>
   (fHashNone nHashType \<longrightarrow>
     SignatureHash scriptCode (txTo\<lparr>tx_vout := outs\<rparr>) nIn nHashType = SignatureHash scriptCode txTo nIn nHashType) \<and>
   (fAnyoneCanPay nHashType \<and> nIn < length (tx_vin txTo) \<longrightarrow>
     SignatureHash scriptCode (txTo\<lparr>tx_vin := tx_vin txTo @ ins\<rparr>) nIn nHashType = SignatureHash scriptCode txTo nIn nHashType)"
proof -
  have "SignatureHash scriptCode (txTo\<lparr>tx_vin := map (\<lambda>txin. txin\<lparr>ti_scriptSig := f txin\<rparr>) (tx_vin txTo)\<rparr>) nIn nHashType =
      SignatureHash scriptCode txTo nIn nHashType"
    by (auto simp: SignatureHash_def SignatureSerialize_scripts)
  moreover have "fHashNone nHashType \<Longrightarrow>
      SignatureHash scriptCode (txTo\<lparr>tx_vout := outs\<rparr>) nIn nHashType = SignatureHash scriptCode txTo nIn nHashType"
    by (simp add: SignatureHash_def SignatureSerialize_outputs) (simp add: fHashNone_def)
  moreover have "fAnyoneCanPay nHashType \<Longrightarrow> nIn < length (tx_vin txTo) \<Longrightarrow>
      SignatureHash scriptCode (txTo\<lparr>tx_vin := tx_vin txTo @ ins\<rparr>) nIn nHashType = SignatureHash scriptCode txTo nIn nHashType"
    by (simp add: SignatureHash_def SignatureSerialize_inputs)
  ultimately show ?thesis by blast
qed

theorem sighash_leaves_open_witness:
  "SignatureHash [0xac] \<lparr>tx_nVersion = 1, tx_vin = [], tx_vout = [CTxOut_null], tx_nLockTime = 0\<rparr> 0 2 =
   SignatureHash [0xac] \<lparr>tx_nVersion = 1, tx_vin = [], tx_vout = [], tx_nLockTime = 0\<rparr> 0 2"
  using sighash_leaves_open [where scriptCode = "[0xac]" and nIn = 0 and nHashType = 2 and outs = "[CTxOut_null]"
      and txTo = "\<lparr>tx_nVersion = 1, tx_vin = [], tx_vout = [], tx_nLockTime = 0\<rparr>"]
  by (simp add: fHashNone_def)

text \<open>C38. The signature cache is transparent: if every cached entry verifies, the caching checker gives
  the answer of the plain one and leaves a cache with the same property, whatever is
  evicted and wherever the new entry is put.\<close>

theorem sigcache_transparent:
  assumes "\<And>h sig key. (h, sig, key) \<in> set cache \<Longrightarrow> VerifySignature ecdsa_verify sig key h"
    and "CachingVerifySignature ecdsa_verify draw pos nMaxCacheSize store cache vchSig pubkey sighash = (r, cache')"
  shows "r = VerifySignature ecdsa_verify vchSig pubkey sighash \<and>
    (\<forall>h sig key. (h, sig, key) \<in> set cache' \<longrightarrow> VerifySignature ecdsa_verify sig key h)"
  using assms sigcache_Set_subset [of draw pos nMaxCacheSize cache "(sighash, vchSig, pubkey)"]
  by (auto simp: CachingVerifySignature_def sigcache_Get_def split: if_splits)

theorem sigcache_transparent_witness:
  "VerifySignature (\<lambda>_ _ _. True) [1] (2 # replicate 32 0) 7"
proof -
  have "CachingVerifySignature (\<lambda>_ _ _. True) id 0 10 True [] [1] (2 # replicate 32 0) 7 =
      (True, [(7, [1], 2 # replicate 32 0)])"
    by (simp add: CachingVerifySignature_def sigcache_Get_def sigcache_Set_def sigcache_evict.simps Let_def
        VerifySignature_def CPubKey_Verify_def CPubKey_IsValid_def CPubKey_size_def CPubKey_GetLen_def)
  from sigcache_transparent [OF _ this] show ?thesis by simp
qed

text \<open>For a script with a truncated push the serializer announces more bytes than it writes: the
  length is that of the whole script, but the bytes behind the truncated instruction are left out.\<close>

theorem SerializeScriptCode_truncated:
  assumes "n < 76" "length b < n" "b \<noteq> []"
  shows "SerializeScriptCode (word_of_nat n # b) = WriteCompactSize (1 + length b) @ [word_of_nat n]"
proof -
  have "GetOp2 (word_of_nat n # b) = (False, b, OP_INVALIDOPCODE, [])"
    using assms by (simp add: GetOp2_def Let_def unat_of_nat)
  then show ?thesis by (simp add: SerializeScriptCode_def)
qed

theorem SerializeScriptCode_truncated_witness:
  "SerializeScriptCode [5, 1, 2] = WriteCompactSize 3 @ [5]"
  using SerializeScriptCode_truncated [of 5 "[1, 2]"] by (simp add: eval_nat_numeral)

end
