(* ===== verification/Spending.thy ===== *)
theory Spending
  imports Interpreter
begin

text \<open>
  What the interpreter decides on the script forms the program spends: multi-signature
  checks, pay-to-public-key-hash, pay-to-script-hash, and outputs marked unspendable.
\<close>

section \<open>The multi-signature loop\<close>

text \<open>
  The specification of a multi-signature check: the signatures can be assigned to keys in
  key order. The loop tries the keys greedily and gives up as soon as too few are left.
\<close>

definition sigs_match :: "sig_checker \<Rightarrow> CScript \<Rightarrow> valtype list \<Rightarrow> valtype list \<Rightarrow> bool" where
  "sigs_match checker sc sigs keys \<longleftrightarrow>
     (\<exists>ks. subseq ks keys \<and> list_all2 (\<lambda>sig key. checker sig key sc) sigs ks)"

lemma sigs_match_Nil [simp]: "sigs_match checker sc [] keys"
  by (auto simp: sigs_match_def intro: exI [of _ "[]"])

lemma sigs_match_length: "sigs_match checker sc sigs keys \<Longrightarrow> length sigs \<le> length keys"
  by (auto simp: sigs_match_def dest!: list_all2_lengthD list_emb_length)

lemma sigs_match_skip: "sigs_match checker sc sigs keys \<Longrightarrow> sigs_match checker sc sigs (k # keys)"
  by (auto simp: sigs_match_def)

lemma sigs_match_tl: "sigs_match checker sc (s # sigs) (k # keys) \<Longrightarrow> sigs_match checker sc sigs keys"
  unfolding sigs_match_def
  by (auto simp: list_all2_Cons1) (metis subseq_Cons' subseq_Cons2_iff)

lemma sigs_match_Cons:
  "sigs_match checker sc (s # sigs) (k # keys) \<longleftrightarrow>
     (if checker s k sc then sigs_match checker sc sigs keys else sigs_match checker sc (s # sigs) keys)"
proof (cases "checker s k sc")
  case True
  have "sigs_match checker sc sigs keys \<Longrightarrow> sigs_match checker sc (s # sigs) (k # keys)"
    unfolding sigs_match_def using True by (metis list_all2_Cons subseq_Cons2)
  with True sigs_match_tl show ?thesis by auto
next
  case False
  have "sigs_match checker sc (s # sigs) (k # keys) \<Longrightarrow> sigs_match checker sc (s # sigs) keys"
    unfolding sigs_match_def using False
    by (auto simp: list_all2_Cons1) (metis list_all2_Cons subseq_Cons2_neq)
  with False sigs_match_skip show ?thesis by auto
qed

lemma multisig_loop_match:
  assumes "\<And>sig. sig \<in> set sigs \<Longrightarrow> CheckSignatureEncoding sig flags = Inr ()"
    and "\<And>key. key \<in> set keys \<Longrightarrow> CheckPubKeyEncoding key flags = Inr ()"
  shows "multisig_loop checker flags sc sigs keys = Inr (sigs_match checker sc sigs keys)"
  using assms
proof (induction checker flags sc sigs keys rule: multisig_loop.induct)
  case (2 checker flags sc s sigs k keys)
  have "length sigs > length keys \<Longrightarrow> \<not> sigs_match checker sc sigs keys"
    "length (s # sigs) > length keys \<Longrightarrow> \<not> sigs_match checker sc (s # sigs) keys"
    by (auto dest: sigs_match_length)
  with 2 show ?case by (cases "checker s k sc") (auto simp: sigs_match_Cons)
next
  case (3 checker flags sc s sigs)
  then show ?case by (auto dest: sigs_match_length)
qed simp

lemma CScriptNum_serialize_small: "\<bar>n\<bar> < 2 ^ 31 \<Longrightarrow> CScriptNum (CScriptNum_serialize n) m = Some n"
  using serialize_length [of n] serialize_minimal [of n] by (simp add: CScriptNum_eq sn_value_serialize)

section \<open>Symbolic execution\<close>

lemma EvalLoop_end: "es_pc st = [] \<Longrightarrow> EvalLoop checker flags st = Inr st"
  by (simp add: EvalLoop.simps)

lemma EvalLoop_go:
  "es_pc st \<noteq> [] \<Longrightarrow>
   EvalLoop checker flags st = (case EvalStep checker flags st of Inl e \<Rightarrow> Inl e | Inr st' \<Rightarrow> EvalLoop checker flags st')"
  by (subst EvalLoop.simps) simp

lemma GetOp2_op: "78 < unat c \<Longrightarrow> GetOp2 (c # pc) = (True, pc, unat c, [])"
  by (simp add: GetOp2_def)

lemma GetOp2_short: "length b < 76 \<Longrightarrow> GetOp2 (word_of_nat (length b) # b @ pc) = (True, pc, length b, b)"
  by (simp add: GetOp2_def Let_def unat_of_nat)

lemma EvalStep_run:
  assumes "GetOp2 (es_pc st) = (True, pc, opcode, vch)" "es_vfExec st = []" "opcode \<notin> set disabled_opcodes"
    and "length vch \<le> MAX_SCRIPT_ELEMENT_SIZE" "es_nOpCount st < 201"
  shows "EvalStep checker flags st =
    (case exec_phase checker flags True opcode vch
       (st\<lparr>es_pc := pc, es_nOpCount := es_nOpCount st + (if opcode > OP_16 then 1 else 0)\<rparr>) of
       Inl e \<Rightarrow> Inl e
     | Inr st' \<Rightarrow> if length (es_stack st') + length (es_altstack st') > 1000 then Inl SCRIPT_ERR_STACK_SIZE
                 else Inr st')"
  using assms by (simp add: EvalStep_def)

lemma EvalLoop_op:
  assumes "es_pc st = c # pc" "78 < unat c" "unat c \<notin> set disabled_opcodes" "es_vfExec st = []"
    and "es_nOpCount st < 201"
  shows "EvalLoop checker flags st =
    (case exec_op checker flags True (unat c)
       (st\<lparr>es_pc := pc, es_nOpCount := es_nOpCount st + (if unat c > OP_16 then 1 else 0)\<rparr>) of
       Inl e \<Rightarrow> Inl e
     | Inr st' \<Rightarrow> if length (es_stack st') + length (es_altstack st') > 1000 then Inl SCRIPT_ERR_STACK_SIZE
                 else EvalLoop checker flags st')"
proof -
  have "GetOp2 (es_pc st) = (True, pc, unat c, [])" using assms(1,2) by (simp add: GetOp2_op)
  from EvalStep_run [OF this assms(4,3) _ assms(5)] have "EvalStep checker flags st =
      (case exec_op checker flags True (unat c)
         (st\<lparr>es_pc := pc, es_nOpCount := es_nOpCount st + (if unat c > OP_16 then 1 else 0)\<rparr>) of
         Inl e \<Rightarrow> Inl e
       | Inr st' \<Rightarrow> if length (es_stack st') + length (es_altstack st') > 1000 then Inl SCRIPT_ERR_STACK_SIZE
                   else Inr st')"
    using assms(2) by (simp add: exec_phase_def)
  then show ?thesis using EvalLoop_go [of st checker flags] assms(1) by (simp split: sum.split)
qed

lemma EvalLoop_push:
  assumes "es_pc st = c # b @ pc" "c = word_of_nat (length b)" "es_vfExec st = []" "2 \<le> length b" "length b < 76"
    and "length (es_stack st) + length (es_altstack st) < 1000" "es_nOpCount st < 201"
  shows "EvalLoop checker flags st = EvalLoop checker flags (st\<lparr>es_pc := pc, es_stack := b # es_stack st\<rparr>)"
proof -
  have "length b \<notin> set disabled_opcodes" using assms(5) by (auto simp: disabled_opcodes_def)
  moreover have "GetOp2 (es_pc st) = (True, pc, length b, b)" using assms(1,2,5) by (simp add: GetOp2_short)
  moreover have "CheckMinimalPush b (length b)" using assms(4,5) by (simp add: CheckMinimalPush_def)
  ultimately have "EvalStep checker flags st = Inr (st\<lparr>es_pc := pc, es_stack := b # es_stack st\<rparr>)"
    using EvalStep_run [of st pc "length b" b checker flags] assms(3-7) by (simp add: exec_phase_def)
  then show ?thesis using EvalLoop_go [of st checker flags] assms(1) by simp
qed

section \<open>Script forms\<close>

definition p2pkh_script :: "bytes \<Rightarrow> CScript" where
  "p2pkh_script h = push_opcode (push_opcode (push_data (push_opcode (push_opcode [] OP_DUP) OP_HASH160) h)
     OP_EQUALVERIFY) OP_CHECKSIG"

definition p2sh_script :: "bytes \<Rightarrow> CScript" where
  "p2sh_script h = push_opcode (push_data (push_opcode [] OP_HASH160) h) OP_EQUAL"

lemma p2pkh_bytes: "length h = 20 \<Longrightarrow> p2pkh_script h = [0x76, 0xa9] @ word_of_nat (length h) # h @ [0x88, 0xac]"
  by (simp add: p2pkh_script_def push_opcode_def push_data_def)

lemma p2sh_bytes: "length h = 20 \<Longrightarrow> p2sh_script h = 0xa9 # word_of_nat (length h) # h @ [0x87]"
  by (simp add: p2sh_script_def push_opcode_def push_data_def)

lemma IsPayToScriptHash_p2sh: "IsPayToScriptHash script \<longleftrightarrow> (\<exists>h. length h = 20 \<and> script = p2sh_script h)"
proof
  assume p: "IsPayToScriptHash script"
  then have len: "length script = 23" by (simp add: IsPayToScriptHash_def)
  then have "script = script ! 0 # script ! 1 # take 20 (drop 2 script) @ [script ! 22]"
    by (intro nth_equalityI) (auto simp: nth_append nth_Cons' less_Suc_eq numeral_eq_Suc)
  moreover have "length (take 20 (drop 2 script)) = 20" using len by simp
  moreover have "script ! 0 = 0xa9" "script ! 1 = 0x14" "script ! 22 = 0x87"
    using p by (simp_all add: IsPayToScriptHash_def word_unat_eq_iff)
  ultimately show "\<exists>h. length h = 20 \<and> script = p2sh_script h"
    using p2sh_bytes [of "take 20 (drop 2 script)"] by (intro exI [of _ "take 20 (drop 2 script)"]) simp
next
  assume "\<exists>h. length h = 20 \<and> script = p2sh_script h"
  then show "IsPayToScriptHash script"
    by (auto simp: p2sh_bytes IsPayToScriptHash_def nth_append nth_Cons')
qed

lemma exec_simps:
  "exec_op checker flags True OP_DUP st = on_stack (stack_op (has_flag flags SCRIPT_VERIFY_MINIMALDATA) OP_DUP) st"
  "exec_op checker flags True OP_HASH160 st = on_stack (hash_op OP_HASH160) st"
  "exec_op checker flags True OP_EQUALVERIFY st = on_stack (equal_op OP_EQUALVERIFY) st"
  "exec_op checker flags True OP_EQUAL st = on_stack (equal_op OP_EQUAL) st"
  "exec_op checker flags True OP_CHECKSIG st = on_stack (checksig_op checker flags OP_CHECKSIG (es_pbegincodehash st)) st"
  by (simp_all add: exec_op_def)

lemma Hash160_eq: "Hash160 m = ripemd160_digest (sha256_digest m)"
  using rep_CSHA256_Write [OF rep_inits(1), of m] by (simp add: Hash160_def CHash160_Finalize_eq)

lemma EvalScript_p2sh:
  assumes "length h = 20" "length s < 999"
  shows "EvalScript checker flags (redeem # s) (p2sh_script h) = Inr (vch_bool (Hash160 redeem = h) # s)"
  using assms
  by (simp add: EvalScript_def p2sh_bytes eval_start_def EvalLoop_op EvalLoop_push EvalLoop_end disabled_opcodes_def
      exec_simps on_stack_def hash_op_digests equal_op_def Hash160_eq)

lemma EvalScript_p2sh_empty:
  "length h = 20 \<Longrightarrow> EvalScript checker flags [] (p2sh_script h) = Inl SCRIPT_ERR_INVALID_STACK_OPERATION"
  by (simp add: EvalScript_def p2sh_bytes eval_start_def EvalLoop_op disabled_opcodes_def exec_simps on_stack_def
      hash_op_def)

lemma EvalScript_p2pkh:
  assumes "length h = 20"
  shows "EvalScript checker flags [pubkey, sig] (p2pkh_script h) =
    (if Hash160 pubkey = h then checksig_op checker flags OP_CHECKSIG (p2pkh_script h) [pubkey, sig]
     else Inl SCRIPT_ERR_EQUALVERIFY)"
  using assms
  by (simp add: EvalScript_def p2pkh_bytes eval_start_def EvalLoop_op EvalLoop_push EvalLoop_end disabled_opcodes_def
      exec_simps on_stack_def hash_op_digests equal_op_def stack_op_def Hash160_eq checksig_op_def
      split: sum.split)

lemma EvalScript_two_pushes:
  assumes "2 \<le> length a" "length a < 76" "2 \<le> length b" "length b < 76"
  shows "EvalScript checker flags [] (push_data (push_data [] a) b) = Inr [b, a]"
  using assms
  by (simp add: EvalScript_def push_data_def eval_start_def EvalLoop_push EvalLoop_push [of _ _ _ "[]", simplified]
      EvalLoop_end)

lemma IsPushOnly_two_pushes:
  "length a < 76 \<Longrightarrow> length b < 76 \<Longrightarrow> IsPushOnly (push_data (push_data [] a) b)"
  using GetOp2_short [of b "[]"] by (simp add: push_data_def GetOp2_short)

section \<open>Properties\<close>

text \<open>C6. Multi-signature: on a stack with \<open>n\<close> keys, their number, \<open>m \<le> n\<close> signatures, their number and
  an empty dummy, all well encoded and within the limits, \<open>OP_CHECKMULTISIG\<close> removes exactly
  these \<open>n + m + 3\<close> elements and pushes true if and only if the signatures can be
  assigned to distinct keys in the order of the keys; \<open>n\<close> operations are counted. The code
  that is signed has every one of these signatures removed.\<close>

theorem multisig_correct:
  assumes "length keys \<le> 20" "length sigs \<le> length keys" "nOpCount + length keys \<le> 201"
    and "list_all (\<lambda>sig. CheckSignatureEncoding sig flags = Inr ()) sigs"
    and "list_all (\<lambda>key. CheckPubKeyEncoding key flags = Inr ()) keys"
  shows "multisig_op checker flags OP_CHECKMULTISIG codehash nOpCount
      (CScriptNum_serialize (int (length keys)) # keys @
       CScriptNum_serialize (int (length sigs)) # sigs @ [] # rest) =
    Inr (nOpCount + length keys,
         vch_bool (\<exists>ks. subseq ks keys \<and>
           list_all2 (\<lambda>sig key. checker sig key (delete_sigs codehash sigs)) sigs ks) # rest)"
proof -
  have "CScriptNum (CScriptNum_serialize (int (length keys))) m = Some (int (length keys))"
    "CScriptNum (CScriptNum_serialize (int (length sigs))) m = Some (int (length sigs))" for m
    using assms(1,2) by (auto intro: CScriptNum_serialize_small)
  moreover have "getint (int (length keys)) = int (length keys)" "getint (int (length sigs)) = int (length sigs)"
    using assms(1,2) by (auto simp: getint_def)
  moreover have "multisig_loop checker flags sc sigs keys = Inr (sigs_match checker sc sigs keys)" for sc
    using assms(4,5) by (intro multisig_loop_match) (simp_all add: list_all_iff)
  ultimately show ?thesis
    using assms(1-3)
    by (simp add: multisig_op_def Let_def nth_append nth_Cons' drop_Cons' sigs_match_def [symmetric])
qed

theorem multisig_correct_witness:
  "multisig_op (\<lambda>s k _. s = k) 0 OP_CHECKMULTISIG [0xae] 1
      [[3], [7], [8], [9], [2], [7], [9], []] = Inr (4, [[1]])"
proof -
  let ?P = "\<lambda>ks. subseq ks [[7], [8], [9 :: u8]] \<and> list_all2 (\<lambda>s k. s = k) [[7], [9]] ks"
  have "?P [[7], [9]]" by simp
  then have "\<exists>ks. ?P ks" by blast
  moreover have "CScriptNum_serialize 3 = [3]" "CScriptNum_serialize 2 = [2]" by code_simp+
  ultimately show ?thesis
    using multisig_correct [of "[[7], [8], [9]]" "[[7], [9]]" 1 0 "\<lambda>s k _. s = k" "[0xae]" "[]"]
    by (simp add: CheckSignatureEncoding_def CheckPubKeyEncoding_def has_flag_def vch_bool_def)
qed

text \<open>C9. Pay to public key hash, end to end: a spend with a signature and a key pushed by the
  \<open>scriptSig\<close> is accepted exactly if the key hashes to the committed hash, both encodings pass
  the flags, and the checker accepts the signature over the output script (from which the
  signature itself is deleted). Every rejection has the error code of the first failing test.\<close>

theorem VerifyScript_p2pkh:
  assumes "length h = 20" "2 \<le> length sig" "length sig < 76" "2 \<le> length pubkey" "length pubkey < 76"
  shows "VerifyScript checker flags (push_data (push_data [] sig) pubkey) (p2pkh_script h) =
    Some (if Hash160 pubkey \<noteq> h then Inl SCRIPT_ERR_EQUALVERIFY
          else case CheckSignatureEncoding sig flags of
            Inl e \<Rightarrow> Inl e
          | Inr _ \<Rightarrow> (case CheckPubKeyEncoding pubkey flags of
              Inl e \<Rightarrow> Inl e
            | Inr _ \<Rightarrow> if checker sig pubkey (snd (FindAndDelete (p2pkh_script h) (push_data [] sig)))
                       then Inr () else Inl SCRIPT_ERR_EVAL_FALSE))"
proof -
  have "\<not> IsPayToScriptHash (p2pkh_script h)"
    using assms(1) by (simp add: IsPayToScriptHash_def p2pkh_bytes)
  then show ?thesis
    using EvalScript_p2pkh [OF assms(1)] EvalScript_two_pushes [OF assms(2-5)] IsPushOnly_two_pushes [OF assms(3,5)]
    by (simp add: VerifyScript_def checksig_op_def CastToBool_def vch_bool_def split: sum.split)
qed

theorem VerifyScript_p2pkh_witness:
  "VerifyScript (\<lambda>_ _ _. False) 0 (push_data (push_data [] (replicate 71 1)) (replicate 33 2)) (p2pkh_script (Hash160 (replicate 33 2))) =
   Some (Inl SCRIPT_ERR_EVAL_FALSE)"
  by (subst VerifyScript_p2pkh)
     (simp_all add: Hash160_eq CheckSignatureEncoding_def CheckPubKeyEncoding_def has_flag_def)

text \<open>C14. Pay to script hash: with the P2SH flag, a push-only \<open>scriptSig\<close> that leaves a redeem script on
  top of its arguments is accepted for an output exactly if the redeem script hashes to
  the committed hash and evaluates to true on the arguments.\<close>

theorem VerifyScript_p2sh:
  assumes "has_flag flags SCRIPT_VERIFY_P2SH" "IsPayToScriptHash scriptPubKey" "IsPushOnly scriptSig"
    and "EvalScript checker flags [] scriptSig = Inr (redeem # args)" "length args < 999"
  shows "VerifyScript checker flags scriptSig scriptPubKey = Some (Inr ()) \<longleftrightarrow>
    Hash160 redeem = take 20 (drop 2 scriptPubKey) \<and>
    (\<exists>s. EvalScript checker flags args redeem = Inr s \<and> s \<noteq> [] \<and> CastToBool (hd s))"
proof -
  obtain h where h: "length h = 20" "scriptPubKey = p2sh_script h"
    using assms(2) by (auto simp: IsPayToScriptHash_p2sh)
  then have "take 20 (drop 2 scriptPubKey) = h" by (simp add: p2sh_bytes)
  moreover have "EvalScript checker flags (redeem # args) scriptPubKey = Inr (vch_bool (Hash160 redeem = h) # args)"
    using EvalScript_p2sh [OF h(1) assms(5)] h(2) by simp
  ultimately show ?thesis
    using assms(1-4) by (auto simp: VerifyScript_def CastToBool_def vch_bool_def split: sum.split)
qed

theorem VerifyScript_p2sh_witness:
  "VerifyScript (\<lambda>_ _ _. False) 1 [0x02, 0x51, 0x51] (p2sh_script (Hash160 [0x51, 0x51])) = Some (Inr ())"
proof -
  have "EvalScript (\<lambda>_ _ _. False) 1 [] [0x02, 0x51, 0x51] = Inr [[0x51, 0x51]]"
    "EvalScript (\<lambda>_ _ _. False) 1 [] [0x51, 0x51] = Inr [[1], [1]]" "CastToBool [1]" "IsPushOnly [0x02, 0x51, 0x51]"
    by code_simp+
  moreover have len: "length (Hash160 [0x51, 0x51]) = 20" by (simp add: Hash160_eq)
  moreover have "IsPayToScriptHash (p2sh_script (Hash160 [0x51, 0x51]))"
    unfolding IsPayToScriptHash_p2sh using len by blast
  moreover have "take 20 (drop 2 (p2sh_script (Hash160 [0x51, 0x51]))) = Hash160 [0x51, 0x51]"
    using p2sh_bytes [OF len] len by simp
  ultimately show ?thesis
    using VerifyScript_p2sh [of 1 "p2sh_script (Hash160 [0x51, 0x51])" "[0x02, 0x51, 0x51]" "\<lambda>_ _ _. False"
        "[0x51, 0x51]" "[]"]
    by (simp add: has_flag_def del: IsPushOnly.simps)
qed

text \<open>C20. \<open>VerifyScript\<close> never aborts: the assertion that the copied stack is not empty when the redeem
  script is taken from it cannot fail, for any scripts, flags and checker.\<close>

theorem VerifyScript_no_abort: "VerifyScript checker flags scriptSig scriptPubKey \<noteq> None"
proof (cases "IsPayToScriptHash scriptPubKey")
  case True
  then obtain h where "length h = 20" "scriptPubKey = p2sh_script h"
    by (auto simp: IsPayToScriptHash_p2sh)
  then have "EvalScript checker flags [] scriptPubKey = Inl SCRIPT_ERR_INVALID_STACK_OPERATION"
    by (simp add: EvalScript_p2sh_empty)
  then show ?thesis by (auto simp: VerifyScript_def split: sum.splits list.splits)
qed (auto simp: VerifyScript_def split: sum.splits)

text \<open>C23. Outputs that \<open>IsUnspendable\<close> reports can be dropped from the set of unspent outputs: no
  \<open>scriptSig\<close> spends them, under any flags and with any signature checker.\<close>

theorem IsUnspendable_sound:
  assumes "IsUnspendable scriptPubKey"
  shows "VerifyScript checker flags scriptSig scriptPubKey \<noteq> Some (Inr ())"
proof -
  obtain c pc where c: "scriptPubKey = c # pc" "unat c = OP_RETURN"
    using assms by (cases scriptPubKey) (auto simp: IsUnspendable_def)
  have "exec_op checker flags True OP_RETURN st = Inl SCRIPT_ERR_OP_RETURN" for st
    by (simp add: exec_op_def control_op_def)
  then have "\<exists>e. EvalScript checker flags s scriptPubKey = Inl e" for s
    using c by (simp add: EvalScript_def eval_start_def EvalLoop_op disabled_opcodes_def)
  then have "EvalScript checker flags s scriptPubKey \<noteq> Inr r" for s r by (metis Inl_Inr_False)
  then show ?thesis by (auto simp: VerifyScript_def split: sum.splits)
qed

theorem IsUnspendable_sound_witness:
  "VerifyScript (\<lambda>_ _ _. True) 0 [0x51] [0x6a, 0x51] \<noteq> Some (Inr ())"
  by (rule IsUnspendable_sound) (simp add: IsUnspendable_def)

end
