(* ===== verification/Standard.thy ===== *)
theory Standard
  imports Sighash Spending
begin

text \<open>
  Standard output scripts, \<open>src/script/standard.h\<close> and \<open>standard.cpp\<close>: the template matcher
  \<open>Solver\<close>, destinations, and the scripts built for them; and the block signatures of
  \<open>src/primitives/block.cpp\<close>, which use the matcher. Keys and scripts are identified by
  the 20 bytes of their hash.
\<close>

section \<open>The template matcher\<close>

datatype txnouttype =
    TX_NONSTANDARD
  | TX_PUBKEY
  | TX_PUBKEYHASH
  | TX_SCRIPTHASH
  | TX_MULTISIG
  | TX_NULL_DATA

definition GetTxnOutputType :: "txnouttype \<Rightarrow> string" where
  "GetTxnOutputType t =
     (case t of
        TX_NONSTANDARD \<Rightarrow> ''nonstandard''
      | TX_PUBKEY \<Rightarrow> ''pubkey''
      | TX_PUBKEYHASH \<Rightarrow> ''pubkeyhash''
      | TX_SCRIPTHASH \<Rightarrow> ''scripthash''
      | TX_MULTISIG \<Rightarrow> ''multisig''
      | TX_NULL_DATA \<Rightarrow> ''nulldata'')"

definition mTemplates :: "(txnouttype \<times> CScript) list" where
  "mTemplates =
     [(TX_PUBKEY, push_opcode (push_opcode [] OP_PUBKEY) OP_CHECKSIG),
      (TX_PUBKEYHASH, push_opcode (push_opcode (push_opcode (push_opcode (push_opcode [] OP_DUP) OP_HASH160)
         OP_PUBKEYHASH) OP_EQUALVERIFY) OP_CHECKSIG),
      (TX_MULTISIG, push_opcode (push_opcode (push_opcode (push_opcode [] OP_SMALLINTEGER) OP_PUBKEYS)
         OP_SMALLINTEGER) OP_CHECKMULTISIG)]"

lemma GetOp2_ok_shorter: "GetOp2 pc = (True, pc', opcode, vch) \<Longrightarrow> length pc' < length pc"
  by (cases pc) (auto simp: GetOp2_def [of "[]"] dest: GetOp2_decreases [OF sym])

text \<open>
  The inner loop at \<open>OP_PUBKEYS\<close>: it collects the pushes of the size of a key and returns the
  iterator, the last instruction read and the solutions.
\<close>

function pubkeys_loop ::
  "bytes \<Rightarrow> opcodetype \<Rightarrow> valtype \<Rightarrow> valtype list \<Rightarrow> bytes \<times> opcodetype \<times> valtype \<times> valtype list" where
  "pubkeys_loop pc1 opcode1 vch1 vSolutionsRet =
     (if length vch1 \<ge> 33 \<and> length vch1 \<le> 65 then
        (let vSol = vSolutionsRet @ [vch1]
         in case GetOp2 pc1 of (ok, pc, opcode, vch) \<Rightarrow>
              if \<not> ok then (pc, opcode, vch, vSol)
              else pubkeys_loop pc opcode vch vSol)
      else (pc1, opcode1, vch1, vSolutionsRet))"
  by pat_completeness auto
termination
  by (relation "measure (\<lambda>(pc, _). length pc)") (auto dest: GetOp2_ok_shorter [OF sym])

declare pubkeys_loop.simps [simp del]

text \<open>
  The comparison of a script with a template: \<open>Some\<close> the solutions on a match, \<open>None\<close> when the loop is
  left without one.
\<close>

function match_template :: "bytes \<Rightarrow> bytes \<Rightarrow> valtype list \<Rightarrow> valtype list option" where
  "match_template pc1 pc2 vSolutionsRet =
     (if pc1 = [] \<and> pc2 = [] then Some vSolutionsRet
      else case GetOp2 pc1 of (ok1, pc1a, opcode1, vch1) \<Rightarrow>
      if \<not> ok1 then None
      else case GetOp2 pc2 of (ok2, pc2a, opcode2, vch2) \<Rightarrow>
      if \<not> ok2 then None
      else case (if opcode2 = OP_PUBKEYS then
                   (case pubkeys_loop pc1a opcode1 vch1 vSolutionsRet of (pc1b, opcode1b, vch1b, sols) \<Rightarrow>
                    case GetOp2 pc2a of (ok3, pc2b, opcode2b, vch2b) \<Rightarrow>
                      if \<not> ok3 then None else Some (pc1b, opcode1b, vch1b, sols, pc2b, opcode2b, vch2b))
                 else Some (pc1a, opcode1, vch1, vSolutionsRet, pc2a, opcode2, vch2)) of
        None \<Rightarrow> None
      | Some (p1, op1, v1, sols, p2, op2, v2) \<Rightarrow>
         (if op2 = OP_PUBKEY then
            (if length v1 < 33 \<or> length v1 > 65 then None else match_template p1 p2 (sols @ [v1]))
          else if op2 = OP_PUBKEYHASH then
            (if length v1 \<noteq> 20 then None else match_template p1 p2 (sols @ [v1]))
          else if op2 = OP_SMALLINTEGER then
            (case DecodeOP_N op1 of
               Some n \<Rightarrow> match_template p1 p2 (sols @ [[word_of_int n]])
             | None \<Rightarrow> None)
          else if op1 \<noteq> op2 \<or> v1 \<noteq> v2 then None
          else match_template p1 p2 sols))"
  by pat_completeness auto
termination
  by (relation "measure (\<lambda>(pc1, pc2, s). length pc2)")
     (auto dest!: GetOp2_ok_shorter [OF sym] GetOp2_ok_shorter split: if_splits prod.splits)

declare match_template.simps [simp del]

fun scan_templates :: "CScript \<Rightarrow> (txnouttype \<times> CScript) list \<Rightarrow> bool \<times> txnouttype \<times> valtype list" where
  "scan_templates script1 [] = (False, TX_NONSTANDARD, [])"
| "scan_templates script1 ((t, script2) # ts) =
     (case match_template script1 script2 [] of
        Some vSolutionsRet \<Rightarrow>
         (if t = TX_MULTISIG then
            (let m = unat (hd vSolutionsRet ! 0); n = unat (last vSolutionsRet ! 0)
             in if m < 1 \<or> n < 1 \<or> m > n \<or> length vSolutionsRet - 2 \<noteq> n then (False, t, vSolutionsRet)
                else (True, t, vSolutionsRet))
          else (True, t, vSolutionsRet))
      | None \<Rightarrow> scan_templates script1 ts)"

definition Solver :: "CScript \<Rightarrow> bool \<times> txnouttype \<times> valtype list" where
  "Solver scriptPubKey =
     (if IsPayToScriptHash scriptPubKey then (True, TX_SCRIPTHASH, [take 20 (drop 2 scriptPubKey)])
      else if length scriptPubKey \<ge> 1 \<and> unat (scriptPubKey ! 0) = OP_RETURN \<and> IsPushOnly (drop 1 scriptPubKey)
      then (True, TX_NULL_DATA, [])
      else scan_templates scriptPubKey mTemplates)"

definition ScriptSigArgsExpected :: "txnouttype \<Rightarrow> valtype list \<Rightarrow> int" where
  "ScriptSigArgsExpected t vSolutions =
     (case t of
        TX_NONSTANDARD \<Rightarrow> - 1
      | TX_NULL_DATA \<Rightarrow> - 1
      | TX_PUBKEY \<Rightarrow> 1
      | TX_PUBKEYHASH \<Rightarrow> 2
      | TX_MULTISIG \<Rightarrow>
         (if length vSolutions < 1 \<or> length (vSolutions ! 0) < 1 then - 1
          else int (unat (vSolutions ! 0 ! 0)) + 1)
      | TX_SCRIPTHASH \<Rightarrow> 1)"

definition IsStandard :: "bool \<Rightarrow> nat \<Rightarrow> CScript \<Rightarrow> bool \<times> txnouttype" where
  "IsStandard datacarrier nMaxDatacarrierBytes scriptPubKey =
     (case Solver scriptPubKey of (ok, whichType, vSolutions) \<Rightarrow>
      (if \<not> ok then False
       else if whichType = TX_MULTISIG then
         (let m = unat (hd vSolutions ! 0); n = unat (last vSolutions ! 0)
          in \<not> (n < 1 \<or> n > 3) \<and> \<not> (m < 1 \<or> m > n))
       else if whichType = TX_NULL_DATA \<and> (\<not> datacarrier \<or> length scriptPubKey > nMaxDatacarrierBytes) then False
       else whichType \<noteq> TX_NONSTANDARD, whichType))"

section \<open>Destinations\<close>

datatype CTxDestination = CNoDestination | CKeyID bytes | CScriptID bytes

definition CPubKey_GetID :: "bytes \<Rightarrow> bytes" where
  "CPubKey_GetID p = Hash160 (take (CPubKey_size p) p)"

definition ExtractDestination :: "CScript \<Rightarrow> CTxDestination option" where
  "ExtractDestination scriptPubKey =
     (case Solver scriptPubKey of (ok, whichType, vSolutions) \<Rightarrow>
      if \<not> ok then None
      else if whichType = TX_PUBKEY then
        (let pubKey = CPubKey (vSolutions ! 0)
         in if \<not> CPubKey_IsValid pubKey then None else Some (CKeyID (CPubKey_GetID pubKey)))
      else if whichType = TX_PUBKEYHASH then Some (CKeyID (vSolutions ! 0))
      else if whichType = TX_SCRIPTHASH then Some (CScriptID (vSolutions ! 0))
      else None)"

definition ExtractDestinations :: "CScript \<Rightarrow> (txnouttype \<times> CTxDestination list \<times> nat) option" where
  "ExtractDestinations scriptPubKey =
     (case Solver scriptPubKey of (ok, typeRet, vSolutions) \<Rightarrow>
      if \<not> ok then None
      else if typeRet = TX_NULL_DATA then None
      else if typeRet = TX_MULTISIG then
        (let nRequiredRet = unat (hd vSolutions ! 0);
             addressRet = map (\<lambda>k. CKeyID (CPubKey_GetID k))
               (filter CPubKey_IsValid (map CPubKey (butlast (tl vSolutions))))
         in if addressRet = [] then None else Some (typeRet, addressRet, nRequiredRet))
      else (case ExtractDestination scriptPubKey of
              None \<Rightarrow> None
            | Some address \<Rightarrow> Some (typeRet, [address], 1)))"

definition GetScriptForDestination :: "CTxDestination \<Rightarrow> CScript" where
  "GetScriptForDestination dest =
     (case dest of
        CNoDestination \<Rightarrow> []
      | CKeyID keyID \<Rightarrow> p2pkh_script keyID
      | CScriptID scriptID \<Rightarrow> p2sh_script scriptID)"

definition GetScriptForMultisig :: "nat \<Rightarrow> bytes list \<Rightarrow> CScript option" where
  "GetScriptForMultisig nRequired keys =
     (case (EncodeOP_N (int nRequired), EncodeOP_N (int (length keys))) of
        (Some m, Some n) \<Rightarrow>
          Some (push_opcode (push_opcode (fold (\<lambda>key s. push_data s key) keys (push_opcode [] m)) n) OP_CHECKMULTISIG)
      | _ \<Rightarrow> None)"

section \<open>Block signatures\<close>

text \<open>
  \<open>CBlock::SignBlock\<close> and \<open>CheckBlockSignature\<close>. The key store and the signing of a key are
  parameters, as is the block hash. The constructor of \<open>uint160\<close> throws on a vector that does not
  have 20 bytes.
\<close>

datatype sign_result = Signed bytes | NotSigned | ThrowsUintError

definition uint160_of_vector :: "bytes \<Rightarrow> bytes option" where
  "uint160_of_vector vch = (if length vch \<noteq> 20 then None else Some vch)"

definition sign_with :: "(bytes \<Rightarrow> (uint256 \<Rightarrow> bytes option) option) \<Rightarrow> uint256 \<Rightarrow> bytes \<Rightarrow> sign_result" where
  "sign_with GetKey hash keyID =
     (case GetKey keyID of
        None \<Rightarrow> NotSigned
      | Some key \<Rightarrow> (case key hash of None \<Rightarrow> NotSigned | Some sig \<Rightarrow> Signed sig))"

fun sign_coinbase :: "(bytes \<Rightarrow> (uint256 \<Rightarrow> bytes option) option) \<Rightarrow> uint256 \<Rightarrow> CTxOut list \<Rightarrow> sign_result" where
  "sign_coinbase GetKey hash [] = NotSigned"
| "sign_coinbase GetKey hash (txout # outs) =
     (case Solver (to_scriptPubKey txout) of (ok, whichType, vSolutions) \<Rightarrow>
      if \<not> ok then sign_coinbase GetKey hash outs
      else if whichType = TX_PUBKEY then
        (case uint160_of_vector (vSolutions ! 0) of
           None \<Rightarrow> ThrowsUintError
         | Some keyID \<Rightarrow> sign_with GetKey hash keyID)
      else sign_coinbase GetKey hash outs)"

definition SignBlock :: "(bytes \<Rightarrow> (uint256 \<Rightarrow> bytes option) option) \<Rightarrow> (CBlockHeader \<Rightarrow> uint256) \<Rightarrow> CBlock \<Rightarrow> sign_result" where
  "SignBlock GetKey GetHash b =
     (if \<not> IsProofOfStake (blk_vtx b) then sign_coinbase GetKey (GetHash (blk_header b)) (tx_vout (blk_vtx b ! 0))
      else case Solver (to_scriptPubKey (tx_vout (blk_vtx b ! 1) ! 1)) of (ok, whichType, vSolutions) \<Rightarrow>
        if \<not> ok then NotSigned
        else if whichType = TX_PUBKEYHASH then
          (case uint160_of_vector (vSolutions ! 0) of
             None \<Rightarrow> ThrowsUintError
           | Some keyID \<Rightarrow> sign_with GetKey (GetHash (blk_header b)) keyID)
        else if whichType = TX_PUBKEY then
          sign_with GetKey (GetHash (blk_header b)) (CPubKey_GetID (CPubKey (vSolutions ! 0)))
        else NotSigned)"

definition CheckBlockSignature :: "ecdsa \<Rightarrow> (CBlockHeader \<Rightarrow> uint256) \<Rightarrow> CBlock \<Rightarrow> bool" where
  "CheckBlockSignature ecdsa_verify GetHash b =
     (if \<not> IsProofOfStake (blk_vtx b) then blk_vchBlockSig b = []
      else case Solver (to_scriptPubKey (tx_vout (blk_vtx b ! 1) ! 1)) of (ok, whichType, vSolutions) \<Rightarrow>
        if \<not> ok then False
        else if whichType = TX_PUBKEY \<or> whichType = TX_PUBKEYHASH then
          (let pubkey = CPubKey (vSolutions ! 0)
           in if \<not> CPubKey_IsValid pubkey then False
              else if blk_vchBlockSig b = [] then False
              else CPubKey_Verify ecdsa_verify pubkey (GetHash (blk_header b)) (blk_vchBlockSig b))
        else False)"

section \<open>Matching\<close>

lemma GetOp2_push: "length b < 76 \<Longrightarrow> b \<noteq> [] \<Longrightarrow> GetOp2 (word_of_nat (length b) # b) = (True, [], length b, b)"
  using GetOp2_short [of b "[]"] by simp

lemma Solver_p2sh: "length h = 20 \<Longrightarrow> Solver (p2sh_script h) = (True, TX_SCRIPTHASH, [h])"
proof -
  assume h: "length h = 20"
  then have "IsPayToScriptHash (p2sh_script h)" by (auto simp: IsPayToScriptHash_p2sh)
  with h show ?thesis by (simp add: Solver_def p2sh_bytes)
qed

lemma Solver_p2pkh: "length h = 20 \<Longrightarrow> Solver (p2pkh_script h) = (True, TX_PUBKEYHASH, [h])"
proof -
  assume h: "length h = 20"
  have "\<not> IsPayToScriptHash (p2pkh_script h)" using h by (simp add: IsPayToScriptHash_def p2pkh_bytes)
  moreover have "GetOp2 (20 # h @ r) = (True, r, 20, h)" for r using GetOp2_short [of h r] h by simp
  ultimately show ?thesis
    using h
    by (simp add: Solver_def p2pkh_bytes mTemplates_def push_opcode_def match_template.simps GetOp2_op)
qed

lemma push_data_append: "push_data s b = s @ push_data [] b"
  by (simp add: push_data_def)

lemma fold_push_data: "fold (\<lambda>key s. push_data s key) keys s = s @ concat (map (push_data []) keys)"
proof (induction keys arbitrary: s)
  case (Cons k keys)
  show ?case using Cons [of "push_data s k"] push_data_append [of s k] by simp
qed simp

lemma pubkeys_loop_keys:
  assumes "33 \<le> length k" "length k \<le> 65" "list_all (\<lambda>k. 33 \<le> length k \<and> length k \<le> 65) ks" "78 < unat c"
  shows "pubkeys_loop (concat (map (push_data []) ks) @ c # r) op1 k sols = (r, unat c, [], sols @ k # ks)"
  using assms
proof (induction ks arbitrary: k op1 sols)
  case Nil
  then show ?case by (simp add: pubkeys_loop.simps [of _ _ k] pubkeys_loop.simps [of _ _ "[]"] GetOp2_op)
next
  case (Cons k2 ks)
  have "\<exists>op. GetOp2 (push_data [] k2 @ concat (map (push_data []) ks) @ c # r) =
      (True, concat (map (push_data []) ks) @ c # r, op, k2)"
    using GetOp2_push_data [of k2] Cons.prems(3) by fastforce
  with Cons show ?case
    by (subst pubkeys_loop.simps) auto
qed

lemma Solver_multisig:
  assumes "1 \<le> m" "m \<le> length keys" "length keys \<le> 16"
    and "list_all (\<lambda>k. 33 \<le> length k \<and> length k \<le> 65) keys"
    and "script = word_of_nat (80 + m) # concat (map (push_data []) keys) @ [word_of_nat (80 + length keys), 0xae]"
  shows "Solver script = (True, TX_MULTISIG, [word_of_nat m] # keys @ [[word_of_nat (length keys)]])"
proof -
  obtain k ks where keys: "keys = k # ks" using assms(1,2) by (cases keys) auto
  have c: "unat (word_of_nat (80 + n) :: u8) = 80 + n" "unat (word_of_nat n :: u8) = n"
    "DecodeOP_N (80 + n) = Some (int n)" if "1 \<le> n" "n \<le> 16" for n
    using that by (auto simp: unat_of_nat DecodeOP_N_def simp del: of_nat_add)
  let ?n = "length keys"
  have mn: "1 \<le> m" "m \<le> 16" "1 \<le> ?n" "?n \<le> 16" using assms(1-3) by auto
  define rest where "rest = concat (map (push_data []) keys) @ [word_of_nat (80 + ?n), 0xae :: u8]"
  have script: "script = word_of_nat (80 + m) # rest" using assms(5) by (simp add: rest_def)
  have g1: "GetOp2 script = (True, rest, 80 + m, [])"
    using mn c(1) [of m] by (simp only: script) (subst GetOp2_op, auto)
  obtain op where g2: "GetOp2 rest = (True, concat (map (push_data []) ks) @ [word_of_nat (80 + ?n), 0xae], op, k)"
    using GetOp2_push_data [of k "concat (map (push_data []) ks) @ [word_of_nat (80 + ?n), 0xae]"] assms(4) keys
    by (auto simp: rest_def)
  have loop: "pubkeys_loop (concat (map (push_data []) ks) @ [word_of_nat (80 + ?n), 0xae]) op k [[word_of_nat m]] =
      ([0xae], 80 + ?n, [], [word_of_nat m] # keys)"
    using pubkeys_loop_keys [of k ks "word_of_nat (80 + ?n)" "[0xae]" op "[[word_of_nat m]]"] assms(4) keys mn c(1) [of ?n]
    by (simp del: of_nat_add)
  have first: "unat (script ! 0) = 80 + m" using c(1) [of m] mn by (simp add: script del: of_nat_add)
  have "\<not> IsPayToScriptHash script" using first mn by (simp add: IsPayToScriptHash_def)
  moreover have "match_template script [0xfe, 0xac] [] = None"
    using g1 by (simp add: match_template.simps [of script] GetOp2_op)
  moreover have "match_template script [0x76, 0xa9, 0xfd, 0x88, 0xac] [] = None"
    using g1 mn by (simp add: match_template.simps [of script] GetOp2_op)
  moreover have "match_template script [0xfa, 0xfb, 0xfa, 0xae] [] =
      Some ([word_of_nat m] # keys @ [[word_of_nat ?n]])"
  proof -
    have "match_template script [0xfa, 0xfb, 0xfa, 0xae] [] = match_template rest [0xfb, 0xfa, 0xae] [[word_of_nat m]]"
      using g1 c(3) [of m] mn by (subst match_template.simps) (simp add: GetOp2_op)
    also have "\<dots> = match_template [0xae] [0xae] ([word_of_nat m] # keys @ [[word_of_nat ?n]])"
      using g2 loop c(3) [of ?n] mn by (subst match_template.simps) (simp add: GetOp2_op)
    also have "\<dots> = Some ([word_of_nat m] # keys @ [[word_of_nat ?n]])"
      by (simp add: match_template.simps GetOp2_op)
    finally show ?thesis .
  qed
  ultimately show ?thesis
    using first mn assms(2) c(2) [of m] c(2) [of ?n]
    by (simp add: Solver_def mTemplates_def push_opcode_def Let_def keys)
qed

section \<open>Properties\<close>

text \<open>Destinations: from the script the program pays to for a key hash or a script hash, the matcher
  extracts exactly that destination.\<close>

theorem destination_roundtrip:
  assumes "length h = 20"
  shows "ExtractDestination (GetScriptForDestination (CKeyID h)) = Some (CKeyID h) \<and>
    ExtractDestination (GetScriptForDestination (CScriptID h)) = Some (CScriptID h)"
  using Solver_p2sh [OF assms] Solver_p2pkh [OF assms]
  by (simp add: ExtractDestination_def GetScriptForDestination_def)

theorem destination_roundtrip_witness:
  "ExtractDestination (GetScriptForDestination (CKeyID (replicate 20 7))) = Some (CKeyID (replicate 20 7))"
  using destination_roundtrip [of "replicate 20 7"] by simp

text \<open>Multi-signature scripts: the script built for \<open>m\<close> of \<open>n \<le> 16\<close> keys is recognized as such, and the
  matcher returns \<open>m\<close>, the keys in order, and \<open>n\<close>.\<close>

theorem multisig_roundtrip:
  assumes "1 \<le> m" "m \<le> length keys" "length keys \<le> 16"
    and "list_all (\<lambda>k. 33 \<le> length k \<and> length k \<le> 65) keys"
  shows "\<exists>script. GetScriptForMultisig m keys = Some script \<and>
    Solver script = (True, TX_MULTISIG, [word_of_nat m] # keys @ [[word_of_nat (length keys)]])"
proof -
  have "EncodeOP_N (int m) = Some (80 + m)" "EncodeOP_N (int (length keys)) = Some (80 + length keys)"
    using assms(1-3) by (auto simp: EncodeOP_N_def nat_add_distrib)
  moreover have "Solver (word_of_nat (80 + m) # concat (map (push_data []) keys) @ [word_of_nat (80 + length keys), 0xae]) =
      (True, TX_MULTISIG, [word_of_nat m] # keys @ [[word_of_nat (length keys)]])"
    by (rule Solver_multisig [OF assms refl])
  ultimately show ?thesis
    by (simp add: GetScriptForMultisig_def fold_push_data push_opcode_def del: of_nat_add)
qed

theorem multisig_roundtrip_witness:
  "\<exists>script. GetScriptForMultisig 1 [replicate 33 2, replicate 65 4] = Some script \<and>
    Solver script = (True, TX_MULTISIG, [[1], replicate 33 2, replicate 65 4, [2]])"
  using multisig_roundtrip [of 1 "[replicate 33 2, replicate 65 4]"] by simp

text \<open>C39. Block signatures: a proof-of-stake block whose stake output pays to a public key hash is never
  accepted by \<open>CheckBlockSignature\<close>, whatever its signature, although \<open>SignBlock\<close> signs such blocks: the hash is
  used as if it were a public key.\<close>

theorem CheckBlockSignature_p2pkh:
  assumes "IsProofOfStake (blk_vtx b)" "to_scriptPubKey (tx_vout (blk_vtx b ! 1) ! 1) = p2pkh_script h" "length h = 20"
  shows "\<not> CheckBlockSignature ecdsa_verify GetHash b \<and>
    SignBlock GetKey GetHash b = sign_with GetKey (GetHash (blk_header b)) h"
proof -
  have "CPubKey h = [0xFF]" using assms(3) by (auto simp: CPubKey_def CPubKey_GetLen_def Let_def)
  then show ?thesis
    using assms Solver_p2pkh [OF assms(3)]
    by (simp add: CheckBlockSignature_def SignBlock_def CPubKey_IsValid_def CPubKey_size_def CPubKey_GetLen_def
        uint160_of_vector_def)
qed

theorem CheckBlockSignature_p2pkh_witness:
  "\<not> CheckBlockSignature (\<lambda>_ _ _. True) (\<lambda>_. 0)
      \<lparr>blk_header = \<lparr>bh_nVersion = 3, bh_hashPrevBlock = 0, bh_hashMerkleRoot = 0, bh_nTime = 0, bh_nBits = 0, bh_nNonce = 0\<rparr>,
       blk_vtx = [\<lparr>tx_nVersion = 1, tx_vin = [], tx_vout = [], tx_nLockTime = 0\<rparr>,
         \<lparr>tx_nVersion = 1, tx_vin = [\<lparr>ti_prevout = \<lparr>op_hash = 5, op_n = 0\<rparr>, ti_scriptSig = [], ti_nSequence = 0\<rparr>],
          tx_vout = [CTxOut_new 0 [], CTxOut_new 9 (p2pkh_script (replicate 20 7))], tx_nLockTime = 0\<rparr>],
       blk_vchBlockSig = [1]\<rparr>"
  (is "\<not> CheckBlockSignature ?v ?g ?b")
  using CheckBlockSignature_p2pkh [of ?b "replicate 20 7" ?v ?g "\<lambda>_. None"]
  by (simp add: IsProofOfStake_def IsCoinStake_def COutPoint_IsNull_def CTxOut_IsEmpty_def CTxOut_new_def)

end
