(* ===== verification/Coins.thy ===== *)
theory Coins
  imports Compressor
begin

text \<open>
  The views on unspent outputs: \<open>src/coins.h\<close>, \<open>coins.cpp\<close>, and the
  database view of \<open>txdb.cpp\<close>. A view that another view is stacked on is reached through its
  virtual functions; they are arguments of the operations of the cache. The contract of a
  view is the locale \<open>coins_view\<close>: reading it does not change the set of unspent outputs it
  stands for, and a batch of dirty entries changes it exactly at those entries, up to what the
  view below stores of them: the database keeps bytes, and the format loses a little. A cache over
  any view is a view again, and loses nothing. \<open>CCoinsMap\<close> is an association list, in the order its iterator
  visits it. A failed \<open>assert\<close> is \<open>None\<close>.
\<close>

section \<open>Views\<close>

text \<open>The flags of an entry, \<open>DIRTY\<close> and \<open>FRESH\<close>, are two booleans.\<close>

record CCoinsCacheEntry =
  ce_coins :: CCoins
  ce_DIRTY :: bool
  ce_FRESH :: bool

type_synonym CCoinsMap = "(uint256 \<times> CCoinsCacheEntry) list"

definition CCoinsMap_erase :: "uint256 \<Rightarrow> CCoinsMap \<Rightarrow> CCoinsMap" where
  "CCoinsMap_erase txid m = filter (\<lambda>(k, e). k \<noteq> txid) m"

definition CCoinsMap_set :: "uint256 \<Rightarrow> CCoinsCacheEntry \<Rightarrow> CCoinsMap \<Rightarrow> CCoinsMap" where
  "CCoinsMap_set txid e m = (txid, e) # CCoinsMap_erase txid m"

text \<open>The virtual functions of a view that others are stacked on.\<close>

type_synonym 'b GetCoins_fn = "'b \<Rightarrow> uint256 \<Rightarrow> CCoins option \<times> 'b"
type_synonym 'b GetBestBlock_fn = "'b \<Rightarrow> uint256 \<times> 'b"
type_synonym 'b BatchWrite_fn = "'b \<Rightarrow> CCoinsMap \<Rightarrow> uint256 \<Rightarrow> (bool \<times> 'b) option"

section \<open>The database view\<close>

text \<open>
  The keys \<open>('c', txid)\<close> and \<open>'B'\<close> of the database; a batch is applied as a whole. Under \<open>('c', txid)\<close> lie the
  bytes \<open>CCoins::Serialize\<close> writes. The two operations on public keys that the serialization of scripts calls are carried along with the
  database. A value that does not deserialize is not found (\<open>CLevelDBWrapper::Read\<close> catches the exception); bytes after it are ignored.
  The assertion in \<open>CCoins::Serialize\<close> is that an output is left, and only coins that are not pruned are written.
\<close>

record CCoinsViewDB =
  db_coins :: "uint256 \<rightharpoonup> bytes"
  db_best :: "uint256 option"
  db_IsFullyValid :: "bytes \<Rightarrow> bool"
  db_Decompress :: "bytes \<Rightarrow> bytes option"

definition db_Read :: "CCoinsViewDB \<Rightarrow> uint256 \<Rightarrow> CCoins option" where
  "db_Read db txid =
     (case db_coins db txid of
        None \<Rightarrow> None
      | Some strValue \<Rightarrow> (case Unserialize_CCoins (db_Decompress db) strValue of Inl e \<Rightarrow> None | Inr (coins, r) \<Rightarrow> Some coins))"

definition DB_GetCoins :: "CCoinsViewDB GetCoins_fn" where
  "DB_GetCoins db txid = (db_Read db txid, db)"

definition DB_HaveCoins :: "CCoinsViewDB \<Rightarrow> uint256 \<Rightarrow> bool" where
  "DB_HaveCoins db txid \<longleftrightarrow> db_coins db txid \<noteq> None"

definition DB_GetBestBlock :: "CCoinsViewDB GetBestBlock_fn" where
  "DB_GetBestBlock db = (case db_best db of None \<Rightarrow> 0 | Some h \<Rightarrow> h, db)"

definition BatchWriteCoins :: "uint256 \<Rightarrow> CCoins \<Rightarrow> CCoinsViewDB \<Rightarrow> CCoinsViewDB" where
  "BatchWriteCoins hash coins db =
     (if IsPruned coins then db\<lparr>db_coins := (db_coins db)(hash := None)\<rparr>
      else db\<lparr>db_coins := (db_coins db)(hash \<mapsto> Serialize_CCoins (db_IsFullyValid db) coins)\<rparr>)"

fun db_batch :: "CCoinsMap \<Rightarrow> CCoinsViewDB \<Rightarrow> CCoinsViewDB" where
  "db_batch [] db = db"
| "db_batch ((txid, e) # m) db = db_batch m (if ce_DIRTY e then BatchWriteCoins txid (ce_coins e) db else db)"

definition DB_BatchWrite :: "CCoinsViewDB BatchWrite_fn" where
  "DB_BatchWrite db mapCoins hashBlock =
     (let db' = db_batch mapCoins db
      in Some (True, if hashBlock \<noteq> 0 then db'\<lparr>db_best := Some hashBlock\<rparr> else db'))"

section \<open>The cache\<close>

record 'b CCoinsViewCache =
  vc_base :: 'b
  vc_hasModifier :: bool
  vc_hashBlock :: uint256
  vc_cacheCoins :: CCoinsMap

definition CCoinsViewCache_new :: "'b \<Rightarrow> 'b CCoinsViewCache" where
  "CCoinsViewCache_new b = \<lparr>vc_base = b, vc_hasModifier = False, vc_hashBlock = 0, vc_cacheCoins = []\<rparr>"

definition FetchCoins :: "'b GetCoins_fn \<Rightarrow> 'b CCoinsViewCache \<Rightarrow> uint256 \<Rightarrow> CCoinsCacheEntry option \<times> 'b CCoinsViewCache"
  where
  "FetchCoins get v txid =
     (case map_of (vc_cacheCoins v) txid of
        Some e \<Rightarrow> (Some e, v)
      | None \<Rightarrow>
         (case get (vc_base v) txid of
            (None, b) \<Rightarrow> (None, v\<lparr>vc_base := b\<rparr>)
          | (Some tmp, b) \<Rightarrow>
             (let e = \<lparr>ce_coins = tmp, ce_DIRTY = False, ce_FRESH = IsPruned tmp\<rparr>
              in (Some e, v\<lparr>vc_base := b, vc_cacheCoins := CCoinsMap_set txid e (vc_cacheCoins v)\<rparr>))))"

definition Cache_GetCoins :: "'b GetCoins_fn \<Rightarrow> 'b CCoinsViewCache GetCoins_fn" where
  "Cache_GetCoins get v txid = (case FetchCoins get v txid of (it, v') \<Rightarrow> (map_option ce_coins it, v'))"

definition AccessCoins :: "'b GetCoins_fn \<Rightarrow> 'b CCoinsViewCache GetCoins_fn" where
  "AccessCoins get v txid = (case FetchCoins get v txid of (it, v') \<Rightarrow> (map_option ce_coins it, v'))"

definition Cache_HaveCoins :: "'b GetCoins_fn \<Rightarrow> 'b CCoinsViewCache \<Rightarrow> uint256 \<Rightarrow> bool \<times> 'b CCoinsViewCache" where
  "Cache_HaveCoins get v txid =
     (case FetchCoins get v txid of
        (None, v') \<Rightarrow> (False, v')
      | (Some e, v') \<Rightarrow> (cc_vout (ce_coins e) \<noteq> [], v'))"

definition Cache_GetBestBlock :: "'b GetBestBlock_fn \<Rightarrow> 'b CCoinsViewCache GetBestBlock_fn" where
  "Cache_GetBestBlock best v =
     (if vc_hashBlock v = 0
      then case best (vc_base v) of (h, b) \<Rightarrow> (h, v\<lparr>vc_base := b, vc_hashBlock := h\<rparr>)
      else (vc_hashBlock v, v))"

definition SetBestBlock :: "'b CCoinsViewCache \<Rightarrow> uint256 \<Rightarrow> 'b CCoinsViewCache" where
  "SetBestBlock v hashBlock = v\<lparr>vc_hashBlock := hashBlock\<rparr>"

text \<open>
  \<open>ModifyCoins\<close> opens an entry for modification; the destructor of the modifier cleans it up.
  \<open>modify_coins\<close> is the whole life of a modifier around an update of the coins.
\<close>

definition ModifyCoins :: "'b GetCoins_fn \<Rightarrow> 'b CCoinsViewCache \<Rightarrow> uint256 \<Rightarrow> 'b CCoinsViewCache option" where
  "ModifyCoins get v txid =
     (if vc_hasModifier v then None
      else
       (let (e, b) =
          (case map_of (vc_cacheCoins v) txid of
             Some e \<Rightarrow> (e, vc_base v)
           | None \<Rightarrow>
              (case get (vc_base v) txid of
                 (None, b) \<Rightarrow> (\<lparr>ce_coins = CCoins_Clear CCoins_empty, ce_DIRTY = False, ce_FRESH = True\<rparr>, b)
               | (Some c, b) \<Rightarrow> (\<lparr>ce_coins = c, ce_DIRTY = False, ce_FRESH = IsPruned c\<rparr>, b)))
        in Some (v\<lparr>vc_base := b, vc_hasModifier := True,
                   vc_cacheCoins := CCoinsMap_set txid (e\<lparr>ce_DIRTY := True\<rparr>) (vc_cacheCoins v)\<rparr>)))"

definition CCoinsModifier_destroy :: "'b CCoinsViewCache \<Rightarrow> uint256 \<Rightarrow> 'b CCoinsViewCache option" where
  "CCoinsModifier_destroy v txid =
     (if \<not> vc_hasModifier v then None
      else case map_of (vc_cacheCoins v) txid of
             None \<Rightarrow> None
           | Some e \<Rightarrow>
              (let c = CCoins_Cleanup (ce_coins e)
               in Some (v\<lparr>vc_hasModifier := False,
                          vc_cacheCoins :=
                            (if ce_FRESH e \<and> IsPruned c then CCoinsMap_erase txid (vc_cacheCoins v)
                             else CCoinsMap_set txid (e\<lparr>ce_coins := c\<rparr>) (vc_cacheCoins v))\<rparr>)))"

definition modify_coins ::
  "'b GetCoins_fn \<Rightarrow> 'b CCoinsViewCache \<Rightarrow> uint256 \<Rightarrow> (CCoins \<Rightarrow> 'r \<times> CCoins) \<Rightarrow> ('r \<times> 'b CCoinsViewCache) option"
  where
  "modify_coins get v txid f =
     (case ModifyCoins get v txid of
        None \<Rightarrow> None
      | Some v1 \<Rightarrow>
         (case map_of (vc_cacheCoins v1) txid of
            None \<Rightarrow> None
          | Some e \<Rightarrow>
             (let (r, c) = f (ce_coins e);
                  v2 = v1\<lparr>vc_cacheCoins := CCoinsMap_set txid (e\<lparr>ce_coins := c\<rparr>) (vc_cacheCoins v1)\<rparr>
              in map_option (\<lambda>v3. (r, v3)) (CCoinsModifier_destroy v2 txid))))"

fun cache_batch :: "CCoinsMap \<Rightarrow> CCoinsMap \<Rightarrow> CCoinsMap option" where
  "cache_batch [] us = Some us"
| "cache_batch ((txid, e) # m) us =
     (if ce_DIRTY e then
        (case map_of us txid of
           None \<Rightarrow>
             (if \<not> IsPruned (ce_coins e)
              then if ce_FRESH e
                   then cache_batch m
                     (CCoinsMap_set txid \<lparr>ce_coins = ce_coins e, ce_DIRTY = True, ce_FRESH = True\<rparr> us)
                   else None
              else cache_batch m us)
         | Some itUs \<Rightarrow>
             (if ce_FRESH itUs \<and> IsPruned (ce_coins e) then cache_batch m (CCoinsMap_erase txid us)
              else cache_batch m (CCoinsMap_set txid (itUs\<lparr>ce_coins := ce_coins e, ce_DIRTY := True\<rparr>) us)))
      else cache_batch m us)"

definition Cache_BatchWrite :: "'b CCoinsViewCache BatchWrite_fn" where
  "Cache_BatchWrite v mapCoins hashBlock =
     (if vc_hasModifier v then None
      else map_option (\<lambda>us. (True, v\<lparr>vc_cacheCoins := us, vc_hashBlock := hashBlock\<rparr>))
             (cache_batch mapCoins (vc_cacheCoins v)))"

definition Flush :: "'b BatchWrite_fn \<Rightarrow> 'b CCoinsViewCache \<Rightarrow> (bool \<times> 'b CCoinsViewCache) option" where
  "Flush batch v =
     (case batch (vc_base v) (vc_cacheCoins v) (vc_hashBlock v) of
        None \<Rightarrow> None
      | Some (fOk, b) \<Rightarrow> Some (fOk, v\<lparr>vc_base := b, vc_cacheCoins := []\<rparr>))"

definition GetCacheSize :: "'b CCoinsViewCache \<Rightarrow> nat" where
  "GetCacheSize v = length (vc_cacheCoins v)"

definition GetOutputFor :: "'b GetCoins_fn \<Rightarrow> 'b CCoinsViewCache \<Rightarrow> CTxIn \<Rightarrow> (CTxOut \<times> 'b CCoinsViewCache) option" where
  "GetOutputFor get v input =
     (case AccessCoins get v (op_hash (ti_prevout input)) of
        (None, v') \<Rightarrow> None
      | (Some coins, v') \<Rightarrow>
         (if IsAvailable coins (unat (op_n (ti_prevout input)))
          then Some (cc_vout coins ! unat (op_n (ti_prevout input)), v') else None))"

fun value_in_loop :: "'b GetCoins_fn \<Rightarrow> 'b CCoinsViewCache \<Rightarrow> CTxIn list \<Rightarrow> CAmount \<Rightarrow> (CAmount \<times> 'b CCoinsViewCache) option"
  where
  "value_in_loop get v [] nResult = Some (nResult, v)"
| "value_in_loop get v (txin # vin) nResult =
     (case GetOutputFor get v txin of
        None \<Rightarrow> None
      | Some (out, v') \<Rightarrow> value_in_loop get v' vin (add_int64 nResult (to_nValue out)))"

definition GetValueIn :: "'b GetCoins_fn \<Rightarrow> 'b CCoinsViewCache \<Rightarrow> CTransaction \<Rightarrow> (CAmount \<times> 'b CCoinsViewCache) option"
  where
  "GetValueIn get v tx = (if IsCoinBase tx then Some (0, v) else value_in_loop get v (tx_vin tx) 0)"

fun have_inputs_loop :: "'b GetCoins_fn \<Rightarrow> 'b CCoinsViewCache \<Rightarrow> CTxIn list \<Rightarrow> bool \<times> 'b CCoinsViewCache" where
  "have_inputs_loop get v [] = (True, v)"
| "have_inputs_loop get v (txin # vin) =
     (case AccessCoins get v (op_hash (ti_prevout txin)) of
        (None, v') \<Rightarrow> (False, v')
      | (Some coins, v') \<Rightarrow>
         (if \<not> IsAvailable coins (unat (op_n (ti_prevout txin))) then (False, v')
          else have_inputs_loop get v' vin))"

definition HaveInputs :: "'b GetCoins_fn \<Rightarrow> 'b CCoinsViewCache \<Rightarrow> CTransaction \<Rightarrow> bool \<times> 'b CCoinsViewCache" where
  "HaveInputs get v tx = (if IsCoinBase tx then (True, v) else have_inputs_loop get v (tx_vin tx))"

section \<open>The contract of a view\<close>

text \<open>A view stands for a set of unspent outputs: the coins that are not pruned.\<close>

definition unspent :: "CCoins option \<Rightarrow> CCoins option" where
  "unspent r = (case r of None \<Rightarrow> None | Some c \<Rightarrow> if IsPruned c then None else Some c)"

text \<open>
  What a stacked cache guarantees about an entry, relative to what the view below stands for
  (\<open>u\<close>) and the entries it holds itself (\<open>p\<close>). It makes the \<open>assert\<close> of \<open>BatchWrite\<close> hold.
\<close>

definition entry_ok :: "(uint256 \<rightharpoonup> CCoins) \<Rightarrow> (uint256 \<Rightarrow> bool) \<Rightarrow> uint256 \<Rightarrow> CCoinsCacheEntry \<Rightarrow> bool" where
  "entry_ok u p k e \<longleftrightarrow>
     (ce_FRESH e \<longrightarrow> u k = None) \<and> (\<not> ce_FRESH e \<longrightarrow> p k) \<and>
     (\<not> ce_DIRTY e \<longrightarrow> unspent (Some (ce_coins e)) = u k)"

definition entries_ok :: "(uint256 \<rightharpoonup> CCoins) \<Rightarrow> (uint256 \<Rightarrow> bool) \<Rightarrow> CCoinsMap \<Rightarrow> bool" where
  "entries_ok u p m \<longleftrightarrow> distinct (map fst m) \<and> (\<forall>(k, e) \<in> set m. entry_ok u p k e)"

definition overlay :: "CCoinsMap \<Rightarrow> (uint256 \<rightharpoonup> CCoins) \<Rightarrow> uint256 \<rightharpoonup> CCoins" where
  "overlay m u k = (case map_of m k of None \<Rightarrow> u k | Some e \<Rightarrow> unspent (Some (ce_coins e)))"

text \<open>A property of all coins of a set of unspent outputs, and a change of all of them.\<close>

definition pred_utxo :: "(CCoins \<Rightarrow> bool) \<Rightarrow> (uint256 \<rightharpoonup> CCoins) \<Rightarrow> bool" where
  "pred_utxo P u \<longleftrightarrow> (\<forall>k c. u k = Some c \<longrightarrow> P c)"

definition map_utxo :: "(CCoins \<Rightarrow> CCoins) \<Rightarrow> (uint256 \<rightharpoonup> CCoins) \<Rightarrow> uint256 \<rightharpoonup> CCoins" where
  "map_utxo f u = (\<lambda>k. map_option f (u k))"

locale coins_reader =
  fixes get :: "'b GetCoins_fn" and best :: "'b GetBestBlock_fn"
    and inv :: "'b \<Rightarrow> bool" and utxo :: "'b \<Rightarrow> uint256 \<rightharpoonup> CCoins" and tip :: "'b \<Rightarrow> uint256"
    and present :: "'b \<Rightarrow> uint256 \<Rightarrow> bool"
  assumes get_unspent: "inv b \<Longrightarrow> get b k = (r, b') \<Longrightarrow> unspent r = utxo b k"
    and get_inv: "inv b \<Longrightarrow> get b k = (r, b') \<Longrightarrow> inv b'"
    and get_utxo: "inv b \<Longrightarrow> get b k = (r, b') \<Longrightarrow> utxo b' = utxo b"
    and get_tip: "inv b \<Longrightarrow> get b k = (r, b') \<Longrightarrow> tip b' = tip b"
    and get_holds: "inv b \<Longrightarrow> get b k = (r, b') \<Longrightarrow> present b j \<Longrightarrow> present b' j"
    and get_present: "inv b \<Longrightarrow> get b k = (Some c, b') \<Longrightarrow> present b' k"
    and best_tip: "inv b \<Longrightarrow> best b = (h, b') \<Longrightarrow> h = tip b \<and> tip b' = tip b"
    and best_inv: "inv b \<Longrightarrow> best b = (h, b') \<Longrightarrow> inv b' \<and> utxo b' = utxo b"
    and best_holds: "inv b \<Longrightarrow> best b = (h, b') \<Longrightarrow> present b j \<Longrightarrow> present b' j"

locale coins_view = coins_reader get best inv utxo tip present
  for get :: "'b GetCoins_fn" and best :: "'b GetBestBlock_fn"
    and inv :: "'b \<Rightarrow> bool" and utxo :: "'b \<Rightarrow> uint256 \<rightharpoonup> CCoins" and tip :: "'b \<Rightarrow> uint256"
    and present :: "'b \<Rightarrow> uint256 \<Rightarrow> bool" +
  fixes batch :: "'b BatchWrite_fn" and keeps :: "CCoins \<Rightarrow> bool" and stored :: "CCoins \<Rightarrow> CCoins"
  assumes batch_ok: "inv b \<Longrightarrow> entries_ok (utxo b) (present b) m \<Longrightarrow> pred_utxo keeps (overlay m (utxo b)) \<Longrightarrow>
      \<exists>b'. batch b m h = Some (True, b') \<and> inv b' \<and> utxo b' = map_utxo stored (overlay m (utxo b)) \<and> (h \<noteq> 0 \<longrightarrow> tip b' = h)"

section \<open>Maps of entries\<close>

lemma map_of_erase [simp]: "map_of (CCoinsMap_erase txid m) = (map_of m)(txid := None)"
  by (induction m) (auto simp: CCoinsMap_erase_def fun_eq_iff)

lemma map_of_set [simp]: "map_of (CCoinsMap_set txid e m) = (map_of m)(txid \<mapsto> e)"
  by (simp add: CCoinsMap_set_def)

lemma keys_erase [simp]: "fst ` set (CCoinsMap_erase txid m) = fst ` set m - {txid}"
  by (auto simp: CCoinsMap_erase_def image_iff)

lemma distinct_erase [simp]: "distinct (map fst m) \<Longrightarrow> distinct (map fst (CCoinsMap_erase txid m))"
  by (induction m) (auto simp: CCoinsMap_erase_def)

lemma distinct_set [simp]: "distinct (map fst m) \<Longrightarrow> distinct (map fst (CCoinsMap_set txid e m))"
  by (auto simp: CCoinsMap_set_def image_iff CCoinsMap_erase_def simp flip: CCoinsMap_erase_def)

lemma entries_ok_alt:
  "entries_ok u p m \<longleftrightarrow> distinct (map fst m) \<and> (\<forall>k e. map_of m k = Some e \<longrightarrow> entry_ok u p k e)"
  by (auto simp: entries_ok_def)

lemma entries_okD: "entries_ok u p m \<Longrightarrow> map_of m k = Some e \<Longrightarrow> entry_ok u p k e"
  by (simp add: entries_ok_alt)

lemma entries_ok_set: "entries_ok u p m \<Longrightarrow> entry_ok u p k e \<Longrightarrow> entries_ok u p (CCoinsMap_set k e m)"
  by (auto simp: entries_ok_alt)

lemma entries_ok_erase: "entries_ok u p m \<Longrightarrow> entries_ok u p (CCoinsMap_erase k m)"
  by (auto simp: entries_ok_alt)

lemma entries_ok_mono: "entries_ok u p m \<Longrightarrow> (\<And>j. p j \<Longrightarrow> q j) \<Longrightarrow> entries_ok u q m"
  by (auto simp: entries_ok_alt entry_ok_def)

lemma entries_ok_Nil [simp]: "entries_ok u p []"
  by (simp add: entries_ok_def)

lemma overlay_Nil [simp]: "overlay [] u = u"
  by (simp add: overlay_def fun_eq_iff)

lemma overlay_set: "overlay (CCoinsMap_set k e m) u = (overlay m u)(k := unspent (Some (ce_coins e)))"
  by (simp add: overlay_def fun_eq_iff)

lemma overlay_erase: "u k = None \<Longrightarrow> overlay (CCoinsMap_erase k m) u = (overlay m u)(k := None)"
  by (simp add: overlay_def fun_eq_iff)

lemma unspent_simps [simp]:
  "unspent None = None" "IsPruned c \<Longrightarrow> unspent (Some c) = None" "\<not> IsPruned c \<Longrightarrow> unspent (Some c) = Some c"
  by (simp_all add: unspent_def)

lemma unspent_SomeD: "unspent r = Some c \<Longrightarrow> r = Some c \<and> \<not> IsPruned c"
  by (auto simp: unspent_def split: option.splits if_splits)

lemma unspent_None_iff: "unspent (Some c) = None \<longleftrightarrow> IsPruned c"
  by (simp add: unspent_def)

section \<open>The database view keeps the contract\<close>

definition db_utxo :: "CCoinsViewDB \<Rightarrow> uint256 \<rightharpoonup> CCoins" where
  "db_utxo db k = unspent (db_Read db k)"

definition db_inv :: "CCoinsViewDB \<Rightarrow> bool" where
  "db_inv db \<longleftrightarrow> decompress_ok (db_IsFullyValid db) (db_Decompress db) \<and> pred_utxo (\<lambda>c. recordable c \<and> disk_coins c = c) (db_utxo db)"

lemma pred_utxo_True [simp]: "pred_utxo (\<lambda>_. True) u"
  by (simp add: pred_utxo_def)

lemma map_utxo_id [simp]: "map_utxo (\<lambda>c. c) u = u"
  by (simp add: map_utxo_def option.map_ident)

lemma BatchWriteCoins_frame [simp]:
  "db_best (BatchWriteCoins k c db) = db_best db" "db_IsFullyValid (BatchWriteCoins k c db) = db_IsFullyValid db"
  "db_Decompress (BatchWriteCoins k c db) = db_Decompress db"
  by (simp_all add: BatchWriteCoins_def)

lemma db_best_frame [simp]:
  "db_Decompress (db\<lparr>db_best := h\<rparr>) = db_Decompress db" "db_IsFullyValid (db\<lparr>db_best := h\<rparr>) = db_IsFullyValid db"
  by (cases db, simp)+

lemma db_batch_frame [simp]:
  "db_best (db_batch m db) = db_best db" "db_IsFullyValid (db_batch m db) = db_IsFullyValid db"
  "db_Decompress (db_batch m db) = db_Decompress db"
  by (induction m db rule: db_batch.induct) simp_all

lemma db_batch_coins:
  "distinct (map fst m) \<Longrightarrow>
   db_coins (db_batch m db) k =
     (case map_of m k of
        None \<Rightarrow> db_coins db k
      | Some e \<Rightarrow> if ce_DIRTY e then map_option (Serialize_CCoins (db_IsFullyValid db)) (unspent (Some (ce_coins e))) else db_coins db k)"
proof (induction m db rule: db_batch.induct)
  case (2 txid e m db)
  then show ?case
    by (cases "k = txid"; cases "map_of m k")
       (simp_all add: BatchWriteCoins_def unspent_def map_of_eq_None_iff [THEN iffD2])
qed simp

lemma db_batch_overlay:
  assumes inv: "db_inv db" and m: "entries_ok (db_utxo db) p m" and keeps: "pred_utxo recordable (overlay m (db_utxo db))"
  shows "db_utxo (db_batch m db) = map_utxo disk_coins (overlay m (db_utxo db))"
proof
  fix k
  have ec: "decompress_ok (db_IsFullyValid db) (db_Decompress db)" using inv by (simp add: db_inv_def)
  have old: "map_option disk_coins (db_utxo db k) = db_utxo db k"
    using inv by (cases "db_utxo db k") (auto simp: db_inv_def pred_utxo_def)
  note coins = db_batch_coins [of m db k]
  show "db_utxo (db_batch m db) k = map_utxo disk_coins (overlay m (db_utxo db)) k"
  proof (cases "\<exists>e. map_of m k = Some e \<and> ce_DIRTY e \<and> \<not> IsPruned (ce_coins e)")
    case True
    then obtain e where e: "map_of m k = Some e" "ce_DIRTY e" "\<not> IsPruned (ce_coins e)" by blast
    then have "overlay m (db_utxo db) k = Some (ce_coins e)" by (simp add: overlay_def)
    moreover from this have "recordable (ce_coins e)" using keeps by (simp add: pred_utxo_def)
    ultimately show ?thesis
      using e coins m coins_roundtrip [OF ec, of "ce_coins e" "[]"] by (simp add: entries_ok_def db_utxo_def db_Read_def map_utxo_def)
  next
    case False
    have "db_utxo (db_batch m db) k = overlay m (db_utxo db) k"
      using False coins m entries_okD [OF m, of k]
      by (auto simp: entries_ok_def db_utxo_def db_Read_def overlay_def entry_ok_def split: option.splits if_splits)
    moreover from this have "overlay m (db_utxo db) k = db_utxo db k \<or> overlay m (db_utxo db) k = None"
      using False entries_okD [OF m, of k] by (auto simp: overlay_def entry_ok_def split: option.splits)
    ultimately show ?thesis using old by (auto simp: map_utxo_def)
  qed
qed

lemma disk_utxo: "pred_utxo recordable u \<Longrightarrow> pred_utxo (\<lambda>c. recordable c \<and> disk_coins c = c) (map_utxo disk_coins u)"
  by (auto simp: pred_utxo_def map_utxo_def recordable_disk)

interpretation db: coins_view DB_GetCoins DB_GetBestBlock db_inv db_utxo
  "\<lambda>db. fst (DB_GetBestBlock db)" "\<lambda>_ _. True" DB_BatchWrite recordable disk_coins
proof
  show "\<exists>b'. DB_BatchWrite b m h = Some (True, b') \<and> db_inv b' \<and> db_utxo b' = map_utxo disk_coins (overlay m (db_utxo b)) \<and>
      (h \<noteq> 0 \<longrightarrow> fst (DB_GetBestBlock b') = h)"
    if "db_inv b" "entries_ok (db_utxo b) (\<lambda>_. True) m" "pred_utxo recordable (overlay m (db_utxo b))" for b m h
  proof -
    let ?b = "db_batch m b" and ?b' = "(db_batch m b)\<lparr>db_best := Some h\<rparr>"
    have u: "db_utxo ?b = map_utxo disk_coins (overlay m (db_utxo b))" by (rule db_batch_overlay [OF that])
    then have "db_inv ?b" using that(1) disk_utxo [OF that(3)] by (simp add: db_inv_def)
    moreover have "db_utxo ?b' = db_utxo ?b" by (simp add: db_utxo_def db_Read_def fun_eq_iff split: option.split)
    moreover from calculation have "db_inv ?b'" by (simp add: db_inv_def)
    ultimately show ?thesis using u by (simp add: DB_BatchWrite_def Let_def DB_GetBestBlock_def)
  qed
qed (auto simp: DB_GetCoins_def DB_GetBestBlock_def db_utxo_def)

section \<open>A cache over a view keeps the contract\<close>

definition cache_utxo :: "('b \<Rightarrow> uint256 \<rightharpoonup> CCoins) \<Rightarrow> 'b CCoinsViewCache \<Rightarrow> uint256 \<rightharpoonup> CCoins" where
  "cache_utxo u v = overlay (vc_cacheCoins v) (u (vc_base v))"

definition cache_inv ::
  "('b \<Rightarrow> bool) \<Rightarrow> ('b \<Rightarrow> uint256 \<rightharpoonup> CCoins) \<Rightarrow> ('b \<Rightarrow> uint256 \<Rightarrow> bool) \<Rightarrow> 'b CCoinsViewCache \<Rightarrow> bool" where
  "cache_inv i u p v \<longleftrightarrow>
     i (vc_base v) \<and> \<not> vc_hasModifier v \<and> entries_ok (u (vc_base v)) (p (vc_base v)) (vc_cacheCoins v)"

definition cache_tip :: "('b \<Rightarrow> uint256) \<Rightarrow> 'b CCoinsViewCache \<Rightarrow> uint256" where
  "cache_tip t v = (if vc_hashBlock v = 0 then t (vc_base v) else vc_hashBlock v)"

definition cache_present :: "'b CCoinsViewCache \<Rightarrow> uint256 \<Rightarrow> bool" where
  "cache_present v k \<longleftrightarrow> map_of (vc_cacheCoins v) k \<noteq> None"

text \<open>The batch of a child written into a parent cache.\<close>

lemma cache_batch_ok:
  assumes "entries_ok (overlay us u) (\<lambda>k. map_of us k \<noteq> None) m" "entries_ok u p us"
  shows "\<exists>us'. cache_batch m us = Some us' \<and> entries_ok u p us' \<and> overlay us' u = overlay m (overlay us u)"
  using assms
proof (induction m arbitrary: us)
  case (Cons x m)
  obtain txid e where x: "x = (txid, e)" by (cases x)
  have ok: "entry_ok (overlay us u) (\<lambda>k. map_of us k \<noteq> None) txid e"
    and new: "txid \<notin> fst ` set m" and m: "entries_ok (overlay us u) (\<lambda>k. map_of us k \<noteq> None) m"
    using Cons.prems(1) by (auto simp: x entries_ok_def)
  have goal: "overlay (x # m) (overlay us u) = (overlay m (overlay us u))(txid := unspent (Some (ce_coins e)))"
    by (auto simp: x overlay_def fun_eq_iff)
  have rest: "\<exists>us'. cache_batch m us1 = Some us' \<and> entries_ok u p us' \<and>
      overlay us' u = overlay ((txid, e) # m) (overlay us u)"
    if us1: "entries_ok u p us1" "overlay us1 u = (overlay us u)(txid := unspent (Some (ce_coins e)))"
      "\<And>k. k \<noteq> txid \<Longrightarrow> map_of us1 k = map_of us k" for us1
  proof -
    have "entries_ok (overlay us1 u) (\<lambda>k. map_of us1 k \<noteq> None) m"
      unfolding entries_ok_alt
    proof (intro conjI allI impI)
      fix k e' assume k: "map_of m k = Some e'"
      then have "k \<noteq> txid" using new map_of_SomeD [OF k] by force
      with entries_okD [OF m k] us1(2,3) show "entry_ok (overlay us1 u) (\<lambda>k. map_of us1 k \<noteq> None) k e'"
        by (simp add: entry_ok_def)
    qed (use m in \<open>simp add: entries_ok_def\<close>)
    from Cons.IH [OF this us1(1)] obtain us' where us': "cache_batch m us1 = Some us'" "entries_ok u p us'"
      "overlay us' u = overlay m (overlay us1 u)" by blast
    moreover have "overlay m (overlay us1 u) = (overlay m (overlay us u))(txid := unspent (Some (ce_coins e)))"
    proof
      fix k
      show "overlay m (overlay us1 u) k = ((overlay m (overlay us u))(txid := unspent (Some (ce_coins e)))) k"
        using new by (cases "k = txid"; cases "map_of m k") (simp_all add: us1(2) overlay_def [of m] map_of_eq_None_iff [THEN iffD2])
    qed
    ultimately show ?thesis using goal x by auto
  qed
  have entry: "entry_ok u p txid itUs" if "map_of us txid = Some itUs" for itUs
    using entries_okD [OF Cons.prems(2) that] .
  show ?case
  proof (cases "ce_DIRTY e")
    case False
    then have "overlay us u txid = unspent (Some (ce_coins e))" using ok by (simp add: entry_ok_def)
    with rest [of us] Cons.prems(2) show ?thesis
      by (simp add: x False fun_upd_idem)
  next
    case dirty: True
    show ?thesis
    proof (cases "map_of us txid")
      case None
      then have fresh: "ce_FRESH e" "u txid = None"
        using ok by (auto simp: entry_ok_def overlay_def)
      show ?thesis
      proof (cases "IsPruned (ce_coins e)")
        case True
        with fresh None have "overlay us u txid = unspent (Some (ce_coins e))" by (simp add: overlay_def)
        with rest [of us] Cons.prems(2) show ?thesis
          by (simp add: x dirty None True fun_upd_idem)
      next
        case False
        let ?us1 = "CCoinsMap_set txid \<lparr>ce_coins = ce_coins e, ce_DIRTY = True, ce_FRESH = True\<rparr> us"
        have "entries_ok u p ?us1" using Cons.prems(2) fresh by (intro entries_ok_set) (simp_all add: entry_ok_def)
        from rest [OF this] show ?thesis
          by (simp add: overlay_set x dirty None False fresh)
      qed
    next
      case (Some itUs)
      show ?thesis
      proof (cases "ce_FRESH itUs \<and> IsPruned (ce_coins e)")
        case True
        then have "u txid = None" using entry [OF Some] by (simp add: entry_ok_def)
        with rest [OF entries_ok_erase [OF Cons.prems(2)], of txid] True show ?thesis
          by (simp add: overlay_erase x dirty Some)
      next
        case False
        let ?us1 = "CCoinsMap_set txid (itUs\<lparr>ce_coins := ce_coins e, ce_DIRTY := True\<rparr>) us"
        have "entries_ok u p ?us1" 
          using Cons.prems(2) entry [OF Some] by (intro entries_ok_set) (simp_all add: entry_ok_def)
        from rest [OF this] False show ?thesis
          by (auto simp: overlay_set x dirty Some)
      qed
    qed
  qed
qed simp

lemma SetBestBlock_frame [simp]:
  "cache_inv i u p (SetBestBlock v h) = cache_inv i u p v" "cache_utxo u (SetBestBlock v h) = cache_utxo u v"
  "vc_hashBlock (SetBestBlock v h) = h"
  by (simp_all add: SetBestBlock_def cache_inv_def cache_utxo_def)

context coins_reader
begin

text \<open>Reading a cache pulls entries up from the view below; what the cache stands for stays.\<close>

lemma FetchCoins_spec:
  assumes inv: "cache_inv inv utxo present v" and fetch: "FetchCoins get v k = (r, v')"
  shows "unspent (map_option ce_coins r) = cache_utxo utxo v k \<and> cache_inv inv utxo present v' \<and>
    cache_utxo utxo v' = cache_utxo utxo v \<and> cache_tip tip v' = cache_tip tip v \<and>
    (\<forall>j. cache_present v j \<longrightarrow> cache_present v' j) \<and> (r \<noteq> None \<longrightarrow> cache_present v' k)"
proof (cases "map_of (vc_cacheCoins v) k")
  case (Some e)
  then have "v' = v" "r = Some e" using fetch by (simp_all add: FetchCoins_def)
  with Some inv show ?thesis by (simp add: cache_utxo_def overlay_def cache_present_def)
next
  case None
  obtain q b where q: "get (vc_base v) k = (q, b)" by (cases "get (vc_base v) k")
  have base: "inv (vc_base v)" and m: "entries_ok (utxo (vc_base v)) (present (vc_base v)) (vc_cacheCoins v)"
    and nomod: "\<not> vc_hasModifier v"
    using inv by (auto simp: cache_inv_def)
  note g = get_unspent [OF base q] get_inv [OF base q] get_utxo [OF base q] get_tip [OF base q]
  have m': "entries_ok (utxo b) (present b) (vc_cacheCoins v)"
    using entries_ok_mono [OF m get_holds [OF base q]] by (simp add: g)
  show ?thesis
  proof (cases q)
    case [simp]: None
    show ?thesis using fetch \<open>map_of (vc_cacheCoins v) k = None\<close> g m' nomod
      by (auto simp: FetchCoins_def q cache_utxo_def overlay_def cache_inv_def cache_tip_def cache_present_def)
  next
    case [simp]: (Some c)
    let ?e = "\<lparr>ce_coins = c, ce_DIRTY = False, ce_FRESH = IsPruned c\<rparr>"
    have ok: "entry_ok (utxo b) (present b) k ?e"
      using g get_present [OF base q [unfolded Some]] by (auto simp: entry_ok_def)
    have v': "v' = v\<lparr>vc_base := b, vc_cacheCoins := CCoinsMap_set k ?e (vc_cacheCoins v)\<rparr>" "r = Some ?e"
      using fetch None by (auto simp: FetchCoins_def q Let_def)
    have "cache_utxo utxo v k = unspent (Some c)" using None g(1) by (simp add: cache_utxo_def overlay_def)
    moreover have "cache_utxo utxo v' = (cache_utxo utxo v)(k := unspent (Some c))"
      by (simp add: v' cache_utxo_def overlay_set g)
    ultimately show ?thesis
      using entries_ok_set [OF m' ok] g nomod
      by (auto simp: v' cache_inv_def cache_tip_def cache_present_def fun_upd_idem)
  qed
qed

lemma Cache_GetBestBlock_spec:
  assumes inv: "cache_inv inv utxo present v" and bb: "Cache_GetBestBlock best v = (h, v')"
  shows "h = cache_tip tip v \<and> cache_tip tip v' = cache_tip tip v \<and> cache_inv inv utxo present v' \<and>
    cache_utxo utxo v' = cache_utxo utxo v \<and> (\<forall>j. cache_present v j \<longrightarrow> cache_present v' j)"
proof (cases "vc_hashBlock v = 0")
  case True
  obtain h' b where q: "best (vc_base v) = (h', b)" by (cases "best (vc_base v)")
  have base: "inv (vc_base v)" and m: "entries_ok (utxo (vc_base v)) (present (vc_base v)) (vc_cacheCoins v)"
    using inv by (auto simp: cache_inv_def)
  note g = best_tip [OF base q] best_inv [OF base q]
  have "entries_ok (utxo b) (present b) (vc_cacheCoins v)"
    using entries_ok_mono [OF m best_holds [OF base q]] by (simp add: g)
  then show ?thesis
    using True bb q g inv by (auto simp: Cache_GetBestBlock_def cache_tip_def cache_inv_def cache_utxo_def cache_present_def)
qed (use inv bb in \<open>auto simp: Cache_GetBestBlock_def cache_tip_def\<close>)

lemma cache_reader:
  "coins_reader (Cache_GetCoins get) (Cache_GetBestBlock best) (cache_inv inv utxo present) (cache_utxo utxo)
     (cache_tip tip) cache_present"
proof
  fix v k r v'
  assume i: "cache_inv inv utxo present v" and "Cache_GetCoins get v k = (r, v')"
  then obtain it where it: "FetchCoins get v k = (it, v')" "r = map_option ce_coins it"
    by (auto simp: Cache_GetCoins_def split: prod.splits)
  note s = FetchCoins_spec [OF i it(1)]
  show "unspent r = cache_utxo utxo v k" "cache_inv inv utxo present v'" "cache_utxo utxo v' = cache_utxo utxo v"
    "cache_tip tip v' = cache_tip tip v" using s by (auto simp: it)
  show "cache_present v' j" if "cache_present v j" for j using s that by blast
next
  fix v k c v'
  assume i: "cache_inv inv utxo present v" and "Cache_GetCoins get v k = (Some c, v')"
  then obtain it where it: "FetchCoins get v k = (it, v')" "Some c = map_option ce_coins it"
    by (auto simp: Cache_GetCoins_def split: prod.splits)
  then show "cache_present v' k" using FetchCoins_spec [OF i it(1)] by auto
next
  fix v h v'
  assume i: "cache_inv inv utxo present v" and bb: "Cache_GetBestBlock best v = (h, v')"
  note s = Cache_GetBestBlock_spec [OF i bb]
  show "h = cache_tip tip v \<and> cache_tip tip v' = cache_tip tip v"
    "cache_inv inv utxo present v' \<and> cache_utxo utxo v' = cache_utxo utxo v" using s by blast+
  show "cache_present v' j" if "cache_present v j" for j using s that by blast
qed

text \<open>
  The life of a modifier: the update is applied to coins that have the unspent outputs the
  cache stands for, no assertion fails, and the cache stands for the updated coins.
\<close>

lemma modify_coins_spec:
  assumes inv: "cache_inv inv utxo present v"
  obtains c v' where "unspent (Some c) = cache_utxo utxo v k" "modify_coins get v k f = Some (fst (f c), v')"
    "cache_inv inv utxo present v'"
    "cache_utxo utxo v' = (cache_utxo utxo v)(k := unspent (Some (CCoins_Cleanup (snd (f c)))))"
    "vc_hashBlock v' = vc_hashBlock v" "tip (vc_base v') = tip (vc_base v)"
proof -
  have base: "inv (vc_base v)" and m: "entries_ok (utxo (vc_base v)) (present (vc_base v)) (vc_cacheCoins v)"
    and nomod: "\<not> vc_hasModifier v"
    using inv by (auto simp: cache_inv_def)
  have "\<exists>e b. ModifyCoins get v k =
          Some (v\<lparr>vc_base := b, vc_hasModifier := True, vc_cacheCoins := CCoinsMap_set k e (vc_cacheCoins v)\<rparr>) \<and>
        ce_DIRTY e \<and> entry_ok (utxo b) (present b) k e \<and> unspent (Some (ce_coins e)) = cache_utxo utxo v k \<and>
        inv b \<and> utxo b = utxo (vc_base v) \<and> tip b = tip (vc_base v) \<and>
        entries_ok (utxo b) (present b) (vc_cacheCoins v)"
  proof (cases "map_of (vc_cacheCoins v) k")
    case (Some e)
    then show ?thesis using base m nomod entries_okD [OF m Some]
      by (intro exI [of _ "e\<lparr>ce_DIRTY := True\<rparr>"] exI [of _ "vc_base v"])
         (auto simp: ModifyCoins_def cache_utxo_def overlay_def entry_ok_def)
  next
    case None
    obtain q b where q: "get (vc_base v) k = (q, b)" by (cases "get (vc_base v) k")
    note g = get_unspent [OF base q] get_inv [OF base q] get_utxo [OF base q] get_tip [OF base q]
    have m': "entries_ok (utxo b) (present b) (vc_cacheCoins v)"
      using entries_ok_mono [OF m get_holds [OF base q]] by (simp add: g)
    have u: "cache_utxo utxo v k = unspent q" using None g(1) by (simp add: cache_utxo_def overlay_def)
    show ?thesis
    proof (cases q)
      case [simp]: None
      show ?thesis using \<open>map_of (vc_cacheCoins v) k = None\<close> g m' nomod u
        by (intro exI [of _ "\<lparr>ce_coins = CCoins_Clear CCoins_empty, ce_DIRTY = True, ce_FRESH = True\<rparr>"] exI [of _ b])
           (auto simp: ModifyCoins_def q entry_ok_def IsPruned_def CCoins_Clear_def)
    next
      case [simp]: (Some c)
      show ?thesis using None g m' nomod u get_present [OF base q [unfolded Some]]
        by (intro exI [of _ "\<lparr>ce_coins = c, ce_DIRTY = True, ce_FRESH = IsPruned c\<rparr>"] exI [of _ b])
           (auto simp: ModifyCoins_def q entry_ok_def)
    qed
  qed
  then obtain e b where opened: "ModifyCoins get v k =
          Some (v\<lparr>vc_base := b, vc_hasModifier := True, vc_cacheCoins := CCoinsMap_set k e (vc_cacheCoins v)\<rparr>)"
    and e: "ce_DIRTY e" "entry_ok (utxo b) (present b) k e" "unspent (Some (ce_coins e)) = cache_utxo utxo v k"
    and b: "inv b" "utxo b = utxo (vc_base v)" "tip b = tip (vc_base v)"
    and m': "entries_ok (utxo b) (present b) (vc_cacheCoins v)" by blast
  let ?e = "e\<lparr>ce_coins := snd (f (ce_coins e))\<rparr>"
  let ?m = "CCoinsMap_set k ?e (CCoinsMap_set k e (vc_cacheCoins v))"
  let ?c = "CCoins_Cleanup (snd (f (ce_coins e)))"
  define m2 where "m2 = (if ce_FRESH e \<and> IsPruned ?c then CCoinsMap_erase k ?m
    else CCoinsMap_set k (?e\<lparr>ce_coins := ?c\<rparr>) ?m)"
  define v' where "v' = v\<lparr>vc_base := b, vc_hasModifier := False, vc_cacheCoins := m2\<rparr>"
  have "modify_coins get v k f = Some (fst (f (ce_coins e)), v')"
    by (simp add: modify_coins_def opened CCoinsModifier_destroy_def Let_def v'_def m2_def split_beta)
  moreover have okset: "entries_ok (utxo b) (present b) ?m"
    using e by (intro entries_ok_set m') (auto simp: entry_ok_def)
  have "entries_ok (utxo b) (present b) m2"
    unfolding m2_def using e okset
    by (auto intro!: entries_ok_set [OF okset] entries_ok_erase simp: entry_ok_def)
  then have "cache_inv inv utxo present v'"
    using nomod b by (simp add: cache_inv_def v'_def)
  moreover have "overlay m2 (utxo b) = (cache_utxo utxo v)(k := unspent (Some ?c))"
  proof (cases "ce_FRESH e \<and> IsPruned ?c")
    case True
    then show ?thesis using e by (simp add: m2_def overlay_erase entry_ok_def overlay_set cache_utxo_def b)
  qed (auto simp: m2_def overlay_set cache_utxo_def b)
  ultimately show thesis
    using that [of "ce_coins e" v'] e b by (simp add: v'_def cache_utxo_def)
qed

end

context coins_view
begin

lemma cache_view:
  "coins_view (Cache_GetCoins get) (Cache_GetBestBlock best) (cache_inv inv utxo present) (cache_utxo utxo)
     (cache_tip tip) cache_present Cache_BatchWrite (\<lambda>_. True) (\<lambda>c. c)"
proof (intro coins_view.intro cache_reader coins_view_axioms.intro)
  fix v m h
  assume i: "cache_inv inv utxo present v" and m: "entries_ok (cache_utxo utxo v) (cache_present v) m"
  have us: "entries_ok (utxo (vc_base v)) (present (vc_base v)) (vc_cacheCoins v)" and nomod: "\<not> vc_hasModifier v"
    and base: "inv (vc_base v)"
    using i by (auto simp: cache_inv_def)
  from cache_batch_ok [OF m [unfolded cache_utxo_def cache_present_def] us]
  obtain us' where us': "cache_batch m (vc_cacheCoins v) = Some us'"
    "entries_ok (utxo (vc_base v)) (present (vc_base v)) us'"
    "overlay us' (utxo (vc_base v)) = overlay m (overlay (vc_cacheCoins v) (utxo (vc_base v)))" by blast
  then show "\<exists>b'. Cache_BatchWrite v m h = Some (True, b') \<and> cache_inv inv utxo present b' \<and>
      cache_utxo utxo b' = map_utxo (\<lambda>c. c) (overlay m (cache_utxo utxo v)) \<and> (h \<noteq> 0 \<longrightarrow> cache_tip tip b' = h)"
    using nomod base by (simp add: Cache_BatchWrite_def cache_inv_def cache_utxo_def cache_tip_def)
qed

lemma Flush_spec:
  assumes inv: "cache_inv inv utxo present v" and keeps: "pred_utxo keeps (cache_utxo utxo v)"
  obtains v' where "Flush batch v = Some (True, v')" "cache_inv inv utxo present v'" "vc_cacheCoins v' = []"
    "cache_utxo utxo v' = map_utxo stored (cache_utxo utxo v)" "utxo (vc_base v') = map_utxo stored (cache_utxo utxo v)"
    "vc_hashBlock v' = vc_hashBlock v" "vc_hashBlock v \<noteq> 0 \<Longrightarrow> tip (vc_base v') = vc_hashBlock v"
proof -
  have "inv (vc_base v)" "entries_ok (utxo (vc_base v)) (present (vc_base v)) (vc_cacheCoins v)"
    using inv by (auto simp: cache_inv_def)
  from batch_ok [OF this keeps [unfolded cache_utxo_def], of "vc_hashBlock v"] obtain b where
    b: "batch (vc_base v) (vc_cacheCoins v) (vc_hashBlock v) = Some (True, b)" "inv b"
      "utxo b = map_utxo stored (overlay (vc_cacheCoins v) (utxo (vc_base v)))" "vc_hashBlock v \<noteq> 0 \<Longrightarrow> tip b = vc_hashBlock v"
    by blast
  with inv show thesis
    using that [of "v\<lparr>vc_base := b, vc_cacheCoins := []\<rparr>"]
    by (simp add: Flush_def cache_inv_def cache_utxo_def)
qed

end

section \<open>The views of a node\<close>

text \<open>
  The node keeps one cache over the database, \<open>pcoinsTip\<close>, and connects and disconnects blocks
  in a cache over that one.
\<close>

type_synonym coins_tip = "CCoinsViewDB CCoinsViewCache"
type_synonym block_view = "coins_tip CCoinsViewCache"

abbreviation tip_get :: "coins_tip GetCoins_fn" where "tip_get \<equiv> Cache_GetCoins DB_GetCoins"

abbreviation tip_inv :: "coins_tip \<Rightarrow> bool" where "tip_inv \<equiv> cache_inv db_inv db_utxo (\<lambda>_ _. True)"

abbreviation tip_utxo :: "coins_tip \<Rightarrow> uint256 \<rightharpoonup> CCoins" where "tip_utxo \<equiv> cache_utxo db_utxo"

abbreviation view_inv :: "block_view \<Rightarrow> bool" where "view_inv \<equiv> cache_inv tip_inv tip_utxo cache_present"

abbreviation view_utxo :: "block_view \<Rightarrow> uint256 \<rightharpoonup> CCoins" where "view_utxo \<equiv> cache_utxo tip_utxo"

interpretation tip: coins_view tip_get "Cache_GetBestBlock DB_GetBestBlock" tip_inv tip_utxo
  "cache_tip (\<lambda>db. fst (DB_GetBestBlock db))" cache_present Cache_BatchWrite "\<lambda>_. True" "\<lambda>c. c"
  by (rule db.cache_view)

interpretation view: coins_view "Cache_GetCoins tip_get" "Cache_GetBestBlock (Cache_GetBestBlock DB_GetBestBlock)"
  view_inv view_utxo "cache_tip (cache_tip (\<lambda>db. fst (DB_GetBestBlock db)))" cache_present Cache_BatchWrite "\<lambda>_. True" "\<lambda>c. c"
  by (rule tip.cache_view)

text \<open>What a client does with a block view: read, spend an output, add the outputs of a transaction,
  remove the outputs of a transaction, push the changes to the tip, and to the database.\<close>

datatype view_op =
    Op_Access uint256
  | Op_Spend COutPoint
  | Op_Add CTransaction int
  | Op_Clear uint256
  | Op_Flush
  | Op_Commit

definition spend_or_keep :: "COutPoint \<Rightarrow> CCoins \<Rightarrow> bool \<times> CCoins" where
  "spend_or_keep out c = (case Spend c out of None \<Rightarrow> (False, c) | Some (undo, c') \<Rightarrow> (True, c'))"

definition commit_view :: "block_view \<Rightarrow> block_view option" where
  "commit_view v =
     (case Flush Cache_BatchWrite v of
        None \<Rightarrow> None
      | Some (ok, v') \<Rightarrow> map_option (\<lambda>(ok', b). v'\<lparr>vc_base := b\<rparr>) (Flush DB_BatchWrite (vc_base v')))"

fun view_step :: "view_op \<Rightarrow> block_view \<Rightarrow> block_view option" where
  "view_step (Op_Access k) v = Some (snd (AccessCoins tip_get v k))"
| "view_step (Op_Spend out) v = map_option snd (modify_coins tip_get v (op_hash out) (spend_or_keep out))"
| "view_step (Op_Add tx h) v = map_option snd (modify_coins tip_get v (CTransaction_GetHash tx) (\<lambda>c. ((), FromTx tx h)))"
| "view_step (Op_Clear k) v = map_option snd (modify_coins tip_get v k (\<lambda>c. ((), CCoins_Clear c)))"
| "view_step Op_Flush v = map_option snd (Flush Cache_BatchWrite v)"
| "view_step Op_Commit v = commit_view v"

fun view_run :: "view_op list \<Rightarrow> block_view \<Rightarrow> block_view option" where
  "view_run [] v = Some v"
| "view_run (op # ops) v = (case view_step op v of None \<Rightarrow> None | Some v' \<Rightarrow> view_run ops v')"

text \<open>The same on a plain map from transaction ids to the coins that are not pruned. Writing them to disk costs what the format
  does not keep.\<close>

fun spec_step :: "view_op \<Rightarrow> (uint256 \<rightharpoonup> CCoins) \<Rightarrow> uint256 \<rightharpoonup> CCoins" where
  "spec_step (Op_Spend out) u =
     (case u (op_hash out) of
        None \<Rightarrow> u
      | Some c \<Rightarrow> u(op_hash out := unspent (Some (CCoins_Cleanup (snd (spend_or_keep out c))))))"
| "spec_step (Op_Add tx h) u = u(CTransaction_GetHash tx := unspent (Some (FromTx tx h)))"
| "spec_step (Op_Clear k) u = u(k := None)"
| "spec_step Op_Commit u = map_utxo disk_coins u"
| "spec_step _ u = u"

text \<open>The outputs that are added are within the range of the format.\<close>

fun op_recordable :: "view_op \<Rightarrow> bool" where
  "op_recordable (Op_Add tx h) \<longleftrightarrow> list_all recordable_out (tx_vout tx) \<and> length (tx_vout tx) \<le> MAX_SIZE \<and> 0 \<le> h \<and> h < 2 ^ 31"
| "op_recordable _ \<longleftrightarrow> True"

lemma recordable_cleanup:
  assumes "list_all recordable_out (cc_vout c)" "length (cc_vout c) \<le> MAX_SIZE" "- (2 ^ 31) \<le> cc_nVersion c" "cc_nVersion c < 2 ^ 31"
    "0 \<le> cc_nHeight c" "cc_nHeight c < 2 ^ 31" and n: "\<not> IsPruned (CCoins_Cleanup c)"
  shows "recordable (CCoins_Cleanup c)"
proof -
  obtain k where k: "cleanup_vout (cc_vout c) = take k (cc_vout c)" using cleanup_prefix by (metis append_eq_conv_conj prefix_def)
  have "cleanup_vout (cc_vout c) \<noteq> []" using n by (auto simp: IsPruned_def CCoins_Cleanup_def)
  then show ?thesis
    using assms last_cleanup [of "cc_vout c"] unfolding recordable_def by (auto simp: CCoins_Cleanup_def k list_all_iff dest: in_set_takeD)
qed

lemma recordable_FromTx: "op_recordable (Op_Add tx h) \<Longrightarrow> \<not> IsPruned (FromTx tx h) \<Longrightarrow> recordable (FromTx tx h)"
  unfolding FromTx_def ClearUnspendable_def
  by (rule recordable_cleanup) (use sint_u32_range [of "tx_nVersion tx"] in \<open>auto simp: list_all_iff recordable_out_def\<close>)

lemma recordable_spend:
  assumes c: "recordable c" and n: "\<not> IsPruned (CCoins_Cleanup (snd (spend_or_keep out c)))"
  shows "recordable (CCoins_Cleanup (snd (spend_or_keep out c)))"
proof (cases "Spend c out")
  case None
  then show ?thesis using c n by (intro recordable_cleanup) (auto simp: spend_or_keep_def recordable_def)
next
  case (Some u)
  let ?c = "c\<lparr>cc_vout := (cc_vout c)[unat (op_n out) := CTxOut_null]\<rparr>"
  have s: "snd (spend_or_keep out c) = CCoins_Cleanup ?c"
    using Some by (auto simp: spend_or_keep_def Spend_def Let_def split: if_splits)
  have "list_all recordable_out (cc_vout ?c)"
    using c by (auto simp: recordable_def list_all_iff recordable_out_def dest!: set_update_subset_insert [THEN subsetD])
  then show ?thesis using c n unfolding s Cleanup_idem by (intro recordable_cleanup) (auto simp: recordable_def)
qed

lemma spec_step_recordable: "pred_utxo recordable u \<Longrightarrow> op_recordable op \<Longrightarrow> pred_utxo recordable (spec_step op u)"
  by (cases op) (auto simp: pred_utxo_def map_utxo_def recordable_disk recordable_FromTx recordable_spend split: if_splits option.splits
      dest!: unspent_SomeD)

lemma spend_or_keep_pruned: "IsPruned c \<Longrightarrow> snd (spend_or_keep out c) = c"
  by (simp add: spend_or_keep_def Spend_pruned)

lemma vc_base_frame [simp]:
  "vc_hasModifier (v\<lparr>vc_base := b\<rparr>) = vc_hasModifier v" "vc_cacheCoins (v\<lparr>vc_base := b\<rparr>) = vc_cacheCoins v"
  by (cases v, simp)+

lemma commit_view_spec:
  assumes "view_inv v" "pred_utxo recordable (view_utxo v)"
  obtains v' where "commit_view v = Some v'" "view_inv v'" "view_utxo v' = map_utxo disk_coins (view_utxo v)"
    "db_utxo (vc_base (vc_base v')) = map_utxo disk_coins (view_utxo v)"
proof -
  from tip.Flush_spec [OF assms(1)] obtain v1 where
    v1: "Flush Cache_BatchWrite v = Some (True, v1)" "view_inv v1" "vc_cacheCoins v1 = []"
    "view_utxo v1 = view_utxo v" "tip_utxo (vc_base v1) = view_utxo v" by (metis map_utxo_id pred_utxo_True)
  then have "tip_inv (vc_base v1)" by (simp add: cache_inv_def [of tip_inv])
  from db.Flush_spec [OF this] obtain b where
    b: "Flush DB_BatchWrite (vc_base v1) = Some (True, b)" "tip_inv b" "tip_utxo b = map_utxo disk_coins (tip_utxo (vc_base v1))"
    "db_utxo (vc_base b) = map_utxo disk_coins (tip_utxo (vc_base v1))" using assms(2) v1(5) by metis
  show thesis
  proof (rule that)
    show "commit_view v = Some (v1\<lparr>vc_base := b\<rparr>)" using v1 b by (simp add: commit_view_def)
    show "view_inv (v1\<lparr>vc_base := b\<rparr>)" using v1(2,3) b by (simp add: cache_inv_def [of tip_inv])
    show "view_utxo (v1\<lparr>vc_base := b\<rparr>) = map_utxo disk_coins (view_utxo v)" using v1 b by (simp add: cache_utxo_def [of tip_utxo])
  qed (use v1 b in simp)
qed

lemma view_step_refines:
  assumes inv: "view_inv v" and rec: "pred_utxo recordable (view_utxo v)"
  shows "\<exists>v'. view_step op v = Some v' \<and> view_inv v' \<and> view_utxo v' = spec_step op (view_utxo v)"
proof (cases op)
  case (Op_Access k)
  obtain r v' where "FetchCoins tip_get v k = (r, v')" by (cases "FetchCoins tip_get v k")
  then show ?thesis using tip.FetchCoins_spec [OF inv] Op_Access by (simp add: AccessCoins_def)
next
  case (Op_Spend out)
  from tip.modify_coins_spec [OF inv, of "op_hash out" "spend_or_keep out"] obtain c v' where
    c: "unspent (Some c) = view_utxo v (op_hash out)"
    "modify_coins tip_get v (op_hash out) (spend_or_keep out) = Some (fst (spend_or_keep out c), v')" "view_inv v'"
    "view_utxo v' = (view_utxo v)(op_hash out := unspent (Some (CCoins_Cleanup (snd (spend_or_keep out c)))))"
    by metis
  show ?thesis
  proof (cases "IsPruned c")
    case True
    then have n: "view_utxo v (op_hash out) = None" using c(1) by simp
    then have "(view_utxo v)(op_hash out := unspent (Some (CCoins_Cleanup (snd (spend_or_keep out c))))) = view_utxo v"
      using True by (simp add: spend_or_keep_pruned IsPruned_Cleanup fun_upd_idem)
    then show ?thesis using c n Op_Spend by simp
  next
    case False
    then show ?thesis using c Op_Spend by (simp flip: c(1))
  qed
next
  case (Op_Add tx h)
  from tip.modify_coins_spec [OF inv, of "CTransaction_GetHash tx" "\<lambda>c. ((), FromTx tx h)"] obtain v' where
    "modify_coins tip_get v (CTransaction_GetHash tx) (\<lambda>c. ((), FromTx tx h)) = Some ((), v')" "view_inv v'"
    "view_utxo v' = (view_utxo v)(CTransaction_GetHash tx := unspent (Some (FromTx tx h)))"
    by (metis fst_conv snd_conv Cleanup_FromTx)
  then show ?thesis using Op_Add by simp
next
  case (Op_Clear k)
  from tip.modify_coins_spec [OF inv, of k "\<lambda>c. ((), CCoins_Clear c)"] obtain c v' where
    "modify_coins tip_get v k (\<lambda>c. ((), CCoins_Clear c)) = Some ((), v')" "view_inv v'"
    "view_utxo v' = (view_utxo v)(k := unspent (Some (CCoins_Cleanup (CCoins_Clear c))))"
    by (metis fst_conv snd_conv)
  then show ?thesis using Op_Clear by (simp add: IsPruned_Cleanup)
next
  case Op_Flush
  from tip.Flush_spec [OF inv] obtain v' where
    "Flush Cache_BatchWrite v = Some (True, v')" "view_inv v'" "view_utxo v' = view_utxo v" by (metis map_utxo_id pred_utxo_True)
  then show ?thesis using Op_Flush by simp
next
  case Op_Commit
  from commit_view_spec [OF inv rec] show ?thesis using Op_Commit by (metis view_step.simps(6) spec_step.simps(4))
qed

lemma view_run_refines:
  "view_inv v \<Longrightarrow> pred_utxo recordable (view_utxo v) \<Longrightarrow> list_all op_recordable ops \<Longrightarrow>
   \<exists>v'. view_run ops v = Some v' \<and> view_inv v' \<and> view_utxo v' = fold spec_step ops (view_utxo v) \<and> pred_utxo recordable (view_utxo v')"
proof (induction ops arbitrary: v)
  case (Cons op ops)
  then obtain v' where "view_step op v = Some v'" "view_inv v'" "view_utxo v' = spec_step op (view_utxo v)"
    using view_step_refines by blast
  then show ?case using Cons.IH [of v'] Cons.prems spec_step_recordable by simp
qed simp

lemma new_view_inv: "db_inv db \<Longrightarrow> view_inv (CCoinsViewCache_new (CCoinsViewCache_new db))"
  by (simp add: cache_inv_def CCoinsViewCache_new_def)

lemma new_view_utxo: "view_utxo (CCoinsViewCache_new (CCoinsViewCache_new db)) = db_utxo db"
  by (simp add: cache_utxo_def CCoinsViewCache_new_def)

text \<open>C3. The caches of unspent outputs are transparent, and the database keeps what its format keeps. From an empty block view over an
  empty tip over the database, whatever is read, spent, added, removed, flushed or committed, in whatever order, no
  assertion fails, and every read of the view finds what the same operations leave in a plain map
  of the unspent coins, where a commit cuts negative versions to seven bits and resets what is not stored (\<open>disk_coins\<close>).
  Once the changes are committed, the coins read from the bytes in the database are exactly that map. The outputs that are added are in the
  range of the format (amounts from 0 to below \<open>2 ^ 60\<close>, heights not negative), as are the coins in the database at the start.\<close>

theorem coins_cache_refines:
  assumes "db_inv db" "list_all op_recordable ops"
  shows "\<exists>v. view_run ops (CCoinsViewCache_new (CCoinsViewCache_new db)) = Some v \<and>
    (\<forall>k. unspent (fst (AccessCoins tip_get v k)) = fold spec_step ops (db_utxo db) k) \<and>
    (\<exists>w. view_step Op_Commit v = Some w \<and>
       db_utxo (vc_base (vc_base w)) = map_utxo disk_coins (fold spec_step ops (db_utxo db)))"
proof -
  have "pred_utxo recordable (db_utxo db)" using assms(1) by (auto simp: db_inv_def pred_utxo_def)
  with view_run_refines [OF new_view_inv [OF assms(1)] _ assms(2)] obtain v where
    v: "view_run ops (CCoinsViewCache_new (CCoinsViewCache_new db)) = Some v" "view_inv v"
    "view_utxo v = fold spec_step ops (db_utxo db)" "pred_utxo recordable (view_utxo v)" by (auto simp: new_view_utxo)
  have "unspent (fst (AccessCoins tip_get v k)) = view_utxo v k" for k
    using tip.FetchCoins_spec [OF v(2), of k] by (auto simp: AccessCoins_def split: prod.splits)
  with v show ?thesis using commit_view_spec [OF v(2,4)] by (metis view_step.simps(6))
qed

text \<open>A database with the coins of one transaction, which has two outputs.\<close>

definition database_of :: "(uint256 \<times> CCoins) list \<Rightarrow> CCoinsViewDB" where
  "database_of coins =
     \<lparr>db_coins = map_of (map (\<lambda>(k, c). (k, Serialize_CCoins example_valid c)) coins), db_best = Some 3,
      db_IsFullyValid = example_valid, db_Decompress = example_decompress\<rparr>"

lemma database_utxo:
  assumes "list_all (\<lambda>(k, c). recordable c \<and> disk_coins c = c) coins"
  shows "db_utxo (database_of coins) = map_of coins"
proof
  fix k
  have "db_coins (database_of coins) k = map_option (Serialize_CCoins example_valid) (map_of coins k)"
    by (simp add: database_of_def map_of_map)
  moreover have "recordable c \<and> disk_coins c = c" if "map_of coins k = Some c" for c
    using assms map_of_SomeD [OF that] by (auto simp: list_all_iff)
  ultimately show "db_utxo (database_of coins) k = map_of coins k"
    using coins_roundtrip [OF example_decompress_ok, of _ "[]"] recordable_not_pruned
    by (cases "map_of coins k") (auto simp: db_utxo_def db_Read_def database_of_def)
qed

lemma database_inv: "list_all (\<lambda>(k, c). recordable c \<and> disk_coins c = c) coins \<Longrightarrow> db_inv (database_of coins)"
  unfolding db_inv_def
  by (auto simp: database_utxo pred_utxo_def list_all_iff dest!: map_of_SomeD) (simp add: database_of_def example_decompress_ok)

definition example_db :: CCoinsViewDB where
  "example_db = database_of [(7, example_coins)]"

lemma example_coins_disk: "disk_coins example_coins = example_coins"
  by (simp add: example_coins_def disk_coins_def disk_version_def disk_out_def CTxOut_IsNull_def CTxOut_new_def)

lemma example_db_inv: "db_inv example_db"
  by (simp add: example_db_def database_inv example_coins_recordable example_coins_disk)

lemma example_db_utxo: "db_utxo example_db = [7 \<mapsto> example_coins]"
  by (simp add: example_db_def database_utxo example_coins_recordable example_coins_disk)

text \<open>A transaction with version \<open>-1\<close> is added, an output of another one is spent, and the changes are committed: then the added
  coins have version 127.\<close>

definition example_old_tx :: CTransaction where
  "example_old_tx = \<lparr>tx_nVersion = - 1, tx_vin = [], tx_vout = [CTxOut_new 4 [0x51]], tx_nLockTime = 0\<rparr>"

abbreviation "example_ops \<equiv> [Op_Spend \<lparr>op_hash = 7, op_n = 1\<rparr>, Op_Add example_old_tx 10, Op_Flush, Op_Commit, Op_Access 7]"

theorem coins_cache_refines_witness:
  "\<exists>v. view_run example_ops (CCoinsViewCache_new (CCoinsViewCache_new example_db)) = Some v \<and>
     map_option cc_nVersion (unspent (fst (AccessCoins tip_get v (CTransaction_GetHash example_old_tx)))) = Some 127"
proof -
  have "list_all op_recordable example_ops" by (simp add: example_old_tx_def recordable_out_def CTxOut_new_def)
  from coins_cache_refines [OF example_db_inv this] obtain v where
    v: "view_run example_ops (CCoinsViewCache_new (CCoinsViewCache_new example_db)) = Some v"
    "\<forall>k. unspent (fst (AccessCoins tip_get v k)) = fold spec_step example_ops (db_utxo example_db) k" by blast
  have f: "FromTx example_old_tx 10 = \<lparr>cc_fCoinBase = False, cc_fCoinStake = False, cc_vout = [CTxOut_new 4 [0x51]], cc_nHeight = 10, cc_nVersion = - 1\<rparr>"
    by (simp add: FromTx_def ClearUnspendable_def CCoins_Cleanup_def cleanup_vout.simps example_old_tx_def CTxOut_IsNull_def CTxOut_new_def
        IsCoinBase_def IsCoinStake_def IsUnspendable_def)
  then have "unspent (Some (FromTx example_old_tx 10)) = Some (FromTx example_old_tx 10)"
    by (simp add: unspent_def IsPruned_def CTxOut_IsNull_def CTxOut_new_def)
  then have "map_option cc_nVersion (fold spec_step example_ops (db_utxo example_db) (CTransaction_GetHash example_old_tx)) = Some 127"
    by (simp add: map_utxo_def f disk_coins_def disk_version_def)
  with v show ?thesis by auto
qed

end
