(* ===== verification/BlockCoins.thy ===== *)
theory BlockCoins
  imports Coins
begin

text \<open>
  The effect of a block on the unspent outputs: \<open>UpdateCoins\<close>, the loop of \<open>ConnectBlock\<close>
  that applies it to the transactions of a block, and the loop of \<open>DisconnectBlock\<close> that takes
  it back from the undo data, \<open>src/main.cpp\<close>. Disconnecting a block that was connected
  restores the unspent outputs, except that the coinstake flag of a transaction whose last
  output the block spent is lost.
\<close>

section \<open>Connecting\<close>

definition spend_undo :: "COutPoint \<Rightarrow> CCoins \<Rightarrow> CTxInUndo option \<times> CCoins" where
  "spend_undo out c = (case Spend c out of None \<Rightarrow> (None, c) | Some (undo, c') \<Rightarrow> (Some undo, c'))"

fun spend_inputs ::
  "'b GetCoins_fn \<Rightarrow> 'b CCoinsViewCache \<Rightarrow> CTxIn list \<Rightarrow> (CTxInUndo list \<times> 'b CCoinsViewCache) option" where
  "spend_inputs get v [] = Some ([], v)"
| "spend_inputs get v (txin # vin) =
     (case modify_coins get v (op_hash (ti_prevout txin)) (spend_undo (ti_prevout txin)) of
        Some (Some undo, v') \<Rightarrow>
         (case spend_inputs get v' vin of None \<Rightarrow> None | Some (undos, v'') \<Rightarrow> Some (undo # undos, v''))
      | _ \<Rightarrow> None)"

definition UpdateCoins ::
  "'b GetCoins_fn \<Rightarrow> CTransaction \<Rightarrow> 'b CCoinsViewCache \<Rightarrow> int \<Rightarrow> (CTxInUndo list \<times> 'b CCoinsViewCache) option" where
  "UpdateCoins get tx inputs nHeight =
     (case (if IsCoinBase tx then Some ([], inputs) else spend_inputs get inputs (tx_vin tx)) of
        None \<Rightarrow> None
      | Some (vprevout, v) \<Rightarrow>
         map_option (\<lambda>(_, v'). (vprevout, v'))
           (modify_coins get v (CTransaction_GetHash tx) (\<lambda>_. ((), FromTx tx nHeight))))"

text \<open>
  The loop of \<open>ConnectBlock\<close>, without the checks: the undo record of the first transaction is a dummy
  that is thrown away.
\<close>

fun update_coins_block ::
  "'b GetCoins_fn \<Rightarrow> CTransaction list \<Rightarrow> 'b CCoinsViewCache \<Rightarrow> int \<Rightarrow> (CTxInUndo list list \<times> 'b CCoinsViewCache) option"
  where
  "update_coins_block get [] v nHeight = Some ([], v)"
| "update_coins_block get (tx # vtx) v nHeight =
     (case UpdateCoins get tx v nHeight of
        None \<Rightarrow> None
      | Some (undo, v') \<Rightarrow>
         (case update_coins_block get vtx v' nHeight of
            None \<Rightarrow> None
          | Some (undos, v'') \<Rightarrow> Some (undo # undos, v'')))"

definition connect_coins ::
  "'b GetCoins_fn \<Rightarrow> CTransaction list \<Rightarrow> 'b CCoinsViewCache \<Rightarrow> int \<Rightarrow> (CTxInUndo list list \<times> 'b CCoinsViewCache) option"
  where
  "connect_coins get vtx v nHeight = map_option (\<lambda>(undos, v'). (tl undos, v')) (update_coins_block get vtx v nHeight)"

section \<open>Disconnecting\<close>

datatype disconnect_error =
    no_undo_data
  | undo_read_failure
  | block_undo_inconsistent
  | tx_undo_inconsistent

text \<open>The first component of the results is whether the step was clean.\<close>

definition remove_outputs :: "CTransaction \<Rightarrow> int \<Rightarrow> CCoins \<Rightarrow> bool \<times> CCoins" where
  "remove_outputs tx nHeight outs0 =
     (let outs = ClearUnspendable outs0;
          outsBlock = FromTx tx nHeight;
          outs' = (if cc_nVersion outsBlock < 0 then outs\<lparr>cc_nVersion := cc_nVersion outsBlock\<rparr> else outs)
      in (CCoins_eq outs' outsBlock, CCoins_Clear outs'))"

definition restore_output :: "COutPoint \<Rightarrow> CTxInUndo \<Rightarrow> CCoins \<Rightarrow> bool \<times> CCoins" where
  "restore_output out undo coins0 =
     (let n = unat (op_n out);
          coins = (if tu_nHeight undo \<noteq> 0
                   then (CCoins_Clear coins0)\<lparr>cc_fCoinBase := tu_fCoinBase undo, cc_nHeight := sint (tu_nHeight undo),
                          cc_nVersion := tu_nVersion undo\<rparr>
                   else coins0);
          fClean = (if tu_nHeight undo \<noteq> 0 then IsPruned coins0 else \<not> IsPruned coins0);
          len = unat (op_n out + 1);
          vout = (if length (cc_vout coins) < len
                  then cc_vout coins @ replicate (len - length (cc_vout coins)) CTxOut_null else cc_vout coins)
      in (fClean \<and> \<not> IsAvailable coins n, coins\<lparr>cc_vout := vout[n := tu_txout undo]\<rparr>))"

text \<open>The inputs of a transaction are restored last to first: the list is given in that order.\<close>

fun restore_inputs ::
  "'b GetCoins_fn \<Rightarrow> (CTxIn \<times> CTxInUndo) list \<Rightarrow> bool \<times> 'b CCoinsViewCache \<Rightarrow> (bool \<times> 'b CCoinsViewCache) option" where
  "restore_inputs get [] s = Some s"
| "restore_inputs get ((txin, undo) # rest) (fClean, v) =
     (case modify_coins get v (op_hash (ti_prevout txin)) (restore_output (ti_prevout txin) undo) of
        None \<Rightarrow> None
      | Some (ok, v') \<Rightarrow> restore_inputs get rest (fClean \<and> ok, v'))"

text \<open>The transactions last to first, each but the coinbase with its undo record.\<close>

fun disconnect_txs ::
  "'b GetCoins_fn \<Rightarrow> int \<Rightarrow> (CTransaction \<times> CTxInUndo list option) list \<Rightarrow> bool \<times> 'b CCoinsViewCache \<Rightarrow>
   (disconnect_error + bool \<times> 'b CCoinsViewCache) option" where
  "disconnect_txs get nHeight [] s = Some (Inr s)"
| "disconnect_txs get nHeight ((tx, undo) # rest) (fClean, v) =
     (case modify_coins get v (CTransaction_GetHash tx) (remove_outputs tx nHeight) of
        None \<Rightarrow> None
      | Some (ok, v1) \<Rightarrow>
         (case undo of
            None \<Rightarrow> disconnect_txs get nHeight rest (fClean \<and> ok, v1)
          | Some vprevout \<Rightarrow>
             (if length vprevout \<noteq> length (tx_vin tx) then Some (Inl tx_undo_inconsistent)
              else case restore_inputs get (rev (zip (tx_vin tx) vprevout)) (fClean \<and> ok, v1) of
                     None \<Rightarrow> None
                   | Some s \<Rightarrow> disconnect_txs get nHeight rest s)))"

text \<open>
  \<open>DisconnectBlock\<close> without the optional indexes. \<open>blockUndo\<close> is what reading the undo data gives;
  \<open>hashBlock\<close>, \<open>hashPrev\<close> and \<open>nHeight\<close> are taken from the block index.
\<close>

definition DisconnectBlock ::
  "'b GetCoins_fn \<Rightarrow> 'b GetBestBlock_fn \<Rightarrow> CTransaction list \<Rightarrow> uint256 \<Rightarrow> uint256 \<Rightarrow> int \<Rightarrow>
   disconnect_error + CTxInUndo list list \<Rightarrow> 'b CCoinsViewCache \<Rightarrow>
   (disconnect_error + bool \<times> 'b CCoinsViewCache) option" where
  "DisconnectBlock get best vtx hashBlock hashPrev nHeight blockUndo view =
     (case Cache_GetBestBlock best view of
        (h, v) \<Rightarrow>
         if hashBlock \<noteq> h then None
         else case blockUndo of
                Inl e \<Rightarrow> Some (Inl e)
              | Inr vtxundo \<Rightarrow>
                 if length vtxundo + 1 \<noteq> length vtx then Some (Inl block_undo_inconsistent)
                 else case disconnect_txs get nHeight (rev (zip vtx (None # map Some vtxundo))) (True, v) of
                        None \<Rightarrow> None
                      | Some (Inl e) \<Rightarrow> Some (Inl e)
                      | Some (Inr (fClean, v')) \<Rightarrow> Some (Inr (fClean, SetBestBlock v' hashPrev)))"

section \<open>Well-formed coins\<close>

text \<open>
  The coins a view holds: there is an unspent output and the last one is unspent, spent outputs are
  null outputs, and the height is positive.
\<close>

definition wf_coins :: "CCoins \<Rightarrow> bool" where
  "wf_coins c \<longleftrightarrow>
     cc_vout c \<noteq> [] \<and> \<not> CTxOut_IsNull (last (cc_vout c)) \<and>
     (\<forall>out \<in> set (cc_vout c). CTxOut_IsNull out \<longrightarrow> out = CTxOut_null) \<and>
     length (cc_vout c) < 2 ^ 32 \<and> 0 < cc_nHeight c \<and> cc_nHeight c < 2 ^ 31"

lemma wf_coins_not_pruned: "wf_coins c \<Longrightarrow> \<not> IsPruned c"
  by (auto simp: wf_coins_def IsPruned_def list_all_iff)

text \<open>\<open>Cleanup\<close> drops a run of null outputs at the end.\<close>

lemma cleanup_vout_split:
  assumes "\<forall>out \<in> set vout. CTxOut_IsNull out \<longrightarrow> out = CTxOut_null"
  shows "cleanup_vout vout @ replicate (length vout - length (cleanup_vout vout)) CTxOut_null = vout \<and>
    length (cleanup_vout vout) \<le> length vout"
  using assms
proof (induction vout rule: cleanup_vout.induct)
  case (1 vout)
  show ?case
  proof (cases "vout \<noteq> [] \<and> CTxOut_IsNull (last vout)")
    case True
    let ?b = "butlast vout" and ?c = "cleanup_vout (butlast vout)"
    have c: "cleanup_vout vout = ?c" using True by (subst cleanup_vout.simps) simp
    have ih: "?c @ replicate (length ?b - length ?c) CTxOut_null = ?b" "length ?c \<le> length ?b"
      using 1 True by (auto dest: in_set_butlastD)
    have "vout = ?b @ [CTxOut_null]" using True 1(2) append_butlast_last_id [of vout] by fastforce
    moreover have "length vout - length ?c = Suc (length ?b - length ?c)" using True ih(2) by (cases vout) auto
    ultimately show ?thesis using ih c by (metis append.assoc length_butlast le_diff_conv replicate_append_same
        replicate_Suc diff_le_self order_trans)
  next
    case False
    then have "cleanup_vout vout = vout" by (intro cleanup_fixed) auto
    then show ?thesis by simp
  qed
qed

lemma sint_height: "0 < h \<Longrightarrow> h < 2 ^ 31 \<Longrightarrow> sint (word_of_int h :: u32) = h \<and> (word_of_int h :: u32) \<noteq> 0"
proof -
  assume h: "0 < h" "h < 2 ^ 31"
  then have "sint (word_of_int h :: u32) = h" by (simp add: sint_sbintrunc' signed_take_bit_int_eq_self)
  with h show ?thesis by auto
qed

lemma cleanup_spent:
  assumes ne: "\<not> CTxOut_IsNull (last vout)" and nulls: "\<forall>out \<in> set vout. CTxOut_IsNull out \<longrightarrow> out = CTxOut_null"
    and n: "n < length vout" and w: "w = cleanup_vout (vout[n := CTxOut_null])"
  shows "(if length w < Suc n then w @ replicate (Suc n - length w) CTxOut_null else w)[n := vout ! n] = vout"
    and "n < length w \<Longrightarrow> w ! n = CTxOut_null"
proof -
  let ?s = "vout[n := CTxOut_null]"
  have vout: "vout \<noteq> []" using n by auto
  have s: "\<forall>out \<in> set ?s. CTxOut_IsNull out \<longrightarrow> out = CTxOut_null"
    using nulls by (auto dest!: set_update_subset_insert [THEN subsetD])
  have split: "w @ replicate (length vout - length w) CTxOut_null = ?s" "length w \<le> length vout"
    using cleanup_vout_split [OF s] by (simp_all add: w)
  show "w ! n = CTxOut_null" if "n < length w"
    using that arg_cong [OF split(1), of "\<lambda>xs. xs ! n"] n by (simp only: nth_append if_True nth_list_update_eq)
  show "(if length w < Suc n then w @ replicate (Suc n - length w) CTxOut_null else w)[n := vout ! n] = vout"
  proof (cases "Suc n = length vout")
    case True
    then have "(if length w < Suc n then w @ replicate (Suc n - length w) CTxOut_null else w) = ?s"
      using split by auto
    then show ?thesis by (simp only: list_update_overwrite list_update_id)
  next
    case False
    then have "last ?s = last vout" using n by (simp add: last_list_update [OF vout])
    then have "w = ?s" using ne unfolding w by (intro cleanup_fixed) simp
    then show ?thesis using n by simp
  qed
qed

text \<open>Restoring an output that \<open>Spend\<close> spent gives the coins back, less the coinstake flag when the undo
  record carries the metadata.\<close>

lemma Spend_cases:
  assumes "Spend c out = Some (undo, c')"
  obtains w where "unat (op_n out) < length (cc_vout c)" "\<not> CTxOut_IsNull (cc_vout c ! unat (op_n out))"
    "w = cleanup_vout ((cc_vout c)[unat (op_n out) := CTxOut_null])" "c' = c\<lparr>cc_vout := w\<rparr>"
    "undo = (if w = [] then \<lparr>tu_txout = cc_vout c ! unat (op_n out), tu_fCoinBase = cc_fCoinBase c,
        tu_fCoinStake = cc_fCoinStake c, tu_nHeight = word_of_int (cc_nHeight c), tu_nVersion = cc_nVersion c\<rparr>
      else CTxInUndo_new (cc_vout c ! unat (op_n out)))"
  using assms by (auto simp: Spend_def Let_def CCoins_Cleanup_def CTxInUndo_new_def split: if_splits)

lemma restore_spent:
  assumes wf: "wf_coins c" and spend: "Spend c out = Some (undo, c')" and cc: "unspent (Some cc) = unspent (Some c')"
  shows "restore_output out undo cc = (True, if tu_fCoinStake undo then c\<lparr>cc_fCoinStake := False\<rparr> else c)"
proof -
  let ?n = "unat (op_n out)"
  from spend obtain w where n: "?n < length (cc_vout c)" "\<not> CTxOut_IsNull (cc_vout c ! ?n)"
    and w: "w = cleanup_vout ((cc_vout c)[?n := CTxOut_null])" and c': "c' = c\<lparr>cc_vout := w\<rparr>"
    and undo: "undo = (if w = [] then \<lparr>tu_txout = cc_vout c ! ?n, tu_fCoinBase = cc_fCoinBase c,
        tu_fCoinStake = cc_fCoinStake c, tu_nHeight = word_of_int (cc_nHeight c), tu_nVersion = cc_nVersion c\<rparr>
      else CTxInUndo_new (cc_vout c ! ?n))"
    by (rule Spend_cases)
  have len: "unat (op_n out + 1) = Suc ?n"
    using n(1) wf unat_add_lem [of "op_n out" 1] by (simp add: wf_coins_def)
  have refill: "(if length w < Suc ?n then w @ replicate (Suc ?n - length w) CTxOut_null else w)[?n := cc_vout c ! ?n] =
      cc_vout c" and null: "?n < length w \<Longrightarrow> w ! ?n = CTxOut_null"
    using cleanup_spent [OF _ _ n(1) w] wf by (simp_all add: wf_coins_def)
  show ?thesis
  proof (cases "w = []")
    case True
    have h: "(word_of_int (cc_nHeight c) :: u32) \<noteq> 0" "sint (word_of_int (cc_nHeight c) :: u32) = cc_nHeight c"
      using sint_height [of "cc_nHeight c"] wf by (simp_all add: wf_coins_def)
    have "IsPruned cc" using True cc by (simp add: c' IsPruned_def unspent_None_iff)
    moreover have "(replicate (Suc ?n) CTxOut_null)[?n := cc_vout c ! ?n] = cc_vout c" 
      using refill unfolding True by (simp only: list.size zero_less_Suc if_True append_Nil diff_zero)
    ultimately show ?thesis
      using h by (simp add: restore_output_def Let_def undo True CCoins_Clear_def len IsAvailable_def
          del: replicate_Suc)
  next
    case False
    then have "\<not> CTxOut_IsNull (last w)" unfolding w by (rule last_cleanup)
    then have "\<not> IsPruned c'" using False by (auto simp: c' IsPruned_def list_all_iff)
    then have "unspent (Some cc) = Some c'" unfolding cc by (rule unspent_simps(3))
    from unspent_SomeD [OF this] have cc': "cc = c'" "\<not> IsPruned c'" by auto
    have avail: "\<not> IsAvailable c' ?n" using null by (auto simp: IsAvailable_def c')
    have "restore_output out undo cc = (True, c'\<lparr>cc_vout := cc_vout c\<rparr>)"
      unfolding restore_output_def Let_def undo cc' len using cc' avail refill False
      by (cases "length w < Suc ?n") (simp_all add: CTxInUndo_new_def c')
    then show ?thesis using False by (simp add: undo CTxInUndo_new_def c')
  qed
qed

section \<open>What connecting does to the unspent outputs\<close>

definition wf_utxo :: "(uint256 \<rightharpoonup> CCoins) \<Rightarrow> bool" where
  "wf_utxo u \<longleftrightarrow> (\<forall>k c. u k = Some c \<longrightarrow> wf_coins c)"

text \<open>The inputs \<open>vin\<close> spend coins of \<open>u\<close>, one after the other, and leave \<open>u'\<close>.\<close>

fun spends :: "(uint256 \<rightharpoonup> CCoins) \<Rightarrow> CTxIn list \<Rightarrow> CTxInUndo list \<Rightarrow> (uint256 \<rightharpoonup> CCoins) \<Rightarrow> bool" where
  "spends u [] [] u' = (u' = u)"
| "spends u (i # vin) (d # undos) u' =
     (\<exists>c c'. u (op_hash (ti_prevout i)) = Some c \<and> Spend c (ti_prevout i) = Some (d, c') \<and>
             spends (u(op_hash (ti_prevout i) := unspent (Some c'))) vin undos u')"
| "spends u _ _ u' = False"

lemma Spend_wf: "wf_coins c \<Longrightarrow> Spend c out = Some (undo, c') \<Longrightarrow> unspent (Some c') = Some c'' \<Longrightarrow> wf_coins c''"
proof -
  assume wf: "wf_coins c" and s: "Spend c out = Some (undo, c')" and u: "unspent (Some c') = Some c''"
  from s obtain w where w: "w = cleanup_vout ((cc_vout c)[unat (op_n out) := CTxOut_null])" "c' = c\<lparr>cc_vout := w\<rparr>"
    by (rule Spend_cases)
  have nulls: "\<forall>o' \<in> set ((cc_vout c)[unat (op_n out) := CTxOut_null]). CTxOut_IsNull o' \<longrightarrow> o' = CTxOut_null"
    using wf by (auto simp: wf_coins_def dest!: set_update_subset_insert [THEN subsetD])
  note sp = cleanup_vout_split [OF nulls, folded w(1)]
  have sub: "set w \<subseteq> set ((cc_vout c)[unat (op_n out) := CTxOut_null])"
    using arg_cong [OF conjunct1 [OF sp], of set] unfolding set_append by blast
  have c'': "c'' = c'" "\<not> IsPruned c'" using unspent_SomeD [OF u] by auto
  then have "w \<noteq> []" by (auto simp: IsPruned_def w(2))
  moreover have "\<not> CTxOut_IsNull (last w)" using \<open>w \<noteq> []\<close> last_cleanup unfolding w(1) by blast
  moreover have "\<forall>o' \<in> set w. CTxOut_IsNull o' \<longrightarrow> o' = CTxOut_null" using nulls sub by blast
  moreover have "length w < 2 ^ 32" using sp wf by (auto simp: wf_coins_def)
  ultimately show "wf_coins c''" using wf by (simp add: c'' w(2) wf_coins_def)
qed

lemma wf_utxo_upd: "wf_utxo u \<Longrightarrow> (\<And>c. r = Some c \<Longrightarrow> wf_coins c) \<Longrightarrow> wf_utxo (u(k := r))"
  by (simp add: wf_utxo_def)

lemma spends_wf: "spends u vin undos u' \<Longrightarrow> wf_utxo u \<Longrightarrow> wf_utxo u'"
proof (induction u vin undos u' rule: spends.induct)
  case (2 u i vin d undos u')
  then obtain c c' where c: "u (op_hash (ti_prevout i)) = Some c" "Spend c (ti_prevout i) = Some (d, c')"
    "spends (u(op_hash (ti_prevout i) := unspent (Some c'))) vin undos u'" by auto
  then have "wf_coins c" using 2(3) by (simp add: wf_utxo_def)
  then show ?case using 2(1) [OF c(3)] wf_utxo_upd [OF 2(3) Spend_wf [OF _ c(2)]] by blast
qed auto

lemma spends_dom: "spends u vin undos u' \<Longrightarrow> u' k \<noteq> None \<Longrightarrow> u k \<noteq> None"
proof (induction u vin undos u' rule: spends.induct)
  case (2 u i vin d undos u')
  then show ?case by (fastforce split: if_splits)
qed auto

lemma spends_length: "spends u vin undos u' \<Longrightarrow> length undos = length vin"
  by (induction u vin undos u' rule: spends.induct) auto

context coins_reader
begin

abbreviation "cinv \<equiv> cache_inv inv utxo present"
abbreviation "cutxo \<equiv> cache_utxo utxo"

lemma spend_inputs_spends:
  "cinv v \<Longrightarrow> spend_inputs get v vin = Some (undos, v') \<Longrightarrow> cinv v' \<and> spends (cutxo v) vin undos (cutxo v')"
proof (induction vin arbitrary: v undos)
  case (Cons i vin)
  let ?h = "op_hash (ti_prevout i)" and ?f = "spend_undo (ti_prevout i)"
  from modify_coins_spec [OF Cons.prems(1), of ?h ?f] obtain c v1 where
    c: "unspent (Some c) = cutxo v ?h" "modify_coins get v ?h ?f = Some (fst (?f c), v1)" "cinv v1"
    "cutxo v1 = (cutxo v)(?h := unspent (Some (CCoins_Cleanup (snd (?f c)))))" by metis
  with Cons.prems(2) obtain d c' ds where d: "Spend c (ti_prevout i) = Some (d, c')"
    "spend_inputs get v1 vin = Some (ds, v')" "undos = d # ds"
    by (auto simp: spend_undo_def split: option.splits)
  have "\<not> IsPruned c" using Spend_pruned [of c] d(1) by auto
  moreover have "CCoins_Cleanup c' = c'" using d(1) by (auto elim!: Spend_cases simp: CCoins_Cleanup_def)
  ultimately have "cutxo v ?h = Some c" "cutxo v1 = (cutxo v)(?h := unspent (Some c'))"
    using c(1,4) d(1) by (simp_all add: spend_undo_def)
  with Cons.IH [OF c(3) d(2)] d(1,3) show ?case by (metis spends.simps(2))
qed simp

lemma restore_inputs_append:
  "restore_inputs get (xs @ ys) s = (case restore_inputs get xs s of None \<Rightarrow> None | Some s' \<Rightarrow> restore_inputs get ys s')"
  by (induction get xs s rule: restore_inputs.induct) (auto split: option.splits)

lemma restore_inputs_spends:
  assumes "spends u0 vin undos u1" "wf_utxo u0" "\<forall>d \<in> set undos. \<not> tu_fCoinStake d" "cinv v" "cutxo v = u1"
  shows "\<exists>v'. restore_inputs get (rev (zip vin undos)) (f, v) = Some (f, v') \<and> cinv v' \<and> cutxo v' = u0"
  using assms
proof (induction u0 vin undos u1 arbitrary: v rule: spends.induct)
  case (2 u i vin d undos u1)
  let ?h = "op_hash (ti_prevout i)" and ?r = "restore_output (ti_prevout i) d"
  from 2(2) obtain c c' where c: "u ?h = Some c" "Spend c (ti_prevout i) = Some (d, c')"
    "spends (u(?h := unspent (Some c'))) vin undos u1" by auto
  have wf: "wf_coins c" using c(1) 2(3) by (simp add: wf_utxo_def)
  have "wf_utxo (u(?h := unspent (Some c')))" by (rule wf_utxo_upd [OF 2(3) Spend_wf [OF wf c(2)]])
  from 2(1) [OF c(3) this _ 2(5,6)] 2(4) obtain v1 where
    v1: "restore_inputs get (rev (zip vin undos)) (f, v) = Some (f, v1)" "cinv v1"
      "cutxo v1 = u(?h := unspent (Some c'))" by (metis list.set_intros(2))
  from modify_coins_spec [OF v1(2), of ?h ?r] obtain cc v' where
    cc: "unspent (Some cc) = cutxo v1 ?h" "modify_coins get v1 ?h ?r = Some (fst (?r cc), v')" "cinv v'"
    "cutxo v' = (cutxo v1)(?h := unspent (Some (CCoins_Cleanup (snd (?r cc)))))" by metis
  have r: "?r cc = (True, c)" using restore_spent [OF wf c(2), of cc] cc(1) v1(3) 2(4) by simp
  have "CCoins_Cleanup c = c" using wf by (simp add: CCoins_Cleanup_def wf_coins_def cleanup_fixed)
  then have "cutxo v' = u" using cc(4) v1(3) c(1) wf_coins_not_pruned [OF wf] by (simp add: r fun_upd_idem)
  then show ?case using v1(1) cc(2,3) by (simp add: restore_inputs_append r)
qed auto

end

section \<open>Adding and removing the outputs of a transaction\<close>

definition tx_outputs_ok :: "CTransaction \<Rightarrow> bool" where
  "tx_outputs_ok tx \<longleftrightarrow> (\<forall>out \<in> set (tx_vout tx). 0 \<le> to_nValue out) \<and> length (tx_vout tx) < 2 ^ 32"

lemma set_cleanup: "set (cleanup_vout vout) \<subseteq> set vout"
proof (induction vout rule: cleanup_vout.induct)
  case (1 vout)
  then show ?case by (subst cleanup_vout.simps) (auto dest: in_set_butlastD)
qed

lemma length_cleanup: "length (cleanup_vout vout) \<le> length vout"
proof (induction vout rule: cleanup_vout.induct)
  case (1 vout)
  then show ?case by (subst cleanup_vout.simps) auto
qed

abbreviation "wipe \<equiv> (\<lambda>txout. if IsUnspendable (to_scriptPubKey txout) then CTxOut_null else txout)"

lemma cc_vout_FromTx: "cc_vout (FromTx tx h) = cleanup_vout (map wipe (tx_vout tx))"
  by (simp add: FromTx_def ClearUnspendable_def CCoins_Cleanup_def)

lemma FromTx_wf:
  assumes "tx_outputs_ok tx" "0 < h" "h < 2 ^ 31" "unspent (Some (FromTx tx h)) = Some c"
  shows "wf_coins c"
proof -
  have c: "c = FromTx tx h" "\<not> IsPruned (FromTx tx h)" using unspent_SomeD [OF assms(4)] by auto
  let ?w = "cleanup_vout (map wipe (tx_vout tx))"
  have "?w \<noteq> []" using c(2) by (auto simp: IsPruned_def cc_vout_FromTx)
  moreover have "\<not> CTxOut_IsNull (last ?w)" using \<open>?w \<noteq> []\<close> by (rule last_cleanup)
  moreover have "\<forall>out \<in> set ?w. CTxOut_IsNull out \<longrightarrow> out = CTxOut_null"
  proof (intro ballI impI)
    fix out assume "out \<in> set ?w" "CTxOut_IsNull out"
    then have "out \<in> wipe ` set (tx_vout tx)" using set_cleanup [of "map wipe (tx_vout tx)"] by auto
    with \<open>CTxOut_IsNull out\<close> show "out = CTxOut_null"
      using assms(1) by (fastforce simp: tx_outputs_ok_def CTxOut_IsNull_def split: if_splits)
  qed
  moreover have "length ?w < 2 ^ 32"
    using length_cleanup [of "map wipe (tx_vout tx)"] assms(1) unfolding tx_outputs_ok_def length_map
    by (rule le_less_trans [OF _ conjunct2])
  moreover have "cc_nHeight (FromTx tx h) = h" by (simp add: FromTx_def ClearUnspendable_def CCoins_Cleanup_def)
  ultimately show ?thesis using assms(2,3) by (simp add: c(1) wf_coins_def cc_vout_FromTx)
qed

lemma wipe_fixed: "out \<in> set (cleanup_vout (map wipe vout)) \<Longrightarrow> wipe out = out"
  using set_cleanup [of "map wipe vout"] by (auto simp: IsUnspendable_def CTxOut_null_def split: if_splits)

lemma ClearUnspendable_FromTx [simp]: "ClearUnspendable (FromTx tx h) = FromTx tx h"
proof -
  have "map wipe (cleanup_vout (map wipe (tx_vout tx))) = cleanup_vout (map wipe (tx_vout tx))"
    by (rule map_idI) (rule wipe_fixed)
  then show ?thesis by (simp add: FromTx_def ClearUnspendable_def CCoins_Cleanup_def)
qed

lemma IsPruned_ClearUnspendable: "IsPruned c \<Longrightarrow> IsPruned (ClearUnspendable c)"
  unfolding ClearUnspendable_def by (rule IsPruned_Cleanup) (auto simp: IsPruned_def list_all_iff)

lemma remove_added:
  assumes "unspent (Some c) = unspent (Some (FromTx tx h))"
  shows "fst (remove_outputs tx h c)" "IsPruned (snd (remove_outputs tx h c))"
proof -
  show "fst (remove_outputs tx h c)"
  proof (cases "IsPruned (FromTx tx h)")
    case True
    then have "unspent (Some c) = None" unfolding assms by (rule unspent_simps(2))
    then have "IsPruned (ClearUnspendable c)" using IsPruned_ClearUnspendable unspent_None_iff by blast
    then have "IsPruned (if b then (ClearUnspendable c)\<lparr>cc_nVersion := n\<rparr> else ClearUnspendable c)" for b n
      by (simp add: IsPruned_def)
    with True show ?thesis by (simp add: remove_outputs_def Let_def CCoins_eq_def)
  next
    case False
    then have "unspent (Some c) = Some (FromTx tx h)" unfolding assms by (rule unspent_simps(3))
    then have "c = FromTx tx h" using unspent_SomeD by blast
    then show ?thesis by (simp add: remove_outputs_def Let_def CCoins_eq_def)
  qed
qed (simp add: remove_outputs_def Let_def)

section \<open>Disconnecting takes back what connecting did\<close>

definition undo_of :: "CTransaction \<Rightarrow> CTxInUndo list \<Rightarrow> CTransaction \<times> CTxInUndo list option" where
  "undo_of tx d = (tx, if IsCoinBase tx then None else Some d)"

text \<open>What a transaction, and the transactions of a block one after the other, do to the unspent outputs.\<close>

definition tx_updates :: "(uint256 \<rightharpoonup> CCoins) \<Rightarrow> CTransaction \<Rightarrow> int \<Rightarrow> CTxInUndo list \<Rightarrow> (uint256 \<rightharpoonup> CCoins) \<Rightarrow> bool" where
  "tx_updates u tx h d u' \<longleftrightarrow> (\<exists>u1. (if IsCoinBase tx then d = [] \<and> u1 = u else spends u (tx_vin tx) d u1) \<and>
     u' = u1(CTransaction_GetHash tx := unspent (Some (FromTx tx h))))"

fun block_updates ::
  "(uint256 \<rightharpoonup> CCoins) \<Rightarrow> CTransaction list \<Rightarrow> int \<Rightarrow> CTxInUndo list list \<Rightarrow> (uint256 \<rightharpoonup> CCoins) \<Rightarrow> bool" where
  "block_updates u [] h [] u' = (u' = u)"
| "block_updates u (tx # vtx) h (d # undos) u' = (\<exists>u1. tx_updates u tx h d u1 \<and> block_updates u1 vtx h undos u')"
| "block_updates u _ h _ u' = False"

lemma tx_updates_keeps:
  assumes "tx_updates u tx h d u'"
  shows "wf_utxo u \<Longrightarrow> tx_outputs_ok tx \<Longrightarrow> 0 < h \<Longrightarrow> h < 2 ^ 31 \<Longrightarrow> wf_utxo u'"
    and "k \<noteq> CTransaction_GetHash tx \<Longrightarrow> u k = None \<Longrightarrow> u' k = None"
proof -
  from assms obtain u1 where
    u1: "if IsCoinBase tx then d = [] \<and> u1 = u else spends u (tx_vin tx) d u1"
    "u' = u1(CTransaction_GetHash tx := unspent (Some (FromTx tx h)))" unfolding tx_updates_def by metis
  show "wf_utxo u'" if "wf_utxo u" "tx_outputs_ok tx" "0 < h" "h < 2 ^ 31"
  proof -
    have "wf_utxo u1" using u1(1) that(1) spends_wf by (metis (full_types))
    then show ?thesis unfolding u1(2) by (rule wf_utxo_upd [OF _ FromTx_wf [OF that(2-4)]])
  qed
  show "u' k = None" if "k \<noteq> CTransaction_GetHash tx" "u k = None"
    using that u1(1) spends_dom [of u _ _ u1 k] by (metis (full_types) u1(2) fun_upd_other)
qed

lemma block_updates_length: "block_updates u vtx h undos u' \<Longrightarrow> length undos = length vtx"
  by (induction u vtx h undos u' rule: block_updates.induct) auto

context coins_reader
begin

lemma UpdateCoins_updates:
  assumes "cinv v" "UpdateCoins get tx v h = Some (d, v')"
  shows "cinv v' \<and> tx_updates (cutxo v) tx h d (cutxo v')"
proof -
  let ?k = "CTransaction_GetHash tx"
  obtain v1 where v1: "(if IsCoinBase tx then Some ([], v) else spend_inputs get v (tx_vin tx)) = Some (d, v1)"
    "modify_coins get v1 ?k (\<lambda>_. ((), FromTx tx h)) = Some ((), v')"
    using assms(2) by (auto simp: UpdateCoins_def split: option.splits prod.splits)
  have s: "if IsCoinBase tx then d = [] \<and> cutxo v1 = cutxo v else spends (cutxo v) (tx_vin tx) d (cutxo v1)" and "cinv v1"
    using v1(1) assms(1) spend_inputs_spends [OF assms(1)] by (auto split: if_splits)
  from modify_coins_spec [OF \<open>cinv v1\<close>, of ?k "\<lambda>_. ((), FromTx tx h)"] v1(2)
  have "cinv v'" "cutxo v' = (cutxo v1)(?k := unspent (Some (FromTx tx h)))"
    by (metis Cleanup_FromTx option.inject snd_conv)+
  with s show ?thesis unfolding tx_updates_def by blast
qed

lemma update_coins_block_updates:
  "cinv v \<Longrightarrow> update_coins_block get vtx v h = Some (undos, v') \<Longrightarrow> cinv v' \<and> block_updates (cutxo v) vtx h undos (cutxo v')"
proof (induction vtx arbitrary: v undos)
  case (Cons tx vtx)
  from Cons.prems(2) obtain d ds v1 where d: "UpdateCoins get tx v h = Some (d, v1)"
    "update_coins_block get vtx v1 h = Some (ds, v')" "undos = d # ds" by (auto split: option.splits)
  from UpdateCoins_updates [OF Cons.prems(1) d(1)] Cons.IH [OF _ d(2)] d(3) show ?case by auto
qed simp

lemma disconnect_txs_append:
  "disconnect_txs get h (xs @ ys) s =
     (case disconnect_txs get h xs s of Some (Inr s') \<Rightarrow> disconnect_txs get h ys s' | r \<Rightarrow> r)"
  by (induction get h xs s rule: disconnect_txs.induct) (auto split: option.splits sum.splits)

lemma disconnect_tx_inverse:
  assumes u: "wf_utxo u" "u (CTransaction_GetHash tx) = None"
    and up: "tx_updates u tx h d (cutxo w)" and flags: "\<forall>x \<in> set d. \<not> tu_fCoinStake x" and w: "cinv w"
  shows "\<exists>w'. disconnect_txs get h [undo_of tx d] (f, w) = Some (Inr (f, w')) \<and> cinv w' \<and> cutxo w' = u"
proof -
  let ?k = "CTransaction_GetHash tx"
  from up obtain u1 where
    u1: "if IsCoinBase tx then d = [] \<and> u1 = u else spends u (tx_vin tx) d u1"
    "cutxo w = u1(?k := unspent (Some (FromTx tx h)))" unfolding tx_updates_def by metis
  have none: "u1 ?k = None" using u1(1) u(2) spends_dom [of u _ _ u1 ?k] by (metis (full_types))
  from modify_coins_spec [OF w, of ?k "remove_outputs tx h"] obtain c w1 where
    c: "unspent (Some c) = cutxo w ?k" "modify_coins get w ?k (remove_outputs tx h) = Some (fst (remove_outputs tx h c), w1)"
    "cinv w1" "cutxo w1 = (cutxo w)(?k := unspent (Some (CCoins_Cleanup (snd (remove_outputs tx h c)))))" by metis
  have eq: "unspent (Some c) = unspent (Some (FromTx tx h))" by (simp only: c(1) u1(2) fun_upd_same)
  note r = remove_added [OF eq]
  have w1: "cutxo w1 = u1"
    using none by (simp only: c(4) u1(2) unspent_simps(2) [OF IsPruned_Cleanup [OF r(2)]] fun_upd_upd fun_upd_idem)
  show ?thesis
  proof (cases "IsCoinBase tx")
    case True
    then show ?thesis using u1(1) w1 c(2,3) r(1) by (auto simp: undo_of_def)
  next
    case False
    with u1(1) have s: "spends u (tx_vin tx) d u1" by simp
    from restore_inputs_spends [OF s u(1) flags c(3) w1] obtain w2 where
      "restore_inputs get (rev (zip (tx_vin tx) d)) (f, w1) = Some (f, w2)" "cinv w2" "cutxo w2 = u" by blast
    then show ?thesis using False c(2) r(1) spends_length [OF s] by (simp add: undo_of_def)
  qed
qed

lemma disconnect_inverse:
  assumes "wf_utxo u" "block_updates u vtx h undos (cutxo w)" "0 < h" "h < 2 ^ 31"
    "distinct (map CTransaction_GetHash vtx)" "\<forall>tx \<in> set vtx. u (CTransaction_GetHash tx) = None"
    "\<forall>tx \<in> set vtx. tx_outputs_ok tx" "\<forall>d \<in> set undos. \<forall>x \<in> set d. \<not> tu_fCoinStake x" "cinv w"
  shows "\<exists>w'. disconnect_txs get h (rev (map2 undo_of vtx undos)) (f, w) = Some (Inr (f, w')) \<and> cinv w' \<and> cutxo w' = u"
  using assms
proof (induction vtx arbitrary: u undos)
  case Nil
  then show ?case by (cases undos) auto
next
  case (Cons tx vtx)
  from Cons.prems(2) obtain d ds u1 where d: "tx_updates u tx h d u1" "block_updates u1 vtx h ds (cutxo w)" "undos = d # ds"
    by (cases undos) auto
  have ok: "tx_outputs_ok tx" using Cons.prems(7) by simp
  have "\<forall>t \<in> set vtx. u1 (CTransaction_GetHash t) = None"
    using tx_updates_keeps(2) [OF d(1)] Cons.prems(5,6)
    by (metis distinct.simps(2) image_eqI list.set_intros(2) list.simps(9) set_map)
  from Cons.IH [OF tx_updates_keeps(1) [OF d(1) Cons.prems(1) ok Cons.prems(3,4)] d(2) Cons.prems(3,4) _ this _ _ Cons.prems(9)]
    Cons.prems(5,7,8) d(3)
  obtain w1 where w1: "disconnect_txs get h (rev (map2 undo_of vtx ds)) (f, w) = Some (Inr (f, w1))" "cinv w1"
    "cutxo w1 = u1" by auto
  have "tx_updates u tx h d (cutxo w1)" using d(1) w1(3) by simp
  from disconnect_tx_inverse [OF Cons.prems(1) _ this _ w1(2), of f] Cons.prems(6,8) d(3)
  obtain w' where "disconnect_txs get h [undo_of tx d] (f, w1) = Some (Inr (f, w'))" "cinv w'" "cutxo w' = u" by auto
  then show ?case using w1(1) d(3) by (auto simp: disconnect_txs_append)
qed

end

section \<open>Blocks on the views of a node\<close>

abbreviation tip_best :: "coins_tip GetBestBlock_fn" where "tip_best \<equiv> Cache_GetBestBlock DB_GetBestBlock"

lemma map2_undo_of:
  "\<forall>tx \<in> set vtx. \<not> IsCoinBase tx \<Longrightarrow> length vtx = length undos \<Longrightarrow> map2 undo_of vtx undos = zip vtx (map Some undos)"
  by (induction vtx undos rule: list_induct2') (auto simp: undo_of_def)

lemma DisconnectBlock_undoes:
  assumes u: "wf_utxo u" and w: "view_inv w" "block_updates u vtx nHeight ([] # undos) (view_utxo w)"
    and block: "vtx = cb # rest" "IsCoinBase cb" "\<forall>tx \<in> set rest. \<not> IsCoinBase tx"
      "distinct (map CTransaction_GetHash vtx)" "\<forall>tx \<in> set vtx. tx_outputs_ok tx"
    and bip30: "\<forall>tx \<in> set vtx. u (CTransaction_GetHash tx) = None"
    and h: "0 < nHeight" "nHeight < 2 ^ 31" "vc_hashBlock w \<noteq> 0"
    and flags: "\<forall>undo \<in> set undos. \<forall>d \<in> set undo. \<not> tu_fCoinStake d"
  shows "\<exists>w'. DisconnectBlock tip_get tip_best vtx (vc_hashBlock w) hashPrev nHeight (Inr undos) w = Some (Inr (True, w')) \<and>
    view_inv w' \<and> view_utxo w' = u \<and> vc_hashBlock w' = hashPrev"
proof -
  have len: "length undos = length rest" using block_updates_length [OF w(2)] block(1) by simp
  have z: "map2 undo_of vtx ([] # undos) = zip vtx (None # map Some undos)"
    using block(1-3) len map2_undo_of [of rest undos] undo_of_def [of cb "[]"] by simp
  from tip.disconnect_inverse [OF u w(2) h(1,2) block(4) bip30 block(5) _ w(1), of True] flags obtain w' where
    w': "disconnect_txs tip_get nHeight (rev (map2 undo_of vtx ([] # undos))) (True, w) = Some (Inr (True, w'))"
    "view_inv w'" "view_utxo w' = u" by auto
  moreover have "Cache_GetBestBlock tip_best w = (vc_hashBlock w, w)" using h(3) by (simp add: Cache_GetBestBlock_def)
  moreover have "length undos + 1 = length vtx" using len block(1) by simp
  ultimately show ?thesis unfolding z DisconnectBlock_def by simp
qed

text \<open>Disconnecting a block takes back connecting it. The view holds well-formed coins; the block
  starts with its only coinbase, its transactions have distinct ids that no unspent output
  has yet and non-negative outputs, and no undo record carries a coinstake flag. Then
  \<open>DisconnectBlock\<close>, given the undo data that connecting produced, finds the database
  clean, and the view stands for the same unspent outputs as before, with the previous
  block as its best block.\<close>

theorem disconnect_after_connect:
  assumes v: "view_inv v" "wf_utxo (view_utxo v)"
    and block: "vtx = cb # rest" "IsCoinBase cb" "\<forall>tx \<in> set rest. \<not> IsCoinBase tx"
      "distinct (map CTransaction_GetHash vtx)" "\<forall>tx \<in> set vtx. tx_outputs_ok tx"
    and bip30: "\<forall>tx \<in> set vtx. view_utxo v (CTransaction_GetHash tx) = None"
    and h: "0 < nHeight" "nHeight < 2 ^ 31" "hashBlock \<noteq> 0"
    and connect: "connect_coins tip_get vtx v nHeight = Some (undos, v1)"
    and flags: "\<forall>undo \<in> set undos. \<forall>d \<in> set undo. \<not> tu_fCoinStake d"
  shows "\<exists>w. DisconnectBlock tip_get tip_best vtx hashBlock hashPrev nHeight (Inr undos) (SetBestBlock v1 hashBlock) =
      Some (Inr (True, w)) \<and> view_inv w \<and> view_utxo w = view_utxo v \<and> vc_hashBlock w = hashPrev"
proof -
  obtain d where up: "update_coins_block tip_get vtx v nHeight = Some (d # undos, v1)"
    using connect block(1) by (auto simp: connect_coins_def split: option.splits)
  then have "d = []" using block(1,2) by (auto simp: UpdateCoins_def split: option.splits)
  then have "view_inv v1 \<and> block_updates (view_utxo v) vtx nHeight ([] # undos) (view_utxo v1)"
    using tip.update_coins_block_updates [OF v(1) up] by simp
  then show ?thesis
    using DisconnectBlock_undoes [OF v(2), of "SetBestBlock v1 hashBlock" vtx nHeight undos cb rest hashPrev] block bip30 h flags
    by simp
qed

definition example_coinbase :: CTransaction where
  "example_coinbase =
     \<lparr>tx_nVersion = 1, tx_vin = [\<lparr>ti_prevout = COutPoint_null, ti_scriptSig = [1, 2], ti_nSequence = - 1\<rparr>],
      tx_vout = [CTxOut_new 50 [0x51]], tx_nLockTime = 0\<rparr>"

text \<open>A database with one coin, under an id that is not the one of the coinbase.\<close>

definition example_base :: CCoinsViewDB where
  "example_base = database_of [(CTransaction_GetHash example_coinbase + 1, example_coins)]"

definition example_view :: block_view where
  "example_view = CCoinsViewCache_new (CCoinsViewCache_new example_base)"

lemma example_coins_wf: "wf_coins example_coins" "\<not> IsPruned example_coins"
  by (simp_all add: wf_coins_def example_coins_def CTxOut_IsNull_def CTxOut_new_def IsPruned_def)

lemma example_view_ok: "view_inv example_view" "view_utxo example_view = [CTransaction_GetHash example_coinbase + 1 \<mapsto> example_coins]"
  "wf_utxo (view_utxo example_view)"
  unfolding example_view_def new_view_utxo
  by (simp_all add: new_view_inv example_base_def database_inv database_utxo example_coins_recordable example_coins_disk
      wf_utxo_def example_coins_wf)

lemma example_coinbase_ok: "IsCoinBase example_coinbase" "tx_outputs_ok example_coinbase"
  "view_utxo example_view (CTransaction_GetHash example_coinbase) = None"
  by (simp_all add: IsCoinBase_def example_coinbase_def COutPoint_IsNull_def COutPoint_null_def tx_outputs_ok_def
      CTxOut_new_def example_view_ok(2))

lemma connect_coinbase:
  assumes "view_inv v" "IsCoinBase cb"
  shows "\<exists>v1. connect_coins tip_get [cb] v h = Some ([], v1)"
proof -
  from tip.modify_coins_spec [OF assms(1), of "CTransaction_GetHash cb" "\<lambda>_. ((), FromTx cb h)"]
  obtain v1 where "modify_coins tip_get v (CTransaction_GetHash cb) (\<lambda>_. ((), FromTx cb h)) = Some ((), v1)"
    by (metis fst_conv)
  then show ?thesis using assms(2) by (simp add: connect_coins_def UpdateCoins_def)
qed

theorem disconnect_after_connect_witness:
  "\<exists>v1 w. connect_coins tip_get [example_coinbase] example_view 5 = Some ([], v1) \<and>
     DisconnectBlock tip_get tip_best [example_coinbase] 8 7 5 (Inr []) (SetBestBlock v1 8) = Some (Inr (True, w)) \<and>
     view_utxo w = view_utxo example_view \<and> vc_hashBlock w = 7"
proof -
  obtain v1 where v1: "connect_coins tip_get [example_coinbase] example_view 5 = Some ([], v1)"
    using connect_coinbase [OF example_view_ok(1) example_coinbase_ok(1)] by blast
  from disconnect_after_connect [OF example_view_ok(1,3) _ example_coinbase_ok(1) _ _ _ _ _ _ _ v1, of "[]" 8 7]
  show ?thesis using v1 example_coinbase_ok by auto
qed

text \<open>C40. \<open>DisconnectBlock\<close> loses the coinstake flag: when a block spent the last output of a coinstake, the
  undo record carries the flag, but the restored coins do not have it, and the step is
  reported as clean. The restored outputs are then no longer subject to the maturity rule
  for coinstakes.\<close>

theorem disconnect_drops_coinstake:
  assumes "wf_coins c" "cc_fCoinStake c" "Spend c out = Some (undo, c')" "IsPruned c'"
  shows "tu_fCoinStake undo \<and> restore_output out undo c' = (True, c\<lparr>cc_fCoinStake := False\<rparr>) \<and>
    c\<lparr>cc_fCoinStake := False\<rparr> \<noteq> c"
proof -
  from assms(3) obtain w where w: "w = cleanup_vout ((cc_vout c)[unat (op_n out) := CTxOut_null])" "c' = c\<lparr>cc_vout := w\<rparr>"
    "undo = (if w = [] then \<lparr>tu_txout = cc_vout c ! unat (op_n out), tu_fCoinBase = cc_fCoinBase c,
        tu_fCoinStake = cc_fCoinStake c, tu_nHeight = word_of_int (cc_nHeight c), tu_nVersion = cc_nVersion c\<rparr>
      else CTxInUndo_new (cc_vout c ! unat (op_n out)))" by (rule Spend_cases)
  have "w = []"
  proof (rule ccontr)
    assume "w \<noteq> []"
    moreover then have "\<not> CTxOut_IsNull (last w)" unfolding w(1) by (rule last_cleanup)
    ultimately show False using assms(4) by (auto simp: IsPruned_def w(2) list_all_iff)
  qed
  then have "tu_fCoinStake undo" using assms(2) by (simp add: w(3))
  moreover have "c\<lparr>cc_fCoinStake := False\<rparr> \<noteq> c" using assms(2) by (cases c) simp
  ultimately show ?thesis using restore_spent [OF assms(1,3) refl] by simp
qed

definition example_stake :: CCoins where
  "example_stake = example_coins\<lparr>cc_vout := [CTxOut_null, CTxOut_new 7 [0x51]]\<rparr>"

lemma example_stake_spend:
  "Spend example_stake \<lparr>op_hash = 7, op_n = 1\<rparr> =
     Some (\<lparr>tu_txout = CTxOut_new 7 [0x51], tu_fCoinBase = False, tu_fCoinStake = True, tu_nHeight = 9, tu_nVersion = 1\<rparr>,
           example_stake\<lparr>cc_vout := []\<rparr>)"
proof -
  have "cleanup_vout [CTxOut_null, CTxOut_null] = []" by (rule cleanup_all_null) simp
  then show ?thesis
    by (simp add: Spend_def example_stake_def example_coins_def CTxOut_IsNull_def CTxOut_new_def CCoins_Cleanup_def
        CTxInUndo_new_def)
qed

theorem disconnect_drops_coinstake_witness:
  "cc_fCoinStake example_stake \<and>
   restore_output \<lparr>op_hash = 7, op_n = 1\<rparr>
     \<lparr>tu_txout = CTxOut_new 7 [0x51], tu_fCoinBase = False, tu_fCoinStake = True, tu_nHeight = 9, tu_nVersion = 1\<rparr>
     (example_stake\<lparr>cc_vout := []\<rparr>) = (True, example_stake\<lparr>cc_fCoinStake := False\<rparr>)"
proof -
  have "wf_coins example_stake" "cc_fCoinStake example_stake" "IsPruned (example_stake\<lparr>cc_vout := []\<rparr>)"
    by (simp_all add: wf_coins_def example_stake_def example_coins_def CTxOut_IsNull_def CTxOut_new_def IsPruned_def)
  from disconnect_drops_coinstake [OF this(1,2) example_stake_spend this(3)] this show ?thesis by simp
qed

end
