(* ===== verification/Chain.thy ===== *)
theory Chain
  imports Transaction "HOL-Library.Monad_Syntax"
begin

text \<open>
  The block index and the active chain, \<open>src/chain.h\<close>, \<open>chain.cpp\<close> and the block-index functions of
  \<open>main.cpp\<close>. Index entries live in a store and refer to each other by address; \<open>None\<close> as a pointer is
  \<open>NULL\<close>, \<open>None\<close> as a result is a read through a null or dangling pointer, a failed assertion or a loop
  that does not end. The loops are partial functions, so that returning is part of what is proved.
  \<open>pnext\<close> is written and never read and is left out.
\<close>

section \<open>Index entries\<close>

abbreviation (input) BLOCK_VALID_TREE :: u32 where "BLOCK_VALID_TREE \<equiv> 2"
abbreviation (input) BLOCK_VALID_TRANSACTIONS :: u32 where "BLOCK_VALID_TRANSACTIONS \<equiv> 3"
abbreviation (input) BLOCK_VALID_CHAIN :: u32 where "BLOCK_VALID_CHAIN \<equiv> 4"
abbreviation (input) BLOCK_VALID_SCRIPTS :: u32 where "BLOCK_VALID_SCRIPTS \<equiv> 5"
abbreviation (input) BLOCK_VALID_MASK :: u32 where "BLOCK_VALID_MASK \<equiv> 7"
abbreviation (input) BLOCK_HAVE_DATA :: u32 where "BLOCK_HAVE_DATA \<equiv> 8"
abbreviation (input) BLOCK_HAVE_UNDO :: u32 where "BLOCK_HAVE_UNDO \<equiv> 16"
abbreviation (input) BLOCK_FAILED_VALID :: u32 where "BLOCK_FAILED_VALID \<equiv> 32"
abbreviation (input) BLOCK_FAILED_CHILD :: u32 where "BLOCK_FAILED_CHILD \<equiv> 64"
abbreviation (input) BLOCK_FAILED_MASK :: u32 where "BLOCK_FAILED_MASK \<equiv> 96"

abbreviation (input) BLOCK_PROOF_OF_STAKE :: u32 where "BLOCK_PROOF_OF_STAKE \<equiv> 1"
abbreviation (input) BLOCK_STAKE_ENTROPY :: u32 where "BLOCK_STAKE_ENTROPY \<equiv> 2"
abbreviation (input) BLOCK_STAKE_MODIFIER :: u32 where "BLOCK_STAKE_MODIFIER \<equiv> 4"

record CDiskBlockPos =
  dp_nFile :: int
  dp_nPos :: u32

definition CDiskBlockPos_null :: CDiskBlockPos where
  "CDiskBlockPos_null = \<lparr>dp_nFile = - 1, dp_nPos = 0\<rparr>"

record CBlockIndex =
  bi_phashBlock :: "uint256 option"
  bi_pprev :: "nat option"
  bi_pskip :: "nat option"
  bi_bnChainTrust :: uint256
  bi_nHeight :: int
  bi_nFile :: int
  bi_nDataPos :: u32
  bi_nUndoPos :: u32
  bi_nChainWork :: uint256
  bi_nTx :: u32
  bi_nChainTx :: u32
  bi_nStatus :: u32
  bi_nFlags :: u32
  bi_nStakeModifier :: u64
  bi_nStakeModifierChecksum :: u32
  bi_prevoutStake :: COutPoint
  bi_nStakeTime :: u32
  bi_hashProofOfStake :: uint256
  bi_nMint :: int
  bi_nMoneySupply :: int
  bi_nVersion :: u32
  bi_hashMerkleRoot :: uint256
  bi_nTime :: u32
  bi_nBits :: u32
  bi_nNonce :: u32
  bi_nSequenceId :: u32

type_synonym block_store = "nat \<Rightarrow> CBlockIndex option"

definition CBlockIndex_null :: CBlockIndex where
  "CBlockIndex_null =
     \<lparr>bi_phashBlock = None, bi_pprev = None, bi_pskip = None, bi_bnChainTrust = 0, bi_nHeight = 0, bi_nFile = 0,
      bi_nDataPos = 0, bi_nUndoPos = 0, bi_nChainWork = 0, bi_nTx = 0, bi_nChainTx = 0, bi_nStatus = 0,
      bi_nFlags = 0, bi_nStakeModifier = 0, bi_nStakeModifierChecksum = 0, bi_prevoutStake = COutPoint_null,
      bi_nStakeTime = 0, bi_hashProofOfStake = 0, bi_nMint = 0, bi_nMoneySupply = 0, bi_nVersion = 0,
      bi_hashMerkleRoot = 0, bi_nTime = 0, bi_nBits = 0, bi_nNonce = 0, bi_nSequenceId = 0\<rparr>"

definition BI_IsProofOfWork :: "CBlockIndex \<Rightarrow> bool" where
  "BI_IsProofOfWork b \<longleftrightarrow> \<not> (bi_nFlags b AND BLOCK_PROOF_OF_STAKE \<noteq> 0)"

definition BI_IsProofOfStake :: "CBlockIndex \<Rightarrow> bool" where
  "BI_IsProofOfStake b \<longleftrightarrow> bi_nFlags b AND BLOCK_PROOF_OF_STAKE \<noteq> 0"

definition SetProofOfStake :: "CBlockIndex \<Rightarrow> CBlockIndex" where
  "SetProofOfStake b = b\<lparr>bi_nFlags := bi_nFlags b OR BLOCK_PROOF_OF_STAKE\<rparr>"

text \<open>The constructor from a block; \<open>IsProofOfStake\<close> of a block has a second transaction with an input.\<close>

definition CBlockIndex_new :: "CBlock \<Rightarrow> CBlockIndex" where
  "CBlockIndex_new block =
     (let b = CBlockIndex_null\<lparr>bi_nVersion := bh_nVersion (blk_header block),
            bi_hashMerkleRoot := bh_hashMerkleRoot (blk_header block), bi_nTime := bh_nTime (blk_header block),
            bi_nBits := bh_nBits (blk_header block), bi_nNonce := bh_nNonce (blk_header block)\<rparr>
      in if IsProofOfStake (blk_vtx block)
         then (SetProofOfStake b)\<lparr>bi_prevoutStake := ti_prevout (tx_vin (blk_vtx block ! 1) ! 0),
                bi_nStakeTime := bh_nTime (blk_header block)\<rparr>
         else b)"

definition GetBlockPos :: "CBlockIndex \<Rightarrow> CDiskBlockPos" where
  "GetBlockPos b = (if bi_nStatus b AND BLOCK_HAVE_DATA \<noteq> 0 then \<lparr>dp_nFile = bi_nFile b, dp_nPos = bi_nDataPos b\<rparr>
     else CDiskBlockPos_null)"

definition GetUndoPos :: "CBlockIndex \<Rightarrow> CDiskBlockPos" where
  "GetUndoPos b = (if bi_nStatus b AND BLOCK_HAVE_UNDO \<noteq> 0 then \<lparr>dp_nFile = bi_nFile b, dp_nPos = bi_nUndoPos b\<rparr>
     else CDiskBlockPos_null)"

definition GetBlockTime :: "CBlockIndex \<Rightarrow> int" where
  "GetBlockTime b = uint (bi_nTime b)"

text \<open>A read through a pointer.\<close>

definition deref :: "block_store \<Rightarrow> nat option \<Rightarrow> CBlockIndex option" where
  "deref mem p = do { a \<leftarrow> p; mem a }"

definition GetBlockHeader :: "block_store \<Rightarrow> CBlockIndex \<Rightarrow> CBlockHeader option" where
  "GetBlockHeader mem b = do {
     prev \<leftarrow> (case bi_pprev b of None \<Rightarrow> Some 0 | Some q \<Rightarrow> do { c \<leftarrow> mem q; bi_phashBlock c });
     Some \<lparr>bh_nVersion = bi_nVersion b, bh_hashPrevBlock = prev, bh_hashMerkleRoot = bi_hashMerkleRoot b,
           bh_nTime = bi_nTime b, bh_nBits = bi_nBits b, bh_nNonce = bi_nNonce b\<rparr> }"

definition GetStakeEntropyBit :: "CBlockIndex \<Rightarrow> u32 option" where
  "GetStakeEntropyBit b = do { h \<leftarrow> bi_phashBlock b; Some (ucast h AND 1) }"

definition SetStakeEntropyBit :: "u32 \<Rightarrow> CBlockIndex \<Rightarrow> bool \<times> CBlockIndex" where
  "SetStakeEntropyBit nEntropyBit b =
     (if nEntropyBit > 1 then (False, b)
      else (True, b\<lparr>bi_nFlags := bi_nFlags b OR (if nEntropyBit \<noteq> 0 then BLOCK_STAKE_ENTROPY else 0)\<rparr>))"

definition GeneratedStakeModifier :: "CBlockIndex \<Rightarrow> bool" where
  "GeneratedStakeModifier b \<longleftrightarrow> bi_nFlags b AND BLOCK_STAKE_MODIFIER \<noteq> 0"

definition SetStakeModifier :: "u64 \<Rightarrow> bool \<Rightarrow> CBlockIndex \<Rightarrow> CBlockIndex" where
  "SetStakeModifier nModifier fGenerated b =
     (let c = b\<lparr>bi_nStakeModifier := nModifier\<rparr>
      in if fGenerated then c\<lparr>bi_nFlags := bi_nFlags c OR BLOCK_STAKE_MODIFIER\<rparr> else c)"

text \<open>The assertions on the validity level, which callers pass as a constant, hold for levels below 8.\<close>

definition BI_IsValid :: "u32 \<Rightarrow> CBlockIndex \<Rightarrow> bool option" where
  "BI_IsValid nUpTo b =
     (if nUpTo AND NOT BLOCK_VALID_MASK \<noteq> 0 then None
      else if bi_nStatus b AND BLOCK_FAILED_MASK \<noteq> 0 then Some False
      else Some (bi_nStatus b AND BLOCK_VALID_MASK \<ge> nUpTo))"

definition RaiseValidity :: "u32 \<Rightarrow> CBlockIndex \<Rightarrow> (bool \<times> CBlockIndex) option" where
  "RaiseValidity nUpTo b =
     (if nUpTo AND NOT BLOCK_VALID_MASK \<noteq> 0 then None
      else if bi_nStatus b AND BLOCK_FAILED_MASK \<noteq> 0 then Some (False, b)
      else if bi_nStatus b AND BLOCK_VALID_MASK < nUpTo
        then Some (True, b\<lparr>bi_nStatus := (bi_nStatus b AND NOT BLOCK_VALID_MASK) OR nUpTo\<rparr>)
      else Some (False, b))"

text \<open>The times of at most \<open>n\<close> entries, going back.\<close>

fun past_times :: "nat \<Rightarrow> block_store \<Rightarrow> nat option \<Rightarrow> int list option" where
  "past_times 0 mem pindex = Some []"
| "past_times (Suc n) mem None = Some []"
| "past_times (Suc n) mem (Some p) = do { b \<leftarrow> mem p; ts \<leftarrow> past_times n mem (bi_pprev b); Some (GetBlockTime b # ts) }"

definition GetMedianTimePast :: "block_store \<Rightarrow> nat \<Rightarrow> int option" where
  "GetMedianTimePast mem p = do {
     ts \<leftarrow> past_times 11 mem (Some p);
     (if length ts = 0 then None else Some (sort ts ! (length ts div 2))) }"

fun super_majority_loop :: "nat \<Rightarrow> int \<Rightarrow> block_store \<Rightarrow> nat option \<Rightarrow> nat \<Rightarrow> nat \<Rightarrow> nat option" where
  "super_majority_loop 0 minVersion mem pstart nRequired nFound = Some nFound"
| "super_majority_loop (Suc n) minVersion mem pstart nRequired nFound =
     (if nFound < nRequired \<and> pstart \<noteq> None then do {
        b \<leftarrow> deref mem pstart;
        super_majority_loop n minVersion mem (bi_pprev b) nRequired
          (if sint (bi_nVersion b) \<ge> minVersion then nFound + 1 else nFound) }
      else Some nFound)"

definition IsSuperMajority :: "nat \<Rightarrow> int \<Rightarrow> block_store \<Rightarrow> nat option \<Rightarrow> nat \<Rightarrow> bool option" where
  "IsSuperMajority nToCheck minVersion mem pstart nRequired =
     map_option (\<lambda>nFound. nFound \<ge> nRequired) (super_majority_loop nToCheck minVersion mem pstart nRequired 0)"

section \<open>The skip list\<close>

definition InvertLowestOne :: "int \<Rightarrow> int" where
  "InvertLowestOne n = n AND (n - 1)"

definition GetSkipHeight :: "int \<Rightarrow> int" where
  "GetSkipHeight height =
     (if height < 2 then 0
      else if height AND 1 \<noteq> 0 then InvertLowestOne (InvertLowestOne (height - 1)) + 1
      else InvertLowestOne height)"

partial_function (option) ancestor_walk :: "block_store \<Rightarrow> int \<Rightarrow> nat option \<Rightarrow> int \<Rightarrow> nat option option" where
  "ancestor_walk mem height pindexWalk heightWalk =
     (if heightWalk > height then do {
        b \<leftarrow> deref mem pindexWalk;
        let heightSkip = GetSkipHeight heightWalk;
        let heightSkipPrev = GetSkipHeight (heightWalk - 1);
        if heightSkip = height \<or>
           (heightSkip > height \<and> \<not> (heightSkipPrev < heightSkip - 2 \<and> heightSkipPrev \<ge> height))
        then ancestor_walk mem height (bi_pskip b) heightSkip
        else ancestor_walk mem height (bi_pprev b) (heightWalk - 1) }
      else Some pindexWalk)"

definition GetAncestor :: "block_store \<Rightarrow> nat \<Rightarrow> int \<Rightarrow> nat option option" where
  "GetAncestor mem p height = do {
     b \<leftarrow> mem p;
     if height > bi_nHeight b \<or> height < 0 then Some None
     else ancestor_walk mem height (Some p) (bi_nHeight b) }"

definition BuildSkip :: "block_store \<Rightarrow> nat \<Rightarrow> block_store option" where
  "BuildSkip mem p = do {
     b \<leftarrow> mem p;
     case bi_pprev b of
       None \<Rightarrow> Some mem
     | Some q \<Rightarrow> do { s \<leftarrow> GetAncestor mem q (GetSkipHeight (bi_nHeight b)); Some (mem(p \<mapsto> b\<lparr>bi_pskip := s\<rparr>)) } }"

partial_function (option) common_walk :: "block_store \<Rightarrow> nat option \<Rightarrow> nat option \<Rightarrow> (nat option \<times> nat option) option" where
  "common_walk mem pa pb =
     (if pa \<noteq> pb \<and> pa \<noteq> None \<and> pb \<noteq> None then do {
        a \<leftarrow> deref mem pa;
        b \<leftarrow> deref mem pb;
        common_walk mem (bi_pprev a) (bi_pprev b) }
      else Some (pa, pb))"

text \<open>The final assertion \<open>pa == pb\<close> is a branch.\<close>

definition LastCommonAncestor :: "block_store \<Rightarrow> nat \<Rightarrow> nat \<Rightarrow> nat option option" where
  "LastCommonAncestor mem pa pb = do {
     a \<leftarrow> mem pa;
     b \<leftarrow> mem pb;
     pa' \<leftarrow> (if bi_nHeight a > bi_nHeight b then GetAncestor mem pa (bi_nHeight b) else Some (Some pa));
     pb' \<leftarrow> (if bi_nHeight a > bi_nHeight b then Some (Some pb)
            else if bi_nHeight b > bi_nHeight a then GetAncestor mem pb (bi_nHeight a) else Some (Some pb));
     (qa, qb) \<leftarrow> common_walk mem pa' pb';
     if qa = qb then Some qa else None }"

section \<open>The active chain\<close>

type_synonym CChain = "nat option list"

definition Genesis :: "CChain \<Rightarrow> nat option" where
  "Genesis vChain = (if length vChain > 0 then vChain ! 0 else None)"

partial_function (option) tip_stake_walk :: "block_store \<Rightarrow> nat option \<Rightarrow> nat option option" where
  "tip_stake_walk mem pindex =
     (case pindex of None \<Rightarrow> Some None
      | Some p \<Rightarrow> do {
          b \<leftarrow> mem p;
          if bi_pprev b \<noteq> None \<and> \<not> BI_IsProofOfStake b then tip_stake_walk mem (bi_pprev b) else Some (Some p) })"

definition Tip :: "CChain \<Rightarrow> nat option" where
  "Tip vChain = (if length vChain < 1 then None else vChain ! (length vChain - 1))"

definition Tip_stake :: "block_store \<Rightarrow> CChain \<Rightarrow> nat option option" where
  "Tip_stake mem vChain = (if length vChain < 1 then Some None else tip_stake_walk mem (vChain ! (length vChain - 1)))"

definition chain_at :: "CChain \<Rightarrow> int \<Rightarrow> nat option" where
  "chain_at vChain nHeight = (if nHeight < 0 \<or> nHeight \<ge> int (length vChain) then None else vChain ! nat nHeight)"

definition Contains :: "block_store \<Rightarrow> CChain \<Rightarrow> nat \<Rightarrow> bool option" where
  "Contains mem vChain p = do { b \<leftarrow> mem p; Some (chain_at vChain (bi_nHeight b) = Some p) }"

definition Next :: "block_store \<Rightarrow> CChain \<Rightarrow> nat \<Rightarrow> nat option option" where
  "Next mem vChain p = do {
     b \<leftarrow> mem p;
     c \<leftarrow> Contains mem vChain p;
     Some (if c then chain_at vChain (bi_nHeight b + 1) else None) }"

definition Height :: "CChain \<Rightarrow> int" where
  "Height vChain = int (length vChain) - 1"

definition resize :: "nat \<Rightarrow> CChain \<Rightarrow> CChain" where
  "resize n v = take n v @ replicate (n - length v) None"

text \<open>An index outside the vector is undefined behaviour.\<close>

partial_function (option) set_tip_walk :: "block_store \<Rightarrow> nat option \<Rightarrow> CChain \<Rightarrow> CChain option" where
  "set_tip_walk mem pindex vChain =
     (case pindex of None \<Rightarrow> Some vChain
      | Some p \<Rightarrow> do {
          b \<leftarrow> mem p;
          if bi_nHeight b < 0 \<or> int (length vChain) \<le> bi_nHeight b then None
          else if vChain ! nat (bi_nHeight b) \<noteq> Some p
          then set_tip_walk mem (bi_pprev b) (vChain[nat (bi_nHeight b) := Some p])
          else Some vChain })"

definition SetTip :: "block_store \<Rightarrow> nat option \<Rightarrow> CChain \<Rightarrow> CChain option" where
  "SetTip mem pindex vChain =
     (case pindex of None \<Rightarrow> Some []
      | Some p \<Rightarrow> do { b \<leftarrow> mem p; set_tip_walk mem (Some p) (resize (nat (bi_nHeight b + 1)) vChain) })"

text \<open>\<open>nStep\<close> doubles at most until it passes the height, so it stays an \<open>int\<close>.\<close>

partial_function (option) locator_walk ::
  "block_store \<Rightarrow> CChain \<Rightarrow> nat option \<Rightarrow> int \<Rightarrow> uint256 list \<Rightarrow> uint256 list option" where
  "locator_walk mem vChain pindex nStep vHave =
     (case pindex of None \<Rightarrow> Some vHave
      | Some p \<Rightarrow> do {
          b \<leftarrow> mem p;
          hash \<leftarrow> bi_phashBlock b;
          if bi_nHeight b = 0 then Some (vHave @ [hash])
          else do {
            let nHeight = max (bi_nHeight b - nStep) 0;
            c \<leftarrow> Contains mem vChain p;
            q \<leftarrow> (if c then Some (chain_at vChain nHeight) else GetAncestor mem p nHeight);
            locator_walk mem vChain q (if length (vHave @ [hash]) > 10 then nStep * 2 else nStep) (vHave @ [hash]) } })"

definition GetLocator :: "block_store \<Rightarrow> CChain \<Rightarrow> nat option \<Rightarrow> uint256 list option" where
  "GetLocator mem vChain pindex =
     locator_walk mem vChain (if pindex = None then Tip vChain else pindex) 1 []"

partial_function (option) fork_walk :: "block_store \<Rightarrow> CChain \<Rightarrow> nat option \<Rightarrow> nat option option" where
  "fork_walk mem vChain pindex =
     (case pindex of None \<Rightarrow> Some None
      | Some p \<Rightarrow> do {
          b \<leftarrow> mem p;
          c \<leftarrow> Contains mem vChain p;
          if \<not> c then fork_walk mem vChain (bi_pprev b) else Some (Some p) })"

definition FindFork :: "block_store \<Rightarrow> CChain \<Rightarrow> nat \<Rightarrow> nat option option" where
  "FindFork mem vChain p = do {
     b \<leftarrow> mem p;
     q \<leftarrow> (if bi_nHeight b > Height vChain then GetAncestor mem p (Height vChain) else Some (Some p));
     fork_walk mem vChain q }"

text \<open>\<open>mapBlockIndex\<close> maps hashes to entries.\<close>

type_synonym BlockMap = "uint256 \<Rightarrow> nat option"

fun FindForkInGlobalIndex :: "block_store \<Rightarrow> BlockMap \<Rightarrow> CChain \<Rightarrow> uint256 list \<Rightarrow> nat option option" where
  "FindForkInGlobalIndex mem mapBlockIndex chain [] = Some (Genesis chain)"
| "FindForkInGlobalIndex mem mapBlockIndex chain (hash # vHave) =
     (case mapBlockIndex hash of
        None \<Rightarrow> FindForkInGlobalIndex mem mapBlockIndex chain vHave
      | Some p \<Rightarrow> do {
          c \<leftarrow> Contains mem chain p;
          if c then Some (Some p) else FindForkInGlobalIndex mem mapBlockIndex chain vHave })"

section \<open>Well-formed indexes\<close>

text \<open>The reference: \<open>n\<close> steps along \<open>pprev\<close>.\<close>

fun walk_prev :: "block_store \<Rightarrow> nat \<Rightarrow> nat \<Rightarrow> nat option" where
  "walk_prev mem 0 p = Some p"
| "walk_prev mem (Suc n) p = do { b \<leftarrow> mem p; q \<leftarrow> bi_pprev b; walk_prev mem n q }"

text \<open>Heights count the entries below, and \<open>pskip\<close> is the ancestor at the skip height.\<close>

definition wf_index :: "block_store \<Rightarrow> bool" where
  "wf_index mem \<longleftrightarrow> (\<forall>p b. mem p = Some b \<longrightarrow>
     0 \<le> bi_nHeight b \<and> (bi_pprev b = None \<longleftrightarrow> bi_nHeight b = 0) \<and>
     (\<forall>q. bi_pprev b = Some q \<longrightarrow> (\<exists>c. mem q = Some c \<and> bi_nHeight b = bi_nHeight c + 1)) \<and>
     bi_pskip b = (if bi_nHeight b = 0 then None else walk_prev mem (nat (bi_nHeight b - GetSkipHeight (bi_nHeight b))) p))"

text \<open>The chain that ends in \<open>p\<close>, from the genesis block on.\<close>

definition chain_of :: "block_store \<Rightarrow> nat \<Rightarrow> CChain" where
  "chain_of mem p = (case mem p of None \<Rightarrow> []
     | Some b \<Rightarrow> map (\<lambda>i. walk_prev mem (nat (bi_nHeight b) - i) p) [0..<nat (bi_nHeight b) + 1])"

definition is_chain :: "block_store \<Rightarrow> CChain \<Rightarrow> bool" where
  "is_chain mem v \<longleftrightarrow> v = [] \<or> (\<exists>p. mem p \<noteq> None \<and> v = chain_of mem p)"

subsection \<open>Walking back\<close>

lemma skip_height:
  assumes "0 < h"
  shows "0 \<le> GetSkipHeight h" "GetSkipHeight h < h"
proof -
  have inv: "0 \<le> InvertLowestOne n \<and> InvertLowestOne n \<le> max 0 (n - 1)" if "0 \<le> n" for n
    using that by (cases "n = 0") (auto simp: InvertLowestOne_def AND_upper2)
  have "0 \<le> GetSkipHeight h \<and> GetSkipHeight h < h"
    using assms inv [of h] inv [of "h - 1"] inv [of "InvertLowestOne (h - 1)"] by (auto simp: GetSkipHeight_def)
  then show "0 \<le> GetSkipHeight h" "GetSkipHeight h < h" by simp_all
qed

lemma walk_prev_add: "walk_prev mem (m + n) p = do { q \<leftarrow> walk_prev mem m p; walk_prev mem n q }"
  by (induction m arbitrary: p) (auto split: Option.bind_splits)

lemma walk_prev_one: "mem p = Some b \<Longrightarrow> walk_prev mem (Suc 0) p = bi_pprev b"
  by (cases "bi_pprev b") simp_all

lemma wf_indexD:
  assumes "wf_index mem" "mem p = Some b"
  shows "0 \<le> bi_nHeight b" "bi_pprev b = None \<longleftrightarrow> bi_nHeight b = 0"
    and "bi_pprev b = Some q \<Longrightarrow> \<exists>c. mem q = Some c \<and> bi_nHeight b = bi_nHeight c + 1"
    and "bi_nHeight b \<noteq> 0 \<Longrightarrow> bi_pskip b = walk_prev mem (nat (bi_nHeight b - GetSkipHeight (bi_nHeight b))) p"
  using assms unfolding wf_index_def by auto

lemma wf_prev:
  assumes "wf_index mem" "mem p = Some b" "bi_nHeight b \<noteq> 0"
  obtains q c where "bi_pprev b = Some q" "mem q = Some c" "bi_nHeight c = bi_nHeight b - 1"
proof -
  obtain q where "bi_pprev b = Some q" using wf_indexD(2) [OF assms(1,2)] assms(3) by auto
  then show ?thesis using wf_indexD(3) [OF assms(1,2)] that by force
qed

lemma walk_prev_height:
  assumes "wf_index mem" "mem p = Some b" "int n \<le> bi_nHeight b"
  shows "\<exists>q c. walk_prev mem n p = Some q \<and> mem q = Some c \<and> bi_nHeight c = bi_nHeight b - int n"
  using assms(2,3)
proof (induction n arbitrary: p b)
  case (Suc n)
  obtain q c where q: "bi_pprev b = Some q" "mem q = Some c" "bi_nHeight c = bi_nHeight b - 1"
    using wf_prev [OF assms(1) Suc.prems(1)] Suc.prems(2) by auto
  show ?case using Suc.IH [OF q(2)] Suc.prems q by auto
qed simp

lemma walk_prev_ge:
  assumes "wf_index mem" "mem p = Some b" "walk_prev mem n p = Some q"
  shows "int n \<le> bi_nHeight b"
  using assms(2,3)
proof (induction n arbitrary: p b)
  case 0
  then show ?case using wf_indexD(1) [OF assms(1)] by simp
next
  case (Suc n)
  then obtain r where r: "bi_pprev b = Some r" "walk_prev mem n r = Some q" by (auto split: Option.bind_splits)
  obtain c where "mem r = Some c" "bi_nHeight b = bi_nHeight c + 1"
    using wf_indexD(3) [OF assms(1) Suc.prems(1) r(1)] by auto
  then show ?case using Suc.IH r(2) by fastforce
qed

lemma ancestor_walk_correct:
  assumes "wf_index mem" "mem p = Some b" "0 \<le> h" "h \<le> bi_nHeight b"
  shows "ancestor_walk mem h (Some p) (bi_nHeight b) = Some (walk_prev mem (nat (bi_nHeight b - h)) p)"
  using assms(2,4)
proof (induction "nat (bi_nHeight b)" arbitrary: p b rule: less_induct)
  case less
  let ?n = "bi_nHeight b" and ?s = "GetSkipHeight (bi_nHeight b)"
  show ?case
  proof (cases "?n > h")
    case True
    then have pos: "0 < ?n" using assms(3) by simp
    note s = skip_height [OF pos]
    obtain q c where q: "bi_pprev b = Some q" "mem q = Some c" "bi_nHeight c = ?n - 1"
      using wf_prev [OF assms(1) less.prems(1)] pos by auto
    have prev: "ancestor_walk mem h (bi_pprev b) (?n - 1) = Some (walk_prev mem (nat (?n - h)) p)"
    proof -
      have "ancestor_walk mem h (Some q) (?n - 1) = Some (walk_prev mem (nat (?n - 1 - h)) q)"
        using less.hyps [of c q] q True pos by simp
      moreover have "nat (?n - h) = Suc (nat (?n - 1 - h))" using True by simp
      ultimately show ?thesis using q less.prems(1) by simp
    qed
    have skip: "ancestor_walk mem h (bi_pskip b) ?s = Some (walk_prev mem (nat (?n - h)) p)" if hs: "h \<le> ?s"
    proof -
      have e: "bi_pskip b = walk_prev mem (nat (?n - ?s)) p" using wf_indexD(4) [OF assms(1) less.prems(1)] pos by simp
      obtain r d where r: "walk_prev mem (nat (?n - ?s)) p = Some r" "mem r = Some d" "bi_nHeight d = ?s"
        using walk_prev_height [OF assms(1) less.prems(1), of "nat (?n - ?s)"] s by auto
      have "ancestor_walk mem h (Some r) ?s = Some (walk_prev mem (nat (?s - h)) r)"
        using less.hyps [of d r] r s hs pos by simp
      moreover have "nat (?n - h) = nat (?n - ?s) + nat (?s - h)" using s hs by simp
      ultimately show ?thesis using e r by (simp add: walk_prev_add)
    qed
    show ?thesis
      by (subst ancestor_walk.simps) (use True less.prems(1) prev skip in \<open>auto simp: deref_def Let_def\<close>)
  next
    case False
    then show ?thesis using less.prems(2) by (subst ancestor_walk.simps) simp
  qed
qed

text \<open>A store of one chain, whose addresses are the heights, for concrete instances.\<close>

definition line_store :: "nat \<Rightarrow> block_store" where
  "line_store n p = (if p \<le> n then Some (CBlockIndex_null\<lparr>bi_phashBlock := Some (word_of_nat p), bi_nHeight := int p,
       bi_pprev := (if p = 0 then None else Some (p - 1)),
       bi_pskip := (if p = 0 then None else Some (nat (GetSkipHeight (int p))))\<rparr>) else None)"

lemma line_walk: "k \<le> p \<Longrightarrow> p \<le> n \<Longrightarrow> walk_prev (line_store n) k p = Some (p - k)"
proof (induction k arbitrary: p)
  case (Suc k)
  then show ?case using Suc.IH [of "p - 1"] by (simp add: line_store_def)
qed simp

lemma line_store_wf: "wf_index (line_store n)"
proof -
  have "walk_prev (line_store n) (nat (int p - GetSkipHeight (int p))) p = Some (nat (GetSkipHeight (int p)))"
    if "p \<le> n" "0 < p" for p
  proof -
    have "nat (int p - GetSkipHeight (int p)) \<le> p" "p - nat (int p - GetSkipHeight (int p)) = nat (GetSkipHeight (int p))"
      using skip_height [of "int p"] that by simp_all
    then show ?thesis using line_walk [OF _ that(1)] by metis
  qed
  then show ?thesis by (auto simp: wf_index_def line_store_def CBlockIndex_null_def split: if_splits)
qed

text \<open>C15. Finding an ancestor: on a well-formed block index the skip-list walk always returns, reads no null pointer, and
  gives the entry that the required number of single steps back along \<open>pprev\<close> reaches, which exists and
  has the height asked for; for a height that is negative or above the entry it gives \<open>NULL\<close>.\<close>

theorem GetAncestor_correct:
  assumes "wf_index mem" "mem p = Some b"
  shows "GetAncestor mem p height =
      Some (if height < 0 \<or> height > bi_nHeight b then None else walk_prev mem (nat (bi_nHeight b - height)) p) \<and>
    (0 \<le> height \<and> height \<le> bi_nHeight b \<longrightarrow>
      (\<exists>q c. walk_prev mem (nat (bi_nHeight b - height)) p = Some q \<and> mem q = Some c \<and> bi_nHeight c = height))"
  using ancestor_walk_correct [OF assms, of height] walk_prev_height [OF assms, of "nat (bi_nHeight b - height)"] assms(2)
  by (auto simp: GetAncestor_def)

theorem GetAncestor_correct_witness: "GetAncestor (line_store 1000) 1000 37 = Some (Some 37)"
  using GetAncestor_correct [OF line_store_wf [of 1000], of 1000 _ 37] line_walk [of 963 1000 1000]
  by (simp add: line_store_def CBlockIndex_null_def)

subsection \<open>Adding an entry\<close>

lemma deref_mono: "mem \<subseteq>\<^sub>m mem' \<Longrightarrow> deref mem p = Some b \<Longrightarrow> deref mem' p = Some b"
  by (auto simp: deref_def map_le_def dom_def split: Option.bind_splits)

lemma walk_prev_mono: "mem \<subseteq>\<^sub>m mem' \<Longrightarrow> walk_prev mem n p = Some q \<Longrightarrow> walk_prev mem' n p = Some q"
proof (induction n arbitrary: p)
  case (Suc n)
  then obtain b r where b: "mem p = Some b" "bi_pprev b = Some r" "walk_prev mem n r = Some q"
    by (auto split: Option.bind_splits)
  moreover have "mem' p = Some b" using Suc.prems(1) b(1) by (metis map_le_def domI)
  ultimately show ?case using Suc by simp
qed simp

lemma ancestor_walk_mono:
  "ancestor_walk mem h w k = Some r \<Longrightarrow> mem \<subseteq>\<^sub>m mem' \<Longrightarrow> ancestor_walk mem' h w k = Some r"
proof (induction rule: ancestor_walk.raw_induct [rotated, consumes 1])
  case (1 walk mem h w k r)
  show ?case
  proof (cases "h < k")
    case True
    then obtain b where b: "deref mem w = Some b" using 1(2) by (auto split: Option.bind_splits)
    show ?thesis using 1(2) True b deref_mono [OF 1(3) b]
      by (subst ancestor_walk.simps) (auto simp: Let_def split: if_splits intro: 1(1) [OF _ 1(3)])
  qed (use 1(2) in \<open>subst ancestor_walk.simps, simp\<close>)
qed

lemma wf_index_add:
  assumes wf: "wf_index mem" and new: "mem p = None" and q: "mem q = Some c" "bi_pprev b = Some q"
    and h: "bi_nHeight b = bi_nHeight c + 1"
    and sk: "s = walk_prev mem (nat (bi_nHeight c - GetSkipHeight (bi_nHeight b))) q"
  shows "BuildSkip (mem(p \<mapsto> b)) p = Some (mem(p \<mapsto> b\<lparr>bi_pskip := s\<rparr>)) \<and> wf_index (mem(p \<mapsto> b\<lparr>bi_pskip := s\<rparr>))"
proof -
  let ?s = "GetSkipHeight (bi_nHeight b)" and ?m = "mem(p \<mapsto> b)"
  have hc: "0 \<le> bi_nHeight c" by (rule wf_indexD(1) [OF wf q(1)])
  have s: "0 \<le> ?s" "?s \<le> bi_nHeight c" using skip_height [of "bi_nHeight b"] h hc by simp_all
  obtain r where r: "walk_prev mem (nat (bi_nHeight c - ?s)) q = Some r"
    using walk_prev_height [OF wf q(1), of "nat (bi_nHeight c - ?s)"] s by auto
  define b' where "b' = b\<lparr>bi_pskip := Some r\<rparr>"
  let ?m' = "mem(p \<mapsto> b')"
  have le: "mem \<subseteq>\<^sub>m ?m" "mem \<subseteq>\<^sub>m ?m'" using new by (auto simp: map_le_def dom_def)
  have pq: "q \<noteq> p" using new q(1) by auto
  have "ancestor_walk ?m ?s (Some q) (bi_nHeight c) = Some (Some r)"
    using ancestor_walk_correct [OF wf q(1) s] r ancestor_walk_mono [OF _ le(1)] by simp
  then have "GetAncestor ?m q ?s = Some (Some r)" using q(1) pq s by (simp add: GetAncestor_def)
  then have bs: "BuildSkip ?m p = Some ?m'" using q(2) by (simp add: BuildSkip_def b'_def)
  have "nat (bi_nHeight b - ?s) = Suc (nat (bi_nHeight c - ?s))" using h s by simp
  then have skip: "walk_prev ?m' (nat (bi_nHeight b - ?s)) p = Some r"
    using walk_prev_mono [OF le(2) r] q(2) by (simp add: b'_def)
  have "wf_index ?m'"
    unfolding wf_index_def
  proof (intro allI impI)
    fix x d
    assume x: "?m' x = Some d"
    show "0 \<le> bi_nHeight d \<and> (bi_pprev d = None \<longleftrightarrow> bi_nHeight d = 0) \<and>
      (\<forall>q. bi_pprev d = Some q \<longrightarrow> (\<exists>c. ?m' q = Some c \<and> bi_nHeight d = bi_nHeight c + 1)) \<and>
      bi_pskip d = (if bi_nHeight d = 0 then None else walk_prev ?m' (nat (bi_nHeight d - GetSkipHeight (bi_nHeight d))) x)"
    proof (cases "x = p")
      case True
      then show ?thesis using x q h hc pq skip by (auto simp: b'_def)
    next
      case False
      then have d: "mem x = Some d" using x by simp
      have "bi_pskip d = walk_prev ?m' (nat (bi_nHeight d - GetSkipHeight (bi_nHeight d))) x" if "bi_nHeight d \<noteq> 0"
        using wf_indexD(4) [OF wf d that] wf_indexD(1) [OF wf d] that skip_height [of "bi_nHeight d"]
          walk_prev_height [OF wf d, of "nat (bi_nHeight d - GetSkipHeight (bi_nHeight d))"]
          walk_prev_mono [OF le(2), of "nat (bi_nHeight d - GetSkipHeight (bi_nHeight d))" x] by auto
      moreover have "\<exists>c. ?m' y = Some c \<and> bi_nHeight d = bi_nHeight c + 1" if "bi_pprev d = Some y" for y
        using wf_indexD(3) [OF wf d that] new by (cases "y = p") auto
      moreover have "bi_pskip d = None" if "bi_nHeight d = 0" using wf d that by (auto simp: wf_index_def)
      ultimately show ?thesis using wf_indexD(1,2) [OF wf d] by simp
    qed
  qed
  then show ?thesis using bs r sk unfolding b'_def by simp
qed

section \<open>Chains\<close>

lemma chain_of_props:
  assumes "mem p = Some b" "0 \<le> bi_nHeight b"
  shows "length (chain_of mem p) = nat (bi_nHeight b) + 1"
    and "i \<le> nat (bi_nHeight b) \<Longrightarrow> chain_of mem p ! i = walk_prev mem (nat (bi_nHeight b) - i) p"
    and "Height (chain_of mem p) = bi_nHeight b"
    and "Tip (chain_of mem p) = Some p"
proof -
  show len: "length (chain_of mem p) = nat (bi_nHeight b) + 1" using assms by (simp add: chain_of_def)
  show nth: "i \<le> nat (bi_nHeight b) \<Longrightarrow> chain_of mem p ! i = walk_prev mem (nat (bi_nHeight b) - i) p" for i
    using assms by (simp add: chain_of_def del: upt_Suc)
  show "Height (chain_of mem p) = bi_nHeight b" using len assms by (simp add: Height_def)
  show "Tip (chain_of mem p) = Some p" using nth [of "nat (bi_nHeight b)"] len by (simp add: Tip_def)
qed

lemma chain_of_at:
  assumes "mem p = Some b" "0 \<le> h" "h \<le> bi_nHeight b"
  shows "chain_at (chain_of mem p) h = walk_prev mem (nat (bi_nHeight b - h)) p"
  using chain_of_props(1,2) [of mem p b] assms by (simp add: chain_at_def nat_diff_distrib)

lemma chain_of_prefix:
  assumes "wf_index mem" "mem t = Some c" "mem p = Some b" "chain_at (chain_of mem t) (bi_nHeight b) = Some p"
    and "0 \<le> h" "h \<le> bi_nHeight b"
  shows "chain_at (chain_of mem t) h = chain_at (chain_of mem p) h"
proof -
  note ht = wf_indexD(1) [OF assms(1,2)]
  have le: "bi_nHeight b \<le> bi_nHeight c" using assms(4) chain_of_props(1) [of mem t c] assms(2) ht by (auto simp: chain_at_def split: if_splits)
  have "walk_prev mem (nat (bi_nHeight c - bi_nHeight b)) t = Some p"
    using chain_of_at [of mem t c "bi_nHeight b"] assms(2,4-6) le by simp
  moreover have "nat (bi_nHeight c - h) = nat (bi_nHeight c - bi_nHeight b) + nat (bi_nHeight b - h)" using assms(6) le by simp
  ultimately show ?thesis using assms le by (simp add: chain_of_at walk_prev_add)
qed

lemma chain_of_nth:
  assumes wf: "wf_index mem" and t: "mem t = Some c" and n: "n \<le> nat (bi_nHeight c)"
  shows "\<exists>p b. chain_of mem t ! n = Some p \<and> mem p = Some b \<and> bi_nHeight b = int n \<and>
    bi_pprev b = (if n = 0 then None else chain_of mem t ! (n - 1))"
proof -
  note ht = wf_indexD(1) [OF wf t]
  have nth: "chain_of mem t ! i = walk_prev mem (nat (bi_nHeight c) - i) t" if "i \<le> nat (bi_nHeight c)" for i
    using chain_of_props(2) [of mem t c i] t ht that by simp
  obtain p b where p: "walk_prev mem (nat (bi_nHeight c) - n) t = Some p" "mem p = Some b" "bi_nHeight b = int n"
    using walk_prev_height [OF wf t, of "nat (bi_nHeight c) - n"] n ht by auto
  have "bi_pprev b = chain_of mem t ! (n - 1)" if "n \<noteq> 0"
  proof -
    have "nat (bi_nHeight c) - (n - 1) = (nat (bi_nHeight c) - n) + Suc 0" using that n by simp
    then have "chain_of mem t ! (n - 1) = walk_prev mem (Suc 0) p"
      using nth [of "n - 1"] n p(1) by (simp only: walk_prev_add) simp
    then show ?thesis using walk_prev_one [of mem p b] p(2) by simp
  qed
  moreover have "bi_pprev b = None" if "n = 0" using wf_indexD(2) [OF wf p(2)] p(3) that by simp
  ultimately show ?thesis using nth [OF n] p by auto
qed

lemma set_tip_walk_correct:
  assumes wf: "wf_index mem" and t: "mem t = Some c"
  shows "n \<le> nat (bi_nHeight c) \<Longrightarrow> length v = nat (bi_nHeight c) + 1 \<Longrightarrow>
    (\<forall>i. n < i \<and> i < length v \<longrightarrow> v ! i = chain_of mem t ! i) \<Longrightarrow>
    (\<forall>m \<le> n. v ! m = chain_of mem t ! m \<longrightarrow> (\<forall>j \<le> m. v ! j = chain_of mem t ! j)) \<Longrightarrow>
    set_tip_walk mem (chain_of mem t ! n) v = Some (chain_of mem t)"
proof (induction n arbitrary: v)
  case (0 v)
  obtain p b where p: "chain_of mem t ! 0 = Some p" "mem p = Some b" "bi_nHeight b = 0" "bi_pprev b = None"
    using chain_of_nth [OF wf t 0(1)] by auto
  have len: "length (chain_of mem t) = length v"
    using chain_of_props(1) [of mem t c] t wf_indexD(1) [OF wf t] 0(2) by simp
  have "v[0 := Some p] ! i = chain_of mem t ! i" if "i < length v" for i
    using 0(3) p(1) that by (cases i) auto
  then have upd: "v[0 := Some p] = chain_of mem t" using len by (intro nth_equalityI) auto
  then have "v = chain_of mem t" if "v ! 0 = Some p" using that by (metis list_update_id)
  then show ?case using p 0(2) upd by (subst set_tip_walk.simps) (auto simp: set_tip_walk.simps)
next
  case (Suc n v)
  obtain p b where p: "chain_of mem t ! Suc n = Some p" "mem p = Some b" "bi_nHeight b = int (Suc n)"
    "bi_pprev b = chain_of mem t ! n"
    using chain_of_nth [OF wf t Suc.prems(1)] by auto
  have len: "length (chain_of mem t) = length v"
    using chain_of_props(1) [of mem t c] t wf_indexD(1) [OF wf t] Suc.prems(2) by simp
  have hc: "int (Suc n) \<le> bi_nHeight c" using Suc.prems(1) by linarith
  show ?case
  proof (cases "v ! Suc n = Some p")
    case True
    have "v ! i = chain_of mem t ! i" if "i < length v" for i
      using Suc.prems(3,4) True p(1) that by (cases "i \<le> Suc n") auto
    then have "v = chain_of mem t" using len by (intro nth_equalityI) auto
    then show ?thesis using True p hc Suc.prems(2)
      by (subst set_tip_walk.simps) (auto simp: nat_add_distrib)
  next
    case False
    let ?v = "v[Suc n := Some p]"
    have "?v ! i = chain_of mem t ! i" if "n < i" "i < length v" for i
      using Suc.prems(3) p(1) that by (cases "i = Suc n") auto
    moreover have "?v ! j = chain_of mem t ! j" if "m \<le> n" "?v ! m = chain_of mem t ! m" "j \<le> m" for m j
      using Suc.prems(4) [rule_format, of m j] that by simp
    ultimately have "set_tip_walk mem (chain_of mem t ! n) ?v = Some (chain_of mem t)"
      using Suc.IH [of ?v] Suc.prems(1,2) by simp
    then show ?thesis using False p hc Suc.prems(2)
      by (subst set_tip_walk.simps) (auto simp: nat_add_distrib)
  qed
qed

lemma resize_nth: "i < n \<Longrightarrow> resize n v ! i = (if i < length v then v ! i else None)"
  by (auto simp: resize_def nth_append)

lemma length_resize [simp]: "length (resize n v) = n"
  by (simp add: resize_def)

lemma chain_of_agree:
  assumes wf: "wf_index mem" and t: "mem t = Some c" and s: "mem s = Some d"
    and m: "m \<le> nat (bi_nHeight c)" "m \<le> nat (bi_nHeight d)" and eq: "chain_of mem s ! m = chain_of mem t ! m" and j: "j \<le> m"
  shows "chain_of mem s ! j = chain_of mem t ! j"
proof -
  note hts = wf_indexD(1) [OF wf t] wf_indexD(1) [OF wf s]
  have nth: "chain_of mem t ! i = walk_prev mem (nat (bi_nHeight c) - i) t" if "i \<le> m" for i
    using chain_of_props(2) [of mem t c i] t hts that m by simp
  have nths: "chain_of mem s ! i = walk_prev mem (nat (bi_nHeight d) - i) s" if "i \<le> m" for i
    using chain_of_props(2) [of mem s d i] s hts that m by simp
  have e: "nat (bi_nHeight c) - j = (nat (bi_nHeight c) - m) + (m - j)" "nat (bi_nHeight d) - j = (nat (bi_nHeight d) - m) + (m - j)"
    using m j by simp_all
  have "walk_prev mem (nat (bi_nHeight c) - m) t = walk_prev mem (nat (bi_nHeight d) - m) s"
    using eq nth [of m] nths [of m] by simp
  then show ?thesis unfolding nth [OF j] nths [OF j] e walk_prev_add by simp
qed

lemma SetTip_chain_of:
  assumes wf: "wf_index mem" and v: "is_chain mem v" and t: "mem t = Some c"
  shows "SetTip mem (Some t) v = Some (chain_of mem t)"
proof -
  note ht = wf_indexD(1) [OF wf t]
  let ?N = "nat (bi_nHeight c)" and ?v = "resize (nat (bi_nHeight c + 1)) v"
  have N: "nat (bi_nHeight c + 1) = Suc ?N" using ht by simp
  have tip: "chain_of mem t ! ?N = Some t" using chain_of_props(2) [of mem t c ?N] t ht by simp
  have "\<forall>j \<le> m. ?v ! j = chain_of mem t ! j" if m: "m \<le> ?N" and eq: "?v ! m = chain_of mem t ! m" for m
  proof -
    obtain q where q: "chain_of mem t ! m = Some q" using chain_of_nth [OF wf t m] by auto
    have lt: "m < length v" using eq q m N resize_nth [of m "Suc ?N" v] by (cases "m < length v") simp_all
    then obtain s d where s: "mem s = Some d" "v = chain_of mem s" using v by (auto simp: is_chain_def)
    have md: "m \<le> nat (bi_nHeight d)" using lt s chain_of_props(1) [of mem s d] wf_indexD(1) [OF wf s(1)] by simp
    have "chain_of mem s ! m = chain_of mem t ! m" using eq lt m N resize_nth [of m "Suc ?N" v] s by simp
    then have "chain_of mem s ! j = chain_of mem t ! j" if "j \<le> m" for j
      by (rule chain_of_agree [OF wf t s(1) m md _ that])
    then show ?thesis using lt m N resize_nth [of _ "Suc ?N" v] s by simp
  qed
  then have "set_tip_walk mem (chain_of mem t ! ?N) ?v = Some (chain_of mem t)"
    using N by (intro set_tip_walk_correct [OF wf t]) auto
  then show ?thesis using tip t by (simp add: SetTip_def)
qed

subsection \<open>Forks\<close>

lemma common_walk_fork:
  assumes wf: "wf_index mem"
  shows "mem p = Some b \<Longrightarrow> mem q = Some c \<Longrightarrow> bi_nHeight b = int n \<Longrightarrow> bi_nHeight c = int n \<Longrightarrow>
    walk_prev mem n p = walk_prev mem n q \<Longrightarrow> (\<forall>j \<le> n. chain_at v (int j) = walk_prev mem (n - j) q) \<Longrightarrow>
    \<exists>r k. common_walk mem (Some p) (Some q) = Some (Some r, Some r) \<and> fork_walk mem v (Some p) = Some (Some r) \<and>
      k \<le> n \<and> walk_prev mem k p = Some r \<and> walk_prev mem k q = Some r \<and>
      (\<forall>m < k. walk_prev mem m p \<noteq> walk_prev mem m q)"
proof (induction n arbitrary: p b q c)
  case 0
  then show ?case
    by (intro exI [of _ p] exI [of _ 0], subst common_walk.simps, subst fork_walk.simps) (auto simp: Contains_def)
next
  case (Suc n)
  have at: "chain_at v (bi_nHeight b) = Some q" using Suc.prems(3,6) by auto
  show ?case
  proof (cases "p = q")
    case True
    then show ?thesis using Suc.prems(1) at
      by (intro exI [of _ p] exI [of _ 0], subst common_walk.simps, subst fork_walk.simps) (auto simp: Contains_def)
  next
    case False
    obtain p' b' where p': "bi_pprev b = Some p'" "mem p' = Some b'" "bi_nHeight b' = int n"
      using wf_prev [OF wf Suc.prems(1)] Suc.prems(3) by auto
    obtain q' c' where q': "bi_pprev c = Some q'" "mem q' = Some c'" "bi_nHeight c' = int n"
      using wf_prev [OF wf Suc.prems(2)] Suc.prems(4) by auto
    have "walk_prev mem n p' = walk_prev mem n q'" using Suc.prems(1,2,5) p' q' by simp
    moreover have "\<forall>j \<le> n. chain_at v (int j) = walk_prev mem (n - j) q'"
      using Suc.prems(2,6) q' by (auto simp: Suc_diff_le)
    ultimately obtain r k where r: "common_walk mem (Some p') (Some q') = Some (Some r, Some r)"
      "fork_walk mem v (Some p') = Some (Some r)" "k \<le> n" "walk_prev mem k p' = Some r" "walk_prev mem k q' = Some r"
      "\<forall>m < k. walk_prev mem m p' \<noteq> walk_prev mem m q'"
      using Suc.IH [OF p'(2) q'(2) p'(3) q'(3)] by auto
    have "common_walk mem (Some p) (Some q) = Some (Some r, Some r)"
      using False Suc.prems(1,2) p' q' r(1) by (subst common_walk.simps) (simp add: deref_def)
    moreover have "fork_walk mem v (Some p) = Some (Some r)"
      using False Suc.prems(1) at p' r(2) by (subst fork_walk.simps) (simp add: Contains_def)
    moreover have "walk_prev mem m p \<noteq> walk_prev mem m q" if "m < Suc k" for m
      using False Suc.prems(1,2) p' q' r(6) that by (cases m) auto
    moreover have "walk_prev mem (Suc k) p = Some r" "walk_prev mem (Suc k) q = Some r"
      using Suc.prems(1,2) p' q' r(4,5) by simp_all
    ultimately show ?thesis using r(3) by (intro exI [of _ r] exI [of _ "Suc k"]) simp
  qed
qed

lemma walk_chain_at:
  assumes wf: "wf_index mem" and p: "mem p = Some b" and a: "walk_prev mem (nat (bi_nHeight b - h)) p = Some q"
    and h: "0 \<le> j" "j \<le> h" "h \<le> bi_nHeight b"
  shows "chain_at (chain_of mem p) j = walk_prev mem (nat (h - j)) q"
proof -
  have "nat (bi_nHeight b - j) = nat (bi_nHeight b - h) + nat (h - j)" using h by simp
  then show ?thesis using chain_of_at [of mem p b j] p a h by (simp add: walk_prev_add)
qed

lemma fork_at_height:
  assumes wf: "wf_index mem" and p: "mem p = Some b" and t: "mem t = Some c"
    and root: "chain_of mem p ! 0 = chain_of mem t ! 0"
    and n: "0 \<le> n" "n \<le> bi_nHeight b" "n \<le> bi_nHeight c"
    and p': "walk_prev mem (nat (bi_nHeight b - n)) p = Some p'" and t': "walk_prev mem (nat (bi_nHeight c - n)) t = Some t'"
  shows "\<exists>r d. common_walk mem (Some p') (Some t') = Some (Some r, Some r) \<and>
    fork_walk mem (chain_of mem t) (Some p') = Some (Some r) \<and> mem r = Some d \<and>
    chain_at (chain_of mem p) (bi_nHeight d) = Some r \<and> chain_at (chain_of mem t) (bi_nHeight d) = Some r \<and>
    (\<forall>j. bi_nHeight d < j \<and> j \<le> n \<longrightarrow> chain_at (chain_of mem p) j \<noteq> chain_at (chain_of mem t) j)"
proof -
  note wp = walk_chain_at [OF wf p p' _ _ n(2)] and wt = walk_chain_at [OF wf t t' _ _ n(3)]
  obtain b' where b': "mem p' = Some b'" "bi_nHeight b' = n"
    using walk_prev_height [OF wf p, of "nat (bi_nHeight b - n)"] p' n by auto
  obtain c' where c': "mem t' = Some c'" "bi_nHeight c' = n"
    using walk_prev_height [OF wf t, of "nat (bi_nHeight c - n)"] t' n by auto
  have "chain_at (chain_of mem p) 0 = chain_at (chain_of mem t) 0"
    using root p t n chain_of_props(1) [of mem p b] chain_of_props(1) [of mem t c] by (simp add: chain_at_def)
  then have "walk_prev mem (nat n) p' = walk_prev mem (nat n) t'" using wp [of 0] wt [of 0] n(1) by simp
  moreover have "\<forall>j \<le> nat n. chain_at (chain_of mem t) (int j) = walk_prev mem (nat n - j) t'"
    using wt [of "int _"] n(1) by (simp add: nat_diff_distrib)
  ultimately obtain r k where r: "common_walk mem (Some p') (Some t') = Some (Some r, Some r)"
    "fork_walk mem (chain_of mem t) (Some p') = Some (Some r)" "k \<le> nat n"
    "walk_prev mem k p' = Some r" "walk_prev mem k t' = Some r" "\<forall>m < k. walk_prev mem m p' \<noteq> walk_prev mem m t'"
    using common_walk_fork [OF wf b'(1) c'(1), of "nat n" "chain_of mem t"] b'(2) c'(2) n(1) by auto
  have kn: "int k \<le> n" using r(3) n(1) by linarith
  obtain d where d: "mem r = Some d" "bi_nHeight d = n - int k"
    using walk_prev_height [OF wf b'(1), of k] r(4) b'(2) kn by auto
  have k: "nat (n - (n - int k)) = k" by simp
  have "chain_at (chain_of mem p) (n - int k) = Some r" "chain_at (chain_of mem t) (n - int k) = Some r"
    using wp [of "n - int k"] wt [of "n - int k"] r(3-5) n(1) k by simp_all
  moreover have "chain_at (chain_of mem p) j \<noteq> chain_at (chain_of mem t) j" if "n - int k < j" "j \<le> n" for j
    using wp [of j] wt [of j] r(6) [rule_format, of "nat (n - j)"] r(3) n(1) that by simp
  ultimately show ?thesis using r(1,2) d by (intro exI [of _ r] exI [of _ d]) simp
qed

text \<open>C21. Reorganisations: setting the tip of the active chain, whatever chain it held before, returns and leaves exactly
  the ancestors of the new tip in height order; \<open>FindFork\<close> and \<open>LastCommonAncestor\<close> then return, meet
  no null pointer and no failed assertion, and agree on one block, which is on both branches and above
  which the two branches have no block in common. Blocks of one tree share their genesis block.\<close>

theorem fork_is_last_common:
  assumes "wf_index mem" "is_chain mem v" "mem p = Some b" "mem t = Some c"
    and "chain_of mem p ! 0 = chain_of mem t ! 0"
  shows "SetTip mem (Some t) v = Some (chain_of mem t) \<and>
    (\<exists>r d. FindFork mem (chain_of mem t) p = Some (Some r) \<and> LastCommonAncestor mem p t = Some (Some r) \<and>
      mem r = Some d \<and>
      chain_at (chain_of mem p) (bi_nHeight d) = Some r \<and> chain_at (chain_of mem t) (bi_nHeight d) = Some r \<and>
      (\<forall>j. bi_nHeight d < j \<and> j \<le> bi_nHeight b \<and> j \<le> bi_nHeight c \<longrightarrow>
        chain_at (chain_of mem p) j \<noteq> chain_at (chain_of mem t) j))"
proof
  show "SetTip mem (Some t) v = Some (chain_of mem t)" by (rule SetTip_chain_of [OF assms(1,2,4)])
  let ?n = "min (bi_nHeight b) (bi_nHeight c)"
  have n: "0 \<le> ?n" using wf_indexD(1) [OF assms(1,3)] wf_indexD(1) [OF assms(1,4)] by simp
  have H: "Height (chain_of mem t) = bi_nHeight c"
    using chain_of_props(3) [of mem t c] assms(4) wf_indexD(1) [OF assms(1,4)] by simp
  note anc = ancestor_walk_correct [OF assms(1)]
  obtain p' where p': "walk_prev mem (nat (bi_nHeight b - ?n)) p = Some p'"
    using walk_prev_height [OF assms(1,3), of "nat (bi_nHeight b - ?n)"] n by auto
  obtain t' where t': "walk_prev mem (nat (bi_nHeight c - ?n)) t = Some t'"
    using walk_prev_height [OF assms(1,4), of "nat (bi_nHeight c - ?n)"] n by auto
  have "FindFork mem (chain_of mem t) p = fork_walk mem (chain_of mem t) (Some p')"
    using p' anc [OF assms(3), of "bi_nHeight c"] n assms(3) H
    by (cases "bi_nHeight b > bi_nHeight c") (auto simp: FindFork_def GetAncestor_def min_def)
  moreover have "LastCommonAncestor mem p t = do { (qa, qb) \<leftarrow> common_walk mem (Some p') (Some t');
      if qa = qb then Some qa else None }"
    using p' t' anc [OF assms(3), of "bi_nHeight c"] anc [OF assms(4), of "bi_nHeight b"] n assms(3,4)
    by (cases "bi_nHeight b > bi_nHeight c"; cases "bi_nHeight b = bi_nHeight c")
      (auto simp: LastCommonAncestor_def GetAncestor_def min_def)
  moreover note fork_at_height [OF assms(1,3-5) n _ _ p' t']
  ultimately show "\<exists>r d. FindFork mem (chain_of mem t) p = Some (Some r) \<and> LastCommonAncestor mem p t = Some (Some r) \<and>
      mem r = Some d \<and>
      chain_at (chain_of mem p) (bi_nHeight d) = Some r \<and> chain_at (chain_of mem t) (bi_nHeight d) = Some r \<and>
      (\<forall>j. bi_nHeight d < j \<and> j \<le> bi_nHeight b \<and> j \<le> bi_nHeight c \<longrightarrow>
        chain_at (chain_of mem p) j \<noteq> chain_at (chain_of mem t) j)"
    by fastforce
qed

text \<open>A concrete fork: a block at height 4 beside the chain of the blocks 0 to 5.\<close>

definition fork_entry :: CBlockIndex where
  "fork_entry = CBlockIndex_null\<lparr>bi_nHeight := 4, bi_pprev := Some 3\<rparr>"

definition fork_store :: block_store where
  "fork_store = (line_store 5)(10 \<mapsto> fork_entry\<lparr>bi_pskip := Some 0\<rparr>)"

lemma fork_store_wf: "wf_index fork_store"
proof -
  have "GetSkipHeight 4 = 0" by (simp add: GetSkipHeight_def InvertLowestOne_def)
  moreover obtain c where "line_store 5 3 = Some c" "bi_nHeight c = 3" by (simp add: line_store_def)
  moreover have "line_store 5 10 = None" "walk_prev (line_store 5) 3 3 = Some 0"
    using line_walk [of 3 3 5] by (simp_all add: line_store_def)
  ultimately show ?thesis
    using wf_index_add [OF line_store_wf, of 5 10 3 c fork_entry "Some 0"]
    by (simp add: fork_store_def fork_entry_def)
qed

theorem fork_is_last_common_witness:
  "SetTip fork_store (Some 5) (chain_of fork_store 10) = Some (chain_of fork_store 5) \<and>
    (\<exists>r. FindFork fork_store (chain_of fork_store 5) 10 = Some (Some r) \<and> LastCommonAncestor fork_store 10 5 = Some (Some r))"
proof -
  have b: "fork_store 10 = Some (fork_entry\<lparr>bi_pskip := Some 0\<rparr>)" by (simp add: fork_store_def)
  then have "is_chain fork_store (chain_of fork_store 10)" by (auto simp: is_chain_def)
  moreover obtain c where c: "fork_store 5 = Some c" by (simp add: fork_store_def line_store_def)
  moreover have "chain_of fork_store 10 ! 0 = chain_of fork_store 5 ! 0" by code_simp
  ultimately show ?thesis using fork_is_last_common [OF fork_store_wf _ b c, of "chain_of fork_store 10"] by blast
qed

subsection \<open>Locators\<close>

text \<open>The heights a locator names: every block at first, then at doubling distances, then the genesis block.\<close>

function locator_heights :: "nat \<Rightarrow> nat \<Rightarrow> nat \<Rightarrow> nat list" where
  "locator_heights h step n =
     (if h = 0 \<or> step = 0 then [h]
      else h # locator_heights (h - step) (if n + 1 > 10 then step * 2 else step) (n + 1))"
  by pat_completeness auto
termination by (relation "measure fst") auto

declare locator_heights.simps [simp del]

definition hash_at :: "block_store \<Rightarrow> nat \<Rightarrow> nat \<Rightarrow> uint256 option" where
  "hash_at mem p k = do { b \<leftarrow> mem p; q \<leftarrow> walk_prev mem (nat (bi_nHeight b) - k) p; c \<leftarrow> mem q; bi_phashBlock c }"

lemma hash_at_step:
  assumes wf: "wf_index mem" and p: "mem p = Some b" and q: "walk_prev mem m p = Some q" "mem q = Some c" and k: "int k \<le> bi_nHeight c"
    and m: "bi_nHeight c = bi_nHeight b - int m"
  shows "hash_at mem q k = hash_at mem p k"
proof -
  have "nat (bi_nHeight b) - k = m + (nat (bi_nHeight c) - k)" using k m by simp
  then show ?thesis using p q by (simp add: hash_at_def walk_prev_add)
qed

lemma locator_heights_le: "k \<in> set (locator_heights h step n) \<Longrightarrow> k \<le> h"
proof (induction h step n rule: locator_heights.induct)
  case (1 h step n)
  show ?case
  proof (cases "h = 0 \<or> step = 0")
    case False
    then have "k = h \<or> k \<in> set (locator_heights (h - step) (if n + 1 > 10 then step * 2 else step) (n + 1))"
      using 1(2) by (subst (asm) locator_heights.simps) auto
    then show ?thesis using 1(1) [OF False] by auto
  qed (use 1(2) in \<open>subst (asm) locator_heights.simps, auto\<close>)
qed

lemma locator_walk_correct:
  assumes wf: "wf_index mem" and v: "is_chain mem v" and hash: "\<forall>p b. mem p = Some b \<longrightarrow> bi_phashBlock b \<noteq> None"
  shows "mem p = Some b \<Longrightarrow> h = nat (bi_nHeight b) \<Longrightarrow> 0 < step \<Longrightarrow>
    locator_walk mem v (Some p) (int step) vHave =
      Some (vHave @ map (\<lambda>k. the (hash_at mem p k)) (locator_heights h step (length vHave)))"
proof (induction h step "length vHave" arbitrary: p b vHave rule: locator_heights.induct)
  case (1 h step vHave p b)
  note hb = wf_indexD(1) [OF wf 1(2)]
  obtain x where x: "bi_phashBlock b = Some x" using hash 1(2) by auto
  have self: "hash_at mem p h = Some x" using 1(2,3) x by (simp add: hash_at_def)
  show ?case
  proof (cases "h = 0")
    case True
    then show ?thesis using 1(2,3) x self hb
      by (subst locator_walk.simps, subst locator_heights.simps) simp
  next
    case False
    let ?h = "h - step" and ?step = "if length vHave + 1 > 10 then step * 2 else step"
    have mx: "max (bi_nHeight b - int step) 0 = int ?h" using 1(3) hb by (simp add: max_def)
    define m where "m = h - ?h"
    have m: "int m \<le> bi_nHeight b" "nat (bi_nHeight b - int ?h) = m" "bi_nHeight b - int m = int ?h"
      using 1(3) hb by (simp_all add: m_def)
    obtain q c where q: "walk_prev mem m p = Some q" "mem q = Some c" "bi_nHeight c = int ?h"
      using walk_prev_height [OF wf 1(2) m(1)] m(3) by auto
    have anc: "GetAncestor mem p (int ?h) = Some (Some q)"
      using ancestor_walk_correct [OF wf 1(2), of "int ?h"] 1(2,3) hb q(1) m(2) by (simp add: GetAncestor_def)
    have ch: "chain_at v (int ?h) = Some q" if on: "chain_at v (bi_nHeight b) = Some p"
    proof -
      obtain t d where t: "mem t = Some d" "v = chain_of mem t"
        using v on by (auto simp: is_chain_def chain_at_def split: if_splits)
      have "chain_at v (int ?h) = chain_at (chain_of mem p) (int ?h)"
        using chain_of_prefix [OF wf t(1) 1(2)] on t(2) 1(3) hb by simp
      then show ?thesis using chain_of_at [of mem p b "int ?h"] 1(2,3) hb q(1) m(2) by simp
    qed
    have "map (\<lambda>k. the (hash_at mem q k)) (locator_heights ?h ?step (length vHave + 1)) =
        map (\<lambda>k. the (hash_at mem p k)) (locator_heights ?h ?step (length vHave + 1))"
      using hash_at_step [OF wf 1(2) q(1,2)] q(3) m(3) locator_heights_le by (intro map_cong) (auto simp del: One_nat_def)
    moreover have "locator_walk mem v (Some q) (int ?step) (vHave @ [x]) =
        Some ((vHave @ [x]) @ map (\<lambda>k. the (hash_at mem q k)) (locator_heights ?h ?step (length vHave + 1)))"
      using 1(1) [OF _ _ q(2), of "vHave @ [x]"] False 1(4) q(3) by simp
    ultimately show ?thesis using 1(2-4) x self False anc ch mx hb
      by (subst locator_walk.simps, subst locator_heights.simps) (auto simp: Contains_def Let_def split: if_splits)
  qed
qed

theorem GetLocator_heights:
  assumes "wf_index mem" "is_chain mem v" "\<forall>p b. mem p = Some b \<longrightarrow> bi_phashBlock b \<noteq> None" "mem p = Some b"
  shows "GetLocator mem v (Some p) =
    Some (map (\<lambda>k. the (hash_at mem p k)) (locator_heights (nat (bi_nHeight b)) 1 0))"
  using locator_walk_correct [OF assms(1-4) refl, of 1 "[]"] by (simp add: GetLocator_def)

end
