(* ===== verification/Uint256.thy ===== *)
theory Uint256
  imports Transaction
begin

text \<open>
  Big integers, \<open>src/uint256.h\<close> and \<open>uint256.cpp\<close>: \<open>base_uint\<close> as its list of 32-bit limbs, least
  significant first, with the loops of the code on 64-bit intermediates. The arithmetic on
  limbs is shown to be the arithmetic modulo \<open>2 ^ (32 * WIDTH)\<close>; the rest of the development then
  uses 256-bit words. The compact format of difficulty targets follows.
\<close>

section \<open>Limbs\<close>

type_synonym base_uint = "u32 list"

fun limbs_val :: "base_uint \<Rightarrow> nat" where
  "limbs_val [] = 0"
| "limbs_val (x # xs) = unat x + 2 ^ 32 * limbs_val xs"

definition uint_IsNull :: "base_uint \<Rightarrow> bool" where
  "uint_IsNull pn \<longleftrightarrow> list_all (\<lambda>x. x = 0) pn"

definition uint_from64 :: "nat \<Rightarrow> u64 \<Rightarrow> base_uint" where
  "uint_from64 width b = [ucast b, ucast (drop_bit 32 b)] @ replicate (width - 2) 0"

definition uint_not :: "base_uint \<Rightarrow> base_uint" where
  "uint_not pn = map (\<lambda>x. NOT x) pn"

text \<open>\<open>operator++\<close>: increment limbs while they wrap to 0.\<close>

fun uint_inc :: "base_uint \<Rightarrow> base_uint" where
  "uint_inc [] = []"
| "uint_inc (x # xs) = (if x + 1 = 0 \<and> xs \<noteq> [] then (x + 1) # uint_inc xs else (x + 1) # xs)"

fun uint_dec :: "base_uint \<Rightarrow> base_uint" where
  "uint_dec [] = []"
| "uint_dec (x # xs) = (if x - 1 = - 1 \<and> xs \<noteq> [] then (x - 1) # uint_dec xs else (x - 1) # xs)"

definition uint_neg :: "base_uint \<Rightarrow> base_uint" where
  "uint_neg pn = uint_inc (uint_not pn)"

fun add_loop :: "u64 \<Rightarrow> base_uint \<Rightarrow> base_uint \<Rightarrow> base_uint" where
  "add_loop carry (p # pn) (b # bn) =
     (let n = carry + ucast p + ucast b in ucast (n AND 0xffffffff) # add_loop (drop_bit 32 n) pn bn)"
| "add_loop carry _ _ = []"

definition uint_add :: "base_uint \<Rightarrow> base_uint \<Rightarrow> base_uint" where
  "uint_add a b = add_loop 0 a b"

definition uint_sub :: "base_uint \<Rightarrow> base_uint \<Rightarrow> base_uint" where
  "uint_sub a b = uint_add a (uint_neg b)"

fun mul32_loop :: "u64 \<Rightarrow> u32 \<Rightarrow> base_uint \<Rightarrow> base_uint" where
  "mul32_loop carry b32 (p # pn) =
     (let n = carry + ucast b32 * ucast p in ucast (n AND 0xffffffff) # mul32_loop (drop_bit 32 n) b32 pn)"
| "mul32_loop carry b32 [] = []"

definition uint_mul32 :: "base_uint \<Rightarrow> u32 \<Rightarrow> base_uint" where
  "uint_mul32 a b32 = mul32_loop 0 b32 a"

text \<open>The inner loop of \<open>operator*=\<close>, on the limbs from position \<open>j\<close> on.\<close>

fun mul_row :: "u64 \<Rightarrow> u32 \<Rightarrow> base_uint \<Rightarrow> base_uint \<Rightarrow> base_uint" where
  "mul_row carry aj (p # pn) (b # bn) =
     (let n = carry + ucast p + ucast aj * ucast b in ucast (n AND 0xffffffff) # mul_row (drop_bit 32 n) aj pn bn)"
| "mul_row carry aj _ _ = []"

definition uint_mul :: "base_uint \<Rightarrow> base_uint \<Rightarrow> base_uint" where
  "uint_mul a b =
     fold (\<lambda>j pn. take j pn @ mul_row 0 (a ! j) (drop j pn) b) [0..<length a] (replicate (length a) 0)"

definition or_limb :: "nat \<Rightarrow> u32 \<Rightarrow> base_uint \<Rightarrow> base_uint" where
  "or_limb i v pn = pn[i := pn ! i OR v]"

definition uint_shl :: "base_uint \<Rightarrow> nat \<Rightarrow> base_uint" where
  "uint_shl a shift0 =
     (let k = shift0 div 32; shift = shift0 mod 32; width = length a in
      fold (\<lambda>i pn.
             let pn1 = (if i + k + 1 < width \<and> shift \<noteq> 0 then or_limb (i + k + 1) (drop_bit (32 - shift) (a ! i)) pn else pn)
             in if i + k < width then or_limb (i + k) (push_bit shift (a ! i)) pn1 else pn1)
        [0..<width] (replicate width 0))"

definition uint_shr :: "base_uint \<Rightarrow> nat \<Rightarrow> base_uint" where
  "uint_shr a shift0 =
     (let k = shift0 div 32; shift = shift0 mod 32; width = length a in
      fold (\<lambda>i pn.
             let pn1 = (if k + 1 \<le> i \<and> shift \<noteq> 0 then or_limb (i - k - 1) (push_bit (32 - shift) (a ! i)) pn else pn)
             in if k \<le> i then or_limb (i - k) (drop_bit shift (a ! i)) pn1 else pn1)
        [0..<width] (replicate width 0))"

text \<open>\<open>CompareTo\<close>, on the limbs from the most significant down.\<close>

fun compare_loop :: "u32 list \<Rightarrow> u32 list \<Rightarrow> int" where
  "compare_loop (x # xs) (y # ys) = (if x < y then - 1 else if x > y then 1 else compare_loop xs ys)"
| "compare_loop _ _ = 0"

definition CompareTo :: "base_uint \<Rightarrow> base_uint \<Rightarrow> int" where
  "CompareTo a b = compare_loop (rev a) (rev b)"

definition EqualTo :: "base_uint \<Rightarrow> u64 \<Rightarrow> bool" where
  "EqualTo pn b =
     (if list_ex (\<lambda>x. x \<noteq> 0) (drop 2 pn) then False
      else if ucast (pn ! 1) \<noteq> drop_bit 32 b then False
      else if ucast (pn ! 0) \<noteq> b AND 0xffffffff then False
      else True)"

text \<open>\<open>bits\<close>: the position of the highest bit, plus one.\<close>

fun limb_bits :: "nat \<Rightarrow> u32 \<Rightarrow> nat" where
  "limb_bits 0 x = 0"
| "limb_bits (Suc b) x = (if x AND push_bit (Suc b) 1 \<noteq> 0 then Suc b else limb_bits b x)"

fun bits_loop :: "u32 list \<Rightarrow> nat" where
  "bits_loop [] = 0"
| "bits_loop (x # xs) = (if x \<noteq> 0 then 32 * length xs + limb_bits 31 x + 1 else bits_loop xs)"

definition uint_bits :: "base_uint \<Rightarrow> nat" where
  "uint_bits pn = bits_loop (rev pn)"

text \<open>Shift-and-subtract division. \<open>None\<close> is the exception for a zero divisor; \<open>n\<close> is \<open>shift + 1\<close>.\<close>

fun div_loop :: "nat \<Rightarrow> base_uint \<Rightarrow> base_uint \<Rightarrow> base_uint \<Rightarrow> base_uint" where
  "div_loop 0 num dv q = q"
| "div_loop (Suc shift) num dv q =
     (if CompareTo num dv \<ge> 0
      then div_loop shift (uint_sub num dv) (uint_shr dv 1)
             (or_limb (shift div 32) (push_bit (shift mod 32) 1) q)
      else div_loop shift num (uint_shr dv 1) q)"

definition uint_div :: "base_uint \<Rightarrow> base_uint \<Rightarrow> base_uint option" where
  "uint_div a b =
     (let num_bits = uint_bits a; div_bits = uint_bits b in
      if div_bits = 0 then None
      else if div_bits > num_bits then Some (replicate (length a) 0)
      else let shift = num_bits - div_bits
           in Some (div_loop (shift + 1) a (uint_shl b shift) (replicate (length a) 0)))"

definition GetLow64 :: "base_uint \<Rightarrow> u64" where
  "GetLow64 pn = ucast (pn ! 0) OR push_bit 32 (ucast (pn ! 1))"

section \<open>Addition\<close>

lemma length_add_loop [simp]: "length (add_loop c a b) = min (length a) (length b)"
  by (induction c a b rule: add_loop.induct) (auto simp: Let_def)

lemma length_not [simp]: "length (uint_not a) = length a"
  by (simp add: uint_not_def)

lemma length_inc [simp]: "length (uint_inc a) = length a"
  by (induction a) auto

lemma digit_bound: "x < b \<Longrightarrow> v < m \<Longrightarrow> x + b * v < b * m" for x b v m :: nat
  using mult_le_mono2 [of "Suc v" m b] by simp

lemma digit_mod: "x < b \<Longrightarrow> (x + b * v) mod (b * m) = x + b * (v mod m)" for x b v m :: nat
  by (simp add: mod_mult2_eq)

lemma u32_bound: "unat (x :: u32) < 2 ^ 32"
  using unsigned_less [of x] by simp

lemma limbs_val_bound: "limbs_val a < 2 ^ (32 * length a)"
proof (induction a)
  case (Cons x xs)
  from digit_bound [OF u32_bound Cons] show ?case by (simp add: power_add)
qed simp

lemma low_limb: "unat (ucast (n AND 0xffffffff) :: u32) = unat (n :: u64) mod 2 ^ 32"
proof -
  have m: "(0xffffffff :: u64) = mask 32" by (simp add: mask_eq_exp_minus_1)
  have "(ucast (n AND 0xffffffff) :: u32) = ucast n"
    unfolding m by (rule bit_word_eqI) (auto simp: bit_simps)
  then have "unat (ucast (n AND 0xffffffff) :: u32) = take_bit 32 (unat n)" by (simp add: unsigned_ucast_eq)
  then show ?thesis by (simp only: take_bit_eq_mod)
qed

lemma high_limb: "unat (drop_bit 32 n) = unat (n :: u64) div 2 ^ 32"
  by (simp add: drop_bit_eq_div unat_div)

lemma limb_split: "unat (ucast (n AND 0xffffffff) :: u32) + 2 ^ 32 * unat (drop_bit 32 n) = unat (n :: u64)"
  unfolding low_limb high_limb by (simp only: mod_mult_div_eq)

lemma unat_u64_ucast [simp]: "unat (ucast (x :: u32) :: u64) = unat x"
  by (simp add: unsigned_ucast_eq take_bit_nat_eq_self u32_bound [THEN order_less_trans])

lemma val_add_loop:
  "length a = length b \<Longrightarrow> unat c < 2 ^ 32 \<Longrightarrow>
   limbs_val (add_loop c a b) = (unat c + limbs_val a + limbs_val b) mod 2 ^ (32 * length a)"
proof (induction c a b rule: add_loop.induct)
  case (1 carry p pn b bn)
  define n where "n = carry + ucast p + ucast b"
  have n: "unat n = unat carry + unat p + unat b"
    using 1(3) u32_bound [of p] u32_bound [of b] by (simp add: n_def unat_word_ariths)
  have carry: "unat (drop_bit 32 n) < 2 ^ 32"
    using 1(3) u32_bound [of p] u32_bound [of b] by (simp add: high_limb n)
  have ih: "limbs_val (add_loop (drop_bit 32 n) pn bn) =
      (unat (drop_bit 32 n) + limbs_val pn + limbs_val bn) mod 2 ^ (32 * length pn)"
    using 1(1) [OF n_def] 1(2) carry by simp
  let ?lo = "unat (ucast (n AND 0xffffffff) :: u32)"
  have "limbs_val (add_loop carry (p # pn) (b # bn)) =
      ?lo + 2 ^ 32 * ((unat (drop_bit 32 n) + limbs_val pn + limbs_val bn) mod 2 ^ (32 * length pn))"
    by (simp add: Let_def ih flip: n_def)
  also have "\<dots> = (?lo + 2 ^ 32 * (unat (drop_bit 32 n) + limbs_val pn + limbs_val bn)) mod (2 ^ 32 * 2 ^ (32 * length pn))"
    by (rule digit_mod [symmetric]) (rule u32_bound)
  also have "?lo + 2 ^ 32 * (unat (drop_bit 32 n) + limbs_val pn + limbs_val bn) =
      unat n + 2 ^ 32 * limbs_val pn + 2 ^ 32 * limbs_val bn"
    using limb_split [of n] by (simp only: distrib_left)
  finally show ?case by (simp add: n power_add algebra_simps)
qed auto

lemma uint_add_correct: "length a = length b \<Longrightarrow> limbs_val (uint_add a b) = (limbs_val a + limbs_val b) mod 2 ^ (32 * length a)"
  by (simp add: uint_add_def val_add_loop)

lemma val_not: "limbs_val (uint_not a) = 2 ^ (32 * length a) - 1 - limbs_val a"
proof (induction a)
  case (Cons x xs)
  have x: "unat (NOT x) = 2 ^ 32 - 1 - unat x"
  proof -
    have "NOT x = - 1 - x" by (simp add: not_eq_complement)
    moreover have "unat (- 1 - x) = unat (- 1 :: u32) - unat x" by (rule unat_sub) simp
    ultimately show ?thesis by (simp add: unsigned_minus_1_eq_mask mask_eq_exp_minus_1)
  qed
  have "limbs_val xs < 2 ^ (32 * length xs)" by (rule limbs_val_bound)
  then have "2 ^ 32 * limbs_val xs + 2 ^ 32 \<le> 2 ^ 32 * 2 ^ (32 * length xs)"
    using mult_le_mono2 [of "Suc (limbs_val xs)" "2 ^ (32 * length xs)" "2 ^ 32"] by simp
  with Cons x u32_bound [of x] show ?case
    by (simp add: uint_not_def power_add diff_mult_distrib2)
qed (simp add: uint_not_def)

lemma val_inc: "limbs_val (uint_inc a) = (limbs_val a + 1) mod 2 ^ (32 * length a)"
proof (induction a)
  case (Cons x xs)
  have s: "unat (x + 1) = (unat x + 1) mod 2 ^ 32" by (simp add: unat_word_ariths)
  show ?case
  proof (cases "x + 1 = 0")
    case True
    then have x: "unat x + 1 = 2 ^ 32" using s u32_bound [of x]
      by (metis One_nat_def Suc_eq_plus1 Suc_lessI mod_less nat.distinct(1) unat_0)
    show ?thesis
    proof (cases "xs = []")
      case False
      have "limbs_val (uint_inc (x # xs)) = 2 ^ 32 * ((limbs_val xs + 1) mod 2 ^ (32 * length xs))"
        using True False Cons by simp
      also have "\<dots> = (2 ^ 32 * (limbs_val xs + 1)) mod (2 ^ 32 * 2 ^ (32 * length xs))" by (simp only: mult_mod_right)
      also have "2 ^ 32 * (limbs_val xs + 1) = limbs_val (x # xs) + 1" using x by simp
      finally show ?thesis by (simp add: power_add)
    qed (use True x in simp)
  next
    case False
    then have "unat x + 1 < 2 ^ 32" using s u32_bound [of x]
      by (metis One_nat_def Suc_eq_plus1 Suc_lessI mod_self unat_eq_zero)
    then have u: "unat (x + 1) = unat x + 1" using s by simp
    have "limbs_val ((x + 1) # xs) < 2 ^ (32 * length (x # xs))"
      using limbs_val_bound [of "(x + 1) # xs"] by simp
    then show ?thesis using False u by simp
  qed
qed simp

lemma val_neg: "limbs_val (uint_neg a) = (2 ^ (32 * length a) - limbs_val a) mod 2 ^ (32 * length a)"
  using limbs_val_bound [of a] by (simp add: uint_neg_def val_inc val_not Suc_diff_Suc)

lemma uint_sub_correct:
  assumes "length a = length b" "limbs_val b \<le> limbs_val a"
  shows "limbs_val (uint_sub a b) = limbs_val a - limbs_val b"
proof -
  have len: "length (uint_neg b) = length b" by (simp add: uint_neg_def)
  have "limbs_val (uint_sub a b) = (limbs_val a + (2 ^ (32 * length a) - limbs_val b)) mod 2 ^ (32 * length a)"
    using assms(1) len by (simp add: uint_sub_def uint_add_correct val_neg mod_add_right_eq)
  also have "limbs_val a + (2 ^ (32 * length a) - limbs_val b) = (limbs_val a - limbs_val b) + 2 ^ (32 * length a)"
    using limbs_val_bound [of b] assms by simp
  finally show ?thesis using limbs_val_bound [of a] by simp
qed

section \<open>Multiplication\<close>

lemma val_mul32_loop:
  "unat c < 2 ^ 32 \<Longrightarrow> limbs_val (mul32_loop c b a) = (unat c + unat b * limbs_val a) mod 2 ^ (32 * length a)"
proof (induction c b a rule: mul32_loop.induct)
  case (1 carry b p pn)
  define n where "n = carry + ucast b * ucast p"
  have le: "unat b * unat p \<le> (2 ^ 32 - 1) * (2 ^ 32 - 1)"
    using u32_bound [of b] u32_bound [of p] by (intro mult_le_mono) auto
  have n: "unat n = unat carry + unat b * unat p"
    using 1(2) le by (simp add: n_def unat_word_ariths)
  have "unat n < 2 ^ 32 * 2 ^ 32" using 1(2) le by (simp add: n)
  then have carry: "unat (drop_bit 32 n) < 2 ^ 32" unfolding high_limb by (rule less_mult_imp_div_less)
  have ih: "limbs_val (mul32_loop (drop_bit 32 n) b pn) =
      (unat (drop_bit 32 n) + unat b * limbs_val pn) mod 2 ^ (32 * length pn)"
    using 1(1) [OF n_def] carry by simp
  let ?lo = "unat (ucast (n AND 0xffffffff) :: u32)"
  have "limbs_val (mul32_loop carry b (p # pn)) =
      ?lo + 2 ^ 32 * ((unat (drop_bit 32 n) + unat b * limbs_val pn) mod 2 ^ (32 * length pn))"
    by (simp add: Let_def ih flip: n_def)
  also have "\<dots> = (?lo + 2 ^ 32 * (unat (drop_bit 32 n) + unat b * limbs_val pn)) mod (2 ^ 32 * 2 ^ (32 * length pn))"
    by (rule digit_mod [symmetric]) (rule u32_bound)
  also have "?lo + 2 ^ 32 * (unat (drop_bit 32 n) + unat b * limbs_val pn) = unat n + 2 ^ 32 * (unat b * limbs_val pn)"
    using limb_split [of n] by (simp only: distrib_left)
  finally show ?case by (simp add: n power_add algebra_simps)
qed simp

lemma uint_mul32_correct: "limbs_val (uint_mul32 a b) = (limbs_val a * unat b) mod 2 ^ (32 * length a)"
  by (simp add: uint_mul32_def val_mul32_loop mult.commute)

lemma val_mul_row:
  "length p \<le> length b \<Longrightarrow> unat c < 2 ^ 32 \<Longrightarrow>
   limbs_val (mul_row c aj p b) = (unat c + limbs_val p + unat aj * limbs_val b) mod 2 ^ (32 * length p) \<and>
   length (mul_row c aj p b) = length p"
proof (induction c aj p b rule: mul_row.induct)
  case (1 carry aj p pn b bn)
  define n where "n = carry + ucast p + ucast aj * ucast b"
  have le: "unat aj * unat b \<le> (2 ^ 32 - 1) * (2 ^ 32 - 1)"
    using u32_bound [of aj] u32_bound [of b] by (intro mult_le_mono) auto
  have n: "unat n = unat carry + unat p + unat aj * unat b"
    using 1(3) le u32_bound [of p] by (simp add: n_def unat_word_ariths)
  have "unat n < 2 ^ 32 * 2 ^ 32" using 1(3) le u32_bound [of p] by (simp add: n)
  then have carry: "unat (drop_bit 32 n) < 2 ^ 32" unfolding high_limb by (rule less_mult_imp_div_less)
  have ih: "limbs_val (mul_row (drop_bit 32 n) aj pn bn) =
      (unat (drop_bit 32 n) + limbs_val pn + unat aj * limbs_val bn) mod 2 ^ (32 * length pn)"
    and len: "length (mul_row (drop_bit 32 n) aj pn bn) = length pn"
    using 1(1) [OF n_def] 1(2) carry by simp_all
  let ?lo = "unat (ucast (n AND 0xffffffff) :: u32)"
  have "limbs_val (mul_row carry aj (p # pn) (b # bn)) =
      ?lo + 2 ^ 32 * ((unat (drop_bit 32 n) + limbs_val pn + unat aj * limbs_val bn) mod 2 ^ (32 * length pn))"
    by (simp add: Let_def ih flip: n_def)
  also have "\<dots> = (?lo + 2 ^ 32 * (unat (drop_bit 32 n) + limbs_val pn + unat aj * limbs_val bn)) mod
      (2 ^ 32 * 2 ^ (32 * length pn))"
    by (rule digit_mod [symmetric]) (rule u32_bound)
  also have "?lo + 2 ^ 32 * (unat (drop_bit 32 n) + limbs_val pn + unat aj * limbs_val bn) =
      unat n + 2 ^ 32 * limbs_val pn + 2 ^ 32 * (unat aj * limbs_val bn)"
    using limb_split [of n] by (simp only: distrib_left)
  finally have "limbs_val (mul_row carry aj (p # pn) (b # bn)) =
      (unat carry + limbs_val (p # pn) + unat aj * limbs_val (b # bn)) mod 2 ^ (32 * length (p # pn))"
    by (simp add: n power_add algebra_simps)
  moreover have "length (mul_row carry aj (p # pn) (b # bn)) = length (p # pn)" using len by (simp add: Let_def flip: n_def)
  ultimately show ?case ..
qed auto

lemma limbs_val_append: "limbs_val (a @ b) = limbs_val a + 2 ^ (32 * length a) * limbs_val b"
  by (induction a) (simp_all add: power_add algebra_simps)

lemma limbs_val_zero [simp]: "limbs_val (replicate n 0) = 0"
  by (induction n) simp_all

lemma limbs_val_take_Suc: "j < length a \<Longrightarrow> limbs_val (take (Suc j) a) = limbs_val (take j a) + 2 ^ (32 * j) * unat (a ! j)"
  by (simp add: take_Suc_conv_app_nth limbs_val_append)

lemma mul_fold:
  assumes "length a = length b" "j \<le> length a"
  defines "f \<equiv> \<lambda>j pn. take j pn @ mul_row 0 (a ! j) (drop j pn) b"
  shows "length (fold f [0..<j] (replicate (length a) 0)) = length a \<and>
    limbs_val (fold f [0..<j] (replicate (length a) 0)) = (limbs_val (take j a) * limbs_val b) mod 2 ^ (32 * length a)"
  using assms(2)
proof (induction j)
  case (Suc j)
  let ?w = "length a" and ?p = "fold f [0..<j] (replicate (length a) 0)"
  have p: "length ?p = ?w" "limbs_val ?p = (limbs_val (take j a) * limbs_val b) mod 2 ^ (32 * ?w)"
    using Suc by simp_all
  have row: "limbs_val (mul_row 0 (a ! j) (drop j ?p) b) = (limbs_val (drop j ?p) + unat (a ! j) * limbs_val b) mod 2 ^ (32 * (?w - j))"
    "length (mul_row 0 (a ! j) (drop j ?p) b) = ?w - j"
    using val_mul_row [of "drop j ?p" b 0 "a ! j"] assms(1) p(1) by simp_all
  have step: "fold f [0..<Suc j] (replicate ?w 0) = take j ?p @ mul_row 0 (a ! j) (drop j ?p) b"
    by (simp add: f_def)
  have pw: "(2 :: nat) ^ (32 * ?w) = 2 ^ (32 * j) * 2 ^ (32 * (?w - j))"
    using Suc.prems by (simp flip: power_add add: diff_mult_distrib2)
  have "limbs_val (take j ?p @ mul_row 0 (a ! j) (drop j ?p) b) =
      limbs_val (take j ?p) + 2 ^ (32 * j) * ((limbs_val (drop j ?p) + unat (a ! j) * limbs_val b) mod 2 ^ (32 * (?w - j)))"
    using Suc.prems p(1) by (simp add: limbs_val_append row)
  also have "\<dots> = (limbs_val (take j ?p) + 2 ^ (32 * j) * (limbs_val (drop j ?p) + unat (a ! j) * limbs_val b)) mod 2 ^ (32 * ?w)"
    unfolding pw by (rule digit_mod [symmetric]) (use limbs_val_bound [of "take j ?p"] p(1) Suc.prems in simp)
  also have "limbs_val (take j ?p) + 2 ^ (32 * j) * (limbs_val (drop j ?p) + unat (a ! j) * limbs_val b) =
      limbs_val ?p + 2 ^ (32 * j) * unat (a ! j) * limbs_val b"
    using limbs_val_append [of "take j ?p" "drop j ?p"] p(1) Suc.prems by (simp add: algebra_simps)
  also have "(limbs_val ?p + 2 ^ (32 * j) * unat (a ! j) * limbs_val b) mod 2 ^ (32 * ?w) =
      (limbs_val (take (Suc j) a) * limbs_val b) mod 2 ^ (32 * ?w)"
  proof -
    have "limbs_val (take (Suc j) a) * limbs_val b = limbs_val (take j a) * limbs_val b + 2 ^ (32 * j) * unat (a ! j) * limbs_val b"
      using Suc.prems by (simp add: limbs_val_take_Suc algebra_simps)
    then show ?thesis by (simp only: p(2) mod_add_left_eq)
  qed
  finally show ?case unfolding step using row(2) p(1) Suc.prems by simp
qed simp

lemma uint_mul_correct:
  "length a = length b \<Longrightarrow> limbs_val (uint_mul a b) = (limbs_val a * limbs_val b) mod 2 ^ (32 * length a)"
  using mul_fold [of a b "length a"] by (simp add: uint_mul_def)

section \<open>Comparison\<close>

lemma compare_loop_val:
  "length a = length b \<Longrightarrow>
   compare_loop (rev a) (rev b) = (if limbs_val a < limbs_val b then - 1 else if limbs_val a > limbs_val b then 1 else 0)"
proof (induction a arbitrary: b rule: rev_induct)
  case (snoc x a)
  from snoc.prems obtain y b' where b: "b = b' @ [y]" and len: "length a = length b'"
    by (cases b rule: rev_cases) auto
  have top: "limbs_val u + 2 ^ (32 * n) * unat p < limbs_val v + 2 ^ (32 * n) * unat q"
    if "unat p < unat q" "limbs_val u < 2 ^ (32 * n)" for u v :: base_uint and p q :: u32 and n
  proof -
    have "2 ^ (32 * n) * Suc (unat p) \<le> 2 ^ (32 * n) * unat q" using that(1) by (intro mult_le_mono2) simp
    then show ?thesis using that(2) by simp
  qed
  have bd: "limbs_val a < 2 ^ (32 * length b')" "limbs_val b' < 2 ^ (32 * length b')"
    using limbs_val_bound [of a] limbs_val_bound [of b'] len by simp_all
  have v: "limbs_val (a @ [x]) = limbs_val a + 2 ^ (32 * length b') * unat x"
    "limbs_val (b' @ [y]) = limbs_val b' + 2 ^ (32 * length b') * unat y" by (simp_all add: limbs_val_append len)
  consider "unat x < unat y" | "unat y < unat x" | "x = y" by (metis nat_neq_iff word_unat_eq_iff)
  then show ?case
  proof cases
    case 1
    with top [OF 1 bd(1), of b'] show ?thesis unfolding b v by (simp add: word_less_nat_alt)
  next
    case 2
    with top [OF 2 bd(2), of a] show ?thesis unfolding b v by (simp add: word_less_nat_alt)
  next
    case 3
    then show ?thesis using snoc.IH [OF len] unfolding b v by simp
  qed
qed simp

lemma CompareTo_correct:
  "length a = length b \<Longrightarrow>
   CompareTo a b = (if limbs_val a < limbs_val b then - 1 else if limbs_val a > limbs_val b then 1 else 0)"
  by (simp add: CompareTo_def compare_loop_val)

section \<open>Bits and shifts\<close>

lemma bit_digits: "x < 2 ^ k \<Longrightarrow> bit (x + 2 ^ k * v) n \<longleftrightarrow> (if n < k then bit x n else bit v (n - k))" for x v :: nat
proof -
  assume x: "x < 2 ^ k"
  have "take_bit k (x + 2 ^ k * v) = x" using x by (simp add: take_bit_eq_mod)
  moreover have "drop_bit k (x + 2 ^ k * v) = v" using x by (simp add: drop_bit_eq_div)
  moreover have "n < k \<Longrightarrow> bit (take_bit k (x + 2 ^ k * v)) n = bit (x + 2 ^ k * v) n" by (simp add: bit_take_bit_iff)
  moreover have "\<not> n < k \<Longrightarrow> bit (drop_bit k (x + 2 ^ k * v)) (n - k) = bit (x + 2 ^ k * v) n" by (simp add: bit_drop_bit_eq)
  ultimately show ?thesis by simp
qed

lemma bit_limbs: "bit (limbs_val a) n \<longleftrightarrow> n div 32 < length a \<and> bit (a ! (n div 32)) (n mod 32)"
proof (induction a arbitrary: n)
  case (Cons x xs)
  show ?case
  proof (cases "n < 32")
    case True
    then show ?thesis using bit_digits [OF u32_bound [of x]] by (simp add: bit_unsigned_iff)
  next
    case False
    then have "n div 32 = Suc ((n - 32) div 32)" "n mod 32 = (n - 32) mod 32"
      by (simp_all add: le_div_geq le_mod_geq)
    then show ?thesis using Cons False bit_digits [OF u32_bound [of x]] by simp
  qed
qed simp

lemma length_or_limb [simp]: "length (or_limb i v pn) = length pn"
  by (simp add: or_limb_def)

lemma nth_or_limb: "m < length pn \<Longrightarrow> or_limb i v pn ! m = (if m = i then pn ! m OR v else pn ! m)"
  by (simp add: or_limb_def nth_list_update)

lemma shl_fold:
  fixes a :: base_uint and k sh :: nat
  defines "f \<equiv> \<lambda>i pn.
    let pn1 = (if i + k + 1 < length a \<and> sh \<noteq> 0 then or_limb (i + k + 1) (drop_bit (32 - sh) (a ! i)) pn else pn)
    in if i + k < length a then or_limb (i + k) (push_bit sh (a ! i)) pn1 else pn1"
  shows "length (fold f [0..<j] (replicate (length a) 0)) = length a \<and>
    (\<forall>m < length a. fold f [0..<j] (replicate (length a) 0) ! m =
      (if k + 1 \<le> m \<and> m - k - 1 < j \<and> sh \<noteq> 0 then drop_bit (32 - sh) (a ! (m - k - 1)) else 0) OR
      (if k \<le> m \<and> m - k < j then push_bit sh (a ! (m - k)) else 0))"
proof (induction j)
  case (Suc j)
  let ?p = "fold f [0..<j] (replicate (length a) 0)"
  have step: "fold f [0..<Suc j] (replicate (length a) 0) = f j ?p" by simp
  have len: "length (f j ?p) = length a" using Suc by (simp add: f_def Let_def)
  moreover have "f j ?p ! m =
      (if k + 1 \<le> m \<and> m - k - 1 < Suc j \<and> sh \<noteq> 0 then drop_bit (32 - sh) (a ! (m - k - 1)) else 0) OR
      (if k \<le> m \<and> m - k < Suc j then push_bit sh (a ! (m - k)) else 0)" if m: "m < length a" for m
  proof -
    have p: "?p ! m = (if k + 1 \<le> m \<and> m - k - 1 < j \<and> sh \<noteq> 0 then drop_bit (32 - sh) (a ! (m - k - 1)) else 0) OR
      (if k \<le> m \<and> m - k < j then push_bit sh (a ! (m - k)) else 0)" and l: "length ?p = length a" using Suc m by auto
    consider "m = j + k" | "m = j + k + 1" | "m \<noteq> j + k" "m \<noteq> j + k + 1" by blast
    then show ?thesis
    proof cases
      case 1
      then show ?thesis using m p l by (auto simp: f_def Let_def nth_or_limb)
    next
      case 2
      then show ?thesis using m p l by (auto simp: f_def Let_def nth_or_limb or.commute)
    next
      case 3
      then have "(k + 1 \<le> m \<and> m - k - 1 < Suc j) = (k + 1 \<le> m \<and> m - k - 1 < j)"
        "(k \<le> m \<and> m - k < Suc j) = (k \<le> m \<and> m - k < j)" by auto
      then show ?thesis using 3 m p l by (auto simp: f_def Let_def nth_or_limb)
    qed
  qed
  ultimately show ?case unfolding step by blast
qed simp

lemma length_shl [simp]: "length (uint_shl a s) = length a"
  using shl_fold [of "s div 32" a "s mod 32" "length a"] by (simp add: uint_shl_def Let_def)

lemma nth_shl:
  assumes "m < length a"
  shows "uint_shl a s ! m =
    (if s div 32 + 1 \<le> m \<and> s mod 32 \<noteq> 0 then drop_bit (32 - s mod 32) (a ! (m - s div 32 - 1)) else 0) OR
    (if s div 32 \<le> m then push_bit (s mod 32) (a ! (m - s div 32)) else 0)"
proof -
  have "m - s div 32 - 1 < length a" "m - s div 32 < length a" using assms by linarith+
  with conjunct2 [OF shl_fold [of "s div 32" a "s mod 32" "length a"], rule_format, OF assms]
  show ?thesis unfolding uint_shl_def Let_def by (simp only: simp_thms)
qed

lemma bit_shl: "bit (limbs_val (uint_shl a s)) n \<longleftrightarrow> n < 32 * length a \<and> s \<le> n \<and> bit (limbs_val a) (n - s)"
proof (cases "n < 32 * length a")
  case True
  define m t k sh where "m = n div 32" and "t = n mod 32" and "k = s div 32" and "sh = s mod 32"
  have n: "n = 32 * m + t" "t < 32" and s: "s = 32 * k + sh" "sh < 32"
    by (simp_all add: m_def t_def k_def sh_def)
  have m: "m < length a" using True by (simp add: m_def less_mult_imp_div_less mult.commute)
  have "uint_shl a s ! m = (if k + 1 \<le> m \<and> sh \<noteq> 0 then drop_bit (32 - sh) (a ! (m - k - 1)) else 0) OR
      (if k \<le> m then push_bit sh (a ! (m - k)) else 0)"
    unfolding k_def sh_def by (rule nth_shl [OF m])
  then have l: "bit (limbs_val (uint_shl a s)) n \<longleftrightarrow>
      (k + 1 \<le> m \<and> sh \<noteq> 0 \<and> bit (a ! (m - k - 1)) (t + (32 - sh))) \<or> (k \<le> m \<and> sh \<le> t \<and> bit (a ! (m - k)) (t - sh))"
    using m n(2) by (auto simp: bit_limbs m_def [symmetric] t_def [symmetric] bit_or_iff bit_drop_bit_eq bit_push_bit_iff add.commute)
  have high: "\<not> bit (x :: u32) i" if "32 \<le> i" for x i using bit_imp_le_length [of x i] that by auto
  show ?thesis
  proof (cases "sh \<le> t")
    case le: True
    have "bit (limbs_val (uint_shl a s)) n \<longleftrightarrow> k \<le> m \<and> bit (a ! (m - k)) (t - sh)"
      unfolding l using le high by auto
    moreover have "s \<le> n \<longleftrightarrow> k \<le> m" using n s le by (auto simp: not_le)
    moreover have "k \<le> m \<Longrightarrow> (n - s) div 32 = m - k \<and> (n - s) mod 32 = t - sh"
    proof -
      assume "k \<le> m"
      then have "n - s = (t - sh) + 32 * (m - k)" using n s le by (simp add: diff_mult_distrib2)
      then show ?thesis using n(2) by simp
    qed
    ultimately show ?thesis using True m by (auto simp: bit_limbs)
  next
    case gt: False
    have "bit (limbs_val (uint_shl a s)) n \<longleftrightarrow> k + 1 \<le> m \<and> bit (a ! (m - k - 1)) (t + (32 - sh))"
      unfolding l using gt by auto
    moreover have "s \<le> n \<longleftrightarrow> k + 1 \<le> m" using n s gt by (auto simp: not_le)
    moreover have "k + 1 \<le> m \<Longrightarrow> (n - s) div 32 = m - k - 1 \<and> (n - s) mod 32 = t + (32 - sh)"
    proof -
      assume "k + 1 \<le> m"
      then have e: "n - s = (t + (32 - sh)) + 32 * (m - k - 1)" using n s gt by (simp add: diff_mult_distrib2)
      define x where "x = t + (32 - sh)"
      have "x < 32" using gt n(2) s(2) by (simp add: x_def)
      then show ?thesis unfolding e x_def [symmetric] by simp
    qed
    ultimately show ?thesis using True m by (auto simp: bit_limbs)
  qed
next
  case False
  then have "\<not> n div 32 < length a" by (simp add: not_less less_eq_div_iff_mult_less_eq mult.commute)
  then show ?thesis using False by (simp add: bit_limbs)
qed

lemma uint_shl_correct: "limbs_val (uint_shl a s) = (limbs_val a * 2 ^ s) mod 2 ^ (32 * length a)"
proof -
  have "limbs_val (uint_shl a s) = take_bit (32 * length a) (push_bit s (limbs_val a))"
    by (rule bit_eqI) (simp add: bit_shl bit_take_bit_iff bit_push_bit_iff)
  then show ?thesis by (simp add: take_bit_eq_mod push_bit_eq_mult)
qed

lemma shr_fold:
  fixes a :: base_uint and k sh :: nat
  defines "f \<equiv> \<lambda>i pn.
    let pn1 = (if k + 1 \<le> i \<and> sh \<noteq> 0 then or_limb (i - k - 1) (push_bit (32 - sh) (a ! i)) pn else pn)
    in if k \<le> i then or_limb (i - k) (drop_bit sh (a ! i)) pn1 else pn1"
  shows "length (fold f [0..<j] (replicate (length a) 0)) = length a \<and>
    (\<forall>m < length a. fold f [0..<j] (replicate (length a) 0) ! m =
      (if m + k + 1 < j \<and> sh \<noteq> 0 then push_bit (32 - sh) (a ! (m + k + 1)) else 0) OR
      (if m + k < j then drop_bit sh (a ! (m + k)) else 0))"
proof (induction j)
  case (Suc j)
  let ?p = "fold f [0..<j] (replicate (length a) 0)"
  have step: "fold f [0..<Suc j] (replicate (length a) 0) = f j ?p" by simp
  have len: "length (f j ?p) = length a" using Suc by (simp add: f_def Let_def)
  moreover have "f j ?p ! m = (if m + k + 1 < Suc j \<and> sh \<noteq> 0 then push_bit (32 - sh) (a ! (m + k + 1)) else 0) OR
      (if m + k < Suc j then drop_bit sh (a ! (m + k)) else 0)" if m: "m < length a" for m
  proof -
    have p: "?p ! m = (if m + k + 1 < j \<and> sh \<noteq> 0 then push_bit (32 - sh) (a ! (m + k + 1)) else 0) OR
      (if m + k < j then drop_bit sh (a ! (m + k)) else 0)" and l: "length ?p = length a" using Suc m by auto
    consider "j = m + k" | "j = m + k + 1" | "j \<noteq> m + k" "j \<noteq> m + k + 1" by blast
    then show ?thesis
    proof cases
      case 1
      then show ?thesis using m p l by (auto simp: f_def Let_def nth_or_limb)
    next
      case 2
      then show ?thesis using m p l by (auto simp: f_def Let_def nth_or_limb or.commute)
    next
      case 3
      then have "(m + k + 1 < Suc j) = (m + k + 1 < j)" "(m + k < Suc j) = (m + k < j)"
        "k \<le> j \<Longrightarrow> m \<noteq> j - k" "k + 1 \<le> j \<Longrightarrow> m \<noteq> j - k - 1" by auto
      then show ?thesis using m p l by (auto simp: f_def Let_def nth_or_limb)
    qed
  qed
  ultimately show ?case unfolding step by blast
qed simp

lemma length_shr [simp]: "length (uint_shr a s) = length a"
  using shr_fold [of "s div 32" "s mod 32" a "length a"] by (simp add: uint_shr_def Let_def)

lemma nth_shr:
  assumes "m < length a"
  shows "uint_shr a s ! m =
    (if m + s div 32 + 1 < length a \<and> s mod 32 \<noteq> 0 then push_bit (32 - s mod 32) (a ! (m + s div 32 + 1)) else 0) OR
    (if m + s div 32 < length a then drop_bit (s mod 32) (a ! (m + s div 32)) else 0)"
  using conjunct2 [OF shr_fold [of "s div 32" "s mod 32" a "length a"], rule_format, OF assms]
  unfolding uint_shr_def Let_def .

lemma bit_shr: "bit (limbs_val (uint_shr a s)) n \<longleftrightarrow> bit (limbs_val a) (n + s)"
proof -
  define m t k sh where "m = n div 32" and "t = n mod 32" and "k = s div 32" and "sh = s mod 32"
  have n: "n = 32 * m + t" "t < 32" and s: "s = 32 * k + sh" "sh < 32"
    by (simp_all add: m_def t_def k_def sh_def)
  have high: "\<not> bit (x :: u32) i" if "32 \<le> i" for x i using bit_imp_le_length [of x i] that by auto
  have idx: "(n + s) div 32 = (if t + sh < 32 then m + k else m + k + 1)"
    "(n + s) mod 32 = (if t + sh < 32 then t + sh else t + sh - 32)"
  proof -
    have "(x + 32 * q) div 32 = q \<and> (x + 32 * q) mod 32 = x" if "x < 32" for x q :: nat using that by simp
    note dm = this
    have "n + s = (if t + sh < 32 then (t + sh) + 32 * (m + k) else (t + sh - 32) + 32 * (m + k + 1))" using n s by simp
    then show "(n + s) div 32 = (if t + sh < 32 then m + k else m + k + 1)"
      "(n + s) mod 32 = (if t + sh < 32 then t + sh else t + sh - 32)"
      using dm [of "t + sh" "m + k"] dm [of "t + sh - 32" "m + k + 1"] n(2) s(2) by (auto split: if_splits)
  qed
  show ?thesis
  proof (cases "m < length a")
    case True
    have b: "bit (limbs_val (uint_shr a s)) n \<longleftrightarrow> bit (uint_shr a s ! m) t"
      using True by (simp add: bit_limbs m_def t_def)
    have nth: "bit (uint_shr a s ! m) t \<longleftrightarrow>
        (m + k + 1 < length a \<and> sh \<noteq> 0 \<and> 32 - sh \<le> t \<and> bit (a ! (m + k + 1)) (t - (32 - sh))) \<or>
        (m + k < length a \<and> bit (a ! (m + k)) (sh + t))"
      unfolding nth_shr [OF True, of s, folded k_def sh_def] using n(2)
      by (auto simp: bit_or_iff bit_drop_bit_eq bit_push_bit_iff)
    show ?thesis
    proof (cases "t + sh < 32")
      case lt: True
      then have "bit (limbs_val a) (n + s) \<longleftrightarrow> m + k < length a \<and> bit (a ! (m + k)) (t + sh)" unfolding bit_limbs idx by simp
      then show ?thesis unfolding b nth using lt n(2) s(2) by (auto simp: add.commute)
    next
      case ge: False
      then have "\<not> bit (a ! (m + k)) (sh + t)" by (intro high) simp
      moreover have "t - (32 - sh) = t + sh - 32" using ge s(2) by simp
      moreover have "bit (limbs_val a) (n + s) \<longleftrightarrow> m + k + 1 < length a \<and> bit (a ! (m + k + 1)) (t + sh - 32)"
        unfolding bit_limbs idx using ge by simp
      ultimately show ?thesis unfolding b nth using ge n(2) by auto
    qed
  next
    case False
    then show ?thesis unfolding bit_limbs idx length_shr m_def [symmetric] by auto
  qed
qed

lemma uint_shr_correct: "limbs_val (uint_shr a s) = limbs_val a div 2 ^ s"
proof -
  have "limbs_val (uint_shr a s) = drop_bit s (limbs_val a)"
    by (rule bit_eqI) (simp add: bit_shr bit_drop_bit_eq add.commute)
  then show ?thesis by (simp add: drop_bit_eq_div)
qed

lemma limb_bits_spec: "x \<noteq> 0 \<Longrightarrow> unat x < 2 ^ Suc b \<Longrightarrow> b < 32 \<Longrightarrow> 2 ^ limb_bits b x \<le> unat x \<and> unat x < 2 ^ Suc (limb_bits b x)"
proof (induction b)
  case 0
  then show ?case by (auto simp: word_unat_eq_iff)
next
  case (Suc b)
  have "(x AND push_bit (Suc b) 1 \<noteq> 0) = bit x (Suc b)" by (simp only: bit_iff_and_push_bit_not_eq_0)
  also have "\<dots> = bit (unat x) (Suc b)" using Suc.prems(3) by (simp add: bit_unsigned_iff)
  also have "\<dots> = odd (unat x div 2 ^ Suc b)" by (rule bit_iff_odd)
  also have "\<dots> \<longleftrightarrow> 2 ^ Suc b \<le> unat x"
  proof
    assume "odd (unat x div 2 ^ Suc b)"
    then have "unat x div 2 ^ Suc b \<noteq> 0" by (metis even_zero)
    then show "2 ^ Suc b \<le> unat x" by (simp add: div_eq_0_iff)
  next
    assume "2 ^ Suc b \<le> unat x"
    then have "unat x div 2 ^ Suc b = 1" using Suc.prems(2) by (intro div_nat_eqI) simp_all
    then show "odd (unat x div 2 ^ Suc b)" by simp
  qed
  finally have c: "(x AND push_bit (Suc b) 1 \<noteq> 0) \<longleftrightarrow> 2 ^ Suc b \<le> unat x" .
  show ?case
  proof (cases "2 ^ Suc b \<le> unat x")
    case True
    then have "limb_bits (Suc b) x = Suc b" using c by simp
    then show ?thesis using True Suc.prems(2) by (simp only:)
  next
    case False
    then have "limb_bits (Suc b) x = limb_bits b x" using c by simp
    moreover have "unat x < 2 ^ Suc b" using False by (simp only: not_le)
    ultimately show ?thesis using Suc.IH Suc.prems by simp
  qed
qed

lemma uint_bits_spec:
  "limbs_val a < 2 ^ uint_bits a \<and> (limbs_val a \<noteq> 0 \<longrightarrow> uint_bits a \<noteq> 0 \<and> 2 ^ (uint_bits a - 1) \<le> limbs_val a) \<and>
   uint_bits a \<le> 32 * length a"
proof (induction a rule: rev_induct)
  case (snoc x a)
  let ?w = "32 * length a"
  have v: "limbs_val (a @ [x]) = limbs_val a + 2 ^ ?w * unat x" by (simp add: limbs_val_append)
  show ?case
  proof (cases "x = 0")
    case True
    then have "uint_bits (a @ [x]) = uint_bits a" "limbs_val (a @ [x]) = limbs_val a"
      by (simp_all add: uint_bits_def limbs_val_append)
    then show ?thesis using snoc by auto
  next
    case False
    let ?b = "limb_bits 31 x"
    have u: "uint_bits (a @ [x]) = ?w + ?b + 1" using False by (simp add: uint_bits_def)
    have b: "2 ^ ?b \<le> unat x" "unat x < 2 ^ Suc ?b" using limb_bits_spec [of x 31] False u32_bound [of x] by simp_all
    have "2 ^ ?w * 2 ^ ?b \<le> limbs_val (a @ [x])" unfolding v using b(1) by (simp add: trans_le_add2)
    then have lo: "2 ^ (?w + ?b) \<le> limbs_val (a @ [x])" by (simp only: power_add)
    have "limbs_val a + 2 ^ ?w * unat x < 2 ^ ?w * 2 ^ Suc ?b" by (rule digit_bound [OF limbs_val_bound b(2)])
    then have hi: "limbs_val (a @ [x]) < 2 ^ (?w + ?b + 1)" by (simp add: v power_add mult.assoc)
    have "(2 :: nat) ^ ?b < 2 ^ 32" using b(1) u32_bound [of x] by (rule le_less_trans)
    then have "?b < 32" by (simp only: power_strict_increasing_iff)
    then show ?thesis using lo hi by (simp add: u)
  qed
qed (simp add: uint_bits_def)

lemma bits_zero: "uint_bits a = 0 \<longleftrightarrow> limbs_val a = 0"
proof
  assume "uint_bits a = 0"
  then show "limbs_val a = 0" using uint_bits_spec [of a] by simp
next
  assume v: "limbs_val a = 0"
  have "a = replicate (length a) 0"
    using v by (induction a) (auto simp: unat_eq_zero)
  moreover have "bits_loop (replicate n 0) = 0" for n by (induction n) simp_all
  ultimately show "uint_bits a = 0" unfolding uint_bits_def by (metis rev_replicate)
qed

section \<open>Division\<close>

lemma val_or_bit:
  assumes "s < 32 * length q" "2 ^ Suc s dvd limbs_val q"
  shows "limbs_val (or_limb (s div 32) (push_bit (s mod 32) 1) q) = limbs_val q + 2 ^ s"
proof -
  have i: "s div 32 < length q" using assms(1) by (simp add: less_mult_imp_div_less mult.commute)
  have "bit (limbs_val (or_limb (s div 32) (push_bit (s mod 32) 1) q)) n \<longleftrightarrow> bit (set_bit s (limbs_val q)) n" for n
  proof -
    have "n = s \<longleftrightarrow> n div 32 = s div 32 \<and> n mod 32 = s mod 32" by (metis div_mult_mod_eq)
    then show ?thesis using i by (auto simp: bit_limbs nth_or_limb bit_or_iff bit_exp_iff bit_set_bit_iff split: if_splits)
  qed
  then have "limbs_val (or_limb (s div 32) (push_bit (s mod 32) 1) q) = set_bit s (limbs_val q)" by (rule bit_eqI)
  moreover have "\<not> bit (limbs_val q) s"
  proof -
    obtain c where "limbs_val q = 2 ^ s * (2 * c)" using assms(2) by (auto elim: dvdE simp: ac_simps)
    then show ?thesis by (simp add: bit_iff_odd)
  qed
  ultimately show ?thesis by (simp add: set_bit_eq)
qed

lemma div_loop_correct:
  assumes "length num = w" "length dv = w" "length q = w" "0 < b" "n \<le> 32 * w" "limbs_val num < b * 2 ^ n"
    "0 < n \<longrightarrow> limbs_val dv = b * 2 ^ (n - 1)" "2 ^ n dvd limbs_val q"
  shows "limbs_val (div_loop n num dv q) = limbs_val q + limbs_val num div b \<and> length (div_loop n num dv q) = w"
  using assms
proof (induction n num dv q rule: div_loop.induct)
  case (2 s num dv q)
  let ?dv = "uint_shr dv 1" and ?q = "or_limb (s div 32) (push_bit (s mod 32) 1) q"
  have D: "limbs_val dv = b * 2 ^ s" using 2 by simp
  have dv': "0 < s \<longrightarrow> limbs_val ?dv = b * 2 ^ (s - 1)"
    by (cases s) (simp_all add: uint_shr_correct D)
  have cmp: "CompareTo num dv \<ge> 0 \<longleftrightarrow> limbs_val dv \<le> limbs_val num"
    using 2(3,4) by (simp add: CompareTo_correct)
  have two: "b * 2 ^ Suc s = b * 2 ^ s + b * 2 ^ s" by simp
  show ?case
  proof (cases "limbs_val dv \<le> limbs_val num")
    case True
    have num': "limbs_val (uint_sub num dv) = limbs_val num - b * 2 ^ s"
      using uint_sub_correct [of num dv] 2(3,4) True D by simp
    have q': "limbs_val ?q = limbs_val q + 2 ^ s" using 2 by (intro val_or_bit) simp_all
    have dvd: "2 ^ s dvd limbs_val ?q" unfolding q' using 2(10) by (auto intro: dvd_add dvd_trans [OF le_imp_power_dvd])
    have "limbs_val (div_loop s (uint_sub num dv) ?dv ?q) = limbs_val ?q + limbs_val (uint_sub num dv) div b \<and>
        length (div_loop s (uint_sub num dv) ?dv ?q) = w"
      using 2(1) [OF cmp [THEN iffD2, OF True]] 2(3-8) dv' dvd num' two
      by (simp add: uint_sub_def uint_add_def uint_neg_def)
    moreover have "limbs_val num div b = 2 ^ s + (limbs_val num - b * 2 ^ s) div b"
    proof -
      have "limbs_val num = b * 2 ^ s + (limbs_val num - b * 2 ^ s)" using True by (simp add: D)
      then show ?thesis using 2(6) div_mult_self4 [of b "2 ^ s" "limbs_val num - b * 2 ^ s"] by simp
    qed
    ultimately show ?thesis using cmp True q' by (simp add: num')
  next
    case False
    have "2 ^ s dvd limbs_val q" using 2(10) by (rule dvd_trans [OF le_imp_power_dvd, rotated]) simp
    then have "limbs_val (div_loop s num ?dv q) = limbs_val q + limbs_val num div b \<and> length (div_loop s num ?dv q) = w"
      using 2(2) [OF _ ] cmp False 2(3-8) dv' D by simp
    then show ?thesis using cmp False by simp
  qed
qed simp

theorem uint_div_correct:
  assumes "length a = length b"
  shows "(limbs_val b = 0 \<longrightarrow> uint_div a b = None) \<and>
    (limbs_val b \<noteq> 0 \<longrightarrow> (\<exists>q. uint_div a b = Some q \<and> limbs_val q = limbs_val a div limbs_val b \<and> length q = length a))"
proof (cases "limbs_val b = 0")
  case False
  let ?na = "uint_bits a" and ?nb = "uint_bits b"
  have sa: "limbs_val a < 2 ^ ?na" "?na \<le> 32 * length a" and sb: "limbs_val b < 2 ^ ?nb" "?nb \<noteq> 0" "2 ^ (?nb - 1) \<le> limbs_val b"
    using uint_bits_spec [of a] uint_bits_spec [of b] False by auto
  show ?thesis
  proof (cases "?nb > ?na")
    case True
    have "(2 :: nat) ^ ?na \<le> 2 ^ (?nb - 1)" using True by (intro power_increasing) auto
    then have "limbs_val a < limbs_val b" using sa(1) sb(3) by linarith
    then show ?thesis using True False sb(2) by (simp add: uint_div_def Let_def)
  next
    case le: False
    define sh where "sh = ?na - ?nb"
    have e: "?na = ?nb + sh" using le by (simp add: sh_def)
    have "limbs_val b * 2 ^ sh < 2 ^ ?nb * 2 ^ sh" using sb(1) by simp
    also have "\<dots> = 2 ^ ?na" by (simp add: e power_add)
    also have "\<dots> \<le> 2 ^ (32 * length b)" using sa(2) assms by (intro power_increasing) auto
    finally have d: "limbs_val (uint_shl b sh) = limbs_val b * 2 ^ sh" by (simp add: uint_shl_correct)
    have "(2 :: nat) ^ ?na = 2 ^ (?nb - 1) * 2 ^ Suc sh" 
      using sb(2) unfolding e power_add [symmetric] by (intro arg_cong [of _ _ "power 2"]) simp
    also have "\<dots> \<le> limbs_val b * 2 ^ Suc sh" using sb(3) by (rule mult_le_mono1)
    finally have "limbs_val a < limbs_val b * 2 ^ Suc sh" using sa(1) by linarith
    moreover have "Suc sh \<le> 32 * length a" using sa(2) sb(2) e by linarith
    ultimately have "limbs_val (div_loop (Suc sh) a (uint_shl b sh) (replicate (length a) 0)) = limbs_val a div limbs_val b \<and>
        length (div_loop (Suc sh) a (uint_shl b sh) (replicate (length a) 0)) = length a"
      using div_loop_correct [of a "length a" "uint_shl b sh" "replicate (length a) 0" "limbs_val b" "Suc sh"] d assms False
      by simp
    then show ?thesis using False le sb(2) by (simp add: uint_div_def Let_def sh_def)
  qed
qed (simp add: uint_div_def bits_zero)

section \<open>Limbs and words\<close>

text \<open>The value of eight limbs is a 256-bit word, and back.\<close>

definition word_of_limbs :: "base_uint \<Rightarrow> uint256" where
  "word_of_limbs pn = word_of_nat (limbs_val pn)"

definition limbs_of_word :: "uint256 \<Rightarrow> base_uint" where
  "limbs_of_word w = map (\<lambda>i. ucast (drop_bit (32 * i) w)) [0..<8]"

lemma limbs_of_word_val: "limbs_val (limbs_of_word w) = unat w"
proof (rule bit_eqI)
  fix n
  have "bit w n \<longleftrightarrow> n < 256 \<and> bit w (32 * (n div 32) + n mod 32)" using bit_imp_le_length [of w n] by auto
  moreover have "n < 256 \<longleftrightarrow> n div 32 < 8" by auto
  ultimately show "bit (limbs_val (limbs_of_word w)) n \<longleftrightarrow> bit (unat w) n"
    by (auto simp: bit_limbs limbs_of_word_def bit_unsigned_iff bit_drop_bit_eq)
qed

lemma length_limbs_of_word [simp]: "length (limbs_of_word w) = 8"
  by (simp add: limbs_of_word_def)

lemma unat_word_of_limbs: "length a = 8 \<Longrightarrow> unat (word_of_limbs a) = limbs_val a"
  using limbs_val_bound [of a] by (simp add: word_of_limbs_def unat_of_nat)

lemma word_of_limbs_val: "limbs_val a = n mod 2 ^ 256 \<Longrightarrow> word_of_limbs a = word_of_nat n"
  by (simp add: word_of_limbs_def word_unat_eq_iff unat_of_nat)

lemma uint256_ops:
  assumes a: "length a = 8" and b: "length b = 8"
  shows "word_of_limbs (uint_add a b) = word_of_limbs a + word_of_limbs b"
    and "word_of_limbs (uint_sub a b) = word_of_limbs a - word_of_limbs b"
    and "word_of_limbs (uint_mul a b) = word_of_limbs a * word_of_limbs b"
    and "word_of_limbs (uint_mul32 a m) = word_of_limbs a * ucast m"
    and "word_of_limbs (uint_shl a s) = push_bit s (word_of_limbs a)"
    and "word_of_limbs (uint_shr a s) = drop_bit s (word_of_limbs a)"
    and "CompareTo a b < 0 \<longleftrightarrow> word_of_limbs a < word_of_limbs b"
    and "CompareTo a b = 0 \<longleftrightarrow> word_of_limbs a = word_of_limbs b"
    and "map_option word_of_limbs (uint_div a b) =
      (if word_of_limbs b = 0 then None else Some (word_of_limbs a div word_of_limbs b))"
proof -
  let ?a = "word_of_limbs a" and ?b = "word_of_limbs b"
  note ua = unat_word_of_limbs [OF a] and ub = unat_word_of_limbs [OF b]
  have wa: "?a = word_of_nat (limbs_val a)" and wb: "?b = word_of_nat (limbs_val b)" by (simp_all add: word_of_limbs_def)
  show "word_of_limbs (uint_add a b) = ?a + ?b"
    using uint_add_correct [of a b] a b by (simp add: word_of_limbs_val wa wb)
  have n: "length (uint_neg b) = 8" using b by (simp add: uint_neg_def)
  have "word_of_limbs (uint_sub a b) = word_of_nat (limbs_val a + limbs_val (uint_neg b))"
    using uint_add_correct [of a "uint_neg b"] a n by (intro word_of_limbs_val) (simp add: uint_sub_def)
  also have "\<dots> = ?a + word_of_nat (2 ^ 256 - limbs_val b)"
    using val_neg [of b] b by (simp add: wa word_unat_eq_iff unat_of_nat unat_word_ariths mod_simps)
  also have "(word_of_nat (2 ^ 256 - limbs_val b) :: uint256) = - ?b"
    using limbs_val_bound [of b] b by (simp add: wb of_nat_diff)
  finally show "word_of_limbs (uint_sub a b) = ?a - ?b" by simp
  show "word_of_limbs (uint_mul a b) = ?a * ?b"
    using uint_mul_correct [of a b] a b by (simp add: word_of_limbs_val wa wb)
  show "word_of_limbs (uint_mul32 a m) = ?a * ucast m"
  proof -
    have "(ucast m :: uint256) = word_of_nat (unat m)"
      using u32_bound [of m] by (simp add: word_unat_eq_iff unsigned_ucast_eq unat_of_nat take_bit_eq_mod)
    then show ?thesis using uint_mul32_correct [of a m] a by (simp add: word_of_limbs_val wa)
  qed
  have "limbs_val (uint_shl a s) = (limbs_val a * 2 ^ s) mod 2 ^ 256"
    using uint_shl_correct [of a s] a by simp
  then show "word_of_limbs (uint_shl a s) = push_bit s ?a"
    by (simp only: word_of_limbs_val) (simp add: wa push_bit_eq_mult mult.commute)
  show "word_of_limbs (uint_shr a s) = drop_bit s ?a"
  proof -
    have "unat (drop_bit s ?a) = limbs_val a div 2 ^ s" 
      unfolding unat_drop_bit_eq ua by (simp add: drop_bit_eq_div)
    then show ?thesis using unat_word_of_limbs [of "uint_shr a s"] a by (simp add: uint_shr_correct word_unat_eq_iff)
  qed
  show "CompareTo a b < 0 \<longleftrightarrow> ?a < ?b" "CompareTo a b = 0 \<longleftrightarrow> ?a = ?b"
    using a b by (simp_all add: CompareTo_correct word_less_nat_alt word_unat_eq_iff ua ub)
  show "map_option word_of_limbs (uint_div a b) = (if ?b = 0 then None else Some (?a div ?b))"
  proof (cases "limbs_val b = 0")
    case True
    then show ?thesis using uint_div_correct [of a b] a b by (simp add: wb)
  next
    case False
    then obtain q where q: "uint_div a b = Some q" "limbs_val q = limbs_val a div limbs_val b" "length q = 8"
      using uint_div_correct [of a b] a b by auto
    have "word_of_limbs q = ?a div ?b"
      using unat_word_of_limbs [OF q(3)] q(2) by (simp add: word_unat_eq_iff unat_div ua ub)
    moreover have "?b \<noteq> 0" using False ub by (auto simp: word_unat_eq_iff)
    ultimately show ?thesis using q(1) by simp
  qed
qed

text \<open>C29. The big-integer arithmetic of \<open>uint256\<close>, carried out limb by limb on 64-bit intermediates, is the
  arithmetic of 256-bit words: sums, differences, products by 32-bit and 256-bit factors and shifts
  wrap modulo \<open>2 ^ 256\<close>, the shift-and-subtract division is the division, comparison is the comparison,
  and division by zero is the exception.\<close>

theorem uint256_arithmetic:
  assumes "length a = 8" "length b = 8"
  shows "word_of_limbs (uint_add a b) = word_of_limbs a + word_of_limbs b \<and>
    word_of_limbs (uint_sub a b) = word_of_limbs a - word_of_limbs b \<and>
    word_of_limbs (uint_mul a b) = word_of_limbs a * word_of_limbs b \<and>
    word_of_limbs (uint_mul32 a m) = word_of_limbs a * ucast m \<and>
    word_of_limbs (uint_shl a s) = push_bit s (word_of_limbs a) \<and>
    word_of_limbs (uint_shr a s) = drop_bit s (word_of_limbs a) \<and>
    (CompareTo a b < 0 \<longleftrightarrow> word_of_limbs a < word_of_limbs b) \<and>
    (CompareTo a b = 0 \<longleftrightarrow> word_of_limbs a = word_of_limbs b) \<and>
    map_option word_of_limbs (uint_div a b) =
      (if word_of_limbs b = 0 then None else Some (word_of_limbs a div word_of_limbs b))"
  by (intro conjI uint256_ops [OF assms])

theorem uint256_arithmetic_witness:
  "word_of_limbs (uint_add [1, 2, 3, 4, 5, 6, 7, 8] [9, 0, 0, 0, 0, 0, 0, - 1]) =
     word_of_limbs [1, 2, 3, 4, 5, 6, 7, 8] + word_of_limbs [9, 0, 0, 0, 0, 0, 0, - 1]"
  using uint256_arithmetic [of "[1, 2, 3, 4, 5, 6, 7, 8]" "[9, 0, 0, 0, 0, 0, 0, - 1]"] by simp

section \<open>The compact format\<close>

definition uint256_bits :: "uint256 \<Rightarrow> nat" where
  "uint256_bits w = uint_bits (limbs_of_word w)"

text \<open>The number, and the flags for a negative number and for an overflow.\<close>

definition SetCompact :: "u32 \<Rightarrow> uint256 \<times> bool \<times> bool" where
  "SetCompact nCompact =
     (let nSize = unat (drop_bit 24 nCompact);
          nWord0 = nCompact AND 0x007fffff;
          nWord = (if nSize \<le> 3 then drop_bit (8 * (3 - nSize)) nWord0 else nWord0);
          value = (if nSize \<le> 3 then ucast nWord else push_bit (8 * (nSize - 3)) (ucast nWord))
      in (value,
          nWord \<noteq> 0 \<and> nCompact AND 0x00800000 \<noteq> 0,
          nWord \<noteq> 0 \<and> (nSize > 34 \<or> (nWord > 0xff \<and> nSize > 33) \<or> (nWord > 0xffff \<and> nSize > 32))))"

definition GetCompact :: "uint256 \<Rightarrow> bool \<Rightarrow> u32" where
  "GetCompact w fNegative =
     (let nSize0 = (uint256_bits w + 7) div 8;
          nCompact0 = (if nSize0 \<le> 3 then ucast (push_bit (8 * (3 - nSize0)) (ucast w :: u64))
                       else ucast (ucast (drop_bit (8 * (nSize0 - 3)) w) :: u64)) :: u32;
          carry = nCompact0 AND 0x00800000 \<noteq> 0;
          nCompact1 = (if carry then drop_bit 8 nCompact0 else nCompact0);
          nSize = (if carry then nSize0 + 1 else nSize0);
          nCompact2 = nCompact1 OR push_bit 24 (word_of_nat nSize)
      in nCompact2 OR (if fNegative \<and> nCompact2 AND 0x007fffff \<noteq> 0 then 0x00800000 else 0))"

text \<open>The size in bytes, the mantissa before and after the sign bit is cleared, and the size after.\<close>

definition has_bytes :: "nat \<Rightarrow> nat \<Rightarrow> bool" where
  "has_bytes n s \<longleftrightarrow> n < 256 ^ s \<and> (n \<noteq> 0 \<longrightarrow> 0 < s \<and> 256 ^ (s - 1) \<le> n) \<and> (n = 0 \<longrightarrow> s = 0)"

definition mant0 :: "nat \<Rightarrow> nat \<Rightarrow> nat" where
  "mant0 n s = (if s \<le> 3 then n * 256 ^ (3 - s) else n div 256 ^ (s - 3))"

definition mant :: "nat \<Rightarrow> nat \<Rightarrow> nat" where
  "mant n s = (if 2 ^ 23 \<le> mant0 n s then mant0 n s div 256 else mant0 n s)"

definition csize :: "nat \<Rightarrow> nat \<Rightarrow> nat" where
  "csize n s = (if 2 ^ 23 \<le> mant0 n s then s + 1 else s)"

lemma p256: "(256 :: nat) ^ k = 2 ^ (8 * k)"
  by (simp add: power_mult)

lemma uint256_bytes: "has_bytes (unat w) ((uint256_bits w + 7) div 8) \<and> (uint256_bits w + 7) div 8 \<le> 32"
proof -
  let ?b = "uint256_bits w" and ?s = "(uint256_bits w + 7) div 8"
  have b: "unat w < 2 ^ ?b" "unat w \<noteq> 0 \<Longrightarrow> ?b \<noteq> 0 \<and> 2 ^ (?b - 1) \<le> unat w" "?b \<le> 256"
    using uint_bits_spec [of "limbs_of_word w"] by (simp_all add: uint256_bits_def limbs_of_word_val)
  have s: "?b \<le> 8 * ?s" "8 * ?s \<le> ?b + 7" by linarith+
  have "(2 :: nat) ^ ?b \<le> 256 ^ ?s" unfolding p256 using s(1) by (intro power_increasing) auto
  then have "unat w < 256 ^ ?s" using b(1) by linarith
  moreover have "0 < ?s \<and> 256 ^ (?s - 1) \<le> unat w" if "unat w \<noteq> 0"
  proof -
    have "?b \<noteq> 0" "2 ^ (?b - 1) \<le> unat w" using b(2) that by auto
    moreover have "(256 :: nat) ^ (?s - 1) \<le> 2 ^ (?b - 1)" unfolding p256 using s(2) by (intro power_increasing) auto
    ultimately show ?thesis by auto
  qed
  moreover have "unat w = 0 \<Longrightarrow> ?b = 0" using bits_zero [of "limbs_of_word w"] by (simp add: uint256_bits_def limbs_of_word_val)
  ultimately show ?thesis using b(3) by (auto simp: has_bytes_def)
qed

lemma has_bytes_unique: "has_bytes n s \<Longrightarrow> has_bytes n t \<Longrightarrow> s = t"
proof (rule ccontr)
  assume *: "has_bytes n s" "has_bytes n t" "s \<noteq> t"
  then have n: "n \<noteq> 0" by (auto simp: has_bytes_def)
  have "False" if "s < t" "has_bytes n s" "has_bytes n t" for s t
  proof -
    have "(256 :: nat) ^ s \<le> 256 ^ (t - 1)" using that(1) by (intro power_increasing) auto
    moreover have "n < 256 ^ s" "256 ^ (t - 1) \<le> n" using that(2,3) n unfolding has_bytes_def by blast+
    ultimately show False by linarith
  qed
  then show False using * by (metis nat_neq_iff)
qed

lemma mant0_bound: "has_bytes n s \<Longrightarrow> mant0 n s < 2 ^ 24"
proof (cases "s \<le> 3")
  case True
  assume "has_bytes n s"
  then have "n * 256 ^ (3 - s) < 256 ^ s * 256 ^ (3 - s)" by (simp add: has_bytes_def)
  also have "\<dots> = 256 ^ 3" using True by (simp flip: power_add)
  finally show ?thesis using True by (simp add: mant0_def)
next
  case False
  assume "has_bytes n s"
  then have "n < 256 ^ s" by (simp add: has_bytes_def)
  also have "(256 :: nat) ^ s = 256 ^ (s - 3) * 256 ^ 3" unfolding power_add [symmetric] using False by simp
  finally have "n < 256 ^ (s - 3) * 256 ^ 3" .
  then have "n div 256 ^ (s - 3) < 256 ^ 3" by (simp add: less_mult_imp_div_less mult.commute)
  then show ?thesis using False by (simp add: mant0_def)
qed

lemma mant_bound: "has_bytes n s \<Longrightarrow> mant n s < 2 ^ 23"
  using mant0_bound [of n s] by (auto simp: mant_def)

lemma unat_push_mult: "unat (push_bit k x) = unat x * 2 ^ k mod 2 ^ LENGTH('a)" for x :: "'a::len word"
  unfolding unsigned_push_bit_eq by (simp add: take_bit_eq_mod push_bit_eq_mult)

lemma unat_drop_div: "unat (drop_bit k x) = unat x div 2 ^ k" for x :: "'a::len word"
  unfolding unat_drop_bit_eq by (simp add: drop_bit_eq_div)

lemma mant0_word:
  fixes w :: uint256
  assumes n: "has_bytes (unat w) s"
  shows "unat ((if s \<le> 3 then ucast (push_bit (8 * (3 - s)) (ucast w :: u64)) else ucast (ucast (drop_bit (8 * (s - 3)) w) :: u64)) :: u32) =
    mant0 (unat w) s"
proof -
  note bd = mant0_bound [OF n]
  have cast: "unat (ucast x :: u32) = unat x mod 2 ^ 32" for x :: u64 by (simp add: unsigned_ucast_eq take_bit_eq_mod)
  have cast64: "unat (ucast x :: u64) = unat x mod 2 ^ 64" for x :: uint256 by (simp add: unsigned_ucast_eq take_bit_eq_mod)
  show ?thesis
  proof (cases "s \<le> 3")
    case True
    have "unat w < 2 ^ 24"
    proof -
      have "(256 :: nat) ^ s \<le> 256 ^ 3" using True by (intro power_increasing) auto
      then show ?thesis using n by (simp add: has_bytes_def)
    qed
    then have u: "unat (ucast w :: u64) = unat w" unfolding cast64 by simp
    have "unat (push_bit (8 * (3 - s)) (ucast w :: u64)) = unat w * 256 ^ (3 - s) mod 2 ^ 64"
      unfolding unat_push_mult u p256 by simp
    also have "\<dots> = mant0 (unat w) s" using bd True by (simp add: mant0_def)
    finally show ?thesis using True bd by (simp only: cast if_True) simp
  next
    case False
    have "unat (drop_bit (8 * (s - 3)) w) = mant0 (unat w) s"
      unfolding unat_drop_div mant0_def p256 using False by simp
    then show ?thesis using False bd by (simp only: cast cast64 if_False) simp
  qed
qed

lemma u32_fields:
  assumes "m < 2 ^ 23" "k < 256" "unat c = m + 2 ^ 24 * k"
  shows "unat (drop_bit 24 c :: u32) = k" "unat (c AND 0x007fffff) = m" "c AND 0x00800000 = 0"
proof -
  show "unat (drop_bit 24 c) = k" unfolding unat_drop_div assms(3) using assms(1) by simp
  have "(0x007fffff :: u32) = mask 23" by (simp add: mask_eq_exp_minus_1)
  then have "c AND 0x007fffff = take_bit 23 c" by (simp only: take_bit_eq_mask)
  then have "unat (c AND 0x007fffff) = take_bit 23 (unat c)" by (simp only: unsigned_take_bit_eq)
  also have "\<dots> = (m + 2 ^ 23 * (2 * k)) mod 2 ^ 23" by (simp add: take_bit_eq_mod assms(3))
  also have "\<dots> = m" using assms(1) by (simp only: mod_mult_self2 mod_less)
  finally show "unat (c AND 0x007fffff) = m" .
  have "unat c div 2 ^ 23 = (m + 2 ^ 23 * (2 * k)) div 2 ^ 23" by (simp add: assms(3))
  also have "\<dots> = 2 * k" using assms(1) by simp
  finally have "\<not> bit (unat c) 23" by (simp add: bit_iff_odd)
  then have "\<not> bit c 23" by (simp add: bit_unsigned_iff)
  then have "c AND push_bit 23 1 = 0" by (simp only: bit_iff_and_push_bit_not_eq_0 not_not)
  then show "c AND 0x00800000 = 0" by (simp add: push_bit_eq_mult)
qed

lemma u32_bit23: "(x AND 0x00800000 \<noteq> 0) \<longleftrightarrow> 2 ^ 23 \<le> unat (x :: u32)" if "unat x < 2 ^ 24"
proof -
  have "(x AND 0x00800000 \<noteq> 0) = (x AND push_bit 23 1 \<noteq> 0)" by (simp add: push_bit_eq_mult)
  also have "\<dots> = bit x 23" by (simp only: bit_iff_and_push_bit_not_eq_0)
  also have "\<dots> = bit (unat x) 23" by (simp add: bit_unsigned_iff)
  also have "\<dots> = odd (unat x div 2 ^ 23)" by (rule bit_iff_odd)
  also have "unat x div 2 ^ 23 = (if 2 ^ 23 \<le> unat x then 1 else 0)"
    using that by (auto intro: div_nat_eqI)
  finally show ?thesis by simp
qed

lemma GetCompact_fields:
  assumes n: "has_bytes (unat w) s" and s: "s \<le> 32"
  shows "unat (GetCompact w False) = mant (unat w) s + 2 ^ 24 * csize (unat w) s"
proof -
  define c0 where "c0 = ((if s \<le> 3 then ucast (push_bit (8 * (3 - s)) (ucast w :: u64))
    else ucast (ucast (drop_bit (8 * (s - 3)) w) :: u64)) :: u32)"
  have s0: "(uint256_bits w + 7) div 8 = s" using has_bytes_unique n uint256_bytes by blast
  have m0: "unat c0 = mant0 (unat w) s" unfolding c0_def by (rule mant0_word [OF n])
  have carry: "(c0 AND 0x00800000 \<noteq> 0) \<longleftrightarrow> 2 ^ 23 \<le> mant0 (unat w) s"
    using u32_bit23 [of c0] mant0_bound [OF n] unfolding m0 by blast
  define c1 where "c1 = (if c0 AND 0x00800000 \<noteq> 0 then drop_bit 8 c0 else c0)"
  have c1: "unat c1 = mant (unat w) s"
    by (simp only: c1_def carry mant_def if_distrib [of unat] unat_drop_div m0) simp
  have k: "csize (unat w) s < 256" using s by (simp add: csize_def)
  have size: "unat (push_bit 24 (word_of_nat (csize (unat w) s)) :: u32) = 2 ^ 24 * csize (unat w) s"
    unfolding unat_push_mult using k by (simp add: unat_of_nat)
  have "c1 AND push_bit 24 (word_of_nat (csize (unat w) s)) = 0"
    by (rule and_disjoint_shift) (use mant_bound [OF n] c1 in simp)
  then have "c1 OR push_bit 24 (word_of_nat (csize (unat w) s)) = c1 + push_bit 24 (word_of_nat (csize (unat w) s))"
    by (simp add: disjunctive_add_eq_or)
  moreover have "unat (c1 + push_bit 24 (word_of_nat (csize (unat w) s))) = mant (unat w) s + 2 ^ 24 * csize (unat w) s"
    using mant_bound [OF n] k unfolding unat_word_ariths size c1 by simp
  moreover have "GetCompact w False = c1 OR push_bit 24 (word_of_nat (csize (unat w) s))"
    unfolding GetCompact_def Let_def s0 c0_def [symmetric] carry csize_def c1_def by simp
  ultimately show ?thesis by simp
qed

text \<open>What the compact form keeps of a number: all but its lowest \<open>csize - 3\<close> bytes.\<close>

definition kept :: "nat \<Rightarrow> nat \<Rightarrow> nat" where
  "kept n s = n div 256 ^ (csize n s - 3) * 256 ^ (csize n s - 3)"

lemma mant_small: "csize n s \<le> 3 \<Longrightarrow> mant n s div 256 ^ (3 - csize n s) = n"
proof (cases "2 ^ 23 \<le> mant0 n s")
  case True
  assume "csize n s \<le> 3"
  then have s: "s \<le> 2" "csize n s = s + 1" using True by (auto simp: csize_def)
  then have "3 - s = Suc (3 - csize n s)" by simp
  then have "mant0 n s = n * 256 ^ (3 - csize n s) * 256" using s by (simp add: mant0_def)
  then have "mant n s = n * 256 ^ (3 - csize n s)" using True by (simp add: mant_def)
  then show ?thesis by simp
next
  case False
  assume "csize n s \<le> 3"
  then show ?thesis using False by (simp add: csize_def mant_def mant0_def)
qed

lemma mant_large:
  assumes n: "has_bytes n s" and k: "3 < csize n s"
  shows "mant n s = n div 256 ^ (csize n s - 3)" "2 ^ 15 \<le> mant n s"
proof -
  have s: "3 \<le> s" "3 < s \<or> 2 ^ 23 \<le> mant0 n s" using k by (auto simp: csize_def split: if_splits)
  have m0: "mant0 n s = n div 256 ^ (s - 3)" using s(1) by (auto simp: mant0_def)
  show "mant n s = n div 256 ^ (csize n s - 3)"
  proof (cases "2 ^ 23 \<le> mant0 n s")
    case True
    have "csize n s - 3 = Suc (s - 3)" using True s(1) by (simp add: csize_def)
    moreover have "n div 256 ^ (s - 3) div 256 = n div 256 ^ Suc (s - 3)"
      by (simp only: div_mult2_eq [symmetric] power_Suc mult.commute)
    ultimately show ?thesis using True m0 by (simp add: mant_def del: power_Suc)
  qed (simp add: mant_def csize_def m0)
  show "2 ^ 15 \<le> mant n s"
  proof (cases "2 ^ 23 \<le> mant0 n s")
    case True
    then have "2 ^ 23 div 256 \<le> mant0 n s div 256" by (intro div_le_mono)
    then show ?thesis using True by (simp add: mant_def)
  next
    case False
    then have "3 < s" using s by simp
    then have "n \<noteq> 0" using n by (auto simp: has_bytes_def)
    then have "256 ^ (s - 1) \<le> n" using n by (simp add: has_bytes_def)
    then have "256 ^ (s - 1) div 256 ^ (s - 3) \<le> mant0 n s" unfolding m0 by (rule div_le_mono)
    moreover have "s - 1 = s - 3 + 2" using \<open>3 < s\<close> by simp
    then have "(256 :: nat) ^ (s - 1) = 256 ^ (s - 3) * 256 ^ 2" by (simp only: power_add)
    ultimately show ?thesis using False by (simp add: mant_def)
  qed
qed

lemma kept_value:
  assumes "has_bytes n s"
  shows "(if csize n s \<le> 3 then mant n s div 256 ^ (3 - csize n s) else mant n s * 256 ^ (csize n s - 3)) = kept n s"
  using mant_small [of n s] mant_large [OF assms] by (auto simp: kept_def)

lemma kept_bounds:
  assumes "has_bytes n s"
  shows "kept n s \<le> n" "2 ^ 15 * (n - kept n s) \<le> n"
proof -
  let ?j = "csize n s - 3"
  show "kept n s \<le> n" by (simp add: kept_def div_times_less_eq_dividend)
  show "2 ^ 15 * (n - kept n s) \<le> n"
  proof (cases "csize n s \<le> 3")
    case False
    have "n - kept n s = n mod 256 ^ ?j" unfolding kept_def by (simp only: minus_div_mult_eq_mod)
    then have "n - kept n s \<le> 256 ^ ?j" by (simp add: less_imp_le)
    then have "2 ^ 15 * (n - kept n s) \<le> mant n s * 256 ^ ?j"
      using mant_large(2) [OF assms] False by (intro mult_le_mono) auto
    also have "\<dots> = kept n s" using kept_value [OF assms] False by simp
    also have "\<dots> \<le> n" by (simp add: kept_def div_times_less_eq_dividend)
    finally show ?thesis .
  qed (simp add: kept_def)
qed

lemma kept_stable:
  assumes n: "has_bytes n s"
  shows "has_bytes (kept n s) s \<and> mant (kept n s) s = mant n s \<and> csize (kept n s) s = csize n s"
proof (cases "csize n s \<le> 3")
  case True
  then show ?thesis using n by (simp add: kept_def)
next
  case False
  let ?k = "csize n s" and ?v = "kept n s" and ?c = "2 ^ 23 \<le> mant0 n s"
  have v: "?v = mant n s * 256 ^ (?k - 3)" using kept_value [OF n] False by simp
  note m = mant_large [OF n] 
  have s: "3 \<le> s" "?k = (if ?c then s + 1 else s)" using False by (auto simp: csize_def split: if_splits)
  have n0: "n \<noteq> 0" using n s(1) by (auto simp: has_bytes_def)
  then have lo: "256 ^ (s - 1) \<le> n" "n < 256 ^ s" using n by (auto simp: has_bytes_def)
  have e: "s - 1 = (s - 1 - (?k - 3)) + (?k - 3)" using s False by (cases ?c) simp_all
  have "(256 :: nat) ^ (s - 1) = 256 ^ (s - 1 - (?k - 3)) * 256 ^ (?k - 3)"
    using arg_cong [OF e, of "power (256 :: nat)"] by (simp only: power_add)
  then have "256 ^ (s - 1) \<le> ?v"
    using div_le_mono [OF lo(1), of "256 ^ (?k - 3)"] by (simp add: kept_def)
  moreover then have "0 < ?v" by (rule less_le_trans [rotated]) simp
  ultimately have hb: "has_bytes ?v s"
    using n0 s(1) lo kept_bounds(1) [OF n] by (auto simp: has_bytes_def)
  have m0: "mant0 ?v s = (if ?c then mant n s * 256 else mant n s)"
  proof -
    have "mant0 ?v s = ?v div 256 ^ (s - 3)" using s(1) by (cases "s = 3") (simp_all add: mant0_def)
    moreover have "?v = (if ?c then mant n s * 256 else mant n s) * 256 ^ (s - 3)"
    proof -
      have "?k - 3 = (if ?c then Suc (s - 3) else s - 3)" using s by auto
      then show ?thesis unfolding v by simp
    qed
    then have "?v div 256 ^ (s - 3) = (if ?c then mant n s * 256 else mant n s)" by simp
    ultimately show ?thesis by (simp only:)
  qed
  have "mant n s < 2 ^ 23" by (rule mant_bound [OF n])
  moreover have "2 ^ 15 \<le> mant n s" using m(2) False by simp
  ultimately have "mant ?v s = mant n s \<and> csize ?v s = ?k"
    using m0 s(2) unfolding mant_def [of ?v] csize_def [of ?v] by (cases ?c) simp_all
  then show ?thesis using hb by blast
qed

lemma SetCompact_fields:
  assumes m: "m < 2 ^ 23" and k: "k < 256" and c: "unat c = m + 2 ^ 24 * k"
    and v: "(if k \<le> 3 then m div 256 ^ (3 - k) else m * 256 ^ (k - 3)) = v" "v < 2 ^ 256"
    and noflow: "m \<noteq> 0 \<longrightarrow> k \<le> 34 \<and> (k = 34 \<longrightarrow> m \<le> 0xff) \<and> (k = 33 \<longrightarrow> m \<le> 0xffff)"
  shows "SetCompact c = (word_of_nat v, False, False)"
proof -
  note f = u32_fields [OF m k c]
  define nw where "nw = (if k \<le> 3 then drop_bit (8 * (3 - k)) (c AND 0x007fffff) else c AND 0x007fffff)"
  have nw: "unat nw = (if k \<le> 3 then m div 256 ^ (3 - k) else m)"
    unfolding nw_def by (cases "k \<le> 3") (simp_all only: if_True if_False unat_drop_div f p256)
  have big: "unat (ucast nw :: uint256) = unat nw"
    using u32_bound [of nw] by (simp add: unsigned_ucast_eq take_bit_eq_mod)
  have val: "(if k \<le> 3 then ucast nw else push_bit (8 * (k - 3)) (ucast nw)) = (word_of_nat v :: uint256)"
  proof (rule word_unat_eq_iff [THEN iffD2])
    show "unat (if k \<le> 3 then ucast nw else push_bit (8 * (k - 3)) (ucast nw) :: uint256) = unat (word_of_nat v :: uint256)"
      using v nw by (cases "k \<le> 3") (simp_all add: unat_push_mult big unat_of_nat p256)
  qed
  have lt: "nw > 0xff \<longleftrightarrow> unat nw > 0xff" "nw > 0xffff \<longleftrightarrow> unat nw > 0xffff" by (simp_all add: word_less_nat_alt)
  have ov: "\<not> (nw \<noteq> 0 \<and> (k > 34 \<or> (nw > 0xff \<and> k > 33) \<or> (nw > 0xffff \<and> k > 32)))"
    using noflow nw unfolding lt by (cases "k \<le> 3") (auto simp: word_unat_eq_iff)
  show ?thesis
    unfolding SetCompact_def Let_def f(1) nw_def [symmetric] val f(3) using ov by simp
qed

lemma compact_decodes:
  "\<exists>t. SetCompact (GetCompact w False) = (t, False, False) \<and> t \<le> w \<and> 2 ^ 15 * (unat w - unat t) \<le> unat w \<and>
    GetCompact t False = GetCompact w False"
proof -
  let ?n = "unat w"
  define s where "s = (uint256_bits w + 7) div 8"
  have n: "has_bytes ?n s" and s: "s \<le> 32" using uint256_bytes [of w] by (simp_all add: s_def)
  note c = GetCompact_fields [OF n s]
  have v: "kept ?n s \<le> ?n" "?n < 2 ^ 256" using kept_bounds(1) [OF n] unsigned_less [of w] by simp_all
  have k33: "csize ?n s \<le> 33" using s by (simp add: csize_def)
  have "mant ?n s \<le> 0xffff" if k: "csize ?n s = 33"
  proof -
    have "mant ?n s = ?n div 256 ^ 30" using mant_large(1) [OF n] k by simp
    also have "\<dots> < 256 ^ 2" using v(2) by (intro less_mult_imp_div_less) simp
    finally show ?thesis by simp
  qed
  then have dec: "SetCompact (GetCompact w False) = (word_of_nat (kept ?n s), False, False)"
    using v k33 by (intro SetCompact_fields [OF mant_bound [OF n] _ c kept_value [OF n]]) auto
  let ?t = "word_of_nat (kept ?n s) :: uint256"
  have t: "unat ?t = kept ?n s" using v by (simp add: unat_of_nat)
  have "GetCompact ?t False = GetCompact w False"
    using GetCompact_fields [of ?t s] kept_stable [OF n] s c by (simp add: t word_unat_eq_iff)
  then show ?thesis using dec kept_bounds [OF n] t by (intro exI [of _ ?t]) (simp add: word_le_nat_alt)
qed

text \<open>C31. Difficulty targets: the compact form of any 256-bit number decodes, with neither the negative nor the
  overflow flag, to a number that is not larger and differs from it by at most one part in
  \<open>2 ^ 15\<close>, and encoding that number again gives the same compact form.\<close>

theorem compact_roundtrip:
  "\<exists>t. SetCompact (GetCompact w False) = (t, False, False) \<and> t \<le> w \<and> 2 ^ 15 * (unat w - unat t) \<le> unat w \<and>
    GetCompact t False = GetCompact w False"
  by (rule compact_decodes)

end
