(* ===== verification/Pow.thy ===== *)
theory Pow
  imports Chain Uint256
begin

text \<open>
  Difficulty, \<open>src/pow.cpp\<close>, \<open>CBlockIndex::GetBlockTrust\<close> of \<open>chain.cpp\<close> and the parameters of
  \<open>chainparams.cpp\<close> they read. Arithmetic is on 256-bit words, which \<open>uint256_arithmetic\<close> shows to be that
  of \<open>uint256\<close>; \<open>None\<close> is its exception for a division by zero, or a read through a null pointer.
\<close>

section \<open>Parameters\<close>

record CChainParams =
  cp_bnProofOfWorkLimit :: uint256
  cp_nMaxReorganizationDepth :: int
  cp_nEnforceBlockUpgradeMajority :: nat
  cp_nRejectBlockOutdatedMajority :: nat
  cp_nToCheckBlockUpgradeMajority :: nat
  cp_nTargetSpacing :: int
  cp_nLastPOWBlock :: int
  cp_nMaturity :: int
  cp_nModifierUpdateBlock :: int
  cp_nMaxMoneyOut :: CAmount
  cp_fSkipProofOfWorkCheck :: bool

definition mainParams :: CChainParams where
  "mainParams = \<lparr>cp_bnProofOfWorkLimit = drop_bit 20 (NOT 0), cp_nMaxReorganizationDepth = 100,
     cp_nEnforceBlockUpgradeMajority = 750, cp_nRejectBlockOutdatedMajority = 950,
     cp_nToCheckBlockUpgradeMajority = 1000, cp_nTargetSpacing = 1 * 120, cp_nLastPOWBlock = 10000, cp_nMaturity = 6,
     cp_nModifierUpdateBlock = 615800, cp_nMaxMoneyOut = 33000000 * COIN, cp_fSkipProofOfWorkCheck = False\<rparr>"

definition testNetParams :: CChainParams where
  "testNetParams = mainParams\<lparr>cp_nEnforceBlockUpgradeMajority := 51, cp_nRejectBlockOutdatedMajority := 75,
     cp_nToCheckBlockUpgradeMajority := 100, cp_nTargetSpacing := 1 * 60, cp_nLastPOWBlock := 200, cp_nMaturity := 15,
     cp_nModifierUpdateBlock := 51197, cp_nMaxMoneyOut := 33000000 * COIN\<rparr>"

definition regTestParams :: CChainParams where
  "regTestParams = testNetParams\<lparr>cp_nEnforceBlockUpgradeMajority := 750, cp_nRejectBlockOutdatedMajority := 950,
     cp_nToCheckBlockUpgradeMajority := 1000, cp_nTargetSpacing := 1 * 60,
     cp_bnProofOfWorkLimit := drop_bit 1 (NOT 0)\<rparr>"

section \<open>The next target\<close>

definition uint256_div :: "uint256 \<Rightarrow> uint256 \<Rightarrow> uint256 option" where
  "uint256_div a b = (if b = 0 then None else Some (a div b))"

text \<open>\<open>operator*=(uint32_t)\<close> is the overload chosen for a signed 64-bit factor, which it truncates.\<close>

definition mul_int64 :: "uint256 \<Rightarrow> int \<Rightarrow> uint256" where
  "mul_int64 a n = a * ucast (word_of_int n :: u32)"

text \<open>Division converts its signed 64-bit argument through \<open>uint64_t\<close>.\<close>

definition div_int64 :: "uint256 \<Rightarrow> int \<Rightarrow> uint256 option" where
  "div_int64 a n = uint256_div a (ucast (word_of_int n :: u64))"

record dgw_state =
  dg_CountBlocks :: int
  dg_Average :: uint256
  dg_AveragePrev :: uint256
  dg_nActualTimespan :: int
  dg_LastBlockTime :: int

definition dgw_average :: "CBlockIndex \<Rightarrow> dgw_state \<Rightarrow> uint256 option" where
  "dgw_average b st =
     (if dg_CountBlocks st = 1 then Some (fst (SetCompact (bi_nBits b)))
      else div_int64 (mul_int64 (dg_AveragePrev st) (dg_CountBlocks st) + fst (SetCompact (bi_nBits b)))
             (dg_CountBlocks st + 1))"

definition dgw_step :: "CBlockIndex \<Rightarrow> dgw_state \<Rightarrow> dgw_state option" where
  "dgw_step b st0 =
     (let st = st0\<lparr>dg_CountBlocks := dg_CountBlocks st0 + 1\<rparr> in
      do {
        st1 \<leftarrow> (if dg_CountBlocks st \<le> 24
               then do { a \<leftarrow> dgw_average b st; Some (st\<lparr>dg_Average := a, dg_AveragePrev := a\<rparr>) }
               else Some st);
        Some (st1\<lparr>dg_nActualTimespan := dg_nActualTimespan st1 +
                    (if dg_LastBlockTime st1 > 0 then dg_LastBlockTime st1 - GetBlockTime b else 0),
                  dg_LastBlockTime := GetBlockTime b\<rparr>) })"

text \<open>The loop; \<open>n\<close> is the number of rounds left before \<open>i > PastBlocksMax\<close>.\<close>

fun dgw_loop :: "nat \<Rightarrow> block_store \<Rightarrow> nat option \<Rightarrow> dgw_state \<Rightarrow> dgw_state option" where
  "dgw_loop 0 mem BlockReading st = Some st"
| "dgw_loop (Suc n) mem BlockReading st =
     (case BlockReading of None \<Rightarrow> Some st
      | Some p \<Rightarrow> do {
          b \<leftarrow> mem p;
          if bi_nHeight b > 0 then do {
            st1 \<leftarrow> dgw_step b st;
            (if bi_pprev b = None then Some st1 else dgw_loop n mem (bi_pprev b) st1) }
          else Some st })"

definition stake_target :: "CBlockIndex \<Rightarrow> int \<Rightarrow> u32 option" where
  "stake_target b nActualSpacing0 =
     (let bnTargetLimit = drop_bit 24 (NOT 0);
          nTargetSpacing = 60;
          nTargetTimespan = 60 * 40;
          nActualSpacing = (if nActualSpacing0 < 0 then 1 else nActualSpacing0);
          nInterval = nTargetTimespan div nTargetSpacing
      in do {
        bnNew \<leftarrow> div_int64 (mul_int64 (fst (SetCompact (bi_nBits b)))
                   ((nInterval - 1) * nTargetSpacing + nActualSpacing + nActualSpacing))
                 ((nInterval + 1) * nTargetSpacing);
        Some (GetCompact (if bnNew \<le> 0 \<or> bnNew > bnTargetLimit then bnTargetLimit else bnNew) False) })"

definition work_target :: "CChainParams \<Rightarrow> dgw_state \<Rightarrow> u32 option" where
  "work_target ps st =
     (let nTargetTimespan = dg_CountBlocks st * cp_nTargetSpacing ps;
          span1 = (if dg_nActualTimespan st < nTargetTimespan div 3 then nTargetTimespan div 3 else dg_nActualTimespan st);
          span2 = (if span1 > nTargetTimespan * 3 then nTargetTimespan * 3 else span1)
      in do {
        bnNew \<leftarrow> div_int64 (mul_int64 (dg_Average st) span2) nTargetTimespan;
        Some (GetCompact (if bnNew > cp_bnProofOfWorkLimit ps then cp_bnProofOfWorkLimit ps else bnNew) False) })"

definition GetNextWorkRequired :: "CChainParams \<Rightarrow> block_store \<Rightarrow> nat option \<Rightarrow> u32 option" where
  "GetNextWorkRequired ps mem pindexLast =
     (case pindexLast of
        None \<Rightarrow> Some (GetCompact (cp_bnProofOfWorkLimit ps) False)
      | Some p \<Rightarrow> do {
          b \<leftarrow> mem p;
          if bi_nHeight b = 0 \<or> bi_nHeight b < 24 then Some (GetCompact (cp_bnProofOfWorkLimit ps) False)
          else if bi_nHeight b > cp_nLastPOWBlock ps then do {
            spacing \<leftarrow> (if bi_nHeight b \<noteq> 0 then do { c \<leftarrow> deref mem (bi_pprev b); Some (GetBlockTime b - GetBlockTime c) }
                       else Some 0);
            stake_target b spacing }
          else do {
            st \<leftarrow> dgw_loop 24 mem (Some p)
                   \<lparr>dg_CountBlocks = 0, dg_Average = 0, dg_AveragePrev = 0, dg_nActualTimespan = 0, dg_LastBlockTime = 0\<rparr>;
            work_target ps st } })"

section \<open>Checks and weights\<close>

definition CheckProofOfWork :: "CChainParams \<Rightarrow> uint256 \<Rightarrow> u32 \<Rightarrow> bool" where
  "CheckProofOfWork ps hash nBits =
     (if cp_fSkipProofOfWorkCheck ps then True
      else let (bnTarget, fNegative, fOverflow) = SetCompact nBits in
        if fNegative \<or> bnTarget = 0 \<or> fOverflow \<or> bnTarget > cp_bnProofOfWorkLimit ps then False
        else if hash > bnTarget then False
        else True)"

definition GetBlockProof :: "CBlockIndex \<Rightarrow> uint256 option" where
  "GetBlockProof b =
     (let (bnTarget, fNegative, fOverflow) = SetCompact (bi_nBits b) in
      if fNegative \<or> fOverflow \<or> bnTarget = 0 then Some 0
      else do { q \<leftarrow> uint256_div (NOT bnTarget) (bnTarget + 1); Some (q + 1) })"

definition GetBlockTrust :: "CBlockIndex \<Rightarrow> uint256 option" where
  "GetBlockTrust b =
     (let bnTarget = fst (SetCompact (bi_nBits b)) in
      if bnTarget \<le> 0 then Some 0
      else if BI_IsProofOfStake b then uint256_div (push_bit 256 1) (bnTarget + 1)
      else do {
        bnPoWTrust \<leftarrow> uint256_div (drop_bit 20 (NOT 0)) (bnTarget + 1);
        Some (if bnPoWTrust > 1 then bnPoWTrust else 1) })"

subsection \<open>The weight of a block\<close>

lemma SetCompact_not_max: "fst (SetCompact c) \<noteq> - 1"
proof
  assume max: "fst (SetCompact c) = - 1"
  define k where "k = unat (drop_bit 24 c)"
  define w where "w = (if k \<le> 3 then drop_bit (8 * (3 - k)) (c AND 0x007fffff) else c AND 0x007fffff)"
  have f: "fst (SetCompact c) = (if k \<le> 3 then ucast w else push_bit (8 * (k - 3)) (ucast w))"
    by (simp add: SetCompact_def Let_def k_def w_def)
  have "bit (fst (SetCompact c)) 0" "bit (fst (SetCompact c)) 100" unfolding max by simp_all
  then show False
    unfolding f using bit_imp_le_length [of w 100] by (cases "k \<le> 3") (simp_all add: bit_simps)
qed

lemma u256_bound: "unat (t :: uint256) < 2 ^ 256"
  using unsigned_less [of t] by simp

lemma unat_max256: "unat (- 1 :: uint256) = 2 ^ 256 - 1"
  by (simp add: unsigned_minus_1_eq_mask mask_eq_exp_minus_1)

lemma unat_not256: "unat (NOT (t :: uint256)) = 2 ^ 256 - 1 - unat t"
proof -
  have "NOT t = - 1 - t" by (simp add: not_eq_complement)
  moreover have "unat t \<le> unat (- 1 :: uint256)" using u256_bound [of t] unfolding unat_max256 by simp
  ultimately show ?thesis unfolding unat_max256 [symmetric] by (simp add: unat_sub_if')
qed

lemma unat_succ256: 
  assumes "(t :: uint256) \<noteq> - 1"
  shows "unat (t + 1) = unat t + 1"
proof -
  have "unat t \<noteq> 2 ^ 256 - 1" using assms unat_max256 by (metis word_unat_eq_iff)
  then have "unat t + 1 < 2 ^ 256" using u256_bound [of t] by simp
  then show ?thesis by (simp add: unat_word_ariths)
qed

lemma work_exact:
  assumes "(t :: uint256) \<noteq> - 1" "t \<noteq> 0"
  shows "unat (NOT t div (t + 1) + 1) = 2 ^ 256 div (unat t + 1)"
proof -
  define N where "N = (2 :: nat) ^ 256"
  define n where "n = unat t + 1"
  have "unat t \<noteq> 0" using assms(2) by (simp add: unsigned_eq_0_iff)
  then have n: "n \<le> N" "2 \<le> n" using u256_bound [of t] by (simp_all add: n_def N_def)
  have "unat (NOT t div (t + 1)) = (N - n) div n"
    unfolding unat_div unat_succ256 [OF assms(1)] unat_not256 by (simp add: N_def n_def)
  then have q: "unat (NOT t div (t + 1)) + 1 = N div n" using le_div_geq [of n N] n by simp
  have "N div n \<le> N div 2" using n(2) by (intro div_le_mono2) auto
  also have "\<dots> < N" by (simp add: N_def)
  finally have "unat (NOT t div (t + 1) + 1) = N div n"
    unfolding unat_word_ariths q [symmetric] by (simp add: N_def)
  then show ?thesis unfolding N_def n_def .
qed

text \<open>C33. The work of a block whose target decodes to \<open>t > 0\<close> without flags is exactly \<open>2 ^ 256 div (t + 1)\<close>, the expected
  number of hashes, although \<open>2 ^ 256\<close> itself does not fit: no step wraps and there is no division by
  zero; with a flag or a zero target the work is 0. The trust score of a proof-of-stake block,
  meant to be the same number, is 0 for every target, because \<open>uint256(1) << 256\<close> is 0.\<close>

theorem block_work:
  "(case SetCompact (bi_nBits b) of (t, fNegative, fOverflow) \<Rightarrow>
     \<exists>w. GetBlockProof b = Some w \<and>
       unat w = (if fNegative \<or> fOverflow \<or> t = 0 then 0 else 2 ^ 256 div (unat t + 1))) \<and>
   (BI_IsProofOfStake b \<longrightarrow> GetBlockTrust b = Some 0)"
proof -
  obtain t fNegative fOverflow where f: "SetCompact (bi_nBits b) = (t, fNegative, fOverflow)" by (cases "SetCompact (bi_nBits b)")
  have tm: "t \<noteq> - 1" using SetCompact_not_max [of "bi_nBits b"] f by simp
  have nz: "t + 1 \<noteq> 0" using tm eq_neg_iff_add_eq_0 by blast
  have "\<exists>w. GetBlockProof b = Some w \<and> unat w = (if fNegative \<or> fOverflow \<or> t = 0 then 0 else 2 ^ 256 div (unat t + 1))"
  proof (cases "fNegative \<or> fOverflow \<or> t = 0")
    case False
    then have "GetBlockProof b = Some (NOT t div (t + 1) + 1)" using f nz unfolding GetBlockProof_def uint256_div_def by (simp only: f prod.case False if_False simp_thms Option.bind.bind_lunit Let_def)
    moreover have "unat (NOT t div (t + 1) + 1) = 2 ^ 256 div (unat t + 1)" using False by (intro work_exact tm) simp
    ultimately show ?thesis using False by simp
  qed (use f in \<open>simp add: GetBlockProof_def\<close>)
  moreover have "GetBlockTrust b = Some 0" if "BI_IsProofOfStake b"
  proof -
    have z: "(push_bit 256 1 :: uint256) = 0" by (rule bit_word_eqI, unfold bit_push_bit_iff) simp
    show ?thesis using that nz unfolding GetBlockTrust_def uint256_div_def Let_def f z by simp
  qed
  ultimately show ?thesis using f by simp
qed

theorem block_work_witness:
  "GetBlockTrust (CBlockIndex_null\<lparr>bi_nFlags := BLOCK_PROOF_OF_STAKE, bi_nBits := 0x1e0ffff0\<rparr>) = Some 0"
  using block_work [of "CBlockIndex_null\<lparr>bi_nFlags := BLOCK_PROOF_OF_STAKE, bi_nBits := 0x1e0ffff0\<rparr>", THEN conjunct2]
  by (simp add: BI_IsProofOfStake_def)

subsection \<open>Retargeting\<close>

lemma unat_mul_int64:
  assumes "0 \<le> n" "n < 2 ^ 32" "unat a * nat n < 2 ^ 256"
  shows "unat (mul_int64 a n) = unat a * nat n"
proof -
  have "unat (word_of_int n :: u32) = nat n" using assms(1,2) by (simp add: unsigned_of_int take_bit_int_eq_self)
  then have "unat (ucast (word_of_int n :: u32) :: uint256) = nat n"
    using assms(1,2) by (simp add: unsigned_ucast_eq take_bit_nat_eq_self nat_less_iff)
  then show ?thesis using assms(3) by (simp add: mul_int64_def unat_word_ariths)
qed

lemma div_int64_unat:
  assumes "0 < n" "n < 2 ^ 32"
  shows "\<exists>q. div_int64 a n = Some q \<and> unat q = unat a div nat n"
proof -
  have "unat (word_of_int n :: u64) = nat n" using assms by (simp add: unsigned_of_int take_bit_int_eq_self)
  then have u: "unat (ucast (word_of_int n :: u64) :: uint256) = nat n"
    using assms by (simp add: unsigned_ucast_eq take_bit_nat_eq_self nat_less_iff)
  then have "(ucast (word_of_int n :: u64) :: uint256) \<noteq> 0" using assms(1) by (metis unsigned_0 nat_0_iff leD)
  then show ?thesis using u by (simp add: div_int64_def uint256_div_def unat_div)
qed

lemma average_between:
  fixes a b lo hi c :: nat
  assumes "lo \<le> a" "a \<le> hi" "lo \<le> b" "b \<le> hi"
  shows "lo \<le> (a * c + b) div (c + 1)" "(a * c + b) div (c + 1) \<le> hi"
proof -
  have "lo * (c + 1) \<le> a * c + b" using assms by (simp add: add_mono mult_le_mono1 add.commute)
  then show "lo \<le> (a * c + b) div (c + 1)" by (metis div_le_mono nonzero_mult_div_cancel_right add_is_0 one_neq_zero)
  have "a * c + b \<le> hi * (c + 1)" using assms by (simp add: add_mono mult_le_mono1 add.commute)
  then show "(a * c + b) div (c + 1) \<le> hi" by (metis div_le_mono nonzero_mult_div_cancel_right add_is_0 one_neq_zero)
qed

text \<open>After \<open>k\<close> rounds the average lies between the smallest and the largest target read.\<close>

definition dgw_inv :: "nat \<Rightarrow> nat \<Rightarrow> nat \<Rightarrow> dgw_state \<Rightarrow> bool" where
  "dgw_inv lo hi k st \<longleftrightarrow> dg_CountBlocks st = int k \<and>
     (0 < k \<longrightarrow> dg_AveragePrev st = dg_Average st \<and> lo \<le> unat (dg_Average st) \<and> unat (dg_Average st) \<le> hi)"

lemma dgw_step_inv:
  assumes inv: "dgw_inv lo hi k st" and k: "k < 24" and hi: "hi < 2 ^ 240"
    and t: "lo \<le> unat (fst (SetCompact (bi_nBits b)))" "unat (fst (SetCompact (bi_nBits b))) \<le> hi"
  shows "\<exists>st'. dgw_step b st = Some st' \<and> dgw_inv lo hi (Suc k) st'"
proof -
  let ?t = "fst (SetCompact (bi_nBits b))" and ?st = "st\<lparr>dg_CountBlocks := dg_CountBlocks st + 1\<rparr>"
  have count: "dg_CountBlocks ?st = int (Suc k)" using inv by (simp add: dgw_inv_def)
  have "\<exists>a. dgw_average b ?st = Some a \<and> lo \<le> unat a \<and> unat a \<le> hi"
  proof (cases "k = 0")
    case True
    then show ?thesis using t count by (simp add: dgw_average_def)
  next
    case False
    let ?p = "dg_AveragePrev st" and ?c = "Suc k"
    have p: "lo \<le> unat ?p" "unat ?p \<le> hi" using inv False by (simp_all add: dgw_inv_def)
    have "unat ?p * ?c \<le> hi * 24" using p(2) k by (intro mult_le_mono) auto
    then have m: "unat (mul_int64 ?p (int ?c)) = unat ?p * ?c"
      using hi k by (subst unat_mul_int64) (simp_all del: of_nat_Suc)
    define m' where "m' = unat ?p * ?c"
    have "m' + unat ?t < 2 ^ 256" using \<open>unat ?p * ?c \<le> hi * 24\<close> t(2) hi by (simp add: m'_def)
    moreover have "unat (mul_int64 ?p (int ?c)) = m'" unfolding m'_def by (rule m)
    ultimately have "unat (mul_int64 ?p (int ?c) + ?t) = m' + unat ?t" by (simp add: unat_word_ariths del: of_nat_Suc)
    moreover obtain q where "div_int64 (mul_int64 ?p (int ?c) + ?t) (int ?c + 1) = Some q"
      "unat q = unat (mul_int64 ?p (int ?c) + ?t) div nat (int ?c + 1)"
      using div_int64_unat [of "int ?c + 1" "mul_int64 ?p (int ?c) + ?t"] k by auto
    ultimately show ?thesis using average_between [OF p t, of ?c] count False
      by (simp add: m'_def dgw_average_def add.commute [of "int k"] nat_add_distrib del: mult_Suc_right)
  qed
  then show ?thesis using count k by (auto simp: dgw_step_def dgw_inv_def Let_def)
qed

lemma dgw_loop_inv:
  assumes wf: "wf_index mem" and hi: "hi < 2 ^ 240"
  shows "mem p = Some b \<Longrightarrow> int n \<le> bi_nHeight b \<Longrightarrow> k + n \<le> 24 \<Longrightarrow> dgw_inv lo hi k st \<Longrightarrow>
    (\<forall>j < n. \<forall>q c. walk_prev mem j p = Some q \<and> mem q = Some c \<longrightarrow>
      lo \<le> unat (fst (SetCompact (bi_nBits c))) \<and> unat (fst (SetCompact (bi_nBits c))) \<le> hi) \<Longrightarrow>
    \<exists>st'. dgw_loop n mem (Some p) st = Some st' \<and> dgw_inv lo hi (k + n) st'"
proof (induction n arbitrary: p b k st)
  case (Suc n)
  have b: "lo \<le> unat (fst (SetCompact (bi_nBits b)))" "unat (fst (SetCompact (bi_nBits b))) \<le> hi"
    using Suc.prems(1) Suc.prems(5) [rule_format, of 0 p b] by simp_all
  obtain st1 where st1: "dgw_step b st = Some st1" "dgw_inv lo hi (Suc k) st1"
    using dgw_step_inv [OF Suc.prems(4) _ hi b] Suc.prems(3) by auto
  obtain q c where q: "bi_pprev b = Some q" "mem q = Some c" "bi_nHeight c = bi_nHeight b - 1"
    using wf_prev [OF wf Suc.prems(1)] Suc.prems(2) by auto
  have "lo \<le> unat (fst (SetCompact (bi_nBits d))) \<and> unat (fst (SetCompact (bi_nBits d))) \<le> hi"
    if "j < n" "walk_prev mem j q = Some r" "mem r = Some d" for j r d
    using Suc.prems(5) [rule_format, of "Suc j" r d] Suc.prems(1) q that by simp
  then obtain st' where "dgw_loop n mem (Some q) st1 = Some st'" "dgw_inv lo hi (Suc k + n) st'"
    using Suc.IH [OF q(2) _ _ st1(2)] Suc.prems(2,3) q(3) by auto
  then show ?case using Suc.prems(1,2) st1 q by simp
qed simp

lemma compact_target:
  "\<exists>t. SetCompact (GetCompact w False) = (t, False, False) \<and> t \<le> w \<and> (2 ^ 15 - 1) * unat w \<le> 2 ^ 15 * unat t"
proof -
  obtain t where t: "SetCompact (GetCompact w False) = (t, False, False)" "t \<le> w" "2 ^ 15 * (unat w - unat t) \<le> unat w"
    using compact_decodes [of w] by blast
  then show ?thesis by (intro exI [of _ t]) (simp add: word_le_nat_alt)
qed

lemma work_target_bounds:
  assumes inv: "dgw_inv lo hi 24 st" and hi: "hi < 2 ^ 240" and ts: "0 < cp_nTargetSpacing ps" "cp_nTargetSpacing ps \<le> 120"
  shows "\<exists>bits t. work_target ps st = Some bits \<and> SetCompact bits = (t, False, False) \<and>
    t \<le> cp_bnProofOfWorkLimit ps \<and> unat t \<le> 3 * hi \<and>
    (2 ^ 15 - 1) * min (unat (cp_bnProofOfWorkLimit ps)) (lo div 3) \<le> 2 ^ 15 * unat t"
proof -
  let ?s = "cp_nTargetSpacing ps" and ?L = "cp_bnProofOfWorkLimit ps" and ?a = "dg_Average st"
  have a: "lo \<le> unat ?a" "unat ?a \<le> hi" and count: "dg_CountBlocks st = 24" using inv by (simp_all add: dgw_inv_def)
  define span where "span = (let T = 24 * ?s; span1 = (if dg_nActualTimespan st < T div 3 then T div 3 else dg_nActualTimespan st)
    in if span1 > T * 3 then T * 3 else span1)"
  have span: "8 * ?s \<le> span" "span \<le> 72 * ?s" using ts by (auto simp: span_def Let_def)
  have ap: "unat ?a * nat span \<le> hi * 8640" using a(2) span ts by (intro mult_le_mono) auto
  have m: "unat (mul_int64 ?a span) = unat ?a * nat span"
    using span ts ap hi by (intro unat_mul_int64) auto
  obtain w where w: "div_int64 (mul_int64 ?a span) (24 * ?s) = Some w" "unat w = unat ?a * nat span div nat (24 * ?s)"
    using div_int64_unat [of "24 * ?s" "mul_int64 ?a span"] ts m by auto
  have n24: "nat (24 * ?s) = 24 * nat ?s" "0 < nat ?s" using ts by simp_all
  have "unat ?a * nat span \<le> hi * (72 * nat ?s)" using a(2) span ts by (intro mult_le_mono) auto
  then have "unat w \<le> (3 * hi * (24 * nat ?s)) div (24 * nat ?s)" unfolding w n24 by (intro div_le_mono) simp
  then have up: "unat w \<le> 3 * hi" using n24(2) by simp
  have "lo * (8 * nat ?s) \<le> unat ?a * nat span" using a(1) span ts by (intro mult_le_mono) auto
  then have "lo * (8 * nat ?s) div (24 * nat ?s) \<le> unat w" unfolding w n24 by (rule div_le_mono)
  moreover have "lo * (8 * nat ?s) div (24 * nat ?s) = lo div 3"
    using div_mult_mult1 [of "8 * nat ?s" lo 3] n24(2) by (simp add: mult.commute mult.left_commute)
  ultimately have low: "lo div 3 \<le> unat w" by simp
  define v where "v = (if w > ?L then ?L else w)"
  obtain t where t: "SetCompact (GetCompact v False) = (t, False, False)" "t \<le> v" "(2 ^ 15 - 1) * unat v \<le> 2 ^ 15 * unat t"
    using compact_target [of v] by blast
  have "work_target ps st = Some (GetCompact v False)"
    using w(1) count by (simp add: work_target_def span_def v_def Let_def)
  moreover have "v \<le> ?L" "unat v \<le> 3 * hi" using up by (auto simp: v_def word_less_nat_alt word_le_nat_alt)
  moreover have "min (unat ?L) (lo div 3) \<le> unat v" using low by (auto simp: v_def min_def)
  then have "(2 ^ 15 - 1) * min (unat ?L) (lo div 3) \<le> (2 ^ 15 - 1) * unat v" by (intro mult_le_mono2)
  ultimately show ?thesis using t by (intro exI [of _ "GetCompact v False"] exI [of _ t]) (auto simp: word_le_nat_alt)
qed

lemma stake_target_bounds:
  "\<exists>bits t. stake_target b spacing = Some bits \<and> SetCompact bits = (t, False, False) \<and> 0 < unat t \<and> unat t < 2 ^ 232"
proof -
  have lim: "unat (drop_bit 24 (NOT 0) :: uint256) = 2 ^ 232 - 1" by (simp add: unat_max256 unat_drop_bit_eq drop_bit_eq_div)
  obtain w where w: "div_int64 (mul_int64 (fst (SetCompact (bi_nBits b)))
      (2340 + (if spacing < 0 then 1 else spacing) + (if spacing < 0 then 1 else spacing))) 2460 = Some w"
    using div_int64_unat [of 2460 "mul_int64 (fst (SetCompact (bi_nBits b)))
      (2340 + (if spacing < 0 then 1 else spacing) + (if spacing < 0 then 1 else spacing))"] by auto
  define v where "v = (if w \<le> 0 \<or> w > drop_bit 24 (NOT 0) then drop_bit 24 (NOT 0) else w)"
  have v: "0 < unat v" "unat v \<le> 2 ^ 232 - 1"
    using lim by (auto simp: v_def word_less_nat_alt word_le_nat_alt simp del: unat_gt_0)
  obtain t where t: "SetCompact (GetCompact v False) = (t, False, False)" "t \<le> v" "(2 ^ 15 - 1) * unat v \<le> 2 ^ 15 * unat t"
    using compact_target [of v] by blast
  have "stake_target b spacing = Some (GetCompact v False)"
    using w by (simp add: stake_target_def v_def Let_def)
  moreover have "unat t \<le> unat v" using t(2) by (simp add: word_le_nat_alt)
  ultimately show ?thesis using t v by (intro exI [of _ "GetCompact v False"] exI [of _ t]) auto
qed

text \<open>C24. The next difficulty: on a well-formed index, after the first 24 blocks, \<open>GetNextWorkRequired\<close> returns a compact
  target that decodes without flags. In the proof-of-stake phase the target is positive and below \<open>2 ^ 232\<close>. In the proof-of-work phase, when
  the targets of the last 24 blocks lie between \<open>lo\<close> and \<open>hi\<close>, and \<open>hi\<close> is below \<open>2 ^ 240\<close> (the limits of the main and the test network
  are below \<open>2 ^ 236\<close>), the new target is at most the limit of the network, at most three
  times \<open>hi\<close> and, up to the precision of the format, at least a third of \<open>lo\<close> (or the limit), whatever the
  timestamps are: the moving average does not wrap. The regression test network allows targets above \<open>2 ^ 240\<close>; there the average
  wraps (\<open>regtest_average_wraps\<close>).\<close>

theorem next_work_bounds:
  assumes "wf_index mem" "mem p = Some b" "24 \<le> bi_nHeight b" "0 < cp_nTargetSpacing ps" "cp_nTargetSpacing ps \<le> 120"
  shows "(cp_nLastPOWBlock ps < bi_nHeight b \<longrightarrow>
      (\<exists>bits t. GetNextWorkRequired ps mem (Some p) = Some bits \<and> SetCompact bits = (t, False, False) \<and> 0 < unat t \<and> unat t < 2 ^ 232)) \<and>
    (bi_nHeight b \<le> cp_nLastPOWBlock ps \<and> hi < 2 ^ 240 \<and>
     (\<forall>j < 24. \<forall>q c. walk_prev mem j p = Some q \<and> mem q = Some c \<longrightarrow>
        lo \<le> unat (fst (SetCompact (bi_nBits c))) \<and> unat (fst (SetCompact (bi_nBits c))) \<le> hi) \<longrightarrow>
      (\<exists>bits t. GetNextWorkRequired ps mem (Some p) = Some bits \<and> SetCompact bits = (t, False, False) \<and>
         t \<le> cp_bnProofOfWorkLimit ps \<and> unat t \<le> 3 * hi \<and>
         (2 ^ 15 - 1) * min (unat (cp_bnProofOfWorkLimit ps)) (lo div 3) \<le> 2 ^ 15 * unat t))"
proof (intro conjI impI)
  assume pos: "cp_nLastPOWBlock ps < bi_nHeight b"
  have "bi_nHeight b \<noteq> 0" using assms(3) by simp
  then obtain q c where q: "bi_pprev b = Some q" "mem q = Some c" using wf_prev [OF assms(1,2)] by blast
  then have "GetNextWorkRequired ps mem (Some p) = stake_target b (GetBlockTime b - GetBlockTime c)"
    using pos assms(2,3) by (simp add: GetNextWorkRequired_def deref_def)
  then show "\<exists>bits t. GetNextWorkRequired ps mem (Some p) = Some bits \<and> SetCompact bits = (t, False, False) \<and> 0 < unat t \<and> unat t < 2 ^ 232"
    using stake_target_bounds [of b "GetBlockTime b - GetBlockTime c"] by simp
next
  assume work: "bi_nHeight b \<le> cp_nLastPOWBlock ps \<and> hi < 2 ^ 240 \<and>
     (\<forall>j < 24. \<forall>q c. walk_prev mem j p = Some q \<and> mem q = Some c \<longrightarrow>
        lo \<le> unat (fst (SetCompact (bi_nBits c))) \<and> unat (fst (SetCompact (bi_nBits c))) \<le> hi)"
  then have hi: "hi < 2 ^ 240" and range: "\<forall>j < 24. \<forall>q c. walk_prev mem j p = Some q \<and> mem q = Some c \<longrightarrow>
      lo \<le> unat (fst (SetCompact (bi_nBits c))) \<and> unat (fst (SetCompact (bi_nBits c))) \<le> hi" by blast+
  let ?st = "\<lparr>dg_CountBlocks = 0, dg_Average = 0, dg_AveragePrev = 0, dg_nActualTimespan = 0, dg_LastBlockTime = 0\<rparr>"
  have "dgw_inv lo hi 0 ?st" by (simp add: dgw_inv_def)
  then have "\<exists>st. dgw_loop 24 mem (Some p) ?st = Some st \<and> dgw_inv lo hi (0 + 24) st"
    using assms(3) by (intro dgw_loop_inv [OF assms(1) hi assms(2) _ _ _ range]) simp_all
  then obtain st where st: "dgw_loop 24 mem (Some p) ?st = Some st" "dgw_inv lo hi 24 st" by auto
  then have "GetNextWorkRequired ps mem (Some p) = work_target ps st"
    using work assms(2,3) by (simp add: GetNextWorkRequired_def)
  then show "\<exists>bits t. GetNextWorkRequired ps mem (Some p) = Some bits \<and> SetCompact bits = (t, False, False) \<and>
         t \<le> cp_bnProofOfWorkLimit ps \<and> unat t \<le> 3 * hi \<and>
         (2 ^ 15 - 1) * min (unat (cp_bnProofOfWorkLimit ps)) (lo div 3) \<le> 2 ^ 15 * unat t"
    using work_target_bounds [OF st(2) hi assms(4,5)] by simp
qed

theorem next_work_bounds_witness:
  "\<exists>bits t. GetNextWorkRequired mainParams (line_store 30) (Some 30) = Some bits \<and> SetCompact bits = (t, False, False) \<and>
    t \<le> cp_bnProofOfWorkLimit mainParams \<and> unat t \<le> 3 * 2 ^ 235"
proof -
  obtain b where b: "line_store 30 30 = Some b" "bi_nHeight b = 30" by (simp add: line_store_def)
  have "fst (SetCompact (bi_nBits c)) = 0" if "line_store 30 q = Some c" for q c
    using that by (auto simp: line_store_def CBlockIndex_null_def SetCompact_def Let_def split: if_splits)
  then show ?thesis
    using next_work_bounds [OF line_store_wf b(1), of mainParams "2 ^ 235" 0] b(2) by (fastforce simp: mainParams_def)
qed

text \<open>The easiest target of the regression test network: the average of two equal targets is less than half of them.\<close>

theorem regtest_average_wraps:
  assumes "bi_nBits b = 0x207fffff"
  defines "v \<equiv> fst (SetCompact 0x207fffff)"
  shows "v \<le> cp_bnProofOfWorkLimit regTestParams"
    and "\<exists>a. dgw_average b \<lparr>dg_CountBlocks = 2, dg_Average = v, dg_AveragePrev = v, dg_nActualTimespan = 0, dg_LastBlockTime = 0\<rparr> = Some a \<and>
      2 * unat a < unat v"
proof -
  have v: "v = push_bit 232 0x7fffff" by (simp add: v_def SetCompact_def Let_def)
  show "v \<le> cp_bnProofOfWorkLimit regTestParams" by (simp add: v regTestParams_def mask_eq_exp_minus_1)
  show "\<exists>a. dgw_average b \<lparr>dg_CountBlocks = 2, dg_Average = v, dg_AveragePrev = v, dg_nActualTimespan = 0, dg_LastBlockTime = 0\<rparr> = Some a \<and>
      2 * unat a < unat v"
    using assms(1) by (simp add: dgw_average_def div_int64_def mul_int64_def uint256_div_def v v_def [symmetric])
qed

end
