(* ===== verification/TxChecks.thy ===== *)
theory TxChecks
  imports Standard BlockCoins Pow
begin

text \<open>
  Checks of transactions, \<open>src/main.cpp\<close> and \<open>main.h\<close>: the validation state with its reject codes,
  the context-free rules, lock times, signature-operation counts, standardness, the inputs against
  a coins view, and the subsidy. A rejection is a value: the level, code, reason and flag that the
  code passes to \<open>CValidationState::DoS\<close>.
\<close>

section \<open>Validation states\<close>

datatype mode_state = MODE_VALID | MODE_INVALID | MODE_ERROR

record CValidationState =
  vs_mode :: mode_state
  vs_nDoS :: int
  vs_strRejectReason :: string
  vs_chRejectCode :: nat
  vs_corruptionPossible :: bool

definition CValidationState_new :: CValidationState where
  "CValidationState_new = \<lparr>vs_mode = MODE_VALID, vs_nDoS = 0, vs_strRejectReason = '''', vs_chRejectCode = 0,
     vs_corruptionPossible = False\<rparr>"

abbreviation (input) REJECT_INVALID :: nat where "REJECT_INVALID \<equiv> 0x10"
abbreviation (input) REJECT_OBSOLETE :: nat where "REJECT_OBSOLETE \<equiv> 0x11"
abbreviation (input) REJECT_DUPLICATE :: nat where "REJECT_DUPLICATE \<equiv> 0x12"
abbreviation (input) REJECT_NONSTANDARD :: nat where "REJECT_NONSTANDARD \<equiv> 0x40"
abbreviation (input) REJECT_CHECKPOINT :: nat where "REJECT_CHECKPOINT \<equiv> 0x43"

record reject =
  rj_level :: int
  rj_code :: nat
  rj_reason :: string
  rj_corruption :: bool

definition DoS :: "reject \<Rightarrow> CValidationState \<Rightarrow> CValidationState" where
  "DoS r st0 =
     (let st = st0\<lparr>vs_chRejectCode := rj_code r, vs_strRejectReason := rj_reason r,
                  vs_corruptionPossible := rj_corruption r\<rparr>
      in if vs_mode st = MODE_ERROR then st
         else st\<lparr>vs_nDoS := vs_nDoS st + rj_level r, vs_mode := MODE_INVALID\<rparr>)"

definition VS_Error :: "string \<Rightarrow> CValidationState \<Rightarrow> CValidationState" where
  "VS_Error reason st =
     (if vs_mode st = MODE_VALID then st\<lparr>vs_strRejectReason := reason, vs_mode := MODE_ERROR\<rparr>
      else st\<lparr>vs_mode := MODE_ERROR\<rparr>)"

definition reject_dos :: "int \<Rightarrow> nat \<Rightarrow> string \<Rightarrow> reject" where
  "reject_dos level code reason = \<lparr>rj_level = level, rj_code = code, rj_reason = reason, rj_corruption = False\<rparr>"

text \<open>\<open>Invalid\<close> is \<open>DoS\<close> at level 0.\<close>

definition reject_invalid :: "nat \<Rightarrow> string \<Rightarrow> reject" where
  "reject_invalid code reason = reject_dos 0 code reason"

definition reject_corrupt :: "int \<Rightarrow> nat \<Rightarrow> string \<Rightarrow> reject" where
  "reject_corrupt level code reason = (reject_dos level code reason)\<lparr>rj_corruption := True\<rparr>"

text \<open>A check whose result goes into the state.\<close>

definition with_state :: "reject option \<Rightarrow> CValidationState \<Rightarrow> bool \<times> CValidationState" where
  "with_state r st = (case r of None \<Rightarrow> (True, st) | Some e \<Rightarrow> (False, DoS e st))"

section \<open>Rules without context\<close>

abbreviation (input) MAX_BLOCK_SIZE :: nat where "MAX_BLOCK_SIZE \<equiv> 1000000"
abbreviation (input) MAX_STANDARD_TX_SIZE :: nat where "MAX_STANDARD_TX_SIZE \<equiv> 100000"
abbreviation (input) MAX_BLOCK_SIGOPS :: nat where "MAX_BLOCK_SIGOPS \<equiv> 20000"
abbreviation (input) MAX_P2SH_SIGOPS :: nat where "MAX_P2SH_SIGOPS \<equiv> 15"
abbreviation (input) LOCKTIME_THRESHOLD :: int where "LOCKTIME_THRESHOLD \<equiv> 500000000"

definition MoneyRange :: "CChainParams \<Rightarrow> CAmount \<Rightarrow> bool" where
  "MoneyRange ps nValueOut \<longleftrightarrow> nValueOut \<ge> 0 \<and> nValueOut \<le> cp_nMaxMoneyOut ps"

fun check_vout :: "CChainParams \<Rightarrow> bool \<Rightarrow> CAmount \<Rightarrow> CTxOut list \<Rightarrow> reject option" where
  "check_vout ps fUser nValueOut [] = None"
| "check_vout ps fUser nValueOut (out # vout) =
     (if CTxOut_IsEmpty out \<and> fUser then Some (reject_dos 100 0 '''')
      else if to_nValue out < 0 then Some (reject_dos 100 REJECT_INVALID ''bad-txns-vout-negative'')
      else if to_nValue out > cp_nMaxMoneyOut ps then Some (reject_dos 100 REJECT_INVALID ''bad-txns-vout-toolarge'')
      else let nValueOut' = add_int64 nValueOut (to_nValue out) in
        if \<not> MoneyRange ps nValueOut' then Some (reject_dos 100 REJECT_INVALID ''bad-txns-txouttotal-toolarge'')
        else check_vout ps fUser nValueOut' vout)"

fun check_duplicates :: "COutPoint list \<Rightarrow> CTxIn list \<Rightarrow> reject option" where
  "check_duplicates vInOutPoints [] = None"
| "check_duplicates vInOutPoints (txin # vin) =
     (if ti_prevout txin \<in> set vInOutPoints then Some (reject_dos 100 REJECT_INVALID ''bad-txns-inputs-duplicate'')
      else check_duplicates (ti_prevout txin # vInOutPoints) vin)"

definition check_cb :: "CTransaction \<Rightarrow> reject option" where
  "check_cb tx =
     (if IsCoinBase tx then
        (if length (ti_scriptSig (tx_vin tx ! 0)) < 2 \<or> length (ti_scriptSig (tx_vin tx ! 0)) > 150
         then Some (reject_dos 100 REJECT_INVALID ''bad-cb-length'') else None)
      else if list_ex (\<lambda>txin. COutPoint_IsNull (ti_prevout txin)) (tx_vin tx)
        then Some (reject_dos 10 REJECT_INVALID ''bad-txns-prevout-null'') else None)"

definition CheckTransaction_reject :: "CChainParams \<Rightarrow> CTransaction \<Rightarrow> reject option" where
  "CheckTransaction_reject ps tx =
     (if tx_vin tx = [] then Some (reject_dos 10 REJECT_INVALID ''bad-txns-vin-empty'')
      else if tx_vout tx = [] then Some (reject_dos 10 REJECT_INVALID ''bad-txns-vout-empty'')
      else if GetSerializeSize_CTransaction tx > MAX_BLOCK_SIZE then Some (reject_dos 100 REJECT_INVALID ''bad-txns-oversize'')
      else case check_vout ps (\<not> IsCoinBase tx \<and> \<not> IsCoinStake tx) 0 (tx_vout tx) of
             Some r \<Rightarrow> Some r
           | None \<Rightarrow> (case check_duplicates [] (tx_vin tx) of Some r \<Rightarrow> Some r | None \<Rightarrow> check_cb tx))"

definition CheckTransaction :: "CChainParams \<Rightarrow> CTransaction \<Rightarrow> CValidationState \<Rightarrow> bool \<times> CValidationState" where
  "CheckTransaction ps tx st = with_state (CheckTransaction_reject ps tx) st"

section \<open>Lock times\<close>

text \<open>\<open>nChainHeight\<close> and \<open>nAdjustedTime\<close> are the height of the active chain and the adjusted clock.\<close>

definition IsFinalTx :: "int \<Rightarrow> int \<Rightarrow> CTransaction \<Rightarrow> int \<Rightarrow> int \<Rightarrow> bool" where
  "IsFinalTx nChainHeight nAdjustedTime tx nBlockHeight0 nBlockTime0 =
     (if tx_nLockTime tx = 0 then True
      else let nBlockHeight = (if nBlockHeight0 = 0 then nChainHeight else nBlockHeight0);
               nBlockTime = (if nBlockTime0 = 0 then nAdjustedTime else nBlockTime0);
               nLockTime = uint (tx_nLockTime tx)
           in if nLockTime < (if nLockTime < LOCKTIME_THRESHOLD then nBlockHeight else nBlockTime) then True
              else \<not> list_ex (\<lambda>txin. \<not> CTxIn_IsFinal txin) (tx_vin tx))"

definition CheckFinalTx :: "block_store \<Rightarrow> CChain \<Rightarrow> int \<Rightarrow> CTransaction \<Rightarrow> int \<Rightarrow> bool option" where
  "CheckFinalTx mem chainActive nAdjustedTime tx flags0 =
     (let flags = max flags0 0; nBlockHeight = Height chainActive + 1
      in do {
        nBlockTime \<leftarrow> (if flags AND 2 \<noteq> 0 then do { p \<leftarrow> Tip chainActive; GetMedianTimePast mem p } else Some nAdjustedTime);
        Some (IsFinalTx (Height chainActive) nAdjustedTime tx nBlockHeight nBlockTime) })"

section \<open>Signature operations\<close>

definition GetLegacySigOpCount :: "CTransaction \<Rightarrow> nat" where
  "GetLegacySigOpCount tx =
     fold (\<lambda>out n. n + GetSigOpCount (to_scriptPubKey out) False) (tx_vout tx)
       (fold (\<lambda>txin n. n + GetSigOpCount (ti_scriptSig txin) False) (tx_vin tx) 0)"

fun p2sh_loop :: "'b GetCoins_fn \<Rightarrow> 'b CCoinsViewCache \<Rightarrow> CTxIn list \<Rightarrow> nat \<Rightarrow> (nat \<times> 'b CCoinsViewCache) option" where
  "p2sh_loop get v [] nSigOps = Some (nSigOps, v)"
| "p2sh_loop get v (txin # vin) nSigOps = do {
     (prevout, v') \<leftarrow> GetOutputFor get v txin;
     p2sh_loop get v' vin
       (if IsPayToScriptHash (to_scriptPubKey prevout)
        then nSigOps + GetSigOpCount_P2SH (to_scriptPubKey prevout) (ti_scriptSig txin) else nSigOps) }"

definition GetP2SHSigOpCount :: "'b GetCoins_fn \<Rightarrow> CTransaction \<Rightarrow> 'b CCoinsViewCache \<Rightarrow> (nat \<times> 'b CCoinsViewCache) option"
  where
  "GetP2SHSigOpCount get tx v = (if IsCoinBase tx then Some (0, v) else p2sh_loop get v (tx_vin tx) 0)"

section \<open>Standard transactions\<close>

text \<open>The settings \<open>-datacarrier\<close>, \<open>-datacarriersize\<close>, \<open>-permitbaremultisig\<close> and \<open>minRelayTxFee\<close>.\<close>

record relay_policy =
  rp_datacarrier :: bool
  rp_nMaxDatacarrierBytes :: nat
  rp_fIsBareMultisigStd :: bool
  rp_minRelayTxFee :: CAmount

fun standard_vin :: "CTxIn list \<Rightarrow> string option" where
  "standard_vin [] = None"
| "standard_vin (txin # vin) =
     (if length (ti_scriptSig txin) > 1650 then Some ''scriptsig-size''
      else if \<not> IsPushOnly (ti_scriptSig txin) then Some ''scriptsig-not-pushonly''
      else standard_vin vin)"

fun standard_vout :: "relay_policy \<Rightarrow> CTxOut list \<Rightarrow> nat \<Rightarrow> string + nat" where
  "standard_vout rp [] nDataOut = Inr nDataOut"
| "standard_vout rp (out # vout) nDataOut =
     (case IsStandard (rp_datacarrier rp) (rp_nMaxDatacarrierBytes rp) (to_scriptPubKey out) of (ok, whichType) \<Rightarrow>
      if \<not> ok then Inl ''scriptpubkey''
      else if whichType = TX_NULL_DATA then standard_vout rp vout (nDataOut + 1)
      else if whichType = TX_MULTISIG \<and> \<not> rp_fIsBareMultisigStd rp then Inl ''bare-multisig''
      else if IsDust out (rp_minRelayTxFee rp) then Inl ''dust''
      else standard_vout rp vout nDataOut)"

text \<open>\<open>None\<close> is acceptance, \<open>Some\<close> the reason.\<close>

definition IsStandardTx :: "relay_policy \<Rightarrow> int \<Rightarrow> int \<Rightarrow> CTransaction \<Rightarrow> string option" where
  "IsStandardTx rp nChainHeight nAdjustedTime tx =
     (if sint (tx_nVersion tx) > 1 \<or> sint (tx_nVersion tx) < 1 then Some ''version''
      else if \<not> IsFinalTx nChainHeight nAdjustedTime tx (nChainHeight + 1) 0 then Some ''non-final''
      else if GetSerializeSize_CTransaction tx \<ge> MAX_STANDARD_TX_SIZE then Some ''tx-size''
      else case standard_vin (tx_vin tx) of
             Some r \<Rightarrow> Some r
           | None \<Rightarrow> (case standard_vout rp (tx_vout tx) 0 of
                       Inl r \<Rightarrow> Some r
                     | Inr nDataOut \<Rightarrow> if nDataOut > 1 then Some ''multi-op-return'' else None))"

text \<open>\<open>BaseSignatureChecker\<close> accepts no signature.\<close>

fun standard_inputs :: "'b GetCoins_fn \<Rightarrow> 'b CCoinsViewCache \<Rightarrow> CTxIn list \<Rightarrow> (bool \<times> 'b CCoinsViewCache) option" where
  "standard_inputs get v [] = Some (True, v)"
| "standard_inputs get v0 (txin # vin) = do {
     (prev, v) \<leftarrow> GetOutputFor get v0 txin;
     (case Solver (to_scriptPubKey prev) of (ok, whichType, vSolutions) \<Rightarrow>
      let nArgsExpected = ScriptSigArgsExpected whichType vSolutions in
      if \<not> ok then Some (False, v)
      else if nArgsExpected < 0 then Some (False, v)
      else case EvalScript (\<lambda>_ _ _. False) 0 [] (ti_scriptSig txin) of
             Inl e \<Rightarrow> Some (False, v)
           | Inr stack \<Rightarrow>
              if whichType = TX_SCRIPTHASH then
                (case stack of
                   [] \<Rightarrow> Some (False, v)
                 | subscript # _ \<Rightarrow>
                    (case Solver subscript of (ok2, whichType2, vSolutions2) \<Rightarrow>
                     if ok2 then
                       (let tmpExpected = ScriptSigArgsExpected whichType2 vSolutions2 in
                        if tmpExpected < 0 then Some (False, v)
                        else if int (length stack) \<noteq> nArgsExpected + tmpExpected then Some (False, v)
                        else standard_inputs get v vin)
                     else Some (GetSigOpCount subscript True \<le> MAX_P2SH_SIGOPS, v)))
              else if int (length stack) \<noteq> nArgsExpected then Some (False, v)
              else standard_inputs get v vin) }"

definition AreInputsStandard :: "'b GetCoins_fn \<Rightarrow> CTransaction \<Rightarrow> 'b CCoinsViewCache \<Rightarrow> (bool \<times> 'b CCoinsViewCache) option"
  where
  "AreInputsStandard get tx v = (if IsCoinBase tx then Some (True, v) else standard_inputs get v (tx_vin tx))"

section \<open>Inputs\<close>

abbreviation (input) STANDARD_NOT_MANDATORY_VERIFY_FLAGS :: u32 where "STANDARD_NOT_MANDATORY_VERIFY_FLAGS \<equiv> 214"

record CScriptCheck =
  sc_scriptPubKey :: CScript
  sc_nIn :: nat
  sc_nFlags :: u32

text \<open>The signature checker of input \<open>nIn\<close> of a transaction is a parameter; in the node it is the caching checker.\<close>

definition script_check :: "(CTransaction \<Rightarrow> nat \<Rightarrow> sig_checker) \<Rightarrow> CTransaction \<Rightarrow> CScriptCheck \<Rightarrow> (ScriptError + unit) option" where
  "script_check checker tx c =
     VerifyScript (checker tx (sc_nIn c)) (sc_nFlags c) (ti_scriptSig (tx_vin tx ! sc_nIn c)) (sc_scriptPubKey c)"

fun check_values ::
  "CChainParams \<Rightarrow> 'b GetCoins_fn \<Rightarrow> int \<Rightarrow> 'b CCoinsViewCache \<Rightarrow> CTxIn list \<Rightarrow> CAmount \<Rightarrow>
   (reject option \<times> CAmount \<times> 'b CCoinsViewCache) option" where
  "check_values ps get nSpendHeight v [] nValueIn = Some (None, nValueIn, v)"
| "check_values ps get nSpendHeight v (txin # vin) nValueIn =
     (case AccessCoins get v (op_hash (ti_prevout txin)) of
        (None, v') \<Rightarrow> None
      | (Some coins, v') \<Rightarrow>
         (let n = unat (op_n (ti_prevout txin)) in
          if (cc_fCoinBase coins \<or> cc_fCoinStake coins) \<and> nSpendHeight - cc_nHeight coins < cp_nMaturity ps
          then Some (Some (reject_invalid REJECT_INVALID ''bad-txns-premature-spend-of-coinbase''), nValueIn, v')
          else if length (cc_vout coins) \<le> n then None
          else let nValue = to_nValue (cc_vout coins ! n); nValueIn' = add_int64 nValueIn nValue in
            if \<not> MoneyRange ps nValue \<or> \<not> MoneyRange ps nValueIn'
            then Some (Some (reject_dos 100 REJECT_INVALID ''bad-txns-inputvalues-outofrange''), nValueIn', v')
            else check_values ps get nSpendHeight v' vin nValueIn'))"

definition check_fee :: "CChainParams \<Rightarrow> CTransaction \<Rightarrow> CAmount \<Rightarrow> reject option option" where
  "check_fee ps tx nValueIn =
     (if IsCoinStake tx then Some None
      else case GetValueOut tx of
             Inl e \<Rightarrow> None
           | Inr nValueOut \<Rightarrow>
              if nValueIn < nValueOut then Some (Some (reject_dos 100 REJECT_INVALID ''bad-txns-in-belowout''))
              else let nTxFee = nValueIn - nValueOut in
                if nTxFee < 0 then Some (Some (reject_dos 100 REJECT_INVALID ''bad-txns-fee-negative''))
                else if \<not> MoneyRange ps nTxFee then Some (Some (reject_dos 100 REJECT_INVALID ''bad-txns-fee-outofrange''))
                else Some None)"

text \<open>
  The result of a failed script check. The second, weaker check shadows the first, so the message of
  the non-mandatory branch names the error of the check that has just succeeded.
\<close>

definition script_reject ::
  "(CTransaction \<Rightarrow> nat \<Rightarrow> sig_checker) \<Rightarrow> CTransaction \<Rightarrow> CScriptCheck \<Rightarrow> ScriptError \<Rightarrow> reject option" where
  "script_reject checker tx c e =
     (let mandatory = reject_dos 100 REJECT_INVALID (''mandatory-script-verify-flag-failed ('' @ ScriptErrorString e @ '')'') in
      if has_flag (sc_nFlags c) STANDARD_NOT_MANDATORY_VERIFY_FLAGS then
        (case script_check checker tx (c\<lparr>sc_nFlags := sc_nFlags c AND NOT STANDARD_NOT_MANDATORY_VERIFY_FLAGS\<rparr>) of
           None \<Rightarrow> None
         | Some (Inr _) \<Rightarrow>
            Some (reject_invalid REJECT_NONSTANDARD
              (''non-mandatory-script-verify-flag ('' @ ScriptErrorString SCRIPT_ERR_OK @ '')''))
         | Some (Inl _) \<Rightarrow> Some mandatory)
      else Some mandatory)"

fun check_scripts ::
  "'b GetCoins_fn \<Rightarrow> (CTransaction \<Rightarrow> nat \<Rightarrow> sig_checker) \<Rightarrow> CTransaction \<Rightarrow> u32 \<Rightarrow> bool \<Rightarrow> 'b CCoinsViewCache \<Rightarrow>
   (nat \<times> CTxIn) list \<Rightarrow> CScriptCheck list \<Rightarrow> (reject option \<times> CScriptCheck list \<times> 'b CCoinsViewCache) option" where
  "check_scripts get checker tx flags fDefer v [] vChecks = Some (None, vChecks, v)"
| "check_scripts get checker tx flags fDefer v ((i, txin) # vin) vChecks =
     (case AccessCoins get v (op_hash (ti_prevout txin)) of
        (None, v') \<Rightarrow> None
      | (Some coins, v') \<Rightarrow>
         (let n = unat (op_n (ti_prevout txin)) in
          if length (cc_vout coins) \<le> n then None
          else let check = \<lparr>sc_scriptPubKey = to_scriptPubKey (cc_vout coins ! n), sc_nIn = i, sc_nFlags = flags\<rparr> in
            if fDefer then check_scripts get checker tx flags fDefer v' vin (vChecks @ [check])
            else do {
              res \<leftarrow> script_check checker tx check;
              case res of
                Inr _ \<Rightarrow> check_scripts get checker tx flags fDefer v' vin vChecks
              | Inl e \<Rightarrow> do { r \<leftarrow> script_reject checker tx check e; Some (Some r, vChecks, v') } }))"

text \<open>
  \<open>fDefer\<close> is whether the caller collects the script checks in \<open>pvChecks\<close>. The results are the rejection, the
  collected checks and the view; \<open>None\<close> is an exception, a failed assertion or a null pointer.
\<close>

definition CheckInputs ::
  "CChainParams \<Rightarrow> 'b GetCoins_fn \<Rightarrow> 'b GetBestBlock_fn \<Rightarrow> BlockMap \<Rightarrow> block_store \<Rightarrow>
   (CTransaction \<Rightarrow> nat \<Rightarrow> sig_checker) \<Rightarrow> CTransaction \<Rightarrow> 'b CCoinsViewCache \<Rightarrow> bool \<Rightarrow> u32 \<Rightarrow> bool \<Rightarrow>
   (reject option \<times> CScriptCheck list \<times> 'b CCoinsViewCache) option" where
  "CheckInputs ps get best mapBlockIndex mem checker tx inputs fScriptChecks flags fDefer =
     (if IsCoinBase tx then Some (None, [], inputs)
      else case HaveInputs get inputs tx of
             (False, v) \<Rightarrow> Some (Some (reject_invalid 0 ''''), [], v)
           | (True, v) \<Rightarrow>
              (case Cache_GetBestBlock best v of (h, v1) \<Rightarrow> do {
                 p \<leftarrow> mapBlockIndex h;
                 pindexPrev \<leftarrow> mem p;
                 (r, nValueIn, v2) \<leftarrow> check_values ps get (bi_nHeight pindexPrev + 1) v1 (tx_vin tx) 0;
                 case r of
                   Some e \<Rightarrow> Some (Some e, [], v2)
                 | None \<Rightarrow> do {
                     f \<leftarrow> check_fee ps tx nValueIn;
                     case f of
                       Some e \<Rightarrow> Some (Some e, [], v2)
                     | None \<Rightarrow>
                        if fScriptChecks
                        then check_scripts get checker tx flags fDefer v2 (zip [0..<length (tx_vin tx)] (tx_vin tx)) []
                        else Some (None, [], v2) } }))"

section \<open>The subsidy\<close>

text \<open>A shift of a 64-bit number by 64 or more is undefined.\<close>

definition GetBlockValue :: "int \<Rightarrow> CAmount option" where
  "GetBlockValue nHeight =
     (if nHeight = 1 then Some (5000000 * COIN)
      else let halvings = nHeight div 525600 in
        if halvings \<ge> 64 then None
        else let nSubsidy = 10 * COIN div 2 ^ nat halvings
             in Some (if nSubsidy < 125000000 then 125000000 else nSubsidy))"

section \<open>What the rules without context enforce\<close>

definition total_out :: "CTransaction \<Rightarrow> int" where
  "total_out tx = sum_list (map to_nValue (tx_vout tx))"

definition tx_valid :: "CChainParams \<Rightarrow> CTransaction \<Rightarrow> bool" where
  "tx_valid ps tx \<longleftrightarrow>
     tx_vin tx \<noteq> [] \<and> tx_vout tx \<noteq> [] \<and> GetSerializeSize_CTransaction tx \<le> MAX_BLOCK_SIZE \<and>
     (\<forall>out \<in> set (tx_vout tx). MoneyRange ps (to_nValue out)) \<and> total_out tx \<le> cp_nMaxMoneyOut ps \<and>
     (IsCoinBase tx \<or> IsCoinStake tx \<or> (\<forall>out \<in> set (tx_vout tx). \<not> CTxOut_IsEmpty out)) \<and>
     distinct (map ti_prevout (tx_vin tx)) \<and>
     (if IsCoinBase tx then 2 \<le> length (ti_scriptSig (tx_vin tx ! 0)) \<and> length (ti_scriptSig (tx_vin tx ! 0)) \<le> 150
      else \<forall>txin \<in> set (tx_vin tx). \<not> COutPoint_IsNull (ti_prevout txin))"

text \<open>The rule a reason stands for is broken; the output without a value and a script has no reason string.\<close>

inductive tx_breaks :: "CChainParams \<Rightarrow> CTransaction \<Rightarrow> string \<Rightarrow> bool" for ps tx where
  no_inputs: "tx_vin tx = [] \<Longrightarrow> tx_breaks ps tx ''bad-txns-vin-empty''"
| no_outputs: "tx_vout tx = [] \<Longrightarrow> tx_breaks ps tx ''bad-txns-vout-empty''"
| oversize: "MAX_BLOCK_SIZE < GetSerializeSize_CTransaction tx \<Longrightarrow> tx_breaks ps tx ''bad-txns-oversize''"
| empty_output: "\<not> IsCoinBase tx \<Longrightarrow> \<not> IsCoinStake tx \<Longrightarrow> out \<in> set (tx_vout tx) \<Longrightarrow> CTxOut_IsEmpty out \<Longrightarrow>
    tx_breaks ps tx []"
| negative: "out \<in> set (tx_vout tx) \<Longrightarrow> to_nValue out < 0 \<Longrightarrow> tx_breaks ps tx ''bad-txns-vout-negative''"
| too_large: "out \<in> set (tx_vout tx) \<Longrightarrow> cp_nMaxMoneyOut ps < to_nValue out \<Longrightarrow> tx_breaks ps tx ''bad-txns-vout-toolarge''"
| total: "cp_nMaxMoneyOut ps < sum_list (map to_nValue (take k (tx_vout tx))) \<Longrightarrow>
    tx_breaks ps tx ''bad-txns-txouttotal-toolarge''"
| duplicate: "\<not> distinct (map ti_prevout (tx_vin tx)) \<Longrightarrow> tx_breaks ps tx ''bad-txns-inputs-duplicate''"
| cb_length: "IsCoinBase tx \<Longrightarrow>
    length (ti_scriptSig (tx_vin tx ! 0)) < 2 \<or> 150 < length (ti_scriptSig (tx_vin tx ! 0)) \<Longrightarrow>
    tx_breaks ps tx ''bad-cb-length''"
| null_input: "\<not> IsCoinBase tx \<Longrightarrow> txin \<in> set (tx_vin tx) \<Longrightarrow> COutPoint_IsNull (ti_prevout txin) \<Longrightarrow>
    tx_breaks ps tx ''bad-txns-prevout-null''"

lemma reject_dos_sel [simp]:
  "rj_level (reject_dos l c r) = l" "rj_code (reject_dos l c r) = c" "rj_reason (reject_dos l c r) = r"
  "rj_corruption (reject_dos l c r) = False"
  by (simp_all add: reject_dos_def)

lemma sum_list_nonneg_int: "(\<forall>x \<in> set xs. 0 \<le> f x) \<Longrightarrow> 0 \<le> sum_list (map f xs)" for f :: "'a \<Rightarrow> int"
  by (induction xs) auto

lemma check_vout_None:
  assumes m: "cp_nMaxMoneyOut ps < 2 ^ 62"
  shows "0 \<le> a \<Longrightarrow> a \<le> cp_nMaxMoneyOut ps \<Longrightarrow> check_vout ps fUser a vout = None \<longleftrightarrow>
    (\<forall>out \<in> set vout. MoneyRange ps (to_nValue out) \<and> \<not> (CTxOut_IsEmpty out \<and> fUser)) \<and>
    a + sum_list (map to_nValue vout) \<le> cp_nMaxMoneyOut ps"
proof (induction vout arbitrary: a)
  case (Cons out vout)
  show ?case
  proof (cases "MoneyRange ps (to_nValue out)")
    case True
    then have e: "add_int64 a (to_nValue out) = a + to_nValue out"
      using Cons.prems m by (intro add_int64_exact) (auto simp: MoneyRange_def)
    show ?thesis
    proof (cases "a + to_nValue out \<le> cp_nMaxMoneyOut ps")
      case le: True
      then show ?thesis using Cons.IH [of "a + to_nValue out"] Cons.prems True e by (auto simp: MoneyRange_def Let_def)
    next
      case False
      moreover have "a + (to_nValue out + sum_list (map to_nValue vout)) > cp_nMaxMoneyOut ps"
        if "\<forall>out \<in> set vout. MoneyRange ps (to_nValue out)"
        using False that sum_list_nonneg_int [of vout to_nValue] by (simp add: MoneyRange_def)
      ultimately show ?thesis using True e by (auto simp: MoneyRange_def Let_def)
    qed
  qed (auto simp: MoneyRange_def)
qed simp

lemma check_vout_Some:
  assumes m: "cp_nMaxMoneyOut ps < 2 ^ 62"
  shows "0 \<le> a \<Longrightarrow> a \<le> cp_nMaxMoneyOut ps \<Longrightarrow> check_vout ps fUser a vout = Some r \<Longrightarrow>
    rj_level r = 100 \<and> rj_corruption r = False \<and>
    (rj_reason r = '''' \<and> fUser \<and> (\<exists>out \<in> set vout. CTxOut_IsEmpty out) \<or>
     rj_reason r = ''bad-txns-vout-negative'' \<and> (\<exists>out \<in> set vout. to_nValue out < 0) \<or>
     rj_reason r = ''bad-txns-vout-toolarge'' \<and> (\<exists>out \<in> set vout. cp_nMaxMoneyOut ps < to_nValue out) \<or>
     rj_reason r = ''bad-txns-txouttotal-toolarge'' \<and>
       (\<exists>k. cp_nMaxMoneyOut ps < a + sum_list (map to_nValue (take k vout))))"
proof (induction vout arbitrary: a)
  case (Cons out vout)
  show ?case
  proof (cases "MoneyRange ps (to_nValue out) \<and> \<not> (CTxOut_IsEmpty out \<and> fUser)")
    case True
    then have e: "add_int64 a (to_nValue out) = a + to_nValue out"
      using Cons.prems m by (intro add_int64_exact) (auto simp: MoneyRange_def)
    show ?thesis
    proof (cases "a + to_nValue out \<le> cp_nMaxMoneyOut ps")
      case le: True
      then have r: "check_vout ps fUser (a + to_nValue out) vout = Some r"
        using Cons.prems True e by (auto simp: MoneyRange_def Let_def split: if_splits)
      have "\<exists>k. cp_nMaxMoneyOut ps < a + sum_list (map to_nValue (take k (out # vout)))"
        if "\<exists>k. cp_nMaxMoneyOut ps < a + to_nValue out + sum_list (map to_nValue (take k vout))"
        using that by (metis add.assoc list.simps(9) sum_list.Cons take_Suc_Cons)
      then show ?thesis using Cons.IH [OF _ le r] Cons.prems True by (auto simp: MoneyRange_def)
    next
      case False
      then show ?thesis using Cons.prems True e
        by (auto simp: MoneyRange_def Let_def reject_dos_def intro!: exI [of _ 1] split: if_splits)
    qed
  qed (use Cons.prems in \<open>auto simp: MoneyRange_def reject_dos_def split: if_splits\<close>)
qed simp

lemma check_duplicates_None:
  "check_duplicates seen vin = None \<longleftrightarrow> distinct (map ti_prevout vin) \<and> set (map ti_prevout vin) \<inter> set seen = {}"
  by (induction seen vin rule: check_duplicates.induct) auto

lemma check_duplicates_Some:
  "check_duplicates seen vin = Some r \<Longrightarrow> r = reject_dos 100 REJECT_INVALID ''bad-txns-inputs-duplicate''"
  by (induction seen vin rule: check_duplicates.induct) (auto split: if_splits)

lemma CheckTransaction_reject_None:
  assumes "0 \<le> cp_nMaxMoneyOut ps" "cp_nMaxMoneyOut ps < 2 ^ 62"
  shows "CheckTransaction_reject ps tx = None \<longleftrightarrow> tx_valid ps tx"
proof -
  have "check_vout ps (\<not> IsCoinBase tx \<and> \<not> IsCoinStake tx) 0 (tx_vout tx) = None \<longleftrightarrow>
    (\<forall>out \<in> set (tx_vout tx). MoneyRange ps (to_nValue out)) \<and> total_out tx \<le> cp_nMaxMoneyOut ps \<and>
    (IsCoinBase tx \<or> IsCoinStake tx \<or> (\<forall>out \<in> set (tx_vout tx). \<not> CTxOut_IsEmpty out))"
    using check_vout_None [OF assms(2), of 0] assms(1) by (auto simp: total_out_def)
  moreover have "check_duplicates [] (tx_vin tx) = None \<longleftrightarrow> distinct (map ti_prevout (tx_vin tx))"
    by (simp add: check_duplicates_None)
  moreover have "check_cb tx = None \<longleftrightarrow>
    (if IsCoinBase tx then 2 \<le> length (ti_scriptSig (tx_vin tx ! 0)) \<and> length (ti_scriptSig (tx_vin tx ! 0)) \<le> 150
      else \<forall>txin \<in> set (tx_vin tx). \<not> COutPoint_IsNull (ti_prevout txin))"
    by (auto simp: check_cb_def list_ex_iff)
  ultimately show ?thesis unfolding CheckTransaction_reject_def tx_valid_def by (auto split: option.splits)
qed

lemma tx_valid_GetValueOut:
  assumes "tx_valid ps tx" "cp_nMaxMoneyOut ps < 2 ^ 62"
  shows "GetValueOut tx = Inr (total_out tx)" "MoneyRange ps (total_out tx)"
proof -
  have r: "\<forall>out \<in> set (tx_vout tx). MoneyRange ps (to_nValue out)" "total_out tx \<le> cp_nMaxMoneyOut ps"
    using assms(1) by (auto simp: tx_valid_def)
  have "0 \<le> total_out tx" using r(1) sum_list_nonneg_int [of "tx_vout tx" to_nValue] by (simp add: total_out_def MoneyRange_def)
  then show "MoneyRange ps (total_out tx)" using r(2) by (simp add: MoneyRange_def)
  show "GetValueOut tx = Inr (total_out tx)"
    unfolding GetValueOut_def using r assms(2)
    by (subst value_out_loop_iff) (auto simp: list_all_iff MoneyRange_def total_out_def)
qed


lemma CheckTransaction_reject_Some:
  assumes "0 \<le> cp_nMaxMoneyOut ps" "cp_nMaxMoneyOut ps < 2 ^ 62" "CheckTransaction_reject ps tx = Some r"
  shows "rj_level r \<in> {10, 100} \<and> rj_corruption r = False \<and> tx_breaks ps tx (rj_reason r)"
proof -
  let ?v = "check_vout ps (\<not> IsCoinBase tx \<and> \<not> IsCoinStake tx) 0 (tx_vout tx)"
  note def = assms(3) [unfolded CheckTransaction_reject_def]
  consider "tx_vin tx = []" | "tx_vin tx \<noteq> []" "tx_vout tx = []"
    | "tx_vin tx \<noteq> []" "tx_vout tx \<noteq> []" "MAX_BLOCK_SIZE < GetSerializeSize_CTransaction tx"
    | "?v = Some r" | "check_duplicates [] (tx_vin tx) = Some r" | "check_cb tx = Some r"
    using def by (cases ?v; cases "check_duplicates [] (tx_vin tx)") (simp_all split: if_split_asm)
  then show ?thesis
  proof cases
    case 1
    then have "r = reject_dos 10 REJECT_INVALID ''bad-txns-vin-empty''" using def by simp
    then show ?thesis using 1 by (simp add: tx_breaks.no_inputs)
  next
    case 2
    then have "r = reject_dos 10 REJECT_INVALID ''bad-txns-vout-empty''" using def by simp
    then show ?thesis using 2 by (simp add: tx_breaks.no_outputs)
  next
    case 3
    then have "r = reject_dos 100 REJECT_INVALID ''bad-txns-oversize''" using def by simp
    then show ?thesis using 3 by (simp add: tx_breaks.oversize)
  next
    case 4
    note c = check_vout_Some [OF assms(2) order.refl assms(1) 4]
    have "tx_breaks ps tx (rj_reason r)"
      using c [THEN conjunct2, THEN conjunct2] by (elim disjE) (auto intro: tx_breaks.intros)
    then show ?thesis using c by simp
  next
    case 5
    then have "\<not> distinct (map ti_prevout (tx_vin tx))" using check_duplicates_None [of "[]" "tx_vin tx"] by simp
    then show ?thesis using check_duplicates_Some [OF 5] by (simp add: tx_breaks.duplicate)
  next
    case 6
    show ?thesis
    proof (cases "IsCoinBase tx")
      case True
      then have "r = reject_dos 100 REJECT_INVALID ''bad-cb-length''"
        "length (ti_scriptSig (tx_vin tx ! 0)) < 2 \<or> 150 < length (ti_scriptSig (tx_vin tx ! 0))"
        using 6 by (simp_all add: check_cb_def split: if_split_asm)
      then show ?thesis using True by (simp add: tx_breaks.cb_length)
    next
      case False
      then have "r = reject_dos 10 REJECT_INVALID ''bad-txns-prevout-null''"
        "\<exists>txin \<in> set (tx_vin tx). COutPoint_IsNull (ti_prevout txin)"
        using 6 by (simp_all add: check_cb_def list_ex_iff split: if_split_asm)
      then show ?thesis using False by (auto intro: tx_breaks.null_input)
    qed
  qed
qed

text \<open>C10. The rules a transaction must keep on its own: \<open>CheckTransaction\<close> accepts exactly the transactions that have
  inputs and outputs, fit a block, create no value out of range, not even in total, spend no output
  twice, have no empty output unless they are a coinbase or a coinstake, and have a coinbase script
  of 2 to 150 bytes or no null input. On acceptance the state is untouched and the value of the outputs is the exact sum. On
  rejection the state is marked invalid at level 10 or 100 for a reason whose rule the transaction breaks.\<close>

theorem CheckTransaction_correct:
  assumes "0 \<le> cp_nMaxMoneyOut ps" "cp_nMaxMoneyOut ps < 2 ^ 62"
  shows "case CheckTransaction ps tx st of (ok, st') \<Rightarrow>
    (ok \<longleftrightarrow> tx_valid ps tx) \<and>
    (ok \<longrightarrow> st' = st \<and> GetValueOut tx = Inr (total_out tx) \<and> MoneyRange ps (total_out tx)) \<and>
    (\<not> ok \<longrightarrow> (\<exists>r. st' = DoS r st \<and> rj_level r \<in> {10, 100} \<and> rj_corruption r = False \<and> tx_breaks ps tx (rj_reason r)))"
proof (cases "CheckTransaction_reject ps tx")
  case None
  then have v: "tx_valid ps tx" using CheckTransaction_reject_None [OF assms] by simp
  then show ?thesis using None tx_valid_GetValueOut [OF v assms(2)] by (simp add: CheckTransaction_def with_state_def)
next
  case (Some r)
  then have "\<not> tx_valid ps tx" using CheckTransaction_reject_None [OF assms, of tx] by simp
  then show ?thesis using Some CheckTransaction_reject_Some [OF assms Some] by (auto simp: CheckTransaction_def with_state_def)
qed

definition example_tx :: CTransaction where
  "example_tx = \<lparr>tx_nVersion = 1, tx_vin = [\<lparr>ti_prevout = \<lparr>op_hash = 7, op_n = 1\<rparr>, ti_scriptSig = [], ti_nSequence = - 1\<rparr>],
     tx_vout = [CTxOut_new 6 [0x51]], tx_nLockTime = 0\<rparr>"

theorem CheckTransaction_correct_witness:
  "fst (CheckTransaction mainParams example_tx CValidationState_new) \<longleftrightarrow> tx_valid mainParams example_tx"
  using CheckTransaction_correct [of mainParams example_tx CValidationState_new]
  by (simp add: mainParams_def split: prod.splits)

lemma subsidy_value:
  assumes "0 \<le> h" "h < 64 * 525600" "h \<noteq> 1"
  shows "GetBlockValue h = Some (max 125000000 (10 * COIN div 2 ^ nat (h div 525600)))"
proof -
  have "h div 525600 < 64" using assms(2) by simp
  then show ?thesis using assms(3) by (simp add: GetBlockValue_def Let_def max_def)
qed

lemma subsidy_low:
  assumes "0 \<le> h" "h < 64 * 525600"
  shows "\<exists>v. GetBlockValue h = Some v \<and> 125000000 \<le> v"
  using subsidy_value [OF assms] by (cases "h = 1") (simp_all add: GetBlockValue_def)

lemma subsidy_shift_le: "j \<le> k \<Longrightarrow> (10 * COIN) div 2 ^ k \<le> (10 * COIN) div (2 ^ j :: int)"
  by (intro zdiv_mono2 power_increasing) auto

text \<open>C35. The subsidy: for every height below 64 halvings it is defined, at least 1.25 coins, and, after the premine of
  block 1, at most 10 coins, never rising from one block to a later one and constant at 1.25 coins from height 1576800 on. Because
  it never ends, the subsidies of the blocks 1 to \<open>n\<close> exceed the 33 million coins of \<open>MaxMoneyOut\<close> from
  \<open>n = 22400002\<close> on.\<close>

theorem block_subsidy:
  assumes "0 \<le> h" "h < 64 * 525600"
  shows "\<exists>v. GetBlockValue h = Some v \<and> 125000000 \<le> v \<and> (h \<noteq> 1 \<longrightarrow> v \<le> 10 * COIN) \<and>
    (1576800 \<le> h \<longrightarrow> v = 125000000) \<and>
    (\<forall>g w. 1 < g \<and> g \<le> h \<and> GetBlockValue g = Some w \<longrightarrow> v \<le> w) \<and>
    (22400002 \<le> h \<longrightarrow> cp_nMaxMoneyOut mainParams < (\<Sum>g = 1..h. the (GetBlockValue g)))"
proof -
  obtain v where v: "GetBlockValue h = Some v" "125000000 \<le> v" using subsidy_low [OF assms] by blast
  have "v \<le> 10 * COIN" if "h \<noteq> 1" using subsidy_value [OF assms that] v(1) subsidy_shift_le [of 0 "nat (h div 525600)"] by simp
  moreover have "v = 125000000" if "1576800 \<le> h"
  proof -
    have "3 \<le> nat (h div 525600)" using that by simp
    then show ?thesis using subsidy_value [OF assms] v(1) that subsidy_shift_le [of 3 "nat (h div 525600)"] by simp
  qed
  moreover have "v \<le> w" if "1 < g" "g \<le> h" "GetBlockValue g = Some w" for g w
  proof -
    have "nat (g div 525600) \<le> nat (h div 525600)" using that(2) by (intro nat_mono zdiv_mono1) auto
    then have "max 125000000 (10 * COIN div 2 ^ nat (h div 525600)) \<le> max 125000000 (10 * COIN div (2 ^ nat (g div 525600) :: int))"
      by (intro max.mono subsidy_shift_le) auto
    moreover have "v = max 125000000 (10 * COIN div 2 ^ nat (h div 525600))" using subsidy_value [OF assms] v(1) that by simp
    moreover have "w = max 125000000 (10 * COIN div 2 ^ nat (g div 525600))" using subsidy_value [of g] that assms(2) by simp
    ultimately show ?thesis by (simp only:)
  qed
  moreover have "cp_nMaxMoneyOut mainParams < (\<Sum>g = 1..h. the (GetBlockValue g))" if h: "22400002 \<le> h"
  proof -
    have "{1..h} = insert 1 {2..h}" using h by auto
    then have "(\<Sum>g = 1..h. the (GetBlockValue g)) = the (GetBlockValue 1) + (\<Sum>g = 2..h. the (GetBlockValue g))" by simp
    moreover have "of_nat (card {2..h}) * 125000000 \<le> (\<Sum>g = 2..h. the (GetBlockValue g))"
    proof (rule sum_bounded_below)
      show "125000000 \<le> the (GetBlockValue g)" if "g \<in> {2..h}" for g
        using subsidy_low [of g] that assms(2) by auto
    qed
    ultimately show ?thesis using h by (simp add: GetBlockValue_def mainParams_def)
  qed
  ultimately show ?thesis using v by blast
qed

theorem block_subsidy_witness: "\<exists>v. GetBlockValue 600000 = Some v \<and> 125000000 \<le> v \<and> v \<le> 10 * COIN"
  using block_subsidy [of 600000] by auto

section \<open>What the check of the inputs enforces\<close>

definition spent_output :: "(uint256 \<rightharpoonup> CCoins) \<Rightarrow> CTxIn \<Rightarrow> CTxOut" where
  "spent_output u txin = cc_vout (the (u (op_hash (ti_prevout txin)))) ! unat (op_n (ti_prevout txin))"

definition total_in :: "(uint256 \<rightharpoonup> CCoins) \<Rightarrow> CTxIn list \<Rightarrow> int" where
  "total_in u vin = sum_list (map (\<lambda>txin. to_nValue (spent_output u txin)) vin)"

text \<open>The input names an unspent output, which is mature at the given height.\<close>

definition spendable :: "CChainParams \<Rightarrow> (uint256 \<rightharpoonup> CCoins) \<Rightarrow> int \<Rightarrow> CTxIn \<Rightarrow> bool" where
  "spendable ps u nSpendHeight txin \<longleftrightarrow> (\<exists>c. u (op_hash (ti_prevout txin)) = Some c \<and>
     IsAvailable c (unat (op_n (ti_prevout txin))) \<and>
     (cc_fCoinBase c \<or> cc_fCoinStake c \<longrightarrow> cp_nMaturity ps \<le> nSpendHeight - cc_nHeight c))"

lemma IsAvailable_not_pruned: "IsAvailable c n \<Longrightarrow> \<not> IsPruned c"
  by (auto simp: IsAvailable_def IsPruned_def list_all_length)

context coins_reader
begin

text \<open>Reading leaves the invariant and what the cache stands for.\<close>

definition same_view :: "'b CCoinsViewCache \<Rightarrow> 'b CCoinsViewCache \<Rightarrow> bool" where
  "same_view v v' \<longleftrightarrow> cache_inv inv utxo present v' \<and> cache_utxo utxo v' = cache_utxo utxo v \<and> cache_tip tip v' = cache_tip tip v"

lemma same_view_trans: "same_view u v \<Longrightarrow> same_view v w \<Longrightarrow> same_view u w"
  by (simp add: same_view_def)

lemma AccessCoins_spec:
  assumes "cache_inv inv utxo present v" "AccessCoins get v k = (r, v')"
  shows "unspent r = cache_utxo utxo v k \<and> same_view v v'"
  using FetchCoins_spec [OF assms(1), of k] assms(2) by (auto simp: AccessCoins_def same_view_def split: prod.splits)

lemma have_inputs_spec:
  assumes "cache_inv inv utxo present v" "have_inputs_loop get v vin = (ok, v')"
  shows "same_view v v' \<and> (ok \<longrightarrow> (\<forall>txin \<in> set vin. \<exists>c. cache_utxo utxo v (op_hash (ti_prevout txin)) = Some c \<and>
    IsAvailable c (unat (op_n (ti_prevout txin)))))"
  using assms
proof (induction vin arbitrary: v)
  case (Cons txin vin)
  obtain r v1 where a: "AccessCoins get v (op_hash (ti_prevout txin)) = (r, v1)" by (cases "AccessCoins get v (op_hash (ti_prevout txin))")
  note s = AccessCoins_spec [OF Cons.prems(1) a]
  show ?case
  proof (cases "\<exists>c. r = Some c \<and> IsAvailable c (unat (op_n (ti_prevout txin)))")
    case True
    then obtain c where c: "r = Some c" "IsAvailable c (unat (op_n (ti_prevout txin)))" by blast
    then have u: "cache_utxo utxo v (op_hash (ti_prevout txin)) = Some c" using s IsAvailable_not_pruned [OF c(2)] by simp
    have "have_inputs_loop get v1 vin = (ok, v')" using Cons.prems(2) a c by simp
    then show ?thesis using Cons.IH [of v1] s u c(2) by (auto simp: same_view_def)
  next
    case False
    then have "(ok, v') = (False, v1)" using Cons.prems(2) a by (auto split: option.splits if_splits)
    then show ?thesis using s by simp
  qed
qed (simp add: same_view_def)

lemma check_values_spec:
  assumes max: "cp_nMaxMoneyOut ps < 2 ^ 62"
  shows "cache_inv inv utxo present v \<Longrightarrow> check_values ps get h v vin a = Some (None, nValueIn, v') \<Longrightarrow>
    MoneyRange ps a \<Longrightarrow>
    (\<forall>txin \<in> set vin. \<exists>c. cache_utxo utxo v (op_hash (ti_prevout txin)) = Some c \<and> IsAvailable c (unat (op_n (ti_prevout txin)))) \<Longrightarrow>
    same_view v v' \<and> nValueIn = a + total_in (cache_utxo utxo v) vin \<and> MoneyRange ps nValueIn \<and>
    (\<forall>txin \<in> set vin. spendable ps (cache_utxo utxo v) h txin)"
proof (induction vin arbitrary: v a)
  case (Cons txin vin)
  let ?k = "op_hash (ti_prevout txin)" and ?n = "unat (op_n (ti_prevout txin))"
  obtain r v1 where a: "AccessCoins get v ?k = (r, v1)" by (cases "AccessCoins get v ?k")
  note s = AccessCoins_spec [OF Cons.prems(1) a]
  obtain c where c: "cache_utxo utxo v ?k = Some c" "IsAvailable c ?n" using Cons.prems(4) by auto
  then have r: "r = Some c" using s unspent_SomeD by metis
  let ?val = "to_nValue (cc_vout c ! ?n)"
  have ok: "\<not> ((cc_fCoinBase c \<or> cc_fCoinStake c) \<and> h - cc_nHeight c < cp_nMaturity ps)"
    "MoneyRange ps ?val" "MoneyRange ps (add_int64 a ?val)"
    "check_values ps get h v1 vin (add_int64 a ?val) = Some (None, nValueIn, v')"
    using Cons.prems(2) a r by (auto simp: Let_def split: if_splits)
  have "add_int64 a ?val = a + ?val"
    using ok(2) Cons.prems(3) max by (intro add_int64_exact) (auto simp: MoneyRange_def)
  moreover have "to_nValue (spent_output (cache_utxo utxo v) txin) = ?val" using c(1) by (simp add: spent_output_def)
  moreover have "spendable ps (cache_utxo utxo v) h txin" using c ok(1) by (auto simp: spendable_def)
  ultimately show ?case
    using Cons.IH [OF _ ok(4,3)] s Cons.prems(4) by (auto simp: same_view_def total_in_def)
qed (simp add: same_view_def total_in_def)

lemma check_scripts_spec:
  assumes "cache_inv inv utxo present v" "check_scripts get checker tx flags fDefer v ivin vChecks = Some (None, vChecks', v')"
    and "\<forall>(i, txin) \<in> set ivin. \<exists>c. cache_utxo utxo v (op_hash (ti_prevout txin)) = Some c \<and> IsAvailable c (unat (op_n (ti_prevout txin)))"
  shows "same_view v v' \<and>
    (let check = (\<lambda>(i, txin). \<lparr>sc_scriptPubKey = to_scriptPubKey (spent_output (cache_utxo utxo v) txin), sc_nIn = i, sc_nFlags = flags\<rparr>)
     in if fDefer then vChecks' = vChecks @ map check ivin
        else vChecks' = vChecks \<and> (\<forall>x \<in> set ivin. script_check checker tx (check x) = Some (Inr ())))"
  using assms
proof (induction ivin arbitrary: v vChecks)
  case (Cons x ivin)
  obtain i txin where x: "x = (i, txin)" by (cases x)
  let ?k = "op_hash (ti_prevout txin)" and ?n = "unat (op_n (ti_prevout txin))"
  obtain r v1 where a: "AccessCoins get v ?k = (r, v1)" by (cases "AccessCoins get v ?k")
  note s = AccessCoins_spec [OF Cons.prems(1) a]
  obtain c where c: "cache_utxo utxo v ?k = Some c" "IsAvailable c ?n" using Cons.prems(3) x by auto
  then have r: "r = Some c" using s unspent_SomeD by metis
  let ?c = "\<lparr>sc_scriptPubKey = to_scriptPubKey (spent_output (cache_utxo utxo v) txin), sc_nIn = i, sc_nFlags = flags\<rparr>"
  have out: "spent_output (cache_utxo utxo v) txin = cc_vout c ! ?n" using c(1) by (simp add: spent_output_def)
  have "check_scripts get checker tx flags fDefer v1 ivin (if fDefer then vChecks @ [?c] else vChecks) = Some (None, vChecks', v')
    \<and> (\<not> fDefer \<longrightarrow> script_check checker tx ?c = Some (Inr ()))"
    using Cons.prems(2) a r x c(2) unfolding out
    by (auto simp: Let_def IsAvailable_def split: if_splits Option.bind_splits sum.splits)
  then show ?case using Cons.IH [of v1 "if fDefer then vChecks @ [?c] else vChecks"] s Cons.prems(3) x
    by (auto simp: same_view_def Let_def)
qed (auto simp: same_view_def)

end

abbreviation tip_best :: "coins_tip GetBestBlock_fn" where "tip_best \<equiv> Cache_GetBestBlock DB_GetBestBlock"

abbreviation view_tip :: "block_view \<Rightarrow> uint256" where
  "view_tip \<equiv> cache_tip (cache_tip (\<lambda>db. fst (DB_GetBestBlock db)))"

lemma CheckInputs_steps:
  assumes "\<not> IsCoinBase tx"
    and "CheckInputs ps get best mapBlockIndex mem checker tx v fScriptChecks flags fDefer = Some (None, vChecks, v')"
  obtains v1 h v2 p b nValueIn v3 where "have_inputs_loop get v (tx_vin tx) = (True, v1)" "Cache_GetBestBlock best v1 = (h, v2)"
    "mapBlockIndex h = Some p" "mem p = Some b"
    "check_values ps get (bi_nHeight b + 1) v2 (tx_vin tx) 0 = Some (None, nValueIn, v3)" "check_fee ps tx nValueIn = Some None"
    "if fScriptChecks
     then check_scripts get checker tx flags fDefer v3 (zip [0..<length (tx_vin tx)] (tx_vin tx)) [] = Some (None, vChecks, v')
     else v' = v3 \<and> vChecks = []"
  using assms unfolding CheckInputs_def HaveInputs_def
  by (auto split: prod.splits if_splits bool.splits Option.bind_splits option.splits)

lemma CheckInputs_accepts:
  assumes "view_inv v" "0 \<le> cp_nMaxMoneyOut ps" "cp_nMaxMoneyOut ps < 2 ^ 62" "\<not> IsCoinBase tx"
    and "CheckInputs ps tip_get tip_best mapBlockIndex mem checker tx v fScriptChecks flags fDefer = Some (None, vChecks, v')"
  shows "view_inv v' \<and> view_utxo v' = view_utxo v \<and>
    (\<exists>p b. mapBlockIndex (view_tip v) = Some p \<and> mem p = Some b \<and>
      (\<forall>txin \<in> set (tx_vin tx). spendable ps (view_utxo v) (bi_nHeight b + 1) txin)) \<and>
    MoneyRange ps (total_in (view_utxo v) (tx_vin tx)) \<and>
    (\<not> IsCoinStake tx \<longrightarrow> (\<exists>nValueOut. GetValueOut tx = Inr nValueOut \<and> nValueOut \<le> total_in (view_utxo v) (tx_vin tx))) \<and>
    (fScriptChecks \<longrightarrow>
      (let checks = map (\<lambda>i. \<lparr>sc_scriptPubKey = to_scriptPubKey (spent_output (view_utxo v) (tx_vin tx ! i)),
                               sc_nIn = i, sc_nFlags = flags\<rparr>) [0..<length (tx_vin tx)]
       in if fDefer then vChecks = checks else \<forall>c \<in> set checks. script_check checker tx c = Some (Inr ())))"
proof -
  obtain v1 h v2 p b nValueIn v3 where
    have_in: "have_inputs_loop tip_get v (tx_vin tx) = (True, v1)" and best: "Cache_GetBestBlock tip_best v1 = (h, v2)"
    and idx: "mapBlockIndex h = Some p" "mem p = Some b"
    and vals: "check_values ps tip_get (bi_nHeight b + 1) v2 (tx_vin tx) 0 = Some (None, nValueIn, v3)"
    and fee: "check_fee ps tx nValueIn = Some None"
    and scripts: "if fScriptChecks
      then check_scripts tip_get checker tx flags fDefer v3 (zip [0..<length (tx_vin tx)] (tx_vin tx)) [] = Some (None, vChecks, v')
      else v' = v3 \<and> vChecks = []"
    using CheckInputs_steps [OF assms(4,5)] by metis
  note hi = tip.have_inputs_spec [OF assms(1) have_in]
  have avail: "\<forall>txin \<in> set (tx_vin tx). \<exists>c. view_utxo v (op_hash (ti_prevout txin)) = Some c \<and> IsAvailable c (unat (op_n (ti_prevout txin)))"
    using hi by simp
  have v1: "view_inv v1" "view_utxo v1 = view_utxo v" "view_tip v1 = view_tip v" using hi by (simp_all add: tip.same_view_def)
  have v2: "view_inv v2" "view_utxo v2 = view_utxo v" "h = view_tip v"
    using tip.Cache_GetBestBlock_spec [OF v1(1) best] v1 by simp_all
  have c: "view_inv v3" "view_utxo v3 = view_utxo v" "nValueIn = total_in (view_utxo v) (tx_vin tx)" "MoneyRange ps nValueIn"
    "\<forall>txin \<in> set (tx_vin tx). spendable ps (view_utxo v) (bi_nHeight b + 1) txin"
    using tip.check_values_spec [OF assms(3) v2(1) vals] v2(2) avail assms(2) by (simp_all add: tip.same_view_def MoneyRange_def)
  have f: "\<exists>nValueOut. GetValueOut tx = Inr nValueOut \<and> nValueOut \<le> nValueIn" if "\<not> IsCoinStake tx"
    using fee that by (auto simp: check_fee_def split: sum.splits if_splits)
  let ?cs = "map (\<lambda>i. \<lparr>sc_scriptPubKey = to_scriptPubKey (spent_output (view_utxo v) (tx_vin tx ! i)), sc_nIn = i, sc_nFlags = flags\<rparr>)
    [0..<length (tx_vin tx)]"
  have s: "view_inv v' \<and> view_utxo v' = view_utxo v \<and>
    (fScriptChecks \<longrightarrow> (if fDefer then vChecks = ?cs else \<forall>c \<in> set ?cs. script_check checker tx c = Some (Inr ())))"
  proof (cases fScriptChecks)
    case True
    let ?z = "zip [0..<length (tx_vin tx)] (tx_vin tx)"
    have z: "map (\<lambda>(i, txin). \<lparr>sc_scriptPubKey = to_scriptPubKey (spent_output (view_utxo v) txin), sc_nIn = i, sc_nFlags = flags\<rparr>) ?z = ?cs"
      by (rule nth_equalityI) simp_all
    have "\<forall>(i, txin) \<in> set ?z. \<exists>c. view_utxo v3 (op_hash (ti_prevout txin)) = Some c \<and> IsAvailable c (unat (op_n (ti_prevout txin)))"
      using avail c(2) by (auto dest: set_zip_rightD)
    then show ?thesis using tip.check_scripts_spec [OF c(1), of checker tx flags fDefer ?z "[]" vChecks v'] scripts True c(2)
      unfolding z [symmetric] by (auto simp: tip.same_view_def Let_def)
  next
    case False
    then show ?thesis using scripts c by simp
  qed
  show ?thesis using s idx v2(3) c(3-5) f by (auto simp: Let_def)
qed


definition example_index :: block_store where
  "example_index = [0 \<mapsto> CBlockIndex_null\<lparr>bi_nHeight := 20\<rparr>]"

abbreviation example_view :: block_view where
  "example_view \<equiv> CCoinsViewCache_new (CCoinsViewCache_new example_db)"

definition accepted :: "(reject option \<times> CScriptCheck list \<times> 'v) option \<Rightarrow> bool" where
  "accepted r = (case r of Some (None, vChecks, v') \<Rightarrow> True | _ \<Rightarrow> False)"

lemma example_db_Read: "db_Read example_db 7 = Some example_coins"
  using example_db_utxo by (metis db_utxo_def fun_upd_same unspent_SomeD)

lemma example_script: "script_check (\<lambda>_ _ _ _ _. False) example_tx \<lparr>sc_scriptPubKey = [0x51], sc_nIn = 0, sc_nFlags = 1\<rparr> = Some (Inr ())"
  by code_simp

lemma example_accepted:
  "accepted (CheckInputs mainParams tip_get tip_best [3 \<mapsto> 0] example_index (\<lambda>_ _ _ _ _. False) example_tx example_view True 1 False)"
proof -
  have tx: "\<not> IsCoinBase example_tx" "\<not> IsCoinStake example_tx" "GetValueOut example_tx = Inr 6"
    "tx_vin example_tx = [\<lparr>ti_prevout = \<lparr>op_hash = 7, op_n = 1\<rparr>, ti_scriptSig = [], ti_nSequence = - 1\<rparr>]"
    by (simp_all add: example_tx_def IsCoinBase_def IsCoinStake_def COutPoint_IsNull_def GetValueOut_def CTxOut_new_def add_int64_def)
  have best: "DB_GetBestBlock example_db = (3, example_db)"
    by (simp add: DB_GetBestBlock_def example_db_def database_of_def)
  have fee: "check_fee mainParams example_tx 7 = Some None"
    using tx by (simp add: check_fee_def MoneyRange_def mainParams_def)
  have coins: "\<not> IsPruned example_coins" "IsAvailable example_coins 1" "length (cc_vout example_coins) = 2"
    "cc_vout example_coins ! 1 = CTxOut_new 7 [0x51]" "cc_nHeight example_coins = 9"
    by (simp_all add: example_coins_def IsPruned_def IsAvailable_def CTxOut_IsNull_def CTxOut_new_def)
  show ?thesis
    using example_script fee coins tx
    by (simp add: CheckInputs_def HaveInputs_def AccessCoins_def FetchCoins_def Cache_GetCoins_def Cache_GetBestBlock_def DB_GetCoins_def
        best example_db_Read CCoinsViewCache_new_def CCoinsMap_set_def CCoinsMap_erase_def accepted_def example_index_def mainParams_def MoneyRange_def add_int64_def
        CTxOut_new_def Let_def)
qed


end
