(* ===== verification/Merkle.thy ===== *)
theory Merkle
  imports Transaction
begin

text \<open>
  Merkle trees: \<open>BuildMerkleTree\<close>, \<open>GetMerkleBranch\<close> and \<open>CheckMerkleBranch\<close> of
  \<open>src/primitives/block.cpp\<close>, and the partial trees sent to filtered nodes,
  \<open>src/merkleblock.h\<close> and \<open>merkleblock.cpp\<close>. Tree positions and sizes are natural numbers; the
  code's \<open>unsigned int\<close> holds them for every tree it accepts.
\<close>

section \<open>The tree of a block\<close>

definition merkle_hash :: "uint256 \<Rightarrow> uint256 \<Rightarrow> uint256" where
  "merkle_hash a b = uint256_of_bytes (Hash_ranges [Serialize_uint 32 a, Serialize_uint 32 b])"

text \<open>
  The flat array: the levels one after the other, \<open>j\<close> the start of the current one and
  \<open>nSize\<close> its size.
\<close>

function merkle_loop :: "uint256 list \<Rightarrow> nat \<Rightarrow> nat \<Rightarrow> bool \<Rightarrow> uint256 list \<times> bool" where
  "merkle_loop vMerkleTree j nSize mutated =
     (if nSize > 1 then
        merkle_loop
          (vMerkleTree @ map (\<lambda>k. let i = 2 * k; i2 = min (i + 1) (nSize - 1)
                                   in merkle_hash (vMerkleTree ! (j + i)) (vMerkleTree ! (j + i2)))
                           [0..<(nSize + 1) div 2])
          (j + nSize) ((nSize + 1) div 2)
          (mutated \<or> list_ex (\<lambda>k. let i = 2 * k; i2 = min (i + 1) (nSize - 1)
                                     in i2 = i + 1 \<and> i2 + 1 = nSize \<and> vMerkleTree ! (j + i) = vMerkleTree ! (j + i2))
                           [0..<(nSize + 1) div 2])
      else (vMerkleTree, mutated))"
  by pat_completeness auto
termination by (relation "measure (\<lambda>(t, j, n, m). n)") auto

declare merkle_loop.simps [simp del]

definition vMerkleTree_of :: "CTransaction list \<Rightarrow> uint256 list \<times> bool" where
  "vMerkleTree_of vtx = merkle_loop (map CTransaction_GetHash vtx) 0 (length vtx) False"

definition BuildMerkleTree :: "CTransaction list \<Rightarrow> uint256 \<times> bool" where
  "BuildMerkleTree vtx =
     (case vMerkleTree_of vtx of (t, mutated) \<Rightarrow> (if t = [] then 0 else last t, mutated))"

function branch_loop :: "uint256 list \<Rightarrow> nat \<Rightarrow> nat \<Rightarrow> nat \<Rightarrow> uint256 list" where
  "branch_loop vMerkleTree j nSize nIndex =
     (if nSize > 1 then
        vMerkleTree ! (j + min (nIndex XOR 1) (nSize - 1)) #
        branch_loop vMerkleTree (j + nSize) ((nSize + 1) div 2) (nIndex div 2)
      else [])"
  by pat_completeness auto
termination by (relation "measure (\<lambda>(t, j, n, i). n)") auto

declare branch_loop.simps [simp del]

definition GetMerkleBranch :: "CTransaction list \<Rightarrow> nat \<Rightarrow> uint256 list" where
  "GetMerkleBranch vtx nIndex = branch_loop (fst (vMerkleTree_of vtx)) 0 (length vtx) nIndex"

fun check_branch_loop :: "uint256 \<Rightarrow> uint256 list \<Rightarrow> nat \<Rightarrow> uint256" where
  "check_branch_loop hash [] nIndex = hash"
| "check_branch_loop hash (it # its) nIndex =
     check_branch_loop (if odd nIndex then merkle_hash it hash else merkle_hash hash it) its (nIndex div 2)"

definition CheckMerkleBranch :: "uint256 \<Rightarrow> uint256 list \<Rightarrow> int \<Rightarrow> uint256" where
  "CheckMerkleBranch hash vMerkleBranch nIndex =
     (if nIndex = - 1 then 0 else check_branch_loop hash vMerkleBranch (nat nIndex))"

section \<open>Partial trees\<close>

record CPartialMerkleTree =
  pm_nTransactions :: nat
  pm_vBits :: "bool list"
  pm_vHash :: "uint256 list"
  pm_fBad :: bool

definition CalcTreeWidth :: "nat \<Rightarrow> nat \<Rightarrow> nat" where
  "CalcTreeWidth nTransactions height = (nTransactions + 2 ^ height - 1) div 2 ^ height"

fun CalcHash :: "nat \<Rightarrow> nat \<Rightarrow> nat \<Rightarrow> uint256 list \<Rightarrow> uint256" where
  "CalcHash n 0 pos vTxid = vTxid ! pos"
| "CalcHash n (Suc height) pos vTxid =
     (let left = CalcHash n height (pos * 2) vTxid;
          right = (if pos * 2 + 1 < CalcTreeWidth n height then CalcHash n height (pos * 2 + 1) vTxid else left)
      in merkle_hash left right)"

definition parent_of_match :: "nat \<Rightarrow> nat \<Rightarrow> nat \<Rightarrow> bool list \<Rightarrow> bool" where
  "parent_of_match n height pos vMatch =
     list_ex (\<lambda>p. vMatch ! p) [pos * 2 ^ height..<min ((pos + 1) * 2 ^ height) n]"

text \<open>The bits and the hashes that a traversal appends.\<close>

fun TraverseAndBuild ::
  "nat \<Rightarrow> nat \<Rightarrow> nat \<Rightarrow> uint256 list \<Rightarrow> bool list \<Rightarrow> bool list \<times> uint256 list" where
  "TraverseAndBuild n 0 pos vTxid vMatch =
     ([parent_of_match n 0 pos vMatch], [CalcHash n 0 pos vTxid])"
| "TraverseAndBuild n (Suc height) pos vTxid vMatch =
     (let fParentOfMatch = parent_of_match n (Suc height) pos vMatch
      in if \<not> fParentOfMatch then ([fParentOfMatch], [CalcHash n (Suc height) pos vTxid])
         else let (b1, h1) = TraverseAndBuild n height (pos * 2) vTxid vMatch;
                  (b2, h2) = (if pos * 2 + 1 < CalcTreeWidth n height
                              then TraverseAndBuild n height (pos * 2 + 1) vTxid vMatch else ([], []))
              in (fParentOfMatch # b1 @ b2, h1 @ h2))"

text \<open>The counters, the matches and the flag that a traversal updates.\<close>

record extract_state =
  ex_nBitsUsed :: nat
  ex_nHashUsed :: nat
  ex_vMatch :: "uint256 list"
  ex_fBad :: bool

fun TraverseAndExtract ::
  "CPartialMerkleTree \<Rightarrow> nat \<Rightarrow> nat \<Rightarrow> extract_state \<Rightarrow> uint256 \<times> extract_state" where
  "TraverseAndExtract t height pos st =
     (if ex_nBitsUsed st \<ge> length (pm_vBits t) then (0, st\<lparr>ex_fBad := True\<rparr>)
      else let fParentOfMatch = pm_vBits t ! ex_nBitsUsed st;
               st1 = st\<lparr>ex_nBitsUsed := ex_nBitsUsed st + 1\<rparr>
      in if height = 0 \<or> \<not> fParentOfMatch then
           (if ex_nHashUsed st1 \<ge> length (pm_vHash t) then (0, st1\<lparr>ex_fBad := True\<rparr>)
            else let hash = pm_vHash t ! ex_nHashUsed st1;
                     st2 = st1\<lparr>ex_nHashUsed := ex_nHashUsed st1 + 1\<rparr>
                 in (hash, if height = 0 \<and> fParentOfMatch then st2\<lparr>ex_vMatch := ex_vMatch st2 @ [hash]\<rparr> else st2))
         else let (left, st2) = TraverseAndExtract t (height - 1) (pos * 2) st1;
                  (right, st3) = (if pos * 2 + 1 < CalcTreeWidth (pm_nTransactions t) (height - 1)
                                  then TraverseAndExtract t (height - 1) (pos * 2 + 1) st2 else (left, st2))
              in (merkle_hash left right, st3))"

declare TraverseAndExtract.simps [simp del]

lemma CalcTreeWidth_less: "p < CalcTreeWidth n h \<longleftrightarrow> p * 2 ^ h < n"
proof -
  have "p < CalcTreeWidth n h \<longleftrightarrow> Suc p * 2 ^ h \<le> n + 2 ^ h - 1"
    by (simp only: CalcTreeWidth_def Suc_le_eq [symmetric]) (simp add: less_eq_div_iff_mult_less_eq)
  also have "\<dots> \<longleftrightarrow> p * 2 ^ h < n"
  proof -
    have "0 < (2 :: nat) ^ h" by simp
    then show ?thesis by (simp only: mult_Suc) linarith
  qed
  finally show ?thesis .
qed

function tree_height :: "nat \<Rightarrow> nat \<Rightarrow> nat" where
  "tree_height n nHeight = (if CalcTreeWidth n nHeight > 1 then tree_height n (nHeight + 1) else nHeight)"
  by pat_completeness auto
termination
proof (relation "measure (\<lambda>(n, h). n - h)", goal_cases)
  case (2 n h)
  then have "1 * 2 ^ h < n" by (simp only: CalcTreeWidth_less)
  then have "h < n" using less_exp [of h] by linarith
  then show ?case by simp
qed simp

declare tree_height.simps [simp del]

definition CPartialMerkleTree_new :: "uint256 list \<Rightarrow> bool list \<Rightarrow> CPartialMerkleTree" where
  "CPartialMerkleTree_new vTxid vMatch =
     (let n = length vTxid; (bits, hashes) = TraverseAndBuild n (tree_height n 0) 0 vTxid vMatch
      in \<lparr>pm_nTransactions = n, pm_vBits = bits, pm_vHash = hashes, pm_fBad = False\<rparr>)"

definition ExtractMatches :: "CPartialMerkleTree \<Rightarrow> uint256 \<times> uint256 list" where
  "ExtractMatches t =
     (if pm_nTransactions t = 0 then (0, [])
      else if pm_nTransactions t > 1000000 div 60 then (0, [])
      else if length (pm_vHash t) > pm_nTransactions t then (0, [])
      else if length (pm_vBits t) < length (pm_vHash t) then (0, [])
      else let (hashMerkleRoot, st) = TraverseAndExtract t (tree_height (pm_nTransactions t) 0) 0
                 \<lparr>ex_nBitsUsed = 0, ex_nHashUsed = 0, ex_vMatch = [], ex_fBad = pm_fBad t\<rparr>
      in if ex_fBad st then (0, ex_vMatch st)
         else if (ex_nBitsUsed st + 7) div 8 \<noteq> (length (pm_vBits t) + 7) div 8 then (0, ex_vMatch st)
         else if ex_nHashUsed st \<noteq> length (pm_vHash t) then (0, ex_vMatch st)
         else (hashMerkleRoot, ex_vMatch st))"

section \<open>Levels\<close>

text \<open>The next level of a tree, on the level alone, and all levels from one on.\<close>

definition next_level :: "uint256 list \<Rightarrow> uint256 list" where
  "next_level hs = map (\<lambda>k. merkle_hash (hs ! (2 * k)) (hs ! min (2 * k + 1) (length hs - 1))) [0..<(length hs + 1) div 2]"

lemma length_next_level [simp, len_simps]: "length (next_level hs) = (length hs + 1) div 2"
  by (simp add: next_level_def)

function merkle_root :: "uint256 list \<Rightarrow> uint256" where
  "merkle_root hs = (if length hs > 1 then merkle_root (next_level hs) else hd hs)"
  by pat_completeness auto
termination by (relation "measure length") auto

declare merkle_root.simps [simp del]

definition level_mutated :: "uint256 list \<Rightarrow> bool" where
  "level_mutated hs \<longleftrightarrow> length hs > 1 \<and> even (length hs) \<and> hs ! (length hs - 2) = hs ! (length hs - 1)"

lemma merkle_loop_level:
  assumes "length hs > 1"
  shows "merkle_loop (pre @ hs) (length pre) (length hs) m =
    merkle_loop ((pre @ hs) @ next_level hs) (length (pre @ hs)) (length (next_level hs)) (m \<or> level_mutated hs)"
proof -
  have "map (\<lambda>k. let i = 2 * k; i2 = min (i + 1) (length hs - 1)
      in merkle_hash ((pre @ hs) ! (length pre + i)) ((pre @ hs) ! (length pre + i2))) [0..<(length hs + 1) div 2] =
      next_level hs"
    using assms by (auto simp: next_level_def nth_append Let_def)
  moreover have "list_ex (\<lambda>k. let i = 2 * k; i2 = min (i + 1) (length hs - 1)
      in i2 = i + 1 \<and> i2 + 1 = length hs \<and> (pre @ hs) ! (length pre + i) = (pre @ hs) ! (length pre + i2))
      [0..<(length hs + 1) div 2] \<longleftrightarrow> level_mutated hs" (is "?l \<longleftrightarrow> _")
  proof
    assume ?l
    then obtain k where "2 * k + 2 = length hs" "hs ! (2 * k) = hs ! (2 * k + 1)"
      by (auto simp: list_ex_iff Let_def)
    then have "length hs - 2 = 2 * k" "length hs - 1 = 2 * k + 1" "even (length hs)" "1 < length hs" by presburger+
    then show "level_mutated hs" using \<open>hs ! (2 * k) = hs ! (2 * k + 1)\<close> by (simp only: level_mutated_def)
  next
    assume m: "level_mutated hs"
    then obtain k where k: "length hs = 2 * k" "0 < k" by (auto simp: level_mutated_def elim!: evenE)
    with m have "hs ! (2 * (k - 1)) = hs ! (2 * (k - 1) + 1)"
      by (cases k) (auto simp: level_mutated_def)
    with k show ?l by (auto simp: list_ex_iff Let_def intro!: bexI [of _ "k - 1"])
  qed
  ultimately show ?thesis using assms by (subst merkle_loop.simps) simp
qed

lemma merkle_loop_root:
  "hs \<noteq> [] \<Longrightarrow> \<exists>t. fst (merkle_loop (pre @ hs) (length pre) (length hs) m) = t @ [merkle_root hs]"
proof (induction hs arbitrary: pre m rule: merkle_root.induct)
  case (1 hs)
  show ?case
  proof (cases "length hs > 1")
    case True
    then have "next_level hs \<noteq> []" by (auto simp: next_level_def)
    from 1(1) [OF True this, of "pre @ hs" "m \<or> level_mutated hs"] True show ?thesis
      by (simp add: merkle_loop_level merkle_root.simps [of hs])
  next
    case False
    with 1(2) obtain h where "hs = [h]" by (cases hs) auto
    then show ?thesis by (simp add: merkle_loop.simps merkle_root.simps)
  qed
qed

lemma BuildMerkleTree_root:
  "vtx \<noteq> [] \<Longrightarrow> fst (BuildMerkleTree vtx) = merkle_root (map CTransaction_GetHash vtx)"
  using merkle_loop_root [of "map CTransaction_GetHash vtx" "[]" False]
  by (auto simp: BuildMerkleTree_def vMerkleTree_of_def split: prod.splits)

section \<open>Branches\<close>

lemma merkle_loop_prefix: "\<exists>r. fst (merkle_loop t j n m) = t @ r"
proof (induction t j n m rule: merkle_loop.induct)
  case (1 t j n m)
  show ?case
  proof (cases "1 < n")
    case True
    from 1 [OF True] obtain r where "fst (merkle_loop t j n m) = (t @ map (\<lambda>k. let i = 2 * k; i2 = min (i + 1) (n - 1)
        in merkle_hash (t ! (j + i)) (t ! (j + i2))) [0..<(n + 1) div 2]) @ r"
      using True by (auto simp: merkle_loop.simps [of t j n m])
    then show ?thesis by simp
  qed (simp add: merkle_loop.simps)
qed

lemma xor_one: "n XOR Suc 0 = (if even n then n + 1 else n - 1)"
  by (simp add: xor_Suc_0_eq)

lemma branch_level:
  assumes "length hs > 1" "i < length hs" "\<exists>r. t = pre @ hs @ r"
  shows "branch_loop t (length pre) (length hs) i =
      hs ! min (i XOR 1) (length hs - 1) # branch_loop t (length (pre @ hs)) (length (next_level hs)) (i div 2)"
  using assms by (subst branch_loop.simps) (auto simp: nth_append)

lemma branch_step:
  assumes "length hs > 1" "i < length hs"
  shows "(if odd i then merkle_hash (hs ! min (i XOR 1) (length hs - 1)) (hs ! i)
      else merkle_hash (hs ! i) (hs ! min (i XOR 1) (length hs - 1))) = next_level hs ! (i div 2)"
  using assms by (auto simp: next_level_def xor_one min_def elim!: evenE oddE)

lemma check_branch_level:
  "i < length hs \<Longrightarrow> t = fst (merkle_loop (pre @ hs) (length pre) (length hs) m) \<Longrightarrow>
   check_branch_loop (hs ! i) (branch_loop t (length pre) (length hs) i) i = merkle_root hs"
proof (induction hs arbitrary: pre i m rule: merkle_root.induct)
  case (1 hs)
  show ?case
  proof (cases "length hs > 1")
    case True
    have t: "t = fst (merkle_loop ((pre @ hs) @ next_level hs) (length (pre @ hs)) (length (next_level hs)) (m \<or> level_mutated hs))"
      using 1(3) merkle_loop_level [OF True, of pre m] by (simp only:)
    then have "\<exists>r. t = pre @ hs @ r"
      using merkle_loop_prefix [of "(pre @ hs) @ next_level hs"] by (metis append_assoc)
    note b = branch_level [OF True 1(2) this]
    have i: "i div 2 < length (next_level hs)" using 1(2) by simp
    have "merkle_root hs = merkle_root (next_level hs)" using True by (simp add: merkle_root.simps [of hs])
    with 1(1) [OF True i t] show ?thesis
      by (simp only: b check_branch_loop.simps branch_step [OF True 1(2)])
  next
    case False
    with 1(2) show ?thesis by (cases hs) (simp_all add: branch_loop.simps merkle_root.simps)
  qed
qed

section \<open>Partial trees and levels\<close>

lemma nat_eqI_less: "(\<And>p. p < a \<longleftrightarrow> p < b) \<Longrightarrow> a = (b :: nat)"
  by (metis linorder_neqE_nat nat_neq_iff)

lemma CalcTreeWidth_Suc: "CalcTreeWidth n (Suc h) = (CalcTreeWidth n h + 1) div 2"
proof (rule nat_eqI_less)
  fix p
  have "p < (CalcTreeWidth n h + 1) div 2 \<longleftrightarrow> 2 * p < CalcTreeWidth n h" by presburger
  also have "\<dots> \<longleftrightarrow> p < CalcTreeWidth n (Suc h)" by (simp add: CalcTreeWidth_less ac_simps)
  finally show "p < CalcTreeWidth n (Suc h) \<longleftrightarrow> p < (CalcTreeWidth n h + 1) div 2" by simp
qed

lemma CalcTreeWidth_0 [simp]: "CalcTreeWidth n 0 = n"
  by (simp add: CalcTreeWidth_def)

lemma length_levels: "length ((next_level ^^ h) hs) = CalcTreeWidth (length hs) h"
  by (induction h) (simp_all add: CalcTreeWidth_Suc)

lemma CalcHash_level:
  "pos < CalcTreeWidth (length vTxid) h \<Longrightarrow> CalcHash (length vTxid) h pos vTxid = (next_level ^^ h) vTxid ! pos"
proof (induction h arbitrary: pos)
  case (Suc h)
  let ?l = "(next_level ^^ h) vTxid" and ?w = "CalcTreeWidth (length vTxid) h"
  have p: "pos < (?w + 1) div 2" using Suc.prems by (simp add: CalcTreeWidth_Suc)
  have "(next_level ^^ Suc h) vTxid ! pos = merkle_hash (?l ! (2 * pos)) (?l ! min (2 * pos + 1) (?w - 1))"
    using p by (simp add: next_level_def length_levels)
  moreover have "2 * pos < ?w" using p by presburger
  moreover have "\<not> 2 * pos + 1 < ?w \<Longrightarrow> min (2 * pos + 1) (?w - 1) = 2 * pos"
    "2 * pos + 1 < ?w \<Longrightarrow> min (2 * pos + 1) (?w - 1) = 2 * pos + 1"
    using \<open>2 * pos < ?w\<close> by linarith+
  ultimately show ?case
    using Suc.IH [of "2 * pos"] Suc.IH [of "2 * pos + 1"]
    by (cases "2 * pos + 1 < ?w") (simp_all add: mult.commute Let_def)
qed simp

lemma merkle_root_height:
  "hs \<noteq> [] \<Longrightarrow> n = length hs \<Longrightarrow> merkle_root ((next_level ^^ h) hs) = (next_level ^^ tree_height n h) hs ! 0"
proof (induction n h rule: tree_height.induct)
  case (1 n h)
  show ?case
  proof (cases "CalcTreeWidth n h > 1")
    case True
    with 1 show ?thesis
      by (subst merkle_root.simps, subst tree_height.simps) (simp add: length_levels)
  next
    case False
    have "0 < CalcTreeWidth n h" using 1(2,3) by (simp add: CalcTreeWidth_less)
    with False have "length ((next_level ^^ h) hs) = 1" using 1(3) by (simp add: length_levels)
    then obtain r where "(next_level ^^ h) hs = [r]" by (auto simp: length_Suc_conv)
    with False show ?thesis by (subst merkle_root.simps, subst tree_height.simps) simp
  qed
qed

lemma CalcHash_root:
  "vTxid \<noteq> [] \<Longrightarrow> CalcHash (length vTxid) (tree_height (length vTxid) 0) 0 vTxid = merkle_root vTxid"
  using merkle_root_height [of vTxid "length vTxid" 0]
  by (simp add: CalcHash_level CalcTreeWidth_less)

section \<open>Extraction undoes building\<close>

text \<open>The leaves below a node.\<close>

definition leaves :: "nat \<Rightarrow> nat \<Rightarrow> nat \<Rightarrow> nat list" where
  "leaves n h pos = [pos * 2 ^ h..<min ((pos + 1) * 2 ^ h) n]"

lemma upt_split: "i \<le> j \<Longrightarrow> j \<le> k \<Longrightarrow> [i..<k] = [i..<j] @ [j..<k]"
  by (metis le_add_diff_inverse upt_add_eq_append)

lemma leaves_Suc:
  "pos * 2 ^ Suc h < n \<Longrightarrow> leaves n (Suc h) pos =
     leaves n h (pos * 2) @ (if pos * 2 + 1 < CalcTreeWidth n h then leaves n h (pos * 2 + 1) else [])"
proof -
  assume a: "pos * 2 ^ Suc h < n"
  let ?b = "pos * 2 * 2 ^ h" and ?k = "2 ^ h :: nat"
  have k: "0 < ?k" by simp
  show ?thesis
  proof (cases "?b + ?k < n")
    case True
    then have "pos * 2 + 1 < CalcTreeWidth n h" by (simp add: CalcTreeWidth_less algebra_simps)
    moreover have "[?b..<min (?b + 2 * ?k) n] = [?b..<?b + ?k] @ [?b + ?k..<min (?b + 2 * ?k) n]"
      using True k by (intro upt_split) auto
    ultimately show ?thesis using True by (simp add: leaves_def algebra_simps)
  next
    case False
    then have "\<not> pos * 2 + 1 < CalcTreeWidth n h" by (simp add: CalcTreeWidth_less algebra_simps)
    moreover have "min (?b + 2 * ?k) n = min (?b + ?k) n" using False k by simp
    ultimately show ?thesis by (simp add: leaves_def algebra_simps)
  qed
qed

lemma extract_node:
  assumes "TraverseAndBuild n h pos vTxid vMatch = (bits, hashes)" "pos * 2 ^ h < n"
    and "pm_nTransactions t = n" "pm_vBits t = b1 @ bits @ b2" "pm_vHash t = h1 @ hashes @ h2"
  shows "TraverseAndExtract t h pos \<lparr>ex_nBitsUsed = length b1, ex_nHashUsed = length h1, ex_vMatch = ms, ex_fBad = bad\<rparr> =
    (CalcHash n h pos vTxid, \<lparr>ex_nBitsUsed = length b1 + length bits, ex_nHashUsed = length h1 + length hashes,
      ex_vMatch = ms @ map ((!) vTxid) (filter ((!) vMatch) (leaves n h pos)), ex_fBad = bad\<rparr>)"
  using assms
proof (induction h arbitrary: pos bits hashes b1 b2 h1 h2 ms)
  case 0
  then have l: "leaves n 0 pos = [pos]" by (simp add: leaves_def)
  have "parent_of_match n 0 pos vMatch = vMatch ! pos" using 0(2) by (simp add: parent_of_match_def)
  with 0 l show ?case by (subst TraverseAndExtract.simps) (auto simp: nth_append Let_def)
next
  case (Suc h)
  show ?case
  proof (cases "parent_of_match n (Suc h) pos vMatch")
    case False
    then have "filter ((!) vMatch) (leaves n (Suc h) pos) = []"
      by (auto simp: parent_of_match_def leaves_def list_ex_iff filter_empty_conv)
    with Suc.prems False show ?thesis
      by (subst TraverseAndExtract.simps) (auto simp: nth_append Let_def)
  next
    case True
    obtain ba ha where l: "TraverseAndBuild n h (pos * 2) vTxid vMatch = (ba, ha)" by fastforce
    have lw: "pos * 2 * 2 ^ h < n" using Suc.prems(2) by (simp add: ac_simps)
    show ?thesis
    proof (cases "pos * 2 + 1 < CalcTreeWidth n h")
      case right: True
      obtain bb hb where r: "TraverseAndBuild n h (pos * 2 + 1) vTxid vMatch = (bb, hb)" by fastforce
      have rw: "(pos * 2 + 1) * 2 ^ h < n" using right by (simp only: CalcTreeWidth_less)
      have bits: "bits = True # ba @ bb" "hashes = ha @ hb" using Suc.prems(1) True right l r by (auto simp: Let_def)
      have tree: "pm_vBits t = (b1 @ [True]) @ ba @ (bb @ b2)" "pm_vHash t = h1 @ ha @ (hb @ h2)"
        "pm_vBits t = (b1 @ [True] @ ba) @ bb @ b2" "pm_vHash t = (h1 @ ha) @ hb @ h2"
        using Suc.prems(4,5) bits by simp_all
      note el = Suc.IH [OF l lw Suc.prems(3) tree(1,2)] and er = Suc.IH [OF r rw Suc.prems(3) tree(3,4)]
      show ?thesis
        using right Suc.prems(3) bits el [of ms] er leaves_Suc [OF Suc.prems(2)] tree(1)
        by (subst TraverseAndExtract.simps) (simp add: nth_append Let_def)
    next
      case False
      have bits: "bits = True # ba" "hashes = ha" using Suc.prems(1) True False l by (auto simp: Let_def)
      have tree: "pm_vBits t = (b1 @ [True]) @ ba @ b2" "pm_vHash t = h1 @ ha @ h2"
        using Suc.prems(4,5) bits by simp_all
      note el = Suc.IH [OF l lw Suc.prems(3) tree]
      show ?thesis
        using False Suc.prems(3) bits el [of ms] leaves_Suc [OF Suc.prems(2)] tree(1)
        by (subst TraverseAndExtract.simps) (simp add: nth_append Let_def)
    qed
  qed
qed

lemma build_sizes:
  assumes "TraverseAndBuild n h pos vTxid vMatch = (bits, hashes)" "pos * 2 ^ h < n"
  shows "length hashes \<le> length (leaves n h pos) \<and> length hashes \<le> length bits"
  using assms
proof (induction h arbitrary: pos bits hashes)
  case (Suc h)
  have "0 < length (leaves n (Suc h) pos)" using Suc.prems(2) by (simp add: leaves_def)
  obtain ba ha bb hb where l: "TraverseAndBuild n h (pos * 2) vTxid vMatch = (ba, ha)"
    and r: "TraverseAndBuild n h (pos * 2 + 1) vTxid vMatch = (bb, hb)" by fastforce
  have "pos * 2 * 2 ^ h < n" using Suc.prems(2) by (simp add: ac_simps)
  note sl = Suc.IH [OF l this] and sr = Suc.IH [OF r]
  have "pos * 2 + 1 < CalcTreeWidth n h \<Longrightarrow> (pos * 2 + 1) * 2 ^ h < n" by (simp only: CalcTreeWidth_less)
  then show ?case
    using Suc.prems(1) sl sr l r leaves_Suc [OF Suc.prems(2)] \<open>0 < length (leaves n (Suc h) pos)\<close>
    by (auto simp: Let_def Suc_le_eq split: if_splits)
qed (auto simp: leaves_def)

lemma tree_height_width: "\<not> 1 < CalcTreeWidth n (tree_height n h)"
proof (induction n h rule: tree_height.induct)
  case (1 n h)
  then show ?case by (cases "1 < CalcTreeWidth n h") (simp_all add: tree_height.simps [of n h])
qed

section \<open>Duplicated transactions\<close>

lemma merkle_loop_mutated: "m \<Longrightarrow> snd (merkle_loop t j n m)"
proof (induction t j n m rule: merkle_loop.induct)
  case (1 t j n m)
  then show ?case by (cases "1 < n") (simp_all add: merkle_loop.simps [of t j n True])
qed

lemma next_level_duplicate:
  assumes "odd (length hs)"
  shows "next_level (hs @ [last hs]) = next_level hs"
proof -
  obtain k where k: "length hs = 2 * k + 1" using assms by (auto elim: oddE)
  have last: "last hs = hs ! (2 * k)" using k by (subst last_conv_nth) auto
  show ?thesis
  proof (rule nth_equalityI)
    show "length (next_level (hs @ [last hs])) = length (next_level hs)" using k by simp
    fix i
    assume "i < length (next_level (hs @ [last hs]))"
    then have i: "i \<le> k" using k by simp
    show "next_level (hs @ [last hs]) ! i = next_level hs ! i"
      using i k last by (cases "i = k") (auto simp: next_level_def nth_append min_def)
  qed
qed

section \<open>Properties\<close>

text \<open>Merkle branches: the branch returned for the transaction at a position leads from its hash to
  the merkle root of the block.\<close>

theorem merkle_branch_correct:
  assumes "i < length vtx"
  shows "CheckMerkleBranch (CTransaction_GetHash (vtx ! i)) (GetMerkleBranch vtx i) (int i) = fst (BuildMerkleTree vtx)"
proof -
  have "vtx \<noteq> []" using assms by auto
  with check_branch_level [of i "map CTransaction_GetHash vtx" "fst (vMerkleTree_of vtx)" "[]" False] assms show ?thesis
    by (simp add: CheckMerkleBranch_def GetMerkleBranch_def vMerkleTree_of_def BuildMerkleTree_root)
qed

theorem merkle_branch_correct_witness:
  "CheckMerkleBranch (CTransaction_GetHash \<lparr>tx_nVersion = 1, tx_vin = [], tx_vout = [], tx_nLockTime = 0\<rparr>)
     (GetMerkleBranch [\<lparr>tx_nVersion = 1, tx_vin = [], tx_vout = [], tx_nLockTime = 0\<rparr>] 0) 0 =
   fst (BuildMerkleTree [\<lparr>tx_nVersion = 1, tx_vin = [], tx_vout = [], tx_nLockTime = 0\<rparr>])"
  using merkle_branch_correct [of 0 "[\<lparr>tx_nVersion = 1, tx_vin = [], tx_vout = [], tx_nLockTime = 0\<rparr>]"] by simp

text \<open>C32. Partial merkle trees: extracting from the partial tree built for a selection of the transactions of a
  block succeeds and returns the merkle root of the block and exactly the selected
  transaction identifiers, in order.\<close>

theorem partial_merkle_roundtrip:
  assumes "vtx \<noteq> []" "length vtx \<le> 16666"
  shows "ExtractMatches (CPartialMerkleTree_new (map CTransaction_GetHash vtx) vMatch) =
    (fst (BuildMerkleTree vtx),
     map (\<lambda>p. CTransaction_GetHash (vtx ! p)) (filter (\<lambda>p. vMatch ! p) [0..<length vtx]))"
proof -
  let ?ids = "map CTransaction_GetHash vtx" and ?n = "length vtx"
  let ?h = "tree_height ?n 0"
  obtain bits hashes where b: "TraverseAndBuild ?n ?h 0 ?ids vMatch = (bits, hashes)" by fastforce
  define t where "t = \<lparr>pm_nTransactions = ?n, pm_vBits = bits, pm_vHash = hashes, pm_fBad = False\<rparr>"
  have n: "0 * 2 ^ ?h < ?n" using assms(1) by simp
  have "\<not> 2 ^ ?h < ?n" using CalcTreeWidth_less [of 1 ?n ?h] tree_height_width [of ?n 0] by simp
  then have l: "leaves ?n ?h 0 = [0..<?n]" by (simp add: leaves_def min_def)
  have "TraverseAndExtract t ?h 0 \<lparr>ex_nBitsUsed = 0, ex_nHashUsed = 0, ex_vMatch = [], ex_fBad = False\<rparr> =
      (fst (BuildMerkleTree vtx), \<lparr>ex_nBitsUsed = length bits, ex_nHashUsed = length hashes,
        ex_vMatch = map ((!) ?ids) (filter ((!) vMatch) [0..<?n]), ex_fBad = False\<rparr>)"
    using extract_node [OF b n, of t "[]" "[]" "[]" "[]" "[]" False] l CalcHash_root [of ?ids] assms(1)
    by (simp add: t_def BuildMerkleTree_root)
  moreover have "map ((!) ?ids) (filter ((!) vMatch) [0..<?n]) =
      map (\<lambda>p. CTransaction_GetHash (vtx ! p)) (filter (\<lambda>p. vMatch ! p) [0..<?n])" by auto
  moreover have "CPartialMerkleTree_new ?ids vMatch = t" using b by (simp add: CPartialMerkleTree_new_def t_def)
  moreover have "length hashes \<le> ?n" "length hashes \<le> length bits" using build_sizes [OF b n] l by simp_all
  ultimately show ?thesis using assms by (simp add: ExtractMatches_def t_def)
qed

theorem partial_merkle_roundtrip_witness:
  "snd (ExtractMatches (CPartialMerkleTree_new
     (map CTransaction_GetHash [\<lparr>tx_nVersion = 1, tx_vin = [], tx_vout = [], tx_nLockTime = 0\<rparr>,
        \<lparr>tx_nVersion = 2, tx_vin = [], tx_vout = [], tx_nLockTime = 0\<rparr>]) [False, True])) =
   [CTransaction_GetHash \<lparr>tx_nVersion = 2, tx_vin = [], tx_vout = [], tx_nLockTime = 0\<rparr>]"
  by (subst partial_merkle_roundtrip) simp_all

text \<open>The duplication attack on merkle roots: appending a copy of the last transaction to a block with an
  odd number of them does not change the merkle root, and \<open>BuildMerkleTree\<close> reports it.\<close>

theorem merkle_duplicate_detected:
  assumes "odd (length vtx)" "length vtx > 1"
  shows "BuildMerkleTree (vtx @ [last vtx]) = (fst (BuildMerkleTree vtx), True)"
proof -
  let ?hs = "map CTransaction_GetHash vtx" and ?d = "vtx @ [last vtx]"
  have ne: "vtx \<noteq> []" using assms by auto
  then have d: "map CTransaction_GetHash ?d = ?hs @ [last ?hs]" by (simp add: last_map)
  have "merkle_root (?hs @ [last ?hs]) = merkle_root ?hs"
    using assms ne next_level_duplicate [of ?hs] by (simp add: merkle_root.simps [of "?hs @ _"] merkle_root.simps [of ?hs])
  then have root: "fst (BuildMerkleTree ?d) = fst (BuildMerkleTree vtx)"
    using BuildMerkleTree_root [of ?d] BuildMerkleTree_root [OF ne] d by simp
  have "level_mutated (?hs @ [last ?hs])"
    using assms ne by (auto simp: level_mutated_def nth_append last_conv_nth)
  then have "snd (merkle_loop ([] @ ?hs @ [last ?hs]) (length []) (length (?hs @ [last ?hs])) False)"
    using assms merkle_loop_level [of "?hs @ [last ?hs]" "[]" False] merkle_loop_mutated [of True] ne by simp
  then have "snd (vMerkleTree_of ?d)" unfolding vMerkleTree_of_def d by simp
  then have "snd (BuildMerkleTree ?d)" by (auto simp: BuildMerkleTree_def split: prod.splits)
  with root show ?thesis by (metis prod.collapse)
qed

theorem merkle_duplicate_detected_witness:
  "snd (BuildMerkleTree (replicate 3 \<lparr>tx_nVersion = 1, tx_vin = [], tx_vout = [], tx_nLockTime = 0\<rparr> @
     [last (replicate 3 \<lparr>tx_nVersion = 1, tx_vin = [], tx_vout = [], tx_nLockTime = 0\<rparr>)]))"
  by (subst merkle_duplicate_detected) simp_all

end
