(* ===== verification/BlockChecks.thy ===== *)
theory BlockChecks
  imports TxChecks Merkle
begin

text \<open>
  Checks of blocks, \<open>src/main.cpp\<close>: the rules without context, the rules against the previous block, with the
  checkpoints (\<open>checkpoints.cpp\<close>), sporks (\<open>spork.cpp\<close>) and payment rules (\<open>masternode-payments.cpp\<close>,
  \<open>masternode-budget.cpp\<close>) they read. The hash of a block is computed by sphlib and is a parameter, as are the
  clock and the votes of the masternodes. \<open>None\<close> as a result is a read outside a vector or through a null pointer, or a
  failed assertion.
\<close>

section \<open>Sporks\<close>

abbreviation (input) SPORK_3_SWIFTTX_BLOCK_FILTERING :: int where "SPORK_3_SWIFTTX_BLOCK_FILTERING \<equiv> 10002"
abbreviation (input) SPORK_8_MASTERNODE_PAYMENT_ENFORCEMENT :: int where "SPORK_8_MASTERNODE_PAYMENT_ENFORCEMENT \<equiv> 10007"
abbreviation (input) SPORK_9_MASTERNODE_BUDGET_ENFORCEMENT :: int where "SPORK_9_MASTERNODE_BUDGET_ENFORCEMENT \<equiv> 10008"
abbreviation (input) SPORK_13_ENABLE_SUPERBLOCKS :: int where "SPORK_13_ENABLE_SUPERBLOCKS \<equiv> 10012"

definition spork_defaults :: "(int \<times> int) list" where
  "spork_defaults =
     [(10001, 978307200), (10002, 1424217600), (10004, 1000), (10006, 978307200), (10007, 1424217600),
      (10008, 4070908800), (10009, 1621119094), (10010, 0), (10011, 0), (10012, 4070908800), (10013, 1621119094),
      (10014, 4070908800), (10015, 8000)]"

definition GetSporkValue :: "(int \<rightharpoonup> int) \<Rightarrow> int \<Rightarrow> int" where
  "GetSporkValue mapSporksActive nSporkID =
     (case mapSporksActive nSporkID of
        Some nValue \<Rightarrow> nValue
      | None \<Rightarrow> (case map_of spork_defaults nSporkID of Some r \<Rightarrow> r | None \<Rightarrow> - 1))"

definition IsSporkActive :: "(int \<rightharpoonup> int) \<Rightarrow> int \<Rightarrow> int \<Rightarrow> bool" where
  "IsSporkActive mapSporksActive now nSporkID =
     (let r0 = GetSporkValue mapSporksActive nSporkID;
          r = (if r0 = - 1 then 4070908800 else r0)
      in r < now)"

section \<open>What the checks read of the node\<close>

text \<open>
  \<open>nd_masternode_tx\<close> and \<open>nd_budget_tx\<close> are \<open>IsTransactionValid\<close> of the masternode payments and of the
  budget. \<open>nd_checkpoints\<close> is the map of checkpoints in the order of its keys; the chain parameters always have one.
\<close>

record node =
  nd_params :: CChainParams
  nd_fMain :: bool
  nd_GetHash :: "CBlockHeader \<Rightarrow> uint256"
  nd_hashGenesisBlock :: uint256
  nd_checkpoints :: "(int \<times> uint256) list"
  nd_fCheckpoints :: bool
  nd_time :: int
  nd_timeOffset :: int
  nd_mapSporksActive :: "int \<rightharpoonup> int"
  nd_mapLockedInputs :: "COutPoint \<rightharpoonup> uint256"
  nd_fSynced :: bool
  nd_budgets :: "(int \<times> int \<times> int) list"
  nd_CountEnabled :: int
  nd_budget_tx :: "CTransaction \<Rightarrow> int \<Rightarrow> bool"
  nd_masternode_tx :: "CTransaction \<Rightarrow> int \<Rightarrow> bool"
  nd_fInitialDownload :: bool
  nd_mem :: block_store
  nd_mapBlockIndex :: BlockMap
  nd_chainActive :: CChain

definition nd_spork :: "node \<Rightarrow> int \<Rightarrow> bool" where
  "nd_spork nd = IsSporkActive (nd_mapSporksActive nd) (nd_time nd)"

section \<open>Checkpoints\<close>

definition Checkpoints_CheckBlock :: "node \<Rightarrow> int \<Rightarrow> uint256 \<Rightarrow> bool" where
  "Checkpoints_CheckBlock nd nHeight hash =
     (if \<not> nd_fCheckpoints nd then True
      else case map_of (nd_checkpoints nd) nHeight of None \<Rightarrow> True | Some h \<Rightarrow> hash = h)"

definition GetTotalBlocksEstimate :: "node \<Rightarrow> int" where
  "GetTotalBlocksEstimate nd = (if \<not> nd_fCheckpoints nd then 0 else fst (last (nd_checkpoints nd)))"

fun last_checkpoint :: "BlockMap \<Rightarrow> (int \<times> uint256) list \<Rightarrow> nat option" where
  "last_checkpoint mapBlockIndex [] = None"
| "last_checkpoint mapBlockIndex ((h, hash) # cs) =
     (case mapBlockIndex hash of Some p \<Rightarrow> Some p | None \<Rightarrow> last_checkpoint mapBlockIndex cs)"

definition GetLastCheckpoint :: "node \<Rightarrow> nat option" where
  "GetLastCheckpoint nd =
     (if \<not> nd_fCheckpoints nd then None else last_checkpoint (nd_mapBlockIndex nd) (rev (nd_checkpoints nd)))"

section \<open>Initial download\<close>

text \<open>The second component is the static flag \<open>lockIBDState\<close>, which latches.\<close>

definition IsInitialBlockDownload :: "node \<Rightarrow> bool \<Rightarrow> CBlockIndex \<Rightarrow> int \<Rightarrow> bool \<Rightarrow> bool \<times> bool" where
  "IsInitialBlockDownload nd fImportingOrReindex pindexBestHeader maxtipage lockIBDState =
     (if fImportingOrReindex \<or> Height (nd_chainActive nd) < GetTotalBlocksEstimate nd then (True, lockIBDState)
      else if lockIBDState then (False, lockIBDState)
      else let state = Height (nd_chainActive nd) < bi_nHeight pindexBestHeader - 24 * 6 \<or>
                       GetBlockTime pindexBestHeader < nd_time nd - maxtipage
           in (state, lockIBDState \<or> \<not> state))"

section \<open>Payments\<close>

definition GetBudgetPaymentCycleBlocks :: "node \<Rightarrow> int" where
  "GetBudgetPaymentCycleBlocks nd = (if nd_fMain nd then 43200 else 144)"

text \<open>A finalized budget is its vote count, first and last block.\<close>

fun highest_count :: "(int \<times> int \<times> int) list \<Rightarrow> int \<Rightarrow> int \<Rightarrow> int" where
  "highest_count [] nBlockHeight nHighestCount = nHighestCount"
| "highest_count ((count, start, stop) # budgets) nBlockHeight nHighestCount =
     highest_count budgets nBlockHeight
       (if count > nHighestCount \<and> nBlockHeight \<ge> start \<and> nBlockHeight \<le> stop then count else nHighestCount)"

definition IsBudgetPaymentBlock :: "node \<Rightarrow> int \<Rightarrow> bool" where
  "IsBudgetPaymentBlock nd nBlockHeight \<longleftrightarrow> highest_count (nd_budgets nd) nBlockHeight (- 1) > nd_CountEnabled nd div 20"

text \<open>
  The height of a block from its previous block, as \<open>CheckBlock\<close> and \<open>IsBlockValueValid\<close> compute it; \<open>0\<close> when the
  previous block is unknown.
\<close>

definition height_of_block :: "node \<Rightarrow> nat \<Rightarrow> CBlock \<Rightarrow> int option" where
  "height_of_block nd pindexPrev block = do {
     b \<leftarrow> nd_mem nd pindexPrev;
     h \<leftarrow> bi_phashBlock b;
     if h = bh_hashPrevBlock (blk_header block) then Some (bi_nHeight b + 1)
     else (case nd_mapBlockIndex nd (bh_hashPrevBlock (blk_header block)) of
             None \<Rightarrow> Some 0
           | Some q \<Rightarrow> map_option (\<lambda>c. bi_nHeight c + 1) (nd_mem nd q)) }"

definition IsBlockValueValid :: "node \<Rightarrow> CBlock \<Rightarrow> CAmount \<Rightarrow> CAmount \<Rightarrow> bool option" where
  "IsBlockValueValid nd block nExpectedValue nMinted =
     (case Tip (nd_chainActive nd) of
        None \<Rightarrow> Some True
      | Some pindexPrev \<Rightarrow> do {
          nHeight \<leftarrow> height_of_block nd pindexPrev block;
          if \<not> nd_fSynced nd then
            Some (if nHeight mod GetBudgetPaymentCycleBlocks nd < 100 then True else \<not> nMinted > nExpectedValue)
          else if \<not> nd_spork nd SPORK_13_ENABLE_SUPERBLOCKS then Some (nMinted \<le> nExpectedValue)
          else Some (if IsBudgetPaymentBlock nd nHeight then True else \<not> nMinted > nExpectedValue) })"

definition IsBlockPayeeValid :: "node \<Rightarrow> CBlock \<Rightarrow> int \<Rightarrow> bool option" where
  "IsBlockPayeeValid nd block nBlockHeight =
     (if \<not> nd_fSynced nd then Some True
      else let i = (if nBlockHeight > cp_nLastPOWBlock (nd_params nd) then 1 else 0) in
        if length (blk_vtx block) \<le> i then None
        else let txNew = blk_vtx block ! i in
          Some (if nd_spork nd SPORK_13_ENABLE_SUPERBLOCKS \<and> IsBudgetPaymentBlock nd nBlockHeight
                then (if nd_budget_tx nd txNew nBlockHeight then True
                      else \<not> nd_spork nd SPORK_9_MASTERNODE_BUDGET_ENFORCEMENT)
                else if nd_masternode_tx nd txNew nBlockHeight then True
                else \<not> nd_spork nd SPORK_8_MASTERNODE_PAYMENT_ENFORCEMENT))"

section \<open>Rules without context\<close>

definition CheckBlockHeader :: "node \<Rightarrow> CBlockHeader \<Rightarrow> bool \<Rightarrow> reject option" where
  "CheckBlockHeader nd block fCheckPOW =
     (if fCheckPOW \<and> \<not> CheckProofOfWork (nd_params nd) (nd_GetHash nd block) (bh_nBits block)
      then Some (reject_dos 50 REJECT_INVALID ''high-hash'') else None)"

definition check_merkle_root :: "CBlock \<Rightarrow> reject option" where
  "check_merkle_root block =
     (let (hashMerkleRoot2, mutated) = BuildMerkleTree (blk_vtx block) in
      if bh_hashMerkleRoot (blk_header block) \<noteq> hashMerkleRoot2
      then Some (reject_corrupt 100 REJECT_INVALID ''bad-txnmrklroot'')
      else if mutated then Some (reject_corrupt 100 REJECT_INVALID ''bad-txns-duplicate'')
      else None)"

definition check_stake_shape :: "CTransaction list \<Rightarrow> reject option" where
  "check_stake_shape vtx =
     (if IsProofOfStake vtx then
        (if length (tx_vout (vtx ! 0)) \<noteq> 1 \<or> \<not> CTxOut_IsEmpty (tx_vout (vtx ! 0) ! 0) then Some (reject_dos 100 0 '''')
         else if vtx = [] \<or> \<not> IsCoinStake (vtx ! 1) then Some (reject_dos 100 0 '''')
         else if list_ex IsCoinStake (drop 2 vtx) then Some (reject_dos 100 0 '''')
         else None)
      else None)"

text \<open>The checks of \<open>CheckBlock\<close> from the time of the block to the position of coinbase and coinstake.\<close>

definition check_block_shape :: "node \<Rightarrow> bool \<Rightarrow> CBlock \<Rightarrow> reject option" where
  "check_block_shape nd fCheckMerkleRoot block =
     (let vtx = blk_vtx block in
      if uint (bh_nTime (blk_header block)) > nd_time nd + nd_timeOffset nd + (if IsProofOfStake vtx then 180 else 7200)
      then Some (reject_invalid REJECT_INVALID ''time-too-new'')
      else case (if fCheckMerkleRoot then check_merkle_root block else None) of
             Some r \<Rightarrow> Some r
           | None \<Rightarrow>
              if vtx = [] \<or> length vtx > MAX_BLOCK_SIZE \<or> length (Serialize_CBlock block) > MAX_BLOCK_SIZE
              then Some (reject_dos 100 REJECT_INVALID ''bad-blk-length'')
              else if vtx = [] \<or> \<not> IsCoinBase (vtx ! 0) then Some (reject_dos 100 REJECT_INVALID ''bad-cb-missing'')
              else if list_ex IsCoinBase (drop 1 vtx) then Some (reject_dos 100 REJECT_INVALID ''bad-cb-multiple'')
              else check_stake_shape vtx)"

definition locks_conflict :: "(COutPoint \<rightharpoonup> uint256) \<Rightarrow> CTransaction list \<Rightarrow> bool" where
  "locks_conflict mapLockedInputs vtx =
     list_ex (\<lambda>tx. \<not> IsCoinBase tx \<and>
       list_ex (\<lambda>txin. case mapLockedInputs (ti_prevout txin) of None \<Rightarrow> False | Some h \<Rightarrow> h \<noteq> CTransaction_GetHash tx) (tx_vin tx)) vtx"

definition check_payee :: "node \<Rightarrow> CBlock \<Rightarrow> bool option" where
  "check_payee nd block =
     (case Tip (nd_chainActive nd) of
        None \<Rightarrow> Some True
      | Some pindexPrev \<Rightarrow> do {
          nHeight \<leftarrow> height_of_block nd pindexPrev block;
          if nHeight \<noteq> 0 \<and> \<not> nd_fInitialDownload nd then IsBlockPayeeValid nd block nHeight else Some True })"

fun check_txs :: "CChainParams \<Rightarrow> CTransaction list \<Rightarrow> reject option" where
  "check_txs ps [] = None"
| "check_txs ps (tx # vtx) = (case CheckTransaction_reject ps tx of Some r \<Rightarrow> Some r | None \<Rightarrow> check_txs ps vtx)"

definition block_sigops :: "CTransaction list \<Rightarrow> nat" where
  "block_sigops vtx = sum_list (map GetLegacySigOpCount vtx)"

text \<open>\<open>std::map::insert\<close> keeps an entry that is there.\<close>

definition map_insert :: "'k \<Rightarrow> 'v \<Rightarrow> ('k \<rightharpoonup> 'v) \<Rightarrow> ('k \<rightharpoonup> 'v)" where
  "map_insert k v mp = (if mp k = None then mp(k \<mapsto> v) else mp)"

text \<open>The flags \<open>fCheckPOW\<close> and \<open>fCheckSig\<close> are not used by the code.\<close>

definition CheckBlock ::
  "node \<Rightarrow> CBlock \<Rightarrow> CValidationState \<Rightarrow> bool \<Rightarrow> bool \<Rightarrow> bool \<Rightarrow> (uint256 \<rightharpoonup> int) \<Rightarrow>
   (bool \<times> CValidationState \<times> (uint256 \<rightharpoonup> int)) option" where
  "CheckBlock nd block st fCheckPOW fCheckMerkleRoot fCheckSig mapRejectedBlocks =
     (let vtx = blk_vtx block;
          hash = nd_GetHash nd (blk_header block);
          rejected = map_insert hash (nd_time nd) mapRejectedBlocks
      in case CheckBlockHeader nd (blk_header block) (\<not> IsProofOfStake vtx) of
           Some r \<Rightarrow> Some (False, DoS (reject_corrupt 100 REJECT_INVALID ''bad-header'') (DoS r st), mapRejectedBlocks)
         | None \<Rightarrow>
        case check_block_shape nd fCheckMerkleRoot block of
           Some r \<Rightarrow> Some (False, DoS r st, mapRejectedBlocks)
         | None \<Rightarrow>
        if nd_spork nd SPORK_3_SWIFTTX_BLOCK_FILTERING \<and> locks_conflict (nd_mapLockedInputs nd) vtx
        then Some (False, DoS (reject_dos 0 REJECT_INVALID ''conflicting-tx-ix'') st, rejected)
        else do {
          fPayee \<leftarrow> check_payee nd block;
          if \<not> fPayee then Some (False, DoS (reject_dos 0 REJECT_INVALID ''bad-cb-payee'') st, rejected)
          else case check_txs (nd_params nd) vtx of
                 Some r \<Rightarrow> Some (False, DoS r st, mapRejectedBlocks)
               | None \<Rightarrow>
                  if block_sigops vtx > MAX_BLOCK_SIGOPS
                  then Some (False, DoS (reject_corrupt 100 REJECT_INVALID ''bad-blk-sigops'') st, mapRejectedBlocks)
                  else Some (True, st, mapRejectedBlocks) })"

section \<open>Rules against the previous block\<close>

definition outdated :: "node \<Rightarrow> u32 \<Rightarrow> int \<Rightarrow> nat option \<Rightarrow> bool option" where
  "outdated nd nVersion minVersion pindexPrev =
     (if sint nVersion < minVersion
      then IsSuperMajority (cp_nToCheckBlockUpgradeMajority (nd_params nd)) minVersion (nd_mem nd) pindexPrev
             (cp_nRejectBlockOutdatedMajority (nd_params nd))
      else Some False)"

definition ContextualCheckBlockHeader :: "node \<Rightarrow> CBlockHeader \<Rightarrow> nat option \<Rightarrow> reject option option" where
  "ContextualCheckBlockHeader nd block pindexPrev =
     (let hash = nd_GetHash nd block; ps = nd_params nd; mem = nd_mem nd in
      if hash = nd_hashGenesisBlock nd then Some None
      else do {
        p \<leftarrow> pindexPrev;
        prev \<leftarrow> mem p;
        let nHeight = bi_nHeight prev + 1;
        if Height (nd_chainActive nd) - nHeight \<ge> cp_nMaxReorganizationDepth ps then Some (Some (reject_dos 1 0 ''''))
        else do {
          median \<leftarrow> GetMedianTimePast mem p;
          if uint (bh_nTime block) \<le> median then Some (Some (reject_invalid REJECT_INVALID ''time-too-old''))
          else if \<not> Checkpoints_CheckBlock nd nHeight hash
          then Some (Some (reject_dos 100 REJECT_CHECKPOINT ''checkpoint mismatch''))
          else do {
            pcheckpoint \<leftarrow> (case GetLastCheckpoint nd of None \<Rightarrow> Some None | Some q \<Rightarrow> map_option Some (mem q));
            if (case pcheckpoint of None \<Rightarrow> False | Some c \<Rightarrow> nHeight < bi_nHeight c) then Some (Some (reject_dos 0 0 ''''))
            else do {
              outdated1 \<leftarrow> outdated nd (bh_nVersion block) 2 pindexPrev;
              if outdated1 then Some (Some (reject_invalid REJECT_OBSOLETE ''bad-version''))
              else do {
                outdated2 \<leftarrow> outdated nd (bh_nVersion block) 3 pindexPrev;
                if outdated2 then Some (Some (reject_invalid REJECT_OBSOLETE ''bad-version''))
                else Some None } } } } })"

definition ContextualCheckBlock :: "node \<Rightarrow> CBlock \<Rightarrow> nat option \<Rightarrow> reject option option" where
  "ContextualCheckBlock nd block pindexPrev = do {
     nHeight \<leftarrow> (case pindexPrev of None \<Rightarrow> Some 0 | Some p \<Rightarrow> map_option (\<lambda>b. bi_nHeight b + 1) (nd_mem nd p));
     if list_ex (\<lambda>tx. \<not> IsFinalTx (Height (nd_chainActive nd)) (nd_time nd + nd_timeOffset nd) tx nHeight
                   (uint (bh_nTime (blk_header block)))) (blk_vtx block)
     then Some (Some (reject_dos 10 REJECT_INVALID ''bad-txns-nonfinal''))
     else do {
       upgraded \<leftarrow> (if sint (bh_nVersion (blk_header block)) \<ge> 2
                    then IsSuperMajority (cp_nToCheckBlockUpgradeMajority (nd_params nd)) 2 (nd_mem nd) pindexPrev
                           (cp_nEnforceBlockUpgradeMajority (nd_params nd))
                    else Some False);
       if upgraded then
         (case blk_vtx block of
            [] \<Rightarrow> None
          | cb # rest \<Rightarrow>
             (case tx_vin cb of
                [] \<Rightarrow> None
              | txin # vin \<Rightarrow>
                 let expect = push_int64 [] nHeight in
                 if length (ti_scriptSig txin) < length expect \<or> take (length expect) (ti_scriptSig txin) \<noteq> expect
                 then Some (Some (reject_dos 100 REJECT_INVALID ''bad-cb-height''))
                 else Some None))
       else Some None } }"

section \<open>What \<open>CheckBlock\<close> enforces\<close>

definition block_time_limit :: "node \<Rightarrow> CBlock \<Rightarrow> int" where
  "block_time_limit nd block = nd_time nd + nd_timeOffset nd + (if IsProofOfStake (blk_vtx block) then 180 else 7200)"

text \<open>Coinbase first and only there; in a proof-of-stake block the coinstake second and only there, and the coinbase empty.\<close>

definition block_shape :: "CTransaction list \<Rightarrow> bool" where
  "block_shape vtx \<longleftrightarrow> (\<exists>cb rest. vtx = cb # rest \<and> IsCoinBase cb \<and> (\<forall>tx \<in> set rest. \<not> IsCoinBase tx) \<and>
     (IsProofOfStake vtx \<longrightarrow> (\<exists>out. tx_vout cb = [out] \<and> CTxOut_IsEmpty out) \<and>
        (\<exists>stake others. rest = stake # others \<and> IsCoinStake stake \<and> (\<forall>tx \<in> set others. \<not> IsCoinStake tx))))"

definition block_rules :: "node \<Rightarrow> CBlock \<Rightarrow> bool" where
  "block_rules nd block \<longleftrightarrow>
     block_shape (blk_vtx block) \<and> length (Serialize_CBlock block) \<le> MAX_BLOCK_SIZE \<and>
     uint (bh_nTime (blk_header block)) \<le> block_time_limit nd block \<and>
     (\<forall>tx \<in> set (blk_vtx block). tx_valid (nd_params nd) tx) \<and>
     sum_list (map GetLegacySigOpCount (blk_vtx block)) \<le> MAX_BLOCK_SIGOPS \<and>
     (IsProofOfStake (blk_vtx block) \<or>
      CheckProofOfWork (nd_params nd) (nd_GetHash nd (blk_header block)) (bh_nBits (blk_header block)))"

lemma length_concat_ge: "(\<And>x. x \<in> set xs \<Longrightarrow> f x \<noteq> []) \<Longrightarrow> length xs \<le> length (concat (map f xs))"
proof (induction xs)
  case (Cons x xs)
  have "0 < length (f x)" using Cons.prems [of x] by simp
  moreover have "length xs \<le> length (concat (map f xs))" by (rule Cons.IH) (simp add: Cons.prems)
  ultimately show ?case unfolding list.map concat.simps length_append list.size by linarith
qed simp

lemma length_vtx_le: "length (blk_vtx block) \<le> length (Serialize_CBlock block)"
proof -
  have "Serialize_CTransaction tx \<noteq> []" for tx by (auto simp: Serialize_CTransaction_def Serialize_uint_def dest: arg_cong [of _ "[]" length])
  then have "length (blk_vtx block) \<le> length (concat (map Serialize_CTransaction (blk_vtx block)))"
    by (intro length_concat_ge) simp
  then show ?thesis by (simp add: Serialize_CBlock_def Serialize_vector_def)
qed

lemma check_stake_shape_None:
  assumes "vtx = cb # rest"
  shows "check_stake_shape vtx = None \<longleftrightarrow>
    (IsProofOfStake vtx \<longrightarrow> (\<exists>out. tx_vout cb = [out] \<and> CTxOut_IsEmpty out) \<and>
        (\<exists>stake others. rest = stake # others \<and> IsCoinStake stake \<and> (\<forall>tx \<in> set others. \<not> IsCoinStake tx)))"
proof (cases "IsProofOfStake vtx")
  case True
  then obtain stake others where rest: "rest = stake # others" "IsCoinStake stake"
    using assms by (cases rest) (auto simp: IsProofOfStake_def)
  then show ?thesis using True assms
    by (auto simp: check_stake_shape_def list_ex_iff length_Suc_conv)
qed (simp add: check_stake_shape_def)

lemma check_block_shape_None:
  "check_block_shape nd fCheckMerkleRoot block = None \<longleftrightarrow>
     uint (bh_nTime (blk_header block)) \<le> block_time_limit nd block \<and>
     (fCheckMerkleRoot \<longrightarrow> check_merkle_root block = None) \<and> length (Serialize_CBlock block) \<le> MAX_BLOCK_SIZE \<and>
     block_shape (blk_vtx block)"
proof (cases "blk_vtx block")
  case Nil
  then show ?thesis by (auto simp: check_block_shape_def block_shape_def split: option.splits)
next
  case (Cons cb rest)
  have len: "length (Serialize_CBlock block) \<le> MAX_BLOCK_SIZE \<Longrightarrow> \<not> length (blk_vtx block) > MAX_BLOCK_SIZE"
    using length_vtx_le [of block] by simp
  have shape: "block_shape (blk_vtx block) \<longleftrightarrow>
    IsCoinBase cb \<and> \<not> list_ex IsCoinBase rest \<and> check_stake_shape (blk_vtx block) = None"
    unfolding check_stake_shape_None [OF Cons] block_shape_def using Cons by (auto simp: list_ex_iff)
  show ?thesis
    unfolding shape using Cons len
    by (auto simp: check_block_shape_def Let_def block_time_limit_def not_less split: option.splits if_splits)
qed

lemma check_merkle_root_None:
  "check_merkle_root block = None \<longleftrightarrow> BuildMerkleTree (blk_vtx block) = (bh_hashMerkleRoot (blk_header block), False)"
  by (cases "BuildMerkleTree (blk_vtx block)") (auto simp: check_merkle_root_def)

lemma check_txs_None:
  assumes "0 \<le> cp_nMaxMoneyOut ps" "cp_nMaxMoneyOut ps < 2 ^ 62"
  shows "check_txs ps vtx = None \<longleftrightarrow> (\<forall>tx \<in> set vtx. tx_valid ps tx)"
  by (induction vtx) (auto simp: CheckTransaction_reject_None [OF assms, symmetric] split: option.splits)

lemma DoS_sel [simp]:
  "vs_corruptionPossible (DoS r st) = rj_corruption r" "vs_strRejectReason (DoS r st) = rj_reason r"
  "vs_chRejectCode (DoS r st) = rj_code r"
  by (simp_all add: DoS_def Let_def)

lemma reject_corrupt_sel [simp]:
  "rj_corruption (reject_corrupt l c s)" "rj_reason (reject_corrupt l c s) = s" "rj_code (reject_corrupt l c s) = c"
  "rj_level (reject_corrupt l c s) = l"
  by (simp_all add: reject_corrupt_def reject_dos_def)

text \<open>Every rejection of the shape before the merkle check is for the time or may be a corruption.\<close>

lemma check_block_shape_Some:
  assumes "check_block_shape nd True block = Some r" "\<not> rj_corruption r"
  shows "rj_reason r = ''time-too-new'' \<or> check_merkle_root block = None"
proof (cases "check_merkle_root block")
  case (Some m)
  have "rj_corruption m" using Some by (auto simp: check_merkle_root_def split: prod.splits if_splits)
  then show ?thesis using assms Some
    by (auto simp: check_block_shape_def Let_def reject_invalid_def reject_dos_def split: if_split_asm)
qed simp

lemma CheckBlock_accepts:
  assumes "0 \<le> cp_nMaxMoneyOut (nd_params nd)" "cp_nMaxMoneyOut (nd_params nd) < 2 ^ 62"
  shows "CheckBlock nd block st fCheckPOW fCheckMerkleRoot fCheckSig rej = Some (True, st', rej') \<longleftrightarrow>
      st' = st \<and> rej' = rej \<and> block_rules nd block \<and>
      (fCheckMerkleRoot \<longrightarrow> BuildMerkleTree (blk_vtx block) = (bh_hashMerkleRoot (blk_header block), False)) \<and>
      \<not> (nd_spork nd SPORK_3_SWIFTTX_BLOCK_FILTERING \<and> locks_conflict (nd_mapLockedInputs nd) (blk_vtx block)) \<and>
      check_payee nd block = Some True"
proof -
  let ?accept = "CheckBlockHeader nd (blk_header block) (\<not> IsProofOfStake (blk_vtx block)) = None \<and>
    check_block_shape nd fCheckMerkleRoot block = None \<and>
    \<not> (nd_spork nd SPORK_3_SWIFTTX_BLOCK_FILTERING \<and> locks_conflict (nd_mapLockedInputs nd) (blk_vtx block)) \<and>
    check_payee nd block = Some True \<and> check_txs (nd_params nd) (blk_vtx block) = None \<and>
    block_sigops (blk_vtx block) \<le> MAX_BLOCK_SIGOPS"
  have "CheckBlock nd block st fCheckPOW fCheckMerkleRoot fCheckSig rej = Some (True, st', rej') \<longleftrightarrow>
      st' = st \<and> rej' = rej \<and> ?accept"
    by (auto simp: CheckBlock_def Let_def not_less split: option.splits if_splits bind_split_asm bind_split)
  then show ?thesis
    by (auto simp: check_txs_None [OF assms] check_block_shape_None check_merkle_root_None block_rules_def block_sigops_def
        CheckBlockHeader_def)
qed

text \<open>C12. Blocks without context: \<open>CheckBlock\<close> accepts exactly the blocks that fit the size limits, are not too far in
  the future, have a coinbase first and only there, have (for proof of stake) one empty coinbase output and the coinstake
  second and only there, contain only valid transactions and not too many signature operations, meet their own proof-of-work target unless
  they are proof of stake, match the merkle root without a duplication, conflict with no transaction lock and pay the right
  payee; the proof-of-work flag it is given is irrelevant. A rejection that is not marked as a possible
  corruption, so that the block will be remembered as invalid, is for a time in the future or the transactions are
  those the header commits to.\<close>

theorem CheckBlock_correct:
  assumes "0 \<le> cp_nMaxMoneyOut (nd_params nd)" "cp_nMaxMoneyOut (nd_params nd) < 2 ^ 62"
  shows "(CheckBlock nd block st fCheckPOW fCheckMerkleRoot fCheckSig rej = Some (True, st', rej') \<longleftrightarrow>
      st' = st \<and> rej' = rej \<and> block_rules nd block \<and>
      (fCheckMerkleRoot \<longrightarrow> BuildMerkleTree (blk_vtx block) = (bh_hashMerkleRoot (blk_header block), False)) \<and>
      \<not> (nd_spork nd SPORK_3_SWIFTTX_BLOCK_FILTERING \<and> locks_conflict (nd_mapLockedInputs nd) (blk_vtx block)) \<and>
      check_payee nd block = Some True) \<and>
    (CheckBlock nd block st fCheckPOW True fCheckSig rej = Some (False, st', rej') \<and> \<not> vs_corruptionPossible st' \<longrightarrow>
      vs_strRejectReason st' = ''time-too-new'' \<or>
      BuildMerkleTree (blk_vtx block) = (bh_hashMerkleRoot (blk_header block), False))"
proof -
  have "vs_strRejectReason st' = ''time-too-new'' \<or> check_merkle_root block = None"
    if r: "CheckBlock nd block st fCheckPOW True fCheckSig rej = Some (False, st', rej')" "\<not> vs_corruptionPossible st'"
  proof (cases "check_block_shape nd True block")
    case None
    then show ?thesis by (simp add: check_block_shape_None)
  next
    case (Some m)
    then have "st' = DoS m st" using r by (auto simp: CheckBlock_def Let_def split: option.splits)
    then show ?thesis using check_block_shape_Some [OF Some] r(2) by simp
  qed
  then show ?thesis using CheckBlock_accepts [OF assms] unfolding check_merkle_root_None by blast
qed

definition example_node :: node where
  "example_node =
     \<lparr>nd_params = mainParams, nd_fMain = True, nd_GetHash = (\<lambda>_. 1), nd_hashGenesisBlock = 0, nd_checkpoints = [(0, 0)],
      nd_fCheckpoints = True, nd_time = 1800000000, nd_timeOffset = 0, nd_mapSporksActive = Map.empty,
      nd_mapLockedInputs = Map.empty, nd_fSynced = True, nd_budgets = [], nd_CountEnabled = 0, nd_budget_tx = (\<lambda>_ _. True),
      nd_masternode_tx = (\<lambda>_ _. True), nd_fInitialDownload = False,
      nd_mem = [0 \<mapsto> CBlockIndex_null\<lparr>bi_phashBlock := Some 3, bi_nHeight := 4\<rparr>], nd_mapBlockIndex = [3 \<mapsto> 0],
      nd_chainActive = [Some 0]\<rparr>"

definition example_header :: CBlockHeader where
  "example_header =
     \<lparr>bh_nVersion = 2, bh_hashPrevBlock = 3, bh_hashMerkleRoot = fst (BuildMerkleTree [example_coinbase]), bh_nTime = 1777017373,
      bh_nBits = 0x1d00ffff, bh_nNonce = 0\<rparr>"

definition example_block :: CBlock where
  "example_block = \<lparr>blk_header = example_header, blk_vtx = [example_coinbase], blk_vchBlockSig = []\<rparr>"

lemma example_coinbase_size: "GetSerializeSize_CTransaction example_coinbase < 100"
  by (simp add: GetSerializeSize_CTransaction_def example_coinbase_def GetSerializeSize_vector_def GetSerializeSize_CTxIn_def
      GetSerializeSize_CTxOut_def GetSerializeSize_bytes_def GetSizeOfCompactSize_def CTxOut_new_def)

lemma example_coinbase_valid: "tx_valid mainParams example_coinbase" "GetLegacySigOpCount example_coinbase = 0"
proof -
  have "IsCoinBase example_coinbase" "GetSerializeSize_CTransaction example_coinbase \<le> MAX_BLOCK_SIZE"
    using example_coinbase_size example_coinbase_ok(1) by simp_all
  then show "tx_valid mainParams example_coinbase"
    by (simp add: tx_valid_def MoneyRange_def mainParams_def total_out_def)
       (simp add: example_coinbase_def CTxOut_new_def)
  show "GetLegacySigOpCount example_coinbase = 0" by code_simp
qed

lemma example_pow: "CheckProofOfWork mainParams 1 0x1d00ffff"
  by code_simp

lemma example_block_ok: "block_rules example_node example_block"
  "BuildMerkleTree (blk_vtx example_block) = (bh_hashMerkleRoot (blk_header example_block), False)"
  "check_payee example_node example_block = Some True"
proof -
  have "\<not> IsProofOfStake [example_coinbase]" by (simp add: IsProofOfStake_def)
  moreover have "block_shape [example_coinbase]" using example_coinbase_ok(1) calculation by (simp add: block_shape_def)
  moreover have "length (Serialize_CBlock example_block) \<le> MAX_BLOCK_SIZE"
    using example_coinbase_size [unfolded serialize_size_exact] calculation(1)
    by (simp add: Serialize_CBlock_def example_block_def Serialize_vector_def Serialize_CBlockHeader_def Serialize_uint_def
        WriteCompactSize_def)
  ultimately show "block_rules example_node example_block"
    using example_coinbase_valid example_pow
    by (simp add: block_rules_def example_block_def example_node_def example_header_def block_time_limit_def)
  show "BuildMerkleTree (blk_vtx example_block) = (bh_hashMerkleRoot (blk_header example_block), False)"
    by (simp add: example_block_def example_header_def BuildMerkleTree_def vMerkleTree_of_def merkle_loop.simps)
  show "check_payee example_node example_block = Some True"
    by (simp add: check_payee_def example_node_def Tip_def height_of_block_def example_block_def example_header_def
        IsBlockPayeeValid_def mainParams_def)
qed

theorem CheckBlock_correct_witness:
  "CheckBlock example_node example_block CValidationState_new False True True Map.empty =
     Some (True, CValidationState_new, Map.empty)"
  using CheckBlock_correct [of example_node example_block CValidationState_new False True True Map.empty
      CValidationState_new Map.empty] example_block_ok
  by (simp add: example_node_def mainParams_def locks_conflict_def list_ex_iff)

text \<open>
  The payee check reads the second transaction of every block above the last proof-of-work height, before any
  check that there is one: on a synced node a proof-of-work block of one transaction on top of such a chain makes
  \<open>CheckBlock\<close> read past the end of the vector.
\<close>

theorem CheckBlock_single_tx:
  assumes "CheckBlockHeader nd (blk_header block) True = None" "check_block_shape nd fM block = None"
    and "blk_vtx block = [cb]" "\<not> locks_conflict (nd_mapLockedInputs nd) [cb]"
    and "nd_fSynced nd" "\<not> nd_fInitialDownload nd"
    and "Tip (nd_chainActive nd) = Some p" "height_of_block nd p block = Some h" "cp_nLastPOWBlock (nd_params nd) < h" "h \<noteq> 0"
  shows "CheckBlock nd block st fP fM fS rej = None"
  using assms by (simp add: CheckBlock_def check_payee_def IsBlockPayeeValid_def IsProofOfStake_def Let_def)

end
