(* ===== verification/ConnectBlock.thy ===== *)
theory ConnectBlock
  imports BlockChecks
begin

text \<open>
  \<open>ConnectBlock\<close>, \<open>src/main.cpp\<close>: the checks of a block against the unspent outputs, the accounting of the money
  supply, and the update of the view, the undo data and the index entry. The optional address and spent
  indexes are left out. What the disk answers is a parameter. The view is the cache the block
  is connected on; on failure the caller throws it away.
\<close>

section \<open>The loop over the transactions\<close>

text \<open>
  \<open>ce_fThreads\<close> is whether there are script-check threads; script checks are then collected and
  run at the end. \<open>ce_FindUndoPos\<close> gives the place for the undo data, or \<open>None\<close> when the disk is full.
\<close>

record connect_env =
  ce_node :: node
  ce_checker :: "CTransaction \<Rightarrow> nat \<Rightarrow> sig_checker"
  ce_fThreads :: bool
  ce_WriteBlockIndex :: bool
  ce_FindUndoPos :: "int \<Rightarrow> CTxInUndo list list \<Rightarrow> u32 option"
  ce_WriteUndo :: bool
  ce_WriteIndexes :: bool

record connect_totals =
  ct_nFees :: CAmount
  ct_nSigOps :: nat
  ct_nValueIn :: CAmount
  ct_nValueOut :: CAmount
  ct_vChecks :: "(CTransaction \<times> CScriptCheck) list"

definition connect_totals_zero :: connect_totals where
  "connect_totals_zero = \<lparr>ct_nFees = 0, ct_nSigOps = 0, ct_nValueIn = 0, ct_nValueOut = 0, ct_vChecks = []\<rparr>"

definition sub_int64 :: "int \<Rightarrow> int \<Rightarrow> int" where
  "sub_int64 a b = add_int64 a (- b)"

text \<open>\<open>GetValueOut\<close>, whose exception is not caught here.\<close>

definition value_out :: "CTransaction \<Rightarrow> CAmount option" where
  "value_out tx = (case GetValueOut tx of Inl e \<Rightarrow> None | Inr nValueOut \<Rightarrow> Some nValueOut)"

abbreviation (input) sigops_reject :: reject where
  "sigops_reject \<equiv> reject_dos 100 REJECT_INVALID ''bad-blk-sigops''"

text \<open>The part of the loop body for a transaction that is not a coinbase.\<close>

definition connect_inputs ::
  "connect_env \<Rightarrow> 'b GetCoins_fn \<Rightarrow> 'b GetBestBlock_fn \<Rightarrow> bool \<Rightarrow> u32 \<Rightarrow> CTransaction \<Rightarrow> connect_totals \<Rightarrow>
   'b CCoinsViewCache \<Rightarrow> (reject + connect_totals \<times> 'b CCoinsViewCache) option" where
  "connect_inputs ce get best fScriptChecks flags tx ct view =
     (let nd = ce_node ce; fStrictPayToScriptHash = flags AND SCRIPT_VERIFY_P2SH \<noteq> 0 in
      case HaveInputs get view tx of
        (False, v) \<Rightarrow> Some (Inl (reject_dos 100 REJECT_INVALID ''bad-txns-inputs-missingorspent''))
      | (True, v) \<Rightarrow> do {
          (nSigOps, v1) \<leftarrow> (if fStrictPayToScriptHash
                            then map_option (\<lambda>(n, v1). (ct_nSigOps ct + n, v1)) (GetP2SHSigOpCount get tx v)
                            else Some (ct_nSigOps ct, v));
          if fStrictPayToScriptHash \<and> nSigOps > MAX_BLOCK_SIGOPS then Some (Inl sigops_reject)
          else do {
            (nFees, v2) \<leftarrow> (if IsCoinStake tx then Some (ct_nFees ct, v1)
                            else do {
                              (nIn, v2) \<leftarrow> GetValueIn get v1 tx;
                              nOut \<leftarrow> value_out tx;
                              Some (add_int64 (ct_nFees ct) (sub_int64 nIn nOut), v2) });
            (nIn, v3) \<leftarrow> GetValueIn get v2 tx;
            (r, vChecks, v4) \<leftarrow> CheckInputs (nd_params nd) get best (nd_mapBlockIndex nd) (nd_mem nd) (ce_checker ce) tx v3
                                  fScriptChecks flags (ce_fThreads ce);
            case r of
              Some e \<Rightarrow> Some (Inl e)
            | None \<Rightarrow>
               Some (Inr (ct\<lparr>ct_nFees := nFees, ct_nSigOps := nSigOps, ct_nValueIn := add_int64 (ct_nValueIn ct) nIn,
                             ct_vChecks := ct_vChecks ct @ map (Pair tx) vChecks\<rparr>, v4)) } })"

fun connect_txs ::
  "connect_env \<Rightarrow> 'b GetCoins_fn \<Rightarrow> 'b GetBestBlock_fn \<Rightarrow> bool \<Rightarrow> u32 \<Rightarrow> int \<Rightarrow> CTransaction list \<Rightarrow> connect_totals \<Rightarrow>
   'b CCoinsViewCache \<Rightarrow> (reject + CTxInUndo list list \<times> connect_totals \<times> 'b CCoinsViewCache) option" where
  "connect_txs ce get best fScriptChecks flags nHeight [] ct view = Some (Inr ([], ct, view))"
| "connect_txs ce get best fScriptChecks flags nHeight (tx # vtx) ct view =
     (let ct1 = ct\<lparr>ct_nSigOps := ct_nSigOps ct + GetLegacySigOpCount tx\<rparr> in
      if ct_nSigOps ct1 > MAX_BLOCK_SIGOPS then Some (Inl sigops_reject)
      else do {
        r \<leftarrow> (if IsCoinBase tx then Some (Inr (ct1, view)) else connect_inputs ce get best fScriptChecks flags tx ct1 view);
        case r of
          Inl e \<Rightarrow> Some (Inl e)
        | Inr (ct2, v) \<Rightarrow> do {
            nOut \<leftarrow> value_out tx;
            (undo, v') \<leftarrow> UpdateCoins get tx v nHeight;
            s \<leftarrow> connect_txs ce get best fScriptChecks flags nHeight vtx
                   (ct2\<lparr>ct_nValueOut := add_int64 (ct_nValueOut ct2) nOut\<rparr>) v';
            case s of
              Inl e \<Rightarrow> Some (Inl e)
            | Inr (undos, ct3, v'') \<Rightarrow> Some (Inr (undo # undos, ct3, v'')) } })"

section \<open>ConnectBlock\<close>

fun bip30_loop :: "'b GetCoins_fn \<Rightarrow> 'b CCoinsViewCache \<Rightarrow> CTransaction list \<Rightarrow> bool \<times> 'b CCoinsViewCache" where
  "bip30_loop get view [] = (True, view)"
| "bip30_loop get view (tx # vtx) =
     (case AccessCoins get view (CTransaction_GetHash tx) of
        (coins, v) \<Rightarrow> if (case coins of None \<Rightarrow> False | Some c \<Rightarrow> \<not> IsPruned c) then (False, v) else bip30_loop get v vtx)"

definition fEnforceBIP30 :: "CBlockIndex \<Rightarrow> bool" where
  "fEnforceBIP30 pindex \<longleftrightarrow>
     (case bi_phashBlock pindex of
        None \<Rightarrow> True
      | Some h \<Rightarrow> \<not> ((bi_nHeight pindex = 91842 \<and> h = 0x00000000000a4d0a398161ffc163c503763b1f4360639393e0e4c8e300e0caec) \<or>
                    (bi_nHeight pindex = 91880 \<and> h = 0x00000000000743f190a18c5577a3c2d2a1f610ae9601ac046a38084ccb7cd721)))"

definition connect_flags :: "node \<Rightarrow> CBlock \<Rightarrow> CBlockIndex \<Rightarrow> u32 option" where
  "connect_flags nd block pindex = do {
     let flags = (if GetBlockTime pindex \<ge> 1333238400 then SCRIPT_VERIFY_P2SH else 0);
     dersig \<leftarrow> (if sint (bh_nVersion (blk_header block)) \<ge> 3
                then IsSuperMajority (cp_nToCheckBlockUpgradeMajority (nd_params nd)) 3 (nd_mem nd) (bi_pprev pindex)
                       (cp_nEnforceBlockUpgradeMajority (nd_params nd))
                else Some False);
     Some (if dersig then flags OR SCRIPT_VERIFY_DERSIG else flags) }"

definition check_phase :: "CChainParams \<Rightarrow> CBlockIndex \<Rightarrow> CTransaction list \<Rightarrow> reject option" where
  "check_phase ps pindex vtx =
     (if bi_nHeight pindex \<le> cp_nLastPOWBlock ps \<and> IsProofOfStake vtx then Some (reject_dos 100 REJECT_INVALID ''PoS-early'')
      else if bi_nHeight pindex > cp_nLastPOWBlock ps \<and> \<not> IsProofOfStake vtx
      then Some (reject_dos 100 REJECT_INVALID ''PoW-ended'')
      else None)"

text \<open>The money supply and the amount minted, in the index entry.\<close>

definition record_mint :: "node \<Rightarrow> connect_totals \<Rightarrow> CBlockIndex \<Rightarrow> CBlockIndex option" where
  "record_mint nd ct pindex = do {
     nMoneySupplyPrev \<leftarrow> (case bi_pprev pindex of None \<Rightarrow> Some 0 | Some q \<Rightarrow> map_option bi_nMoneySupply (nd_mem nd q));
     let supply = sub_int64 (add_int64 nMoneySupplyPrev (ct_nValueOut ct)) (ct_nValueIn ct);
     Some (pindex\<lparr>bi_nMoneySupply := supply, bi_nMint := sub_int64 supply nMoneySupplyPrev\<rparr>) }"

text \<open>The checks after the loop.\<close>

definition check_mint :: "connect_env \<Rightarrow> CBlock \<Rightarrow> connect_totals \<Rightarrow> CBlockIndex \<Rightarrow> reject option option" where
  "check_mint ce block ct pindex = do {
     nSubsidy \<leftarrow> GetBlockValue (bi_nHeight pindex);
     let nExpectedMint = (if \<not> IsProofOfStake (blk_vtx block) then add_int64 nSubsidy (ct_nFees ct) else nSubsidy);
     fValid \<leftarrow> IsBlockValueValid (ce_node ce) block nExpectedMint (bi_nMint pindex);
     Some (if \<not> fValid then Some (reject_dos 100 REJECT_INVALID ''bad-cb-amount'')
           else if bi_nMoneySupply pindex > cp_nMaxMoneyOut (nd_params (ce_node ce))
           then Some (reject_dos 100 REJECT_INVALID ''bad-money-supply'')
           else if \<not> list_all (\<lambda>(tx, check). script_check (ce_checker ce) tx check = Some (Inr ())) (ct_vChecks ct)
           then Some (reject_dos 100 0 '''')
           else None) }"

text \<open>\<open>Inl\<close> is a failure of the disk, with the message for the state.\<close>

definition write_undo :: "connect_env \<Rightarrow> CTxInUndo list list \<Rightarrow> CBlockIndex \<Rightarrow> (string + CBlockIndex) option" where
  "write_undo ce undos pindex =
     (let fNull = (GetUndoPos pindex = CDiskBlockPos_null) in
      if fNull \<or> BI_IsValid BLOCK_VALID_SCRIPTS pindex \<noteq> Some True then do {
        r \<leftarrow> (if fNull then
                (case ce_FindUndoPos ce (bi_nFile pindex) undos of
                   None \<Rightarrow> Some (Inl ''out of disk space'')
                 | Some nPos \<Rightarrow> do {
                     prev \<leftarrow> deref (nd_mem (ce_node ce)) (bi_pprev pindex);
                     hashPrev \<leftarrow> bi_phashBlock prev;
                     if \<not> ce_WriteUndo ce then Some (Inl ''Failed to write undo data'')
                     else Some (Inr (pindex\<lparr>bi_nUndoPos := nPos, bi_nStatus := bi_nStatus pindex OR BLOCK_HAVE_UNDO\<rparr>)) })
              else Some (Inr pindex));
        case r of Inl e \<Rightarrow> Some (Inl e) | Inr b \<Rightarrow> map_option (\<lambda>(fChanged, b'). Inr b') (RaiseValidity BLOCK_VALID_SCRIPTS b) }
      else Some (Inr pindex))"

record 'b connect_result =
  cr_ok :: bool
  cr_state :: CValidationState
  cr_rejected :: "uint256 \<rightharpoonup> int"
  cr_pindex :: CBlockIndex
  cr_undo :: "CTxInUndo list list"
  cr_view :: "'b CCoinsViewCache"

definition ConnectBlock ::
  "connect_env \<Rightarrow> 'b GetCoins_fn \<Rightarrow> 'b GetBestBlock_fn \<Rightarrow> CBlock \<Rightarrow> CValidationState \<Rightarrow> CBlockIndex \<Rightarrow> 'b CCoinsViewCache \<Rightarrow>
   bool \<Rightarrow> (uint256 \<rightharpoonup> int) \<Rightarrow> 'b connect_result option" where
  "ConnectBlock ce get best block st0 pindex view fJustCheck rej0 =
     (let nd = ce_node ce; vtx = blk_vtx block in do {
      (ok, st, rej) \<leftarrow> CheckBlock nd block st0 (\<not> fJustCheck) (\<not> fJustCheck) True rej0;
      let res = \<lparr>cr_ok = True, cr_state = st, cr_rejected = rej, cr_pindex = pindex, cr_undo = [], cr_view = view\<rparr>;
      let fail = (\<lambda>r b. Some (res\<lparr>cr_ok := False, cr_state := DoS r st, cr_pindex := b\<rparr>));
      if \<not> ok then Some (res\<lparr>cr_ok := False\<rparr>)
      else do {
        hashPrevBlock \<leftarrow> (case bi_pprev pindex of None \<Rightarrow> Some 0 | Some q \<Rightarrow> do { c \<leftarrow> nd_mem nd q; bi_phashBlock c });
        let (hashView, v) = Cache_GetBestBlock best view;
        if hashPrevBlock \<noteq> hashView then None
        else if nd_GetHash nd (blk_header block) = nd_hashGenesisBlock nd
        then do { h \<leftarrow> bi_phashBlock pindex; Some (res\<lparr>cr_view := SetBestBlock v h\<rparr>) }
        else case check_phase (nd_params nd) pindex vtx of
          Some r \<Rightarrow> fail r pindex
        | None \<Rightarrow> (case (if fEnforceBIP30 pindex then bip30_loop get v vtx else (True, v)) of
          (False, v1) \<Rightarrow> fail (reject_dos 100 REJECT_INVALID ''bad-txns-BIP30'') pindex
        | (True, v1) \<Rightarrow> do {
          flags \<leftarrow> connect_flags nd block pindex;
          r \<leftarrow> connect_txs ce get best (bi_nHeight pindex \<ge> GetTotalBlocksEstimate nd) flags (bi_nHeight pindex) vtx
                 connect_totals_zero v1;
          case r of
            Inl e \<Rightarrow> fail e pindex
          | Inr (undos, ct, v2) \<Rightarrow> do {
              pindex1 \<leftarrow> record_mint nd ct pindex;
              if \<not> ce_WriteBlockIndex ce then Some (res\<lparr>cr_ok := False, cr_pindex := pindex1\<rparr>)
              else do {
                m \<leftarrow> check_mint ce block ct pindex1;
                case m of
                  Some e \<Rightarrow> fail e pindex1
                | None \<Rightarrow>
                   if fJustCheck then Some (res\<lparr>cr_pindex := pindex1, cr_undo := tl undos, cr_view := v2\<rparr>)
                   else do {
                     w \<leftarrow> write_undo ce (tl undos) pindex1;
                     case w of
                       Inl msg \<Rightarrow> Some (res\<lparr>cr_ok := False, cr_state := VS_Error msg st, cr_pindex := pindex1\<rparr>)
                     | Inr pindex2 \<Rightarrow>
                        if \<not> ce_WriteIndexes ce
                        then Some (res\<lparr>cr_ok := False, cr_state := VS_Error ''Failed to write transaction index'' st,
                                       cr_pindex := pindex2, cr_undo := tl undos\<rparr>)
                        else do {
                          h \<leftarrow> bi_phashBlock pindex2;
                          Some (res\<lparr>cr_pindex := pindex2, cr_undo := tl undos, cr_view := SetBestBlock v2 h\<rparr>) } } } } }) } })"

section \<open>Amounts modulo 64 bits\<close>

lemma word_add_int64: "(word_of_int (add_int64 a b) :: u64) = word_of_int a + word_of_int b"
  by (simp add: add_int64_def)

lemma word_sub_int64: "(word_of_int (sub_int64 a b) :: u64) = word_of_int a - word_of_int b"
  by (simp add: sub_int64_def word_add_int64)

lemma int64_of_word:
  assumes "(word_of_int a :: u64) = word_of_int b" "int64_range a" "int64_range b"
  shows "a = b"
  using arg_cong [OF assms(1), of sint] assms(2,3) by (simp add: sint_word_of_int64)

lemma add_int64_range: "int64_range (add_int64 a b)" "int64_range (sub_int64 a b)"
  by (simp_all add: add_int64_def sub_int64_def int64_range_sint del: of_int_add)

section \<open>What a connected block did\<close>

definition undo_in :: "CTxInUndo list \<Rightarrow> int" where
  "undo_in d = sum_list (map (\<lambda>x. to_nValue (tu_txout x)) d)"

text \<open>The coins left over by a transaction that is no coinbase and no coinstake, and what coinbase and coinstakes gain.\<close>

definition tx_fee :: "CTransaction \<Rightarrow> CTxInUndo list \<Rightarrow> int" where
  "tx_fee tx d = (if IsCoinBase tx \<or> IsCoinStake tx then 0 else undo_in d - total_out tx)"

definition tx_claim :: "CTransaction \<Rightarrow> CTxInUndo list \<Rightarrow> int" where
  "tx_claim tx d = (if IsCoinBase tx \<or> IsCoinStake tx then total_out tx - undo_in d else 0)"

definition block_fees :: "CTransaction list \<Rightarrow> CTxInUndo list list \<Rightarrow> int" where
  "block_fees vtx undos = sum_list (map2 tx_fee vtx undos)"

definition block_claim :: "CTransaction list \<Rightarrow> CTxInUndo list list \<Rightarrow> int" where
  "block_claim vtx undos = sum_list (map2 tx_claim vtx undos)"

definition block_in :: "CTxInUndo list list \<Rightarrow> int" where
  "block_in undos = sum_list (map undo_in undos)"

definition block_out :: "CTransaction list \<Rightarrow> int" where
  "block_out vtx = sum_list (map total_out vtx)"

lemma block_balance: "length undos = length vtx \<Longrightarrow> block_out vtx - block_in undos = block_claim vtx undos - block_fees vtx undos"
  by (induction undos vtx rule: list_induct2)
     (auto simp: block_out_def block_in_def block_claim_def block_fees_def tx_claim_def tx_fee_def)

lemma Spend_keeps:
  assumes "Spend c out = Some (d, c')" "IsAvailable c' n"
  shows "IsAvailable c n \<and> cc_vout c' ! n = cc_vout c ! n"
proof -
  let ?s = "(cc_vout c)[unat (op_n out) := CTxOut_null]"
  from assms(1) obtain w where w: "w = cleanup_vout ?s" "c' = c\<lparr>cc_vout := w\<rparr>" by (rule Spend_cases)
  have null: "CTxOut_IsNull CTxOut_null" by (simp add: CTxOut_IsNull_def CTxOut_null_def)
  obtain r where r: "?s = w @ r" using cleanup_prefix [of ?s] by (auto simp: w(1) prefix_def)
  have n: "n < length w" "\<not> CTxOut_IsNull (w ! n)" using assms(2) by (auto simp: IsAvailable_def w(2))
  then have "?s ! n = w ! n" "n < length ?s" unfolding r by (simp_all add: nth_append)
  moreover then have "n \<noteq> unat (op_n out)" using n(2) null by auto
  ultimately show ?thesis using n by (simp add: IsAvailable_def w(2))
qed

lemma Spend_IsAvailable: "Spend c out = Some (d, c') \<Longrightarrow>
  IsAvailable c (unat (op_n out)) \<and> tu_txout d = cc_vout c ! unat (op_n out)"
  by (erule Spend_cases) (auto simp: IsAvailable_def CTxInUndo_new_def)

lemma spends_outputs:
  "spends u vin d u' \<Longrightarrow>
     (\<forall>i \<in> set vin. \<exists>c. u (op_hash (ti_prevout i)) = Some c \<and> IsAvailable c (unat (op_n (ti_prevout i)))) \<and>
     map tu_txout d = map (spent_output u) vin"
proof (induction u vin d u' rule: spends.induct)
  case (2 u i vin d undos u')
  let ?k = "op_hash (ti_prevout i)"
  from 2(2) obtain c c' where c: "u ?k = Some c" "Spend c (ti_prevout i) = Some (d, c')"
    "spends (u(?k := unspent (Some c'))) vin undos u'" by auto
  note ih = 2(1) [OF c(3)]
  have keep: "(\<exists>b. u (op_hash (ti_prevout j)) = Some b \<and> IsAvailable b (unat (op_n (ti_prevout j)))) \<and>
    spent_output (u(?k := unspent (Some c'))) j = spent_output u j" if j: "j \<in> set vin" for j
  proof (cases "op_hash (ti_prevout j) = ?k")
    case True
    obtain b where b: "unspent (Some c') = Some b" "IsAvailable b (unat (op_n (ti_prevout j)))"
      using ih j True by fastforce
    then have "unspent (Some c') = Some c'" "IsAvailable c' (unat (op_n (ti_prevout j)))"
      using unspent_SomeD [OF b(1)] by auto
    then show ?thesis using Spend_keeps [OF c(2), of "unat (op_n (ti_prevout j))"] True c(1) by (simp add: spent_output_def)
  next
    case False
    then show ?thesis using conjunct1 [OF ih, THEN bspec, OF j] by (simp add: spent_output_def)
  qed
  then show ?case using ih c Spend_IsAvailable [OF c(2)] by (simp add: spent_output_def cong: map_cong)
qed auto

lemma spends_total_in: "spends u vin d u' \<Longrightarrow> undo_in d = total_in u vin"
proof -
  assume "spends u vin d u'"
  then have "map (to_nValue \<circ> tu_txout) d = map (to_nValue \<circ> spent_output u) vin"
    using spends_outputs [of u vin d u'] unfolding map_map [symmetric] by simp
  then show ?thesis by (simp add: undo_in_def total_in_def comp_def)
qed

section \<open>Reads of the loop leave the view\<close>

context coins_reader
begin

lemma GetOutputFor_spec:
  assumes "cache_inv inv utxo present v" "GetOutputFor get v txin = Some (out, v')"
  shows "same_view v v' \<and> out = spent_output (cache_utxo utxo v) txin"
proof -
  let ?k = "op_hash (ti_prevout txin)"
  obtain r v1 where a: "AccessCoins get v ?k = (r, v1)" by (cases "AccessCoins get v ?k")
  note s = AccessCoins_spec [OF assms(1) a]
  from assms(2) a obtain c where c: "r = Some c" "IsAvailable c (unat (op_n (ti_prevout txin)))"
    "out = cc_vout c ! unat (op_n (ti_prevout txin))" "v' = v1"
    by (auto simp: GetOutputFor_def split: option.splits if_splits)
  then have "cache_utxo utxo v ?k = Some c" using s IsAvailable_not_pruned [OF c(2)] by simp
  then show ?thesis using c s by (simp add: spent_output_def)
qed

lemma value_in_loop_spec:
  "cache_inv inv utxo present v \<Longrightarrow> value_in_loop get v vin a = Some (n, v') \<Longrightarrow>
     same_view v v' \<and> (word_of_int n :: u64) = word_of_int (a + total_in (cache_utxo utxo v) vin)"
proof (induction vin arbitrary: v a)
  case (Cons txin vin)
  from Cons.prems(2) obtain out v1 where o1: "GetOutputFor get v txin = Some (out, v1)"
    "value_in_loop get v1 vin (add_int64 a (to_nValue out)) = Some (n, v')" by (auto split: option.splits)
  note g = GetOutputFor_spec [OF Cons.prems(1) o1(1)]
  then have "cache_inv inv utxo present v1" "cache_utxo utxo v1 = cache_utxo utxo v" by (simp_all add: same_view_def)
  with Cons.IH [OF _ o1(2)] g show ?case
    by (auto simp: same_view_def total_in_def word_add_int64 add.assoc)
qed (simp add: same_view_def total_in_def)

lemma p2sh_loop_spec:
  "cache_inv inv utxo present v \<Longrightarrow> p2sh_loop get v vin a = Some (n, v') \<Longrightarrow> same_view v v'"
proof (induction vin arbitrary: v a)
  case (Cons txin vin)
  from Cons.prems(2) obtain out v1 b where o1: "GetOutputFor get v txin = Some (out, v1)" "p2sh_loop get v1 vin b = Some (n, v')"
    by (auto split: Option.bind_splits)
  note g = GetOutputFor_spec [OF Cons.prems(1) o1(1)]
  then show ?case using Cons.IH [OF _ o1(2)] by (auto simp: same_view_def)
qed (simp add: same_view_def)

lemma bip30_loop_spec:
  "cache_inv inv utxo present v \<Longrightarrow> bip30_loop get v vtx = (True, v') \<Longrightarrow>
     same_view v v' \<and> (\<forall>tx \<in> set vtx. cache_utxo utxo v (CTransaction_GetHash tx) = None)"
proof (induction vtx arbitrary: v)
  case (Cons tx vtx)
  obtain r v1 where a: "AccessCoins get v (CTransaction_GetHash tx) = (r, v1)" by (cases "AccessCoins get v (CTransaction_GetHash tx)")
  note s = AccessCoins_spec [OF Cons.prems(1) a]
  have r: "unspent r = None" "bip30_loop get v1 vtx = (True, v')"
    using Cons.prems(2) a by (auto simp: unspent_def split: option.splits if_splits)
  then show ?case using Cons.IH [OF _ r(2)] s by (auto simp: same_view_def)
qed (simp add: same_view_def)

end

section \<open>One transaction\<close>

lemma connect_inputs_steps:
  assumes "connect_inputs ce get best fS flags tx ct view = Some (Inr (ct', v'))" "\<not> IsCoinBase tx"
  obtains v0 nSigOps v1 nFees v2 nIn v3 vChecks where
    "have_inputs_loop get view (tx_vin tx) = (True, v0)"
    "v1 = v0 \<or> (\<exists>n. p2sh_loop get v0 (tx_vin tx) 0 = Some (n, v1))"
    "if IsCoinStake tx then nFees = ct_nFees ct \<and> v2 = v1
     else \<exists>n out. value_in_loop get v1 (tx_vin tx) 0 = Some (n, v2) \<and> GetValueOut tx = Inr out \<and>
            nFees = add_int64 (ct_nFees ct) (sub_int64 n out)"
    "value_in_loop get v2 (tx_vin tx) 0 = Some (nIn, v3)"
    "CheckInputs (nd_params (ce_node ce)) get best (nd_mapBlockIndex (ce_node ce)) (nd_mem (ce_node ce)) (ce_checker ce) tx v3
       fS flags (ce_fThreads ce) = Some (None, vChecks, v')"
    "ct' = ct\<lparr>ct_nFees := nFees, ct_nSigOps := nSigOps, ct_nValueIn := add_int64 (ct_nValueIn ct) nIn,
       ct_vChecks := ct_vChecks ct @ map (Pair tx) vChecks\<rparr>"
proof -
  from assms obtain v0 where v0: "have_inputs_loop get view (tx_vin tx) = (True, v0)"
    by (auto simp: connect_inputs_def HaveInputs_def Let_def split: prod.splits bool.splits)
  obtain nSigOps v1 where v1: "(if flags AND SCRIPT_VERIFY_P2SH \<noteq> 0
      then map_option (\<lambda>(n, v1). (ct_nSigOps ct + n, v1)) (GetP2SHSigOpCount get tx v0) else Some (ct_nSigOps ct, v0)) = Some (nSigOps, v1)"
    using assms v0 by (auto simp: connect_inputs_def HaveInputs_def Let_def split: Option.bind_splits)
  obtain nFees v2 where v2: "(if IsCoinStake tx then Some (ct_nFees ct, v1)
      else do { (nIn, v2) \<leftarrow> GetValueIn get v1 tx; nOut \<leftarrow> value_out tx; Some (add_int64 (ct_nFees ct) (sub_int64 nIn nOut), v2) }) = Some (nFees, v2)"
    using assms v0 v1 by (auto simp: connect_inputs_def HaveInputs_def Let_def split: Option.bind_splits if_split_asm)
  obtain nIn v3 where v3: "GetValueIn get v2 tx = Some (nIn, v3)"
    using assms v0 v1 v2 by (auto simp: connect_inputs_def HaveInputs_def Let_def split: Option.bind_splits if_split_asm)
  obtain r vChecks v4 where v4: "CheckInputs (nd_params (ce_node ce)) get best (nd_mapBlockIndex (ce_node ce)) (nd_mem (ce_node ce))
      (ce_checker ce) tx v3 fS flags (ce_fThreads ce) = Some (r, vChecks, v4)"
    using assms v0 v1 v2 v3 by (auto simp: connect_inputs_def HaveInputs_def Let_def split: Option.bind_splits if_split_asm)
  have e: "r = None" "v4 = v'" "ct' = ct\<lparr>ct_nFees := nFees, ct_nSigOps := nSigOps, ct_nValueIn := add_int64 (ct_nValueIn ct) nIn,
       ct_vChecks := ct_vChecks ct @ map (Pair tx) vChecks\<rparr>"
    using assms v0 v1 v2 v3 v4 by (auto simp: connect_inputs_def HaveInputs_def Let_def split: if_split_asm option.splits)
  show thesis
  proof (rule that [OF v0 _ _ _ v4 [unfolded e(1,2)] e(3)])
    show "v1 = v0 \<or> (\<exists>n. p2sh_loop get v0 (tx_vin tx) 0 = Some (n, v1))"
      using v1 assms(2) by (auto simp: GetP2SHSigOpCount_def split: if_split_asm)
    show "value_in_loop get v2 (tx_vin tx) 0 = Some (nIn, v3)" using v3 assms(2) by (simp add: GetValueIn_def)
    show "if IsCoinStake tx then nFees = ct_nFees ct \<and> v2 = v1
     else \<exists>n out. value_in_loop get v1 (tx_vin tx) 0 = Some (n, v2) \<and> GetValueOut tx = Inr out \<and>
            nFees = add_int64 (ct_nFees ct) (sub_int64 n out)"
      using v2 assms(2) by (auto simp: GetValueIn_def value_out_def split: Option.bind_splits sum.splits if_splits)
  qed
qed

lemma connect_inputs_spec:
  assumes "view_inv v" "0 \<le> cp_nMaxMoneyOut (nd_params (ce_node ce))" "cp_nMaxMoneyOut (nd_params (ce_node ce)) < 2 ^ 62"
    and tx: "\<not> IsCoinBase tx" "tx_valid (nd_params (ce_node ce)) tx"
    and ok: "connect_inputs ce tip_get tip_best fS flags tx ct v = Some (Inr (ct', v'))"
  defines "vin \<equiv> total_in (view_utxo v) (tx_vin tx)"
  shows "view_inv v' \<and> view_utxo v' = view_utxo v \<and> ct_nValueOut ct' = ct_nValueOut ct \<and>
    (word_of_int (ct_nValueIn ct') :: u64) = word_of_int (ct_nValueIn ct + vin) \<and>
    (word_of_int (ct_nFees ct') :: u64) = word_of_int (ct_nFees ct + (if IsCoinStake tx then 0 else vin - total_out tx)) \<and>
    MoneyRange (nd_params (ce_node ce)) vin \<and> (IsCoinStake tx \<or> total_out tx \<le> vin)"
proof -
  note out = tx_valid_GetValueOut [OF tx(2) assms(3)]
  obtain v0 nSigOps v1 nFees v2 nIn v3 vChecks where
    s: "have_inputs_loop tip_get v (tx_vin tx) = (True, v0)"
    "v1 = v0 \<or> (\<exists>n. p2sh_loop tip_get v0 (tx_vin tx) 0 = Some (n, v1))"
    "if IsCoinStake tx then nFees = ct_nFees ct \<and> v2 = v1
     else \<exists>n out. value_in_loop tip_get v1 (tx_vin tx) 0 = Some (n, v2) \<and> GetValueOut tx = Inr out \<and>
            nFees = add_int64 (ct_nFees ct) (sub_int64 n out)"
    "value_in_loop tip_get v2 (tx_vin tx) 0 = Some (nIn, v3)"
    "CheckInputs (nd_params (ce_node ce)) tip_get tip_best (nd_mapBlockIndex (ce_node ce)) (nd_mem (ce_node ce)) (ce_checker ce) tx v3
       fS flags (ce_fThreads ce) = Some (None, vChecks, v')"
    "ct' = ct\<lparr>ct_nFees := nFees, ct_nSigOps := nSigOps, ct_nValueIn := add_int64 (ct_nValueIn ct) nIn,
       ct_vChecks := ct_vChecks ct @ map (Pair tx) vChecks\<rparr>" by (rule connect_inputs_steps [OF ok tx(1)])
  have v0: "view_inv v0" "view_utxo v0 = view_utxo v"
    using tip.have_inputs_spec [OF assms(1) s(1)] by (simp_all add: tip.same_view_def)
  have v1: "view_inv v1" "view_utxo v1 = view_utxo v"
    using s(2) tip.p2sh_loop_spec [OF v0(1)] v0 by (auto simp: tip.same_view_def)
  have v2: "view_inv v2 \<and> view_utxo v2 = view_utxo v \<and>
    (word_of_int nFees :: u64) = word_of_int (ct_nFees ct + (if IsCoinStake tx then 0 else vin - total_out tx))"
  proof (cases "IsCoinStake tx")
    case False
    then obtain n where n: "value_in_loop tip_get v1 (tx_vin tx) 0 = Some (n, v2)"
      "nFees = add_int64 (ct_nFees ct) (sub_int64 n (total_out tx))" using s(3) out(1) by auto
    then show ?thesis using tip.value_in_loop_spec [OF v1(1) n(1)] v1(2) False
      by (simp add: tip.same_view_def word_add_int64 word_sub_int64 vin_def)
  qed (use s(3) v1 in simp)
  then have "view_inv v2" "view_utxo v2 = view_utxo v" by simp_all
  note v3 = tip.value_in_loop_spec [OF \<open>view_inv v2\<close> s(4)]
  have w3: "view_inv v3" "view_utxo v3 = view_utxo v" using v3 \<open>view_utxo v2 = view_utxo v\<close> by (simp_all add: tip.same_view_def)
  note acc = CheckInputs_accepts [OF w3(1) assms(2,3) tx(1) s(5), unfolded w3(2), folded vin_def]
  have "view_inv v'" "view_utxo v' = view_utxo v" "MoneyRange (nd_params (ce_node ce)) vin"
    "\<not> IsCoinStake tx \<longrightarrow> (\<exists>nValueOut. GetValueOut tx = Inr nValueOut \<and> nValueOut \<le> vin)"
    using acc by blast+
  then have "view_inv v' \<and> view_utxo v' = view_utxo v \<and> MoneyRange (nd_params (ce_node ce)) vin \<and> (IsCoinStake tx \<or> total_out tx \<le> vin)"
    using out(1) by auto
  moreover have "(word_of_int (ct_nValueIn ct') :: u64) = word_of_int (ct_nValueIn ct + vin)"
    using v3 \<open>view_utxo v2 = view_utxo v\<close> by (simp add: s(6) word_add_int64 vin_def)
  ultimately show ?thesis using v2 by (simp add: s(6))
qed

section \<open>The transactions of a block\<close>

text \<open>Every transaction but coinbase and coinstakes gives at most what it takes, and no amount is out of range.\<close>

definition tx_balanced :: "CChainParams \<Rightarrow> CTransaction \<Rightarrow> CTxInUndo list \<Rightarrow> bool" where
  "tx_balanced ps tx d \<longleftrightarrow> 0 \<le> tx_fee tx d \<and> MoneyRange ps (undo_in d) \<and> MoneyRange ps (total_out tx)"

lemma connect_txs_step:
  assumes "connect_txs ce get best fS flags h (tx # vtx) ct v = Some (Inr (undos, ct', v'))"
  obtains ct1 ct2 v1 nOut d v2 ds where
    "ct1 = ct\<lparr>ct_nSigOps := ct_nSigOps ct + GetLegacySigOpCount tx\<rparr>"
    "if IsCoinBase tx then ct2 = ct1 \<and> v1 = v else connect_inputs ce get best fS flags tx ct1 v = Some (Inr (ct2, v1))"
    "GetValueOut tx = Inr nOut" "UpdateCoins get tx v1 h = Some (d, v2)"
    "connect_txs ce get best fS flags h vtx (ct2\<lparr>ct_nValueOut := add_int64 (ct_nValueOut ct2) nOut\<rparr>) v2 = Some (Inr (ds, ct', v'))"
    "undos = d # ds"
proof -
  let ?ct1 = "ct\<lparr>ct_nSigOps := ct_nSigOps ct + GetLegacySigOpCount tx\<rparr>"
  obtain ct2 v1 where 1: "(if IsCoinBase tx then Some (Inr (?ct1, v)) else connect_inputs ce get best fS flags tx ?ct1 v) = Some (Inr (ct2, v1))"
    using assms by (auto simp: Let_def split: if_split_asm Option.bind_splits sum.splits)
  obtain nOut where 2: "value_out tx = Some nOut" using assms 1 by (auto simp: Let_def split: if_split_asm Option.bind_splits)
  obtain d v2 where 3: "UpdateCoins get tx v1 h = Some (d, v2)"
    using assms 1 2 by (auto simp: Let_def split: if_split_asm Option.bind_splits)
  have 4: "\<exists>ds. connect_txs ce get best fS flags h vtx (ct2\<lparr>ct_nValueOut := add_int64 (ct_nValueOut ct2) nOut\<rparr>) v2 = Some (Inr (ds, ct', v')) \<and>
      undos = d # ds"
    using assms 1 2 3 by (auto simp: Let_def split: if_split_asm Option.bind_splits sum.splits)
  then obtain ds where "connect_txs ce get best fS flags h vtx (ct2\<lparr>ct_nValueOut := add_int64 (ct_nValueOut ct2) nOut\<rparr>) v2 = Some (Inr (ds, ct', v'))"
    "undos = d # ds" by blast
  then show thesis using that [OF refl _ _ 3] 1 2 by (auto simp: value_out_def split: if_split_asm sum.splits)
qed

lemma connect_txs_spec:
  assumes "0 \<le> cp_nMaxMoneyOut (nd_params (ce_node ce))" "cp_nMaxMoneyOut (nd_params (ce_node ce)) < 2 ^ 62"
  shows "view_inv v \<Longrightarrow> \<forall>tx \<in> set vtx. tx_valid (nd_params (ce_node ce)) tx \<Longrightarrow>
    connect_txs ce tip_get tip_best fS flags h vtx ct v = Some (Inr (undos, ct', v')) \<Longrightarrow>
    view_inv v' \<and> block_updates (view_utxo v) vtx h undos (view_utxo v') \<and>
    (word_of_int (ct_nValueIn ct') :: u64) = word_of_int (ct_nValueIn ct + block_in undos) \<and>
    (word_of_int (ct_nValueOut ct') :: u64) = word_of_int (ct_nValueOut ct + block_out vtx) \<and>
    (word_of_int (ct_nFees ct') :: u64) = word_of_int (ct_nFees ct + block_fees vtx undos) \<and>
    list_all2 (tx_balanced (nd_params (ce_node ce))) vtx undos"
proof (induction vtx arbitrary: v ct undos)
  case Nil
  then show ?case by (simp add: block_in_def block_out_def block_fees_def)
next
  case (Cons tx vtx)
  let ?ps = "nd_params (ce_node ce)"
  have tx: "tx_valid ?ps tx" using Cons.prems(2) by simp
  note out = tx_valid_GetValueOut [OF tx assms(2)]
  from connect_txs_step [OF Cons.prems(3)] out(1) obtain ct1 ct2 v1 d v2 ds where
    s: "ct1 = ct\<lparr>ct_nSigOps := ct_nSigOps ct + GetLegacySigOpCount tx\<rparr>"
    "if IsCoinBase tx then ct2 = ct1 \<and> v1 = v else connect_inputs ce tip_get tip_best fS flags tx ct1 v = Some (Inr (ct2, v1))"
    "UpdateCoins tip_get tx v1 h = Some (d, v2)"
    "connect_txs ce tip_get tip_best fS flags h vtx (ct2\<lparr>ct_nValueOut := add_int64 (ct_nValueOut ct2) (total_out tx)\<rparr>) v2 =
       Some (Inr (ds, ct', v'))" "undos = d # ds" by (metis sum.inject(2))
  have v1: "view_inv v1" "view_utxo v1 = view_utxo v"
    using s(2) connect_inputs_spec [OF Cons.prems(1) assms _ tx, of fS flags ct1 ct2 v1] Cons.prems(1) by (auto split: if_splits)
  note up = tip.UpdateCoins_updates [OF v1(1) s(3), unfolded v1(2)]
  have d: "if IsCoinBase tx then d = [] else undo_in d = total_in (view_utxo v) (tx_vin tx)"
    using up spends_total_in by (auto simp: tx_updates_def split: if_splits)
  have step: "ct_nValueOut ct2 = ct_nValueOut ct \<and>
    (word_of_int (ct_nValueIn ct2) :: u64) = word_of_int (ct_nValueIn ct + undo_in d) \<and>
    (word_of_int (ct_nFees ct2) :: u64) = word_of_int (ct_nFees ct + tx_fee tx d) \<and> tx_balanced ?ps tx d"
  proof (cases "IsCoinBase tx")
    case True
    then show ?thesis using s(1,2) d out(2) assms(1) by (simp add: undo_in_def tx_fee_def tx_balanced_def MoneyRange_def)
  next
    case False
    then show ?thesis using s(1,2) d out(2) connect_inputs_spec [OF Cons.prems(1) assms False tx, of fS flags ct1 ct2 v1]
      by (auto simp: tx_fee_def tx_balanced_def)
  qed
  have rest: "\<forall>tx \<in> set vtx. tx_valid ?ps tx" using Cons.prems(2) by simp
  from Cons.IH [OF _ rest s(4)] up have ih: "view_inv v' \<and> block_updates (view_utxo v2) vtx h ds (view_utxo v') \<and>
    (word_of_int (ct_nValueIn ct') :: u64) = word_of_int (ct_nValueIn ct2 + block_in ds) \<and>
    (word_of_int (ct_nValueOut ct') :: u64) = word_of_int (add_int64 (ct_nValueOut ct2) (total_out tx) + block_out vtx) \<and>
    (word_of_int (ct_nFees ct') :: u64) = word_of_int (ct_nFees ct2 + block_fees vtx ds) \<and>
    list_all2 (tx_balanced ?ps) vtx ds" by simp
  then have "view_inv v'" "block_updates (view_utxo v) (tx # vtx) h undos (view_utxo v')" "list_all2 (tx_balanced ?ps) (tx # vtx) undos"
    using up step s(5) by auto
  moreover have "(word_of_int (ct_nValueIn ct') :: u64) = word_of_int (ct_nValueIn ct + block_in undos)"
    using ih step s(5) by (simp add: block_in_def)
  moreover have "(word_of_int (ct_nValueOut ct') :: u64) = word_of_int (ct_nValueOut ct + block_out (tx # vtx))"
    using ih step by (simp add: block_out_def word_add_int64)
  moreover have "(word_of_int (ct_nFees ct') :: u64) = word_of_int (ct_nFees ct + block_fees (tx # vtx) undos)"
    using ih step s(5) by (simp add: block_fees_def)
  ultimately show ?case by blast
qed

section \<open>The block\<close>

lemma write_undo_keeps:
  assumes "write_undo ce undos b = Some (Inr b')"
  shows "bi_nMint b' = bi_nMint b" "bi_nMoneySupply b' = bi_nMoneySupply b" "bi_phashBlock b' = bi_phashBlock b"
proof -
  have raise: "bi_nMint c' = bi_nMint c \<and> bi_nMoneySupply c' = bi_nMoneySupply c \<and> bi_phashBlock c' = bi_phashBlock c"
    if "RaiseValidity l c = Some (x, c')" for l c x c' using that by (auto simp: RaiseValidity_def split: if_splits)
  have "bi_nMint b' = bi_nMint b \<and> bi_nMoneySupply b' = bi_nMoneySupply b \<and> bi_phashBlock b' = bi_phashBlock b"
    using assms unfolding write_undo_def Let_def
    by (auto split: if_splits Option.bind_splits option.splits sum.splits dest!: raise)
  then show "bi_nMint b' = bi_nMint b" "bi_nMoneySupply b' = bi_nMoneySupply b" "bi_phashBlock b' = bi_phashBlock b"
    by simp_all
qed

lemma ConnectBlock_steps:
  assumes ok: "ConnectBlock ce get best block st0 pindex view fJ rej0 = Some r" "cr_ok r"
    and gen: "nd_GetHash (ce_node ce) (blk_header block) \<noteq> nd_hashGenesisBlock (ce_node ce)"
  obtains st rej h v v1 flags undos ct v2 pindex1 where
    "CheckBlock (ce_node ce) block st0 (\<not> fJ) (\<not> fJ) True rej0 = Some (True, st, rej)"
    "Cache_GetBestBlock best view = (h, v)"
    "(if fEnforceBIP30 pindex then bip30_loop get v (blk_vtx block) else (True, v)) = (True, v1)"
    "connect_txs ce get best (bi_nHeight pindex \<ge> GetTotalBlocksEstimate (ce_node ce)) flags (bi_nHeight pindex) (blk_vtx block)
       connect_totals_zero v1 = Some (Inr (undos, ct, v2))"
    "record_mint (ce_node ce) ct pindex = Some pindex1" "check_mint ce block ct pindex1 = Some None"
    "cr_undo r = tl undos" "bi_nMint (cr_pindex r) = bi_nMint pindex1" "bi_nMoneySupply (cr_pindex r) = bi_nMoneySupply pindex1"
    "if fJ then cr_view r = v2 else \<exists>hash. bi_phashBlock pindex = Some hash \<and> cr_view r = SetBestBlock v2 hash"
    "check_phase (nd_params (ce_node ce)) pindex (blk_vtx block) = None"
proof -
  note def = ok [unfolded ConnectBlock_def Let_def]
  obtain st rej where 1: "CheckBlock (ce_node ce) block st0 (\<not> fJ) (\<not> fJ) True rej0 = Some (True, st, rej)"
    using def by (auto split: Option.bind_splits if_split_asm)
  obtain h v where 2: "Cache_GetBestBlock best view = (h, v)" by (cases "Cache_GetBestBlock best view")
  have 3: "check_phase (nd_params (ce_node ce)) pindex (blk_vtx block) = None"
    using def gen 1 2 by (cases "check_phase (nd_params (ce_node ce)) pindex (blk_vtx block)")
      (auto split: Option.bind_splits if_split_asm)
  obtain v1 where 4: "(if fEnforceBIP30 pindex then bip30_loop get v (blk_vtx block) else (True, v)) = (True, v1)"
    using def gen 1 2 3
    by (cases "if fEnforceBIP30 pindex then bip30_loop get v (blk_vtx block) else (True, v)")
       (auto split: Option.bind_splits if_split_asm bool.split_asm)
  let ?n = "ce_node ce"
  let ?txs = "\<lambda>flags. connect_txs ce get best (bi_nHeight pindex \<ge> GetTotalBlocksEstimate ?n) flags (bi_nHeight pindex) (blk_vtx block)
       connect_totals_zero v1"
  obtain flags where 5: "connect_flags ?n block pindex = Some flags"
    using def gen 1 2 3 4 by (cases "connect_flags ?n block pindex") (auto split: Option.bind_splits if_split_asm)
  obtain undos ct v2 where 6: "?txs flags = Some (Inr (undos, ct, v2))"
    using def gen 1 2 3 4 5 by (auto split: Option.bind_splits if_split_asm sum.split_asm)
  obtain pindex1 where 7: "record_mint ?n ct pindex = Some pindex1" 
    using def gen 1 2 3 4 5 6 by (auto split: Option.bind_splits if_split_asm)
  have 8: "check_mint ce block ct pindex1 = Some None"
    using def gen 1 2 3 4 5 6 7 by (auto split: Option.bind_splits if_split_asm option.split_asm)
  have b: "bi_phashBlock pindex1 = bi_phashBlock pindex" using 7 by (auto simp: record_mint_def Let_def split: Option.bind_splits)
  have 9: "if fJ then r = \<lparr>cr_ok = True, cr_state = st, cr_rejected = rej, cr_pindex = pindex1, cr_undo = tl undos, cr_view = v2\<rparr>
    else \<exists>b h. write_undo ce (tl undos) pindex1 = Some (Inr b) \<and> bi_phashBlock b = Some h \<and>
      r = \<lparr>cr_ok = True, cr_state = st, cr_rejected = rej, cr_pindex = b, cr_undo = tl undos, cr_view = SetBestBlock v2 h\<rparr>"
    using def gen 1 2 3 4 5 6 7 8 by (auto split: Option.bind_splits if_split_asm sum.split_asm)
  show thesis
    using 9 b by (intro that [OF 1 2 4 6 7 8 _ _ _ _ 3]) (auto simp: write_undo_keeps split: if_splits)
qed

section \<open>The money supply\<close>

text \<open>The supply recorded at the previous block.\<close>

definition supply_before :: "node \<Rightarrow> CBlockIndex \<Rightarrow> CAmount option" where
  "supply_before nd pindex = (case bi_pprev pindex of None \<Rightarrow> Some 0 | Some q \<Rightarrow> map_option bi_nMoneySupply (nd_mem nd q))"

text \<open>The node compares the minted amount with the subsidy: it is synced, and no superblocks are enabled.\<close>

definition value_checked :: "node \<Rightarrow> bool" where
  "value_checked nd \<longleftrightarrow> nd_fSynced nd \<and> \<not> nd_spork nd SPORK_13_ENABLE_SUPERBLOCKS \<and> Tip (nd_chainActive nd) \<noteq> None"

lemma record_mint_exact:
  assumes "record_mint nd ct pindex = Some b" "supply_before nd pindex = Some s"
    and "(word_of_int (ct_nValueOut ct) :: u64) = word_of_int outs" "(word_of_int (ct_nValueIn ct) :: u64) = word_of_int ins"
    and "0 \<le> s" "s < 2 ^ 62" "0 \<le> outs" "outs < 2 ^ 62" "0 \<le> ins" "ins < 2 ^ 62"
  shows "bi_nMoneySupply b = s + outs - ins \<and> bi_nMint b = outs - ins \<and> bi_nHeight b = bi_nHeight pindex"
proof -
  let ?supply = "sub_int64 (add_int64 s (ct_nValueOut ct)) (ct_nValueIn ct)"
  have b: "b = pindex\<lparr>bi_nMoneySupply := ?supply, bi_nMint := sub_int64 ?supply s\<rparr>"
    using assms(1,2) by (simp add: record_mint_def supply_before_def Let_def)
  have 1: "?supply = s + outs - ins"
    by (rule int64_of_word [OF _ add_int64_range(2)])
       (use assms(3-) in \<open>simp_all add: word_add_int64 word_sub_int64 int64_range_def\<close>)
  have "sub_int64 ?supply s = outs - ins"
    by (rule int64_of_word [OF _ add_int64_range(2)]) (use assms(3-) in \<open>simp_all add: 1 word_sub_int64 int64_range_def\<close>)
  then show ?thesis using b 1 by simp
qed

lemma subsidy_range: "GetBlockValue h = Some v \<Longrightarrow> 0 \<le> v \<and> v < 2 ^ 61"
proof -
  assume v: "GetBlockValue h = Some v"
  have "10 * COIN div 2 ^ k \<le> 10 * COIN" for k using subsidy_shift_le [of 0 k] by simp
  then have "10 * COIN div 2 ^ k < 2 ^ 61" for k by (rule le_less_trans) simp
  then show ?thesis using v by (auto simp: GetBlockValue_def Let_def split: if_splits)
qed

lemma check_mint_None:
  assumes "value_checked (ce_node ce)"
  shows "check_mint ce block ct b = Some None \<longleftrightarrow>
    (\<exists>subsidy p h. GetBlockValue (bi_nHeight b) = Some subsidy \<and> Tip (nd_chainActive (ce_node ce)) = Some p \<and>
       height_of_block (ce_node ce) p block = Some h \<and>
       bi_nMint b \<le> (if IsProofOfStake (blk_vtx block) then subsidy else add_int64 subsidy (ct_nFees ct)) \<and>
       bi_nMoneySupply b \<le> cp_nMaxMoneyOut (nd_params (ce_node ce)) \<and>
       list_all (\<lambda>(tx, check). script_check (ce_checker ce) tx check = Some (Inr ())) (ct_vChecks ct))"
  using assms
  by (auto simp: check_mint_def value_checked_def IsBlockValueValid_def Let_def not_less
      split: Option.bind_splits if_split_asm)

lemma expected_mint_exact:
  assumes "(word_of_int (ct_nFees ct) :: u64) = word_of_int fees" "0 \<le> fees" "fees < 2 ^ 62" "GetBlockValue h = Some subsidy"
  shows "add_int64 subsidy (ct_nFees ct) = subsidy + fees"
  by (rule int64_of_word [OF _ add_int64_range(1)]) (use assms subsidy_range [OF assms(4)] in \<open>simp_all add: word_add_int64 int64_range_def\<close>)

lemma block_fees_range:
  assumes "list_all2 (tx_balanced ps) vtx undos"
  shows "0 \<le> block_fees vtx undos" "block_fees vtx undos \<le> block_in undos" "0 \<le> block_in undos" "0 \<le> block_out vtx"
  using assms
  by (induction vtx undos rule: list_all2_induct)
     (auto simp: block_fees_def block_in_def block_out_def tx_balanced_def tx_fee_def MoneyRange_def split: if_splits)

lemma tx_valid_outputs_ok: "tx_valid ps tx \<Longrightarrow> tx_outputs_ok tx"
proof -
  assume tx: "tx_valid ps tx"
  have "length (tx_vout tx) \<le> length (concat (map Serialize_CTxOut (tx_vout tx)))"
    by (rule length_concat_ge) (auto simp: Serialize_CTxOut_def Serialize_int64_def Serialize_uint_def dest: arg_cong [of _ "[]" length])
  also have "\<dots> \<le> length (Serialize_CTransaction tx)" by (simp add: Serialize_CTransaction_def Serialize_vector_def)
  also have "\<dots> \<le> MAX_BLOCK_SIZE" using tx by (simp add: tx_valid_def serialize_size_exact)
  finally show "tx_outputs_ok tx" using tx by (auto simp: tx_outputs_ok_def tx_valid_def MoneyRange_def)
qed

lemma check_mint_supply: "check_mint ce block ct b = Some None \<Longrightarrow> bi_nMoneySupply b \<le> cp_nMaxMoneyOut (nd_params (ce_node ce))"
  by (auto simp: check_mint_def Let_def split: Option.bind_splits if_split_asm)

lemma ConnectBlock_accepts:
  assumes v: "view_inv view" and max: "0 \<le> cp_nMaxMoneyOut (nd_params (ce_node ce))" "cp_nMaxMoneyOut (nd_params (ce_node ce)) < 2 ^ 62"
    and gen: "nd_GetHash (ce_node ce) (blk_header block) \<noteq> nd_hashGenesisBlock (ce_node ce)"
    and ok: "ConnectBlock ce tip_get tip_best block st pindex view fJ rej = Some r" "cr_ok r"
  obtains ct pindex1 where
    "block_rules (ce_node ce) block" "view_inv (cr_view r)"
    "block_updates (view_utxo view) (blk_vtx block) (bi_nHeight pindex) ([] # cr_undo r) (view_utxo (cr_view r))"
    "list_all2 (tx_balanced (nd_params (ce_node ce))) (blk_vtx block) ([] # cr_undo r)"
    "(word_of_int (ct_nValueIn ct) :: u64) = word_of_int (block_in ([] # cr_undo r))"
    "(word_of_int (ct_nValueOut ct) :: u64) = word_of_int (block_out (blk_vtx block))"
    "(word_of_int (ct_nFees ct) :: u64) = word_of_int (block_fees (blk_vtx block) ([] # cr_undo r))"
    "record_mint (ce_node ce) ct pindex = Some pindex1" "check_mint ce block ct pindex1 = Some None"
    "bi_nMint (cr_pindex r) = bi_nMint pindex1" "bi_nMoneySupply (cr_pindex r) = bi_nMoneySupply pindex1"
    "fEnforceBIP30 pindex \<longrightarrow> (\<forall>tx \<in> set (blk_vtx block). view_utxo view (CTransaction_GetHash tx) = None)"
    "fJ \<or> bi_phashBlock pindex = Some (vc_hashBlock (cr_view r))"
proof -
  obtain st1 rej1 h v0 v1 flags undos ct v2 pindex1 where
    s: "CheckBlock (ce_node ce) block st (\<not> fJ) (\<not> fJ) True rej = Some (True, st1, rej1)"
    "Cache_GetBestBlock tip_best view = (h, v0)"
    "(if fEnforceBIP30 pindex then bip30_loop tip_get v0 (blk_vtx block) else (True, v0)) = (True, v1)"
    "connect_txs ce tip_get tip_best (bi_nHeight pindex \<ge> GetTotalBlocksEstimate (ce_node ce)) flags (bi_nHeight pindex) (blk_vtx block)
       connect_totals_zero v1 = Some (Inr (undos, ct, v2))"
    "record_mint (ce_node ce) ct pindex = Some pindex1" "check_mint ce block ct pindex1 = Some None"
    "cr_undo r = tl undos" "bi_nMint (cr_pindex r) = bi_nMint pindex1" "bi_nMoneySupply (cr_pindex r) = bi_nMoneySupply pindex1"
    "if fJ then cr_view r = v2 else \<exists>hash. bi_phashBlock pindex = Some hash \<and> cr_view r = SetBestBlock v2 hash"
    by (rule ConnectBlock_steps [OF ok gen])
  have rules: "block_rules (ce_node ce) block" using s(1) CheckBlock_accepts [OF max] by blast
  then have valid: "\<forall>tx \<in> set (blk_vtx block). tx_valid (nd_params (ce_node ce)) tx" by (simp add: block_rules_def)
  have v0: "view_inv v0" "view_utxo v0 = view_utxo view" using tip.Cache_GetBestBlock_spec [OF v s(2)] by simp_all
  have v1: "view_inv v1" "view_utxo v1 = view_utxo view"
    and bip30: "fEnforceBIP30 pindex \<longrightarrow> (\<forall>tx \<in> set (blk_vtx block). view_utxo view (CTransaction_GetHash tx) = None)"
    using s(3) v0 tip.bip30_loop_spec [OF v0(1)] by (auto simp: tip.same_view_def split: if_splits)
  note c = connect_txs_spec [OF max v1(1) valid s(4), unfolded v1(2)]
  obtain cb rest where cb: "blk_vtx block = cb # rest" "IsCoinBase cb" using rules by (auto simp: block_rules_def block_shape_def)
  obtain d ds where d: "undos = d # ds" "tx_updates (view_utxo view) cb (bi_nHeight pindex) d u \<Longrightarrow> d = []" for u
    using c cb by (cases undos) (auto simp: tx_updates_def)
  have "undos = [] # cr_undo r" using c cb d s(7) by auto
  moreover have "view_inv (cr_view r)" "view_utxo (cr_view r) = view_utxo v2" using s(10) c by (auto split: if_splits)
  moreover have "fJ \<or> bi_phashBlock pindex = Some (vc_hashBlock (cr_view r))" using s(10) by (auto split: if_splits)
  ultimately show thesis
    using c that [OF rules _ _ _ _ _ _ s(5,6,8,9) bip30] by (simp add: connect_totals_zero_def)
qed

text \<open>C4. The money supply: when \<open>ConnectBlock\<close> accepts a block other than the genesis block, the view it leaves holds exactly the unspent
  outputs of applying the transactions one after the other, and the recorded undo data are the outputs they spent; every transaction but coinbase and
  coinstake gives at most what it takes. As long as the supply before, the outputs and the inputs of the block fit 62 bits, the recorded supply is the
  previous one plus the outputs less the inputs and stays within the maximum. If in addition the node checks the amount (it is synchronised with the
  masternodes and superblocks are off), what coinbase and coinstakes gain is at most the subsidy plus the fees, counted twice in a
  proof-of-work block. A node that is not synchronised accepts any amount in the first 100 blocks of each budget cycle.\<close>

theorem ConnectBlock_money:
  assumes "view_inv view" "0 \<le> cp_nMaxMoneyOut (nd_params (ce_node ce))" "cp_nMaxMoneyOut (nd_params (ce_node ce)) < 2 ^ 62"
    and "nd_GetHash (ce_node ce) (blk_header block) \<noteq> nd_hashGenesisBlock (ce_node ce)"
    and "ConnectBlock ce tip_get tip_best block st pindex view fJ rej = Some r" "cr_ok r"
  shows "view_inv (cr_view r) \<and>
    block_updates (view_utxo view) (blk_vtx block) (bi_nHeight pindex) ([] # cr_undo r) (view_utxo (cr_view r)) \<and>
    list_all2 (tx_balanced (nd_params (ce_node ce))) (blk_vtx block) ([] # cr_undo r) \<and>
    (\<forall>s. supply_before (ce_node ce) pindex = Some s \<and> 0 \<le> s \<and> s < 2 ^ 62 \<and>
       block_out (blk_vtx block) < 2 ^ 62 \<and> block_in ([] # cr_undo r) < 2 ^ 62 \<longrightarrow>
       bi_nMoneySupply (cr_pindex r) = s + block_out (blk_vtx block) - block_in ([] # cr_undo r) \<and>
       bi_nMoneySupply (cr_pindex r) \<le> cp_nMaxMoneyOut (nd_params (ce_node ce)) \<and>
       (value_checked (ce_node ce) \<longrightarrow>
          (\<exists>subsidy. GetBlockValue (bi_nHeight pindex) = Some subsidy \<and>
             block_claim (blk_vtx block) ([] # cr_undo r) \<le>
               subsidy + (if IsProofOfStake (blk_vtx block) then 1 else 2) * block_fees (blk_vtx block) ([] # cr_undo r))))"
proof -
  let ?u = "[] # cr_undo r" and ?vtx = "blk_vtx block"
  obtain ct pindex1 where a: "view_inv (cr_view r)"
    "block_updates (view_utxo view) ?vtx (bi_nHeight pindex) ?u (view_utxo (cr_view r))"
    "list_all2 (tx_balanced (nd_params (ce_node ce))) ?vtx ?u"
    "(word_of_int (ct_nValueIn ct) :: u64) = word_of_int (block_in ?u)"
    "(word_of_int (ct_nValueOut ct) :: u64) = word_of_int (block_out ?vtx)"
    "(word_of_int (ct_nFees ct) :: u64) = word_of_int (block_fees ?vtx ?u)"
    "record_mint (ce_node ce) ct pindex = Some pindex1" "check_mint ce block ct pindex1 = Some None"
    "bi_nMoneySupply (cr_pindex r) = bi_nMoneySupply pindex1"
    by (rule ConnectBlock_accepts [OF assms])
  note fees = block_fees_range [OF a(3)]
  have "bi_nMoneySupply pindex1 = s + block_out ?vtx - block_in ?u \<and> bi_nMoneySupply pindex1 \<le> cp_nMaxMoneyOut (nd_params (ce_node ce)) \<and>
      (value_checked (ce_node ce) \<longrightarrow> (\<exists>subsidy. GetBlockValue (bi_nHeight pindex) = Some subsidy \<and>
         block_claim ?vtx ?u \<le> subsidy + (if IsProofOfStake ?vtx then 1 else 2) * block_fees ?vtx ?u))"
    if s: "supply_before (ce_node ce) pindex = Some s" "0 \<le> s" "s < 2 ^ 62" "block_out ?vtx < 2 ^ 62" "block_in ?u < 2 ^ 62" for s
  proof -
    note mint = record_mint_exact [OF a(7) s(1) a(5,4) s(2,3) fees(4) s(4) fees(3) s(5)]
    have small: "block_fees ?vtx ?u < 2 ^ 62" using fees(2) s(5) by simp
    have "\<exists>subsidy. GetBlockValue (bi_nHeight pindex) = Some subsidy \<and>
        block_claim ?vtx ?u \<le> subsidy + (if IsProofOfStake ?vtx then 1 else 2) * block_fees ?vtx ?u" if vc: "value_checked (ce_node ce)"
    proof -
      obtain subsidy where m: "GetBlockValue (bi_nHeight pindex) = Some subsidy"
        "bi_nMint pindex1 \<le> (if IsProofOfStake ?vtx then subsidy else add_int64 subsidy (ct_nFees ct))"
        using a(8) mint unfolding check_mint_None [OF vc] by auto
      then show ?thesis
        using mint block_balance [OF block_updates_length [OF a(2)]] expected_mint_exact [OF a(6) fees(1) small m(1)]
        by (simp split: if_splits)
    qed
    then show ?thesis using mint check_mint_supply [OF a(8)] by auto
  qed
  then show ?thesis using a(1-3) unfolding a(9) by (intro conjI allI impI) blast+
qed

text \<open>C16. What the creator of a block may take: on a node that checks the amount, with the sums of the loop exact, the checks
  after the loop pass exactly when the gain of coinbase and coinstakes is at most the subsidy plus the fees in a proof-of-stake block and the
  subsidy plus twice the fees in a proof-of-work block (and the supply and the script checks are in order). The
  minted amount that is compared has the fees subtracted already, so a proof-of-work miner can take them twice and
  a staker can take the fees that are meant to be destroyed.\<close>

theorem claim_limit:
  assumes vc: "value_checked (ce_node ce)" and h: "Tip (nd_chainActive (ce_node ce)) = Some p" "height_of_block (ce_node ce) p block = Some h"
    and s: "supply_before (ce_node ce) pindex = Some s" "0 \<le> s" "s < 2 ^ 62"
    and sums: "ct_nValueOut ct = outs" "ct_nValueIn ct = ins" "ct_nFees ct = fees" "0 \<le> outs" "outs < 2 ^ 62" "0 \<le> fees" "fees \<le> ins" "ins < 2 ^ 62"
    and claim: "outs - ins = claim - fees" and mint: "record_mint (ce_node ce) ct pindex = Some b"
    and subsidy: "GetBlockValue (bi_nHeight pindex) = Some subsidy"
  shows "check_mint ce block ct b = Some None \<longleftrightarrow>
    claim \<le> subsidy + (if IsProofOfStake (blk_vtx block) then 1 else 2) * fees \<and>
    s + claim - fees \<le> cp_nMaxMoneyOut (nd_params (ce_node ce)) \<and>
    list_all (\<lambda>(tx, check). script_check (ce_checker ce) tx check = Some (Inr ())) (ct_vChecks ct)"
proof -
  have b: "bi_nMoneySupply b = s + outs - ins \<and> bi_nMint b = outs - ins \<and> bi_nHeight b = bi_nHeight pindex"
    by (rule record_mint_exact [OF mint s(1)]) (use s sums in auto)
  have "add_int64 subsidy (ct_nFees ct) = subsidy + fees"
    by (rule expected_mint_exact [OF _ _ _ subsidy]) (use sums in auto)
  then show ?thesis unfolding check_mint_None [OF vc] using h subsidy b claim by (auto split: if_splits)
qed


section \<open>An accepted block\<close>

definition example_env :: connect_env where
  "example_env =
     \<lparr>ce_node = example_node, ce_checker = (\<lambda>_ _ _ _ _. False), ce_fThreads = True, ce_WriteBlockIndex = True,
      ce_FindUndoPos = (\<lambda>_ _. Some 0), ce_WriteUndo = True, ce_WriteIndexes = True\<rparr>"

definition example_pindex :: CBlockIndex where
  "example_pindex = CBlockIndex_null\<lparr>bi_phashBlock := Some 1, bi_pprev := Some 0, bi_nHeight := 5, bi_nTime := 1777017373\<rparr>"

abbreviation "example_connect \<equiv>
  ConnectBlock example_env tip_get tip_best example_block CValidationState_new example_pindex BlockCoins.example_view False Map.empty"

lemma example_max: "0 \<le> cp_nMaxMoneyOut (nd_params (ce_node example_env))" "cp_nMaxMoneyOut (nd_params (ce_node example_env)) < 2 ^ 62"
  "nd_GetHash (ce_node example_env) (blk_header example_block) \<noteq> nd_hashGenesisBlock (ce_node example_env)"
  by (simp_all add: example_env_def example_node_def mainParams_def)

lemma bip30_new:
  assumes "view_inv v" "view_utxo v (CTransaction_GetHash tx) = None"
  shows "\<exists>v'. bip30_loop tip_get v [tx] = (True, v') \<and> view_inv v'"
proof -
  obtain c v' where a: "AccessCoins tip_get v (CTransaction_GetHash tx) = (c, v')" by (cases "AccessCoins tip_get v (CTransaction_GetHash tx)")
  from tip.AccessCoins_spec [OF assms(1) a] assms(2) have "unspent c = None" "view_inv v'" by (simp_all add: tip.same_view_def)
  then show ?thesis using a by (cases c) (auto simp: unspent_None_iff)
qed

lemma example_connects: "\<exists>r. example_connect = Some r \<and> cr_ok r \<and> cr_undo r = []"
proof -
  obtain v0 where v0: "Cache_GetBestBlock tip_best BlockCoins.example_view = (3, v0)"
    by (simp add: Cache_GetBestBlock_def BlockCoins.example_view_def CCoinsViewCache_new_def DB_GetBestBlock_def example_base_def database_of_def)
  have "view_inv v0" "view_utxo v0 (CTransaction_GetHash example_coinbase) = None"
    using tip.Cache_GetBestBlock_spec [OF example_view_ok(1) v0] example_coinbase_ok(3) by simp_all
  from bip30_new [OF this] obtain v1 where v1: "bip30_loop tip_get v0 [example_coinbase] = (True, v1)" "view_inv v1" by blast
  from connect_coinbase [OF v1(2) example_coinbase_ok(1), of 5] obtain d v2 where
    v2: "UpdateCoins tip_get example_coinbase v1 5 = Some (d, v2)" by (auto simp: connect_coins_def split: option.splits)
  let ?ct = "connect_totals_zero\<lparr>ct_nValueOut := 50\<rparr>"
  have "add_int64 0 50 = 50" by (simp add: add_int64_def)
  moreover have "value_out example_coinbase = Some 50"
    using calculation by (simp add: value_out_def GetValueOut_def example_coinbase_def CTxOut_new_def)
  ultimately have txs: "connect_txs example_env tip_get tip_best fS flags 5 [example_coinbase] connect_totals_zero v1 = Some (Inr ([d], ?ct, v2))"
    for fS flags
    using v2 example_coinbase_ok(1) example_coinbase_valid(2) by (simp add: connect_totals_zero_def)
  let ?b = "example_pindex\<lparr>bi_nMoneySupply := 50, bi_nMint := 50\<rparr>"
  have mint: "record_mint example_node ?ct example_pindex = Some ?b"
    by (simp add: record_mint_def example_node_def example_pindex_def CBlockIndex_null_def connect_totals_zero_def
        add_int64_def sub_int64_def)
  have check: "check_mint example_env example_block ?ct ?b = Some None"
    by (simp add: check_mint_def example_env_def example_node_def example_pindex_def GetBlockValue_def IsBlockValueValid_def
        Tip_def height_of_block_def example_block_def example_header_def nd_spork_def IsSporkActive_def GetSporkValue_def
        spork_defaults_def add_int64_def connect_totals_zero_def mainParams_def IsProofOfStake_def)
  have flags: "connect_flags example_node example_block example_pindex = Some 1"
    by (simp add: connect_flags_def example_block_def example_header_def example_pindex_def GetBlockTime_def)
  obtain b where undo: "write_undo example_env [] ?b = Some (Inr b)" "bi_phashBlock b = Some 1"
    by (auto simp: write_undo_def GetUndoPos_def example_pindex_def CBlockIndex_null_def CDiskBlockPos_null_def example_env_def
        deref_def example_node_def RaiseValidity_def)
  have "CheckBlock example_node example_block CValidationState_new True True True Map.empty = Some (True, CValidationState_new, Map.empty)"
    using CheckBlock_accepts [of example_node example_block CValidationState_new True True True Map.empty CValidationState_new Map.empty]
      example_block_ok example_max by (simp add: example_env_def example_node_def locks_conflict_def list_ex_iff)
  moreover have "check_phase (nd_params example_node) example_pindex [example_coinbase] = None"
    by (simp add: check_phase_def example_node_def mainParams_def example_pindex_def IsProofOfStake_def)
  moreover have "fEnforceBIP30 example_pindex" "bi_nHeight example_pindex = 5" "bi_pprev example_pindex = Some 0"
    "\<exists>c. nd_mem example_node 0 = Some c \<and> bi_phashBlock c = Some 3" "nd_GetHash example_node h \<noteq> nd_hashGenesisBlock example_node" for h
    by (simp_all add: fEnforceBIP30_def example_pindex_def example_node_def)
  moreover have "blk_vtx example_block = [example_coinbase]" "ce_node example_env = example_node" "ce_WriteBlockIndex example_env"
    "ce_WriteIndexes example_env" by (simp_all add: example_block_def example_env_def)
  ultimately show ?thesis
    using v0 v1(1) txs mint check flags undo by (auto simp: ConnectBlock_def Let_def)
qed

theorem ConnectBlock_money_witness:
  "\<exists>r. example_connect = Some r \<and> cr_ok r \<and> bi_nMoneySupply (cr_pindex r) = 50"
proof -
  obtain r where r: "example_connect = Some r" "cr_ok r" "cr_undo r = []" using example_connects by blast
  have "supply_before (ce_node example_env) example_pindex = Some 0"
    by (simp add: supply_before_def example_env_def example_node_def example_pindex_def CBlockIndex_null_def)
  moreover have "block_out (blk_vtx example_block) = 50" "block_in [[]] = 0"
    by (simp_all add: block_out_def example_block_def total_out_def example_coinbase_def CTxOut_new_def block_in_def undo_in_def)
  ultimately show ?thesis
    using ConnectBlock_money [OF example_view_ok(1) example_max r(1,2)] r by auto
qed


text \<open>A proof-of-work block with fees of 7 whose coinbase takes the subsidy and 14.\<close>

theorem claim_limit_witness:
  "check_mint example_env example_block
     \<lparr>ct_nFees = 7, ct_nSigOps = 0, ct_nValueIn = 100, ct_nValueOut = 10 * COIN + 14 + 93, ct_vChecks = []\<rparr>
     (example_pindex\<lparr>bi_nMoneySupply := 10 * COIN + 7, bi_nMint := 10 * COIN + 7\<rparr>) = Some None"
  (is "check_mint _ _ ?ct ?b = _")
proof -
  have "record_mint (ce_node example_env) ?ct example_pindex = Some ?b"
    by (simp add: record_mint_def example_env_def example_node_def example_pindex_def CBlockIndex_null_def add_int64_def sub_int64_def)
  moreover have "value_checked (ce_node example_env)" "Tip (nd_chainActive (ce_node example_env)) = Some 0"
    "height_of_block (ce_node example_env) 0 example_block = Some 5" "supply_before (ce_node example_env) example_pindex = Some 0"
    "GetBlockValue (bi_nHeight example_pindex) = Some (10 * COIN)"
    by (simp_all add: value_checked_def example_env_def example_node_def Tip_def nd_spork_def IsSporkActive_def GetSporkValue_def
        spork_defaults_def height_of_block_def example_block_def example_header_def supply_before_def example_pindex_def
        CBlockIndex_null_def GetBlockValue_def)
  moreover have "\<not> IsProofOfStake (blk_vtx example_block)" by (simp add: example_block_def IsProofOfStake_def)
  ultimately show ?thesis
    using claim_limit [of example_env 0 example_block 5 example_pindex 0 ?ct "10 * COIN + 14 + 93" 100 7 "10 * COIN + 14" ?b "10 * COIN"]
    by (simp add: example_env_def example_node_def mainParams_def)
qed

end
