(* ===== verification/Orphans.thy ===== *)
theory Orphans
  imports Transaction
begin

text \<open>
  The pool of orphan transactions, \<open>src/main.cpp\<close>: transactions whose inputs are not known yet, by id, and an index
  of them by the ids they spend from. \<open>mapOrphanTransactions\<close> is the list of its entries in the order of the keys, as its
  iterator visits them. The random numbers of the eviction are a parameter.
\<close>

section \<open>Ordered maps\<close>

fun insert_key :: "'k :: linorder \<Rightarrow> 'v \<Rightarrow> ('k \<times> 'v) list \<Rightarrow> ('k \<times> 'v) list" where
  "insert_key k v [] = [(k, v)]"
| "insert_key k v ((k', v') # xs) =
     (if k < k' then (k, v) # (k', v') # xs else if k = k' then (k, v) # xs else (k', v') # insert_key k v xs)"

definition erase_key :: "'k \<Rightarrow> ('k \<times> 'v) list \<Rightarrow> ('k \<times> 'v) list" where
  "erase_key k xs = filter (\<lambda>(k', _). k' \<noteq> k) xs"

lemma map_of_insert_key [simp]:
  "sorted_wrt (<) (map fst xs) \<Longrightarrow> map_of (insert_key k v xs) k' = (if k' = k then Some v else map_of xs k')"
proof (induction xs)
  case (Cons x xs)
  then show ?case by (cases x) auto
qed simp

lemma set_insert_key: "fst ` set (insert_key k v xs) = insert k (fst ` set xs)"
  by (induction k v xs rule: insert_key.induct) auto

lemma sorted_insert_key: "sorted_wrt (<) (map fst xs) \<Longrightarrow> sorted_wrt (<) (map fst (insert_key k v xs))"
proof (induction k v xs rule: insert_key.induct)
  case (2 k v k' v' xs)
  have "fst ` set (insert_key k v xs) = insert k (fst ` set xs)" by (rule set_insert_key)
  then show ?case using 2 by (auto simp: image_iff)
qed simp

lemma map_of_erase_key [simp]: "map_of (erase_key k xs) k' = (if k' = k then None else map_of xs k')"
  by (induction xs) (auto simp: erase_key_def)

lemma sorted_erase_key: "sorted_wrt (<) (map fst xs) \<Longrightarrow> sorted_wrt (<) (map fst (erase_key k xs))"
  by (induction xs) (auto simp: erase_key_def)

lemma length_erase_key: "k \<in> fst ` set xs \<Longrightarrow> length (erase_key k xs) < length xs"
  unfolding erase_key_def by (auto simp: split_beta intro: length_filter_less)

section \<open>The pool\<close>

record COrphanTx =
  or_tx :: CTransaction
  or_fromPeer :: int

record orphan_pool =
  mapOrphanTransactions :: "(uint256 \<times> COrphanTx) list"
  mapOrphanTransactionsByPrev :: "uint256 \<rightharpoonup> uint256 set"

definition orphan_pool_empty :: orphan_pool where
  "orphan_pool_empty = \<lparr>mapOrphanTransactions = [], mapOrphanTransactionsByPrev = Map.empty\<rparr>"

definition index_orphan :: "uint256 \<Rightarrow> CTxIn \<Rightarrow> (uint256 \<rightharpoonup> uint256 set) \<Rightarrow> (uint256 \<rightharpoonup> uint256 set)" where
  "index_orphan hash txin byPrev =
     (let k = op_hash (ti_prevout txin); S = (case byPrev k of None \<Rightarrow> {} | Some S \<Rightarrow> S) in byPrev(k \<mapsto> insert hash S))"

definition AddOrphanTx :: "CTransaction \<Rightarrow> int \<Rightarrow> orphan_pool \<Rightarrow> bool \<times> orphan_pool" where
  "AddOrphanTx tx peer pool =
     (let hash = CTransaction_GetHash tx in
      if map_of (mapOrphanTransactions pool) hash \<noteq> None then (False, pool)
      else if GetSerializeSize_CTransaction tx > 5000 then (False, pool)
      else (True, pool\<lparr>mapOrphanTransactions := insert_key hash \<lparr>or_tx = tx, or_fromPeer = peer\<rparr> (mapOrphanTransactions pool),
                       mapOrphanTransactionsByPrev := fold (index_orphan hash) (tx_vin tx) (mapOrphanTransactionsByPrev pool)\<rparr>))"

definition unindex_orphan :: "uint256 \<Rightarrow> CTxIn \<Rightarrow> (uint256 \<rightharpoonup> uint256 set) \<Rightarrow> (uint256 \<rightharpoonup> uint256 set)" where
  "unindex_orphan hash txin byPrev =
     (let k = op_hash (ti_prevout txin) in
      case byPrev k of
        None \<Rightarrow> byPrev
      | Some S \<Rightarrow> let S' = S - {hash} in if S' = {} then byPrev(k := None) else byPrev(k \<mapsto> S'))"

definition EraseOrphanTx :: "uint256 \<Rightarrow> orphan_pool \<Rightarrow> orphan_pool" where
  "EraseOrphanTx hash pool =
     (case map_of (mapOrphanTransactions pool) hash of
        None \<Rightarrow> pool
      | Some orphan \<Rightarrow>
         pool\<lparr>mapOrphanTransactions := erase_key hash (mapOrphanTransactions pool),
              mapOrphanTransactionsByPrev := fold (unindex_orphan hash) (tx_vin (or_tx orphan)) (mapOrphanTransactionsByPrev pool)\<rparr>)"

text \<open>The iterator is moved on before an entry is erased, so that it visits the entries there were at the start.\<close>

fun erase_orphans_loop :: "int \<Rightarrow> (uint256 \<times> COrphanTx) list \<Rightarrow> orphan_pool \<Rightarrow> orphan_pool" where
  "erase_orphans_loop peer [] pool = pool"
| "erase_orphans_loop peer ((k, orphan) # entries) pool =
     erase_orphans_loop peer entries
       (if or_fromPeer orphan = peer then EraseOrphanTx (CTransaction_GetHash (or_tx orphan)) pool else pool)"

definition EraseOrphansFor :: "int \<Rightarrow> orphan_pool \<Rightarrow> orphan_pool" where
  "EraseOrphansFor peer pool = erase_orphans_loop peer (mapOrphanTransactions pool) pool"

definition lower_bound :: "uint256 \<Rightarrow> (uint256 \<times> 'v) list \<Rightarrow> uint256 option" where
  "lower_bound k xs = map_option fst (find (\<lambda>(k', _). \<not> k' < k) xs)"

text \<open>\<open>rand i\<close> is the \<open>i\<close>-th number \<open>GetRandHash\<close> returns; the result is the number of evictions.\<close>

definition evict_one :: "uint256 \<Rightarrow> orphan_pool \<Rightarrow> orphan_pool" where
  "evict_one randomhash pool =
     (case lower_bound randomhash (mapOrphanTransactions pool) of
        Some k \<Rightarrow> EraseOrphanTx k pool
      | None \<Rightarrow> EraseOrphanTx (fst (hd (mapOrphanTransactions pool))) pool)"

lemma lower_bound_in: "lower_bound k xs = Some k' \<Longrightarrow> k' \<in> fst ` set xs"
  by (induction xs) (auto simp: lower_bound_def split: if_splits)

lemma EraseOrphanTx_length:
  assumes "k \<in> fst ` set (mapOrphanTransactions pool)"
  shows "length (mapOrphanTransactions (EraseOrphanTx k pool)) < length (mapOrphanTransactions pool)"
proof -
  obtain v where "map_of (mapOrphanTransactions pool) k = Some v" using assms by (metis map_of_eq_None_iff not_None_eq)
  then show ?thesis using length_erase_key [OF assms] by (simp add: EraseOrphanTx_def)
qed

lemma evict_one_length:
  "mapOrphanTransactions pool \<noteq> [] \<Longrightarrow> length (mapOrphanTransactions (evict_one r pool)) < length (mapOrphanTransactions pool)"
  by (auto simp: evict_one_def dest: lower_bound_in intro!: EraseOrphanTx_length split: option.splits)

function LimitOrphanTxSize :: "(nat \<Rightarrow> uint256) \<Rightarrow> nat \<Rightarrow> nat \<Rightarrow> orphan_pool \<Rightarrow> nat \<times> orphan_pool" where
  "LimitOrphanTxSize rand nMaxOrphans nEvicted pool =
     (if length (mapOrphanTransactions pool) > nMaxOrphans
      then LimitOrphanTxSize rand nMaxOrphans (nEvicted + 1) (evict_one (rand nEvicted) pool)
      else (nEvicted, pool))"
  by pat_completeness auto
termination
proof (relation "measure (\<lambda>(_, _, _, pool). length (mapOrphanTransactions pool))")
  fix rand :: "nat \<Rightarrow> uint256" and n e :: nat and pool :: orphan_pool
  assume "n < length (mapOrphanTransactions pool)"
  then have "mapOrphanTransactions pool \<noteq> []" by auto
  then show "((rand, n, e + 1, evict_one (rand e) pool), (rand, n, e, pool)) \<in>
      measure (\<lambda>(_, _, _, pool). length (mapOrphanTransactions pool))"
    using evict_one_length [of pool "rand e"] by simp
qed simp

declare LimitOrphanTxSize.simps [simp del]

section \<open>The invariant of the pool\<close>

text \<open>The orphans that spend an output of transaction \<open>k\<close>, and the part of the index that claims to list them.\<close>

definition spends_from :: "uint256 \<Rightarrow> CTransaction \<Rightarrow> bool" where
  "spends_from k tx \<longleftrightarrow> (\<exists>txin \<in> set (tx_vin tx). op_hash (ti_prevout txin) = k)"

definition orphans_of :: "(uint256 \<times> COrphanTx) list \<Rightarrow> uint256 \<Rightarrow> uint256 set" where
  "orphans_of xs k = {h. \<exists>orphan. map_of xs h = Some orphan \<and> spends_from k (or_tx orphan)}"

definition listed_under :: "(uint256 \<rightharpoonup> uint256 set) \<Rightarrow> uint256 \<Rightarrow> uint256 set" where
  "listed_under byPrev k = (case byPrev k of None \<Rightarrow> {} | Some S \<Rightarrow> S)"

definition orphan_entry_ok :: "uint256 \<times> COrphanTx \<Rightarrow> bool" where
  "orphan_entry_ok e \<longleftrightarrow>
     CTransaction_GetHash (or_tx (snd e)) = fst e \<and> GetSerializeSize_CTransaction (or_tx (snd e)) \<le> 5000"

definition orphan_inv :: "orphan_pool \<Rightarrow> bool" where
  "orphan_inv pool \<longleftrightarrow>
     sorted_wrt (<) (map fst (mapOrphanTransactions pool)) \<and>
     (\<forall>e \<in> set (mapOrphanTransactions pool). orphan_entry_ok e) \<and>
     (\<forall>k. mapOrphanTransactionsByPrev pool k \<noteq> Some {} \<and>
          listed_under (mapOrphanTransactionsByPrev pool) k = orphans_of (mapOrphanTransactions pool) k)"

lemma index_fold:
  "listed_under (fold (index_orphan h) vin f) k = listed_under f k \<union> (if \<exists>txin \<in> set vin. op_hash (ti_prevout txin) = k then {h} else {})"
  by (induction vin arbitrary: f) (auto simp: index_orphan_def listed_under_def Let_def split: option.splits)

lemma index_fold_nonempty: "f k \<noteq> Some {} \<Longrightarrow> fold (index_orphan h) vin f k \<noteq> Some {}"
proof (induction vin arbitrary: f)
  case (Cons txin vin)
  have "index_orphan h txin f k \<noteq> Some {}" using Cons.prems by (auto simp: index_orphan_def Let_def)
  then show ?case using Cons.IH by simp
qed simp

lemma unindex_fold:
  "listed_under (fold (unindex_orphan h) vin f) k = listed_under f k - (if \<exists>txin \<in> set vin. op_hash (ti_prevout txin) = k then {h} else {})"
proof (induction vin arbitrary: f)
  case (Cons txin vin)
  have "listed_under (unindex_orphan h txin f) k = listed_under f k - (if op_hash (ti_prevout txin) = k then {h} else {})"
    by (auto simp: unindex_orphan_def listed_under_def Let_def split: option.splits)
  then show ?case by (auto simp: Cons.IH)
qed simp

lemma unindex_fold_nonempty: "f k \<noteq> Some {} \<Longrightarrow> fold (unindex_orphan h) vin f k \<noteq> Some {}"
proof (induction vin arbitrary: f)
  case (Cons txin vin)
  have "unindex_orphan h txin f k \<noteq> Some {}" using Cons.prems
    by (auto simp: unindex_orphan_def Let_def split: option.splits)
  then show ?case using Cons.IH by simp
qed simp

lemma insert_key_set: "set (insert_key k v xs) \<subseteq> insert (k, v) (set xs)"
  by (induction k v xs rule: insert_key.induct) auto

lemma orphan_inv_empty [simp]: "orphan_inv orphan_pool_empty"
  by (simp add: orphan_inv_def orphan_pool_empty_def listed_under_def orphans_of_def)

lemma AddOrphanTx_inv: assumes "orphan_inv pool" shows "orphan_inv (snd (AddOrphanTx tx peer pool))"
proof (cases "map_of (mapOrphanTransactions pool) (CTransaction_GetHash tx) = None \<and> GetSerializeSize_CTransaction tx \<le> 5000")
  case True
  define h where "h = CTransaction_GetHash tx"
  define ms where "ms = insert_key h \<lparr>or_tx = tx, or_fromPeer = peer\<rparr> (mapOrphanTransactions pool)"
  have s: "sorted_wrt (<) (map fst (mapOrphanTransactions pool))" using assms by (simp add: orphan_inv_def)
  have "orphan_entry_ok e" if "e \<in> set ms" for e
    using that insert_key_set [of h "\<lparr>or_tx = tx, or_fromPeer = peer\<rparr>" "mapOrphanTransactions pool"] True assms
    unfolding ms_def orphan_inv_def by (auto simp: orphan_entry_ok_def h_def)
  moreover have "orphans_of ms k = orphans_of (mapOrphanTransactions pool) k \<union> (if spends_from k tx then {h} else {})" for k
    using True s by (auto simp: orphans_of_def ms_def h_def)
  ultimately show ?thesis
    using True assms sorted_insert_key [OF s]
    by (auto simp: AddOrphanTx_def Let_def orphan_inv_def index_fold index_fold_nonempty spends_from_def h_def ms_def)
qed (auto simp: AddOrphanTx_def Let_def assms)

lemma EraseOrphanTx_inv: assumes "orphan_inv pool" shows "orphan_inv (EraseOrphanTx h pool)"
proof (cases "map_of (mapOrphanTransactions pool) h")
  case (Some orphan)
  have s: "sorted_wrt (<) (map fst (mapOrphanTransactions pool))" using assms by (simp add: orphan_inv_def)
  have "orphans_of (erase_key h (mapOrphanTransactions pool)) k =
      orphans_of (mapOrphanTransactions pool) k - (if spends_from k (or_tx orphan) then {h} else {})" for k
    using Some by (auto simp: orphans_of_def split: if_splits)
  moreover have "set (erase_key h (mapOrphanTransactions pool)) \<subseteq> set (mapOrphanTransactions pool)"
    by (auto simp: erase_key_def)
  ultimately show ?thesis
    using Some assms sorted_erase_key [OF s, of h]
    by (auto simp: EraseOrphanTx_def orphan_inv_def unindex_fold unindex_fold_nonempty spends_from_def)
qed (simp add: EraseOrphanTx_def assms)

lemma erase_orphans_loop_inv: "orphan_inv pool \<Longrightarrow> orphan_inv (erase_orphans_loop peer xs pool)"
  by (induction peer xs pool rule: erase_orphans_loop.induct) (simp_all add: EraseOrphanTx_inv)

lemma EraseOrphanTx_entries:
  "mapOrphanTransactions (EraseOrphanTx h pool) = erase_key h (mapOrphanTransactions pool)"
proof (cases "map_of (mapOrphanTransactions pool) h")
  case None
  then have "h \<notin> fst ` set (mapOrphanTransactions pool)" by (simp add: map_of_eq_None_iff)
  then show ?thesis unfolding EraseOrphanTx_def erase_key_def using None by (force intro: filter_True [symmetric])
qed (simp add: EraseOrphanTx_def)

lemma erase_orphans_loop_entries:
  assumes "\<forall>e \<in> set xs. CTransaction_GetHash (or_tx (snd e)) = fst e"
  shows "mapOrphanTransactions (erase_orphans_loop peer xs pool) =
    filter (\<lambda>e. \<forall>(k, orphan) \<in> set xs. or_fromPeer orphan = peer \<longrightarrow> fst e \<noteq> k) (mapOrphanTransactions pool)"
  using assms
proof (induction peer xs pool rule: erase_orphans_loop.induct)
  case (2 peer k orphan entries pool)
  then show ?case by (simp add: EraseOrphanTx_entries erase_key_def split_beta conj_commute)
qed simp

lemma EraseOrphansFor_entries:
  assumes "orphan_inv pool"
  shows "mapOrphanTransactions (EraseOrphansFor peer pool) =
    filter (\<lambda>(h, orphan). or_fromPeer orphan \<noteq> peer) (mapOrphanTransactions pool)"
proof -
  let ?xs = "mapOrphanTransactions pool"
  have d: "distinct (map fst ?xs)" using assms by (auto simp: orphan_inv_def strict_sorted_iff)
  have "(\<forall>(k, orphan) \<in> set ?xs. or_fromPeer orphan = peer \<longrightarrow> fst e \<noteq> k) \<longleftrightarrow> or_fromPeer (snd e) \<noteq> peer"
    if "e \<in> set ?xs" for e
  proof -
    have "(fst e, snd e) \<in> set ?xs" using that by simp
    from eq_key_imp_eq_value [OF d this] that show ?thesis by (force simp: split_beta)
  qed
  then have "filter (\<lambda>e. \<forall>(k, orphan) \<in> set ?xs. or_fromPeer orphan = peer \<longrightarrow> fst e \<noteq> k) ?xs =
      filter (\<lambda>e. or_fromPeer (snd e) \<noteq> peer) ?xs" by (intro filter_cong refl)
  moreover have "\<forall>e \<in> set ?xs. CTransaction_GetHash (or_tx (snd e)) = fst e"
    using assms by (auto simp: orphan_inv_def orphan_entry_ok_def)
  ultimately show ?thesis
    by (simp add: EraseOrphansFor_def erase_orphans_loop_entries split_def)
qed

lemma evict_one_erases:
  assumes "mapOrphanTransactions pool \<noteq> []"
  obtains h where "h \<in> fst ` set (mapOrphanTransactions pool)" "evict_one r pool = EraseOrphanTx h pool"
  using assms lower_bound_in [of r "mapOrphanTransactions pool"]
  by (cases "lower_bound r (mapOrphanTransactions pool)") (auto simp: evict_one_def intro: hd_in_set)

lemma length_erase_key_distinct:
  assumes "distinct (map fst xs)" "k \<in> fst ` set xs" shows "length (erase_key k xs) + 1 = length xs"
  using assms
proof (induction xs)
  case (Cons x xs)
  show ?case
  proof (cases "fst x = k")
    case True
    then have "erase_key k (x # xs) = xs"
      using Cons.prems by (auto simp: erase_key_def filter_id_conv split_beta image_iff)
    then show ?thesis by simp
  qed (use Cons in \<open>auto simp: erase_key_def split_beta\<close>)
qed simp

lemma LimitOrphanTxSize_props:
  assumes "orphan_inv pool" "LimitOrphanTxSize rand m n pool = (n', pool')"
  shows "orphan_inv pool' \<and> set (mapOrphanTransactions pool') \<subseteq> set (mapOrphanTransactions pool) \<and>
    length (mapOrphanTransactions pool') = min m (length (mapOrphanTransactions pool)) \<and>
    n' = n + (length (mapOrphanTransactions pool) - m)"
  using assms
proof (induction rand m n pool rule: LimitOrphanTxSize.induct)
  case (1 rand m n pool)
  show ?case
  proof (cases "m < length (mapOrphanTransactions pool)")
    case True
    then have "mapOrphanTransactions pool \<noteq> []" by auto
    then obtain h where h: "h \<in> fst ` set (mapOrphanTransactions pool)" "evict_one (rand n) pool = EraseOrphanTx h pool"
      by (rule evict_one_erases)
    have d: "distinct (map fst (mapOrphanTransactions pool))" using 1 by (auto simp: orphan_inv_def strict_sorted_iff)
    have "LimitOrphanTxSize rand m (n + 1) (evict_one (rand n) pool) = (n', pool')"
      using 1(3) True by (subst (asm) LimitOrphanTxSize.simps) simp
    then show ?thesis
      using 1(1) [OF True] 1(2) True h length_erase_key_distinct [OF d h(1)]
      by (auto simp: EraseOrphanTx_inv EraseOrphanTx_entries erase_key_def)
  next
    case False
    then show ?thesis using 1 by (subst (asm) (2) LimitOrphanTxSize.simps) simp
  qed
qed

text \<open>The pools that the operations build from the empty one, in any order.\<close>

inductive orphan_reach :: "orphan_pool \<Rightarrow> bool" where
  reach_empty: "orphan_reach orphan_pool_empty"
| reach_add: "orphan_reach pool \<Longrightarrow> AddOrphanTx tx peer pool = (added, pool') \<Longrightarrow> orphan_reach pool'"
| reach_erase: "orphan_reach pool \<Longrightarrow> orphan_reach (EraseOrphanTx h pool)"
| reach_erase_for: "orphan_reach pool \<Longrightarrow> orphan_reach (EraseOrphansFor peer pool)"
| reach_limit: "orphan_reach pool \<Longrightarrow> LimitOrphanTxSize rand m 0 pool = (n, pool') \<Longrightarrow> orphan_reach pool'"

lemma orphan_reach_inv: "orphan_reach pool \<Longrightarrow> orphan_inv pool"
proof (induction rule: orphan_reach.induct)
  case (reach_add pool tx peer added pool')
  then show ?case using AddOrphanTx_inv [of pool tx peer] by simp
qed (auto simp: EraseOrphanTx_inv EraseOrphansFor_def erase_orphans_loop_inv dest: LimitOrphanTxSize_props)

lemma orphan_inv_index:
  assumes "orphan_inv pool"
  shows "mapOrphanTransactionsByPrev pool k =
    (if orphans_of (mapOrphanTransactions pool) k = {} then None else Some (orphans_of (mapOrphanTransactions pool) k))"
proof -
  have "mapOrphanTransactionsByPrev pool k \<noteq> Some {}" "listed_under (mapOrphanTransactionsByPrev pool) k = orphans_of (mapOrphanTransactions pool) k"
    using assms by (simp_all add: orphan_inv_def)
  then show ?thesis by (auto simp: listed_under_def split: option.splits)
qed

text \<open>C36. The two maps of the orphan pool stay consistent. In every pool that the operations reach, whatever the order,
  the entries are in key order, the key of an entry is the hash of its transaction, no transaction is larger than
  5000 bytes, and the index lists under an id exactly the orphans that spend an output of it, with no empty lists left behind.
  Erasing the orphans of a peer removes exactly those; limiting the pool always ends, evicts as many as are too many and
  not more, whatever the random numbers.\<close>

theorem orphan_pool_consistent:
  assumes "orphan_reach pool"
  shows "sorted_wrt (<) (map fst (mapOrphanTransactions pool)) \<and>
    (\<forall>(h, orphan) \<in> set (mapOrphanTransactions pool).
       h = CTransaction_GetHash (or_tx orphan) \<and> GetSerializeSize_CTransaction (or_tx orphan) \<le> 5000) \<and>
    (\<forall>k. mapOrphanTransactionsByPrev pool k =
       (let S = orphans_of (mapOrphanTransactions pool) k in if S = {} then None else Some S)) \<and>
    mapOrphanTransactions (EraseOrphansFor peer pool) =
      filter (\<lambda>(h, orphan). or_fromPeer orphan \<noteq> peer) (mapOrphanTransactions pool) \<and>
    (\<exists>pool'. LimitOrphanTxSize rand m 0 pool = (length (mapOrphanTransactions pool) - m, pool') \<and>
       length (mapOrphanTransactions pool') = min m (length (mapOrphanTransactions pool)) \<and>
       set (mapOrphanTransactions pool') \<subseteq> set (mapOrphanTransactions pool))"
proof -
  have inv: "orphan_inv pool" by (rule orphan_reach_inv) fact
  obtain n' pool' where "LimitOrphanTxSize rand m 0 pool = (n', pool')" by (cases "LimitOrphanTxSize rand m 0 pool")
  from LimitOrphanTxSize_props [OF inv this] this show ?thesis
    using inv EraseOrphansFor_entries [OF inv] orphan_inv_index [OF inv]
    by (auto simp: orphan_inv_def orphan_entry_ok_def Let_def)
qed

text \<open>A pool with one orphan, which spends two outputs of one transaction, pruned to nothing.\<close>

definition sample_orphan :: CTransaction where
  "sample_orphan = \<lparr>tx_nVersion = 1,
     tx_vin = [\<lparr>ti_prevout = \<lparr>op_hash = 7, op_n = 0\<rparr>, ti_scriptSig = [], ti_nSequence = -1\<rparr>,
               \<lparr>ti_prevout = \<lparr>op_hash = 7, op_n = 1\<rparr>, ti_scriptSig = [], ti_nSequence = -1\<rparr>],
     tx_vout = [\<lparr>to_nValue = 5, to_scriptPubKey = [], to_nRounds = - 10\<rparr>], tx_nLockTime = 0\<rparr>"

theorem orphan_pool_consistent_witness:
  "let pool = snd (AddOrphanTx sample_orphan 3 orphan_pool_empty) in
   mapOrphanTransactionsByPrev pool 7 = Some {CTransaction_GetHash sample_orphan} \<and>
   fst (LimitOrphanTxSize (\<lambda>_. 0) 0 0 pool) = 1 \<and> mapOrphanTransactions (EraseOrphansFor 3 pool) = []"
proof -
  define pool where "pool = snd (AddOrphanTx sample_orphan 3 orphan_pool_empty)"
  have "GetSerializeSize_CTransaction sample_orphan \<le> 5000"
    by code_simp
  then have m: "mapOrphanTransactions pool = [(CTransaction_GetHash sample_orphan, \<lparr>or_tx = sample_orphan, or_fromPeer = 3\<rparr>)]"
    by (simp add: pool_def AddOrphanTx_def orphan_pool_empty_def Let_def)
  have "orphan_reach pool" unfolding pool_def by (rule reach_add [OF reach_empty prod.collapse [symmetric]])
  then have c: "mapOrphanTransactionsByPrev pool 7 =
       (let S = orphans_of (mapOrphanTransactions pool) 7 in if S = {} then None else Some S)"
    "mapOrphanTransactions (EraseOrphansFor 3 pool) = filter (\<lambda>(h, orphan). or_fromPeer orphan \<noteq> 3) (mapOrphanTransactions pool)"
    "fst (LimitOrphanTxSize (\<lambda>_. 0) 0 0 pool) = length (mapOrphanTransactions pool) - 0"
    using orphan_pool_consistent [of pool 3 "\<lambda>_. 0" 0] by auto
  have "spends_from 7 sample_orphan" by (simp add: spends_from_def sample_orphan_def)
  then have "orphans_of (mapOrphanTransactions pool) 7 = {CTransaction_GetHash sample_orphan}"
    by (auto simp: orphans_of_def m split: if_splits)
  then show ?thesis unfolding pool_def [symmetric] Let_def using c by (simp add: m)
qed

end
