(* ===== verification/Kernel.thy ===== *)
theory Kernel
  imports TxChecks "HOL-Library.Product_Lexorder"
begin

text \<open>
  Proof of stake, \<open>src/kernel.cpp\<close>: the stake modifier, a 64-bit number to which selected past blocks
  contribute one bit each, and the kernel of a coinstake, whose hash must be below a target that is weighted by the
  amount staked. Looking up a transaction and reading a block from disk are parameters. The global \<open>fTestNet\<close> is a
  parameter; it is never set. \<open>None\<close> as a result is a read through a null pointer or past the end of a vector, a
  failed assertion or a loop that does not end.
\<close>

section \<open>Selection intervals\<close>

abbreviation (input) MODIFIER_INTERVAL_RATIO :: int where "MODIFIER_INTERVAL_RATIO \<equiv> 3"
abbreviation (input) nStakeMinAge :: u32 where "nStakeMinAge \<equiv> 7200"

definition getIntervalVersion :: "bool \<Rightarrow> int" where
  "getIntervalVersion fTestNet = (if fTestNet then 60 else 60)"

definition GetWeight :: "int \<Rightarrow> int \<Rightarrow> int" where
  "GetWeight nIntervalBeginning nIntervalEnd = nIntervalEnd - nIntervalBeginning - uint nStakeMinAge"

definition GetStakeModifierSelectionIntervalSection :: "bool \<Rightarrow> int \<Rightarrow> int option" where
  "GetStakeModifierSelectionIntervalSection fTestNet nSection =
     (if nSection \<ge> 0 \<and> nSection < 64
      then Some (getIntervalVersion fTestNet * 63 div (63 + (63 - nSection) * (MODIFIER_INTERVAL_RATIO - 1))) else None)"

fun interval_loop :: "bool \<Rightarrow> int list \<Rightarrow> int \<Rightarrow> int option" where
  "interval_loop fTestNet [] nSelectionInterval = Some nSelectionInterval"
| "interval_loop fTestNet (nSection # sections) nSelectionInterval = do {
     a \<leftarrow> GetStakeModifierSelectionIntervalSection fTestNet nSection;
     interval_loop fTestNet sections (nSelectionInterval + a) }"

definition GetStakeModifierSelectionInterval :: "bool \<Rightarrow> int option" where
  "GetStakeModifierSelectionInterval fTestNet = interval_loop fTestNet (map int [0..<64]) 0"

section \<open>The last modifier\<close>

partial_function (option) last_modifier_walk :: "block_store \<Rightarrow> nat \<Rightarrow> nat option" where
  [code]: "last_modifier_walk mem p = do {
     b \<leftarrow> mem p;
     (case bi_pprev b of
        None \<Rightarrow> Some p
      | Some q \<Rightarrow> if GeneratedStakeModifier b then Some p else last_modifier_walk mem q) }"

text \<open>The inner \<open>None\<close> is the result \<open>false\<close>.\<close>

definition GetLastStakeModifier :: "block_store \<Rightarrow> nat option \<Rightarrow> (u64 \<times> int) option option" where
  "GetLastStakeModifier mem pindex =
     (case pindex of
        None \<Rightarrow> Some None
      | Some p \<Rightarrow> do {
          q \<leftarrow> last_modifier_walk mem p;
          b \<leftarrow> mem q;
          Some (if \<not> GeneratedStakeModifier b then None else Some (bi_nStakeModifier b, GetBlockTime b)) })"

section \<open>Selecting blocks\<close>

definition selection_hash :: "bool \<Rightarrow> CBlockIndex \<Rightarrow> uint256 \<Rightarrow> u64 \<Rightarrow> uint256" where
  "selection_hash fModifierV2 b hash nStakeModifierPrev =
     (let hashProof = (if fModifierV2 then hash else if BI_IsProofOfStake b then 0 else hash);
          hashSelection = uint256_of_bytes (Hash (Serialize_uint 32 hashProof @ Serialize_uint 8 nStakeModifierPrev))
      in if BI_IsProofOfStake b then drop_bit 32 hashSelection else hashSelection)"

text \<open>
  \<open>fModifierV2\<close> is \<open>None\<close> before the first run; \<open>best\<close> is the best hash and block so far, \<open>None\<close> while nothing
  is selected. The result \<open>Inl ()\<close> is the error for a candidate that is not indexed.
\<close>

fun select_loop ::
  "CChainParams \<Rightarrow> block_store \<Rightarrow> BlockMap \<Rightarrow> uint256 list \<Rightarrow> int \<Rightarrow> u64 \<Rightarrow> (int \<times> uint256) list \<Rightarrow> bool option \<Rightarrow>
   (uint256 \<times> nat) option \<Rightarrow> (unit + (uint256 \<times> nat) option) option" where
  "select_loop ps mem mapBlockIndex selected stop nPrev [] fModifierV2 best = Some (Inr best)"
| "select_loop ps mem mapBlockIndex selected stop nPrev (item # items) fModifierV2 best =
     (case mapBlockIndex (snd item) of
        None \<Rightarrow> Some (Inl ())
      | Some p \<Rightarrow> do {
          b \<leftarrow> mem p;
          if best \<noteq> None \<and> GetBlockTime b > stop then Some (Inr best)
          else do {
            let v2 = (case fModifierV2 of None \<Rightarrow> bi_nHeight b \<ge> cp_nModifierUpdateBlock ps | Some f \<Rightarrow> f);
            hash \<leftarrow> bi_phashBlock b;
            if hash \<in> set selected
            then select_loop ps mem mapBlockIndex selected stop nPrev items (Some v2) best
            else let hashSelection = selection_hash v2 b hash nPrev in
              select_loop ps mem mapBlockIndex selected stop nPrev items (Some v2)
                (case best of
                   None \<Rightarrow> Some (hashSelection, p)
                 | Some (hashBest, q) \<Rightarrow> if hashSelection < hashBest then Some (hashSelection, p) else best) } })"

definition SelectBlockFromCandidates ::
  "CChainParams \<Rightarrow> block_store \<Rightarrow> BlockMap \<Rightarrow> (int \<times> uint256) list \<Rightarrow> uint256 list \<Rightarrow> int \<Rightarrow> u64 \<Rightarrow> nat option option" where
  "SelectBlockFromCandidates ps mem mapBlockIndex vSortedByTimestamp selected nSelectionIntervalStop nStakeModifierPrev =
     map_option (\<lambda>r. case r of Inl _ \<Rightarrow> None | Inr best \<Rightarrow> map_option snd best)
       (select_loop ps mem mapBlockIndex selected nSelectionIntervalStop nStakeModifierPrev vSortedByTimestamp None None)"

section \<open>The next modifier\<close>

partial_function (option) candidates_walk :: "block_store \<Rightarrow> nat option \<Rightarrow> int \<Rightarrow> (int \<times> uint256) list option" where
  [code]: "candidates_walk mem pindex nSelectionIntervalStart =
     (case pindex of
        None \<Rightarrow> Some []
      | Some p \<Rightarrow> do {
          b \<leftarrow> mem p;
          if GetBlockTime b \<ge> nSelectionIntervalStart then do {
            hash \<leftarrow> bi_phashBlock b;
            rest \<leftarrow> candidates_walk mem (bi_pprev b) nSelectionIntervalStart;
            Some ((GetBlockTime b, hash) # rest) }
          else Some [] })"

text \<open>\<open>Inl ()\<close> is the error when no block can be selected.\<close>

fun modifier_rounds ::
  "bool \<Rightarrow> CChainParams \<Rightarrow> block_store \<Rightarrow> BlockMap \<Rightarrow> (int \<times> uint256) list \<Rightarrow> u64 \<Rightarrow> nat list \<Rightarrow> uint256 list \<Rightarrow> int \<Rightarrow> u64 \<Rightarrow>
   (unit + u64) option" where
  "modifier_rounds fTestNet ps mem mapBlockIndex vSorted nPrev [] selected stop nNew = Some (Inr nNew)"
| "modifier_rounds fTestNet ps mem mapBlockIndex vSorted nPrev (nRound # rounds) selected stop nNew = do {
     a \<leftarrow> GetStakeModifierSelectionIntervalSection fTestNet (int nRound);
     let stop' = stop + a;
     r \<leftarrow> SelectBlockFromCandidates ps mem mapBlockIndex vSorted selected stop' nPrev;
     (case r of
        None \<Rightarrow> Some (Inl ())
      | Some p \<Rightarrow> do {
          b \<leftarrow> mem p;
          bit \<leftarrow> GetStakeEntropyBit b;
          hash \<leftarrow> bi_phashBlock b;
          modifier_rounds fTestNet ps mem mapBlockIndex vSorted nPrev rounds (hash # selected) stop'
            (nNew OR push_bit nRound (ucast bit)) }) }"

text \<open>
  The result is what the function returns, the modifier and whether it is newly generated. \<open>literal\<close> is the
  address of the string literal that the code casts to an integer.
\<close>

definition ComputeNextStakeModifier ::
  "bool \<Rightarrow> u64 \<Rightarrow> CChainParams \<Rightarrow> block_store \<Rightarrow> BlockMap \<Rightarrow> nat option \<Rightarrow> (bool \<times> u64 \<times> bool) option" where
  "ComputeNextStakeModifier fTestNet literal ps mem mapBlockIndex pindexPrev =
     (case pindexPrev of
        None \<Rightarrow> Some (True, 0, True)
      | Some p \<Rightarrow> do {
          prev \<leftarrow> mem p;
          if bi_nHeight prev = 0 then Some (True, literal, True)
          else do {
            l \<leftarrow> GetLastStakeModifier mem (Some p);
            case l of
              None \<Rightarrow> Some (False, 0, False)
            | Some (nStakeModifier, nModifierTime) \<Rightarrow>
                if nModifierTime div getIntervalVersion fTestNet \<ge> GetBlockTime prev div getIntervalVersion fTestNet
                then Some (True, nStakeModifier, False)
                else do {
                  nSelectionInterval \<leftarrow> GetStakeModifierSelectionInterval fTestNet;
                  let start = GetBlockTime prev div getIntervalVersion fTestNet * getIntervalVersion fTestNet - nSelectionInterval;
                  walked \<leftarrow> candidates_walk mem (Some p) start;
                  let vSortedByTimestamp = sort (rev walked);
                  r \<leftarrow> modifier_rounds fTestNet ps mem mapBlockIndex vSortedByTimestamp nStakeModifier
                         [0..<min 64 (length vSortedByTimestamp)] [] start 0;
                  Some (case r of
                    Inl _ \<Rightarrow> (False, nStakeModifier, False)
                  | Inr nStakeModifierNew \<Rightarrow> (True, nStakeModifierNew, True)) } } })"

section \<open>The kernel of a coinstake\<close>

partial_function (option) kernel_walk ::
  "block_store \<Rightarrow> CChain \<Rightarrow> int \<Rightarrow> nat \<Rightarrow> nat option \<Rightarrow> int \<Rightarrow> int \<Rightarrow> (nat \<times> int \<times> int) option option" where
  [code]: "kernel_walk mem chainActive limit p pnext nHeight nTime =
     (if nTime < limit then
        (case pnext of
           None \<Rightarrow> Some None
         | Some q \<Rightarrow> do {
             b \<leftarrow> mem q;
             if GeneratedStakeModifier b
             then kernel_walk mem chainActive limit q (chain_at chainActive (bi_nHeight b + 1)) (bi_nHeight b) (GetBlockTime b)
             else kernel_walk mem chainActive limit q (chain_at chainActive (bi_nHeight b + 1)) nHeight nTime })
      else Some (Some (p, nHeight, nTime)))"

text \<open>The modifier with its height and time; the inner \<open>None\<close> is the result \<open>false\<close>.\<close>

definition GetKernelStakeModifier ::
  "bool \<Rightarrow> block_store \<Rightarrow> BlockMap \<Rightarrow> CChain \<Rightarrow> uint256 \<Rightarrow> (u64 \<times> int \<times> int) option option" where
  "GetKernelStakeModifier fTestNet mem mapBlockIndex chainActive hashBlockFrom =
     (case mapBlockIndex hashBlockFrom of
        None \<Rightarrow> Some None
      | Some p \<Rightarrow> do {
          pfrom \<leftarrow> mem p;
          interval \<leftarrow> GetStakeModifierSelectionInterval fTestNet;
          r \<leftarrow> kernel_walk mem chainActive (GetBlockTime pfrom + interval) p (chain_at chainActive (bi_nHeight pfrom + 1))
                 (bi_nHeight pfrom) (GetBlockTime pfrom);
          case r of
            None \<Rightarrow> Some None
          | Some (q, nHeight, nTime) \<Rightarrow> do { b \<leftarrow> mem q; Some (Some (bi_nStakeModifier b, nHeight, nTime)) } })"

definition stakeHash :: "u32 \<Rightarrow> bytes \<Rightarrow> u32 \<Rightarrow> uint256 \<Rightarrow> u32 \<Rightarrow> uint256" where
  "stakeHash nTimeTx ss prevoutIndex prevoutHash nTimeBlockFrom =
     uint256_of_bytes (Hash (ss @ Serialize_uint 4 nTimeBlockFrom @ Serialize_uint 4 prevoutIndex @
       Serialize_uint 32 prevoutHash @ Serialize_uint 4 nTimeTx))"

text \<open>The amount is converted through \<open>uint64_t\<close>; the product is one of 256-bit words.\<close>

definition stakeTargetHit :: "uint256 \<Rightarrow> int \<Rightarrow> uint256 \<Rightarrow> bool" where
  "stakeTargetHit hashProofOfStake nValueIn bnTargetPerCoinDay =
     (let bnCoinDayWeight = ucast (word_of_int nValueIn :: u64) div (100 :: uint256)
      in hashProofOfStake < bnCoinDayWeight * bnTargetPerCoinDay)"

text \<open>The search: the iterations \<open>i\<close> that are left, and the last hash computed.\<close>

fun drift_loop ::
  "(u32 \<Rightarrow> uint256) \<Rightarrow> (uint256 \<Rightarrow> bool) \<Rightarrow> u32 \<Rightarrow> u32 \<Rightarrow> nat list \<Rightarrow> uint256 \<Rightarrow> bool \<times> u32 \<times> uint256" where
  "drift_loop hash hit nTimeTx nHashDrift [] hashProofOfStake = (False, nTimeTx, hashProofOfStake)"
| "drift_loop hash hit nTimeTx nHashDrift (i # is) hashProofOfStake =
     (let nTryTime = nTimeTx + nHashDrift - of_nat i; h = hash nTryTime in
      if \<not> hit h then drift_loop hash hit nTimeTx nHashDrift is h
      else (True, nTryTime, h))"

record kernel_result =
  kr_ok :: bool
  kr_nTimeTx :: u32
  kr_hashProofOfStake :: uint256
  kr_mapHashedBlocks :: "int \<rightharpoonup> int"

definition CheckStakeKernelHash ::
  "bool \<Rightarrow> block_store \<Rightarrow> BlockMap \<Rightarrow> CChain \<Rightarrow> (CBlockHeader \<Rightarrow> uint256) \<Rightarrow> int \<Rightarrow> u32 \<Rightarrow> CBlock \<Rightarrow> CTransaction \<Rightarrow> COutPoint \<Rightarrow>
   u32 \<Rightarrow> u32 \<Rightarrow> bool \<Rightarrow> uint256 \<Rightarrow> (int \<rightharpoonup> int) \<Rightarrow> kernel_result option" where
  "CheckStakeKernelHash fTestNet mem mapBlockIndex chainActive GetHash now nBits blockFrom txPrev prevout nTimeTx nHashDrift fCheck
     hashProofOfStake mapHashedBlocks =
     (let res = \<lparr>kr_ok = False, kr_nTimeTx = nTimeTx, kr_hashProofOfStake = hashProofOfStake, kr_mapHashedBlocks = mapHashedBlocks\<rparr> in
      if length (tx_vout txPrev) \<le> unat (op_n prevout) then None
      else let nValueIn = to_nValue (tx_vout txPrev ! unat (op_n prevout)); nTimeBlockFrom = bh_nTime (blk_header blockFrom) in
        if nTimeTx < nTimeBlockFrom then Some res
        else if nTimeBlockFrom + nStakeMinAge > nTimeTx then Some res
        else let bnTargetPerCoinDay = fst (SetCompact nBits) in do {
          m \<leftarrow> GetKernelStakeModifier fTestNet mem mapBlockIndex chainActive (GetHash (blk_header blockFrom));
          case m of
            None \<Rightarrow> Some res
          | Some (nStakeModifier, _, _) \<Rightarrow>
             let hash = (\<lambda>t. stakeHash t (Serialize_uint 8 nStakeModifier) (op_n prevout) (op_hash prevout) nTimeBlockFrom);
                 hit = (\<lambda>h. stakeTargetHit h nValueIn bnTargetPerCoinDay)
             in if fCheck then Some (res\<lparr>kr_ok := hit (hash nTimeTx), kr_hashProofOfStake := hash nTimeTx\<rparr>)
                else (case drift_loop hash hit nTimeTx nHashDrift [0..<unat nHashDrift] hashProofOfStake of
                        (fSuccess, nTime, h) \<Rightarrow> do {
                          tip \<leftarrow> deref mem (Tip chainActive);
                          Some \<lparr>kr_ok = fSuccess, kr_nTimeTx = nTime, kr_hashProofOfStake = h,
                                kr_mapHashedBlocks = [bi_nHeight tip \<mapsto> now]\<rparr> }) })"

section \<open>Checking a proof-of-stake block\<close>

abbreviation (input) STANDARD_SCRIPT_VERIFY_FLAGS :: u32 where "STANDARD_SCRIPT_VERIFY_FLAGS \<equiv> 215"

text \<open>\<open>Inr hash\<close> is acceptance with the hash of the proof, \<open>Inl hash\<close> rejection with what \<open>hashProofOfStake\<close> then holds.\<close>

definition CheckProofOfStake ::
  "bool \<Rightarrow> block_store \<Rightarrow> BlockMap \<Rightarrow> CChain \<Rightarrow> (CBlockHeader \<Rightarrow> uint256) \<Rightarrow> (CTransaction \<Rightarrow> nat \<Rightarrow> sig_checker) \<Rightarrow>
   (uint256 \<Rightarrow> (CTransaction \<times> uint256) option) \<Rightarrow> (CDiskBlockPos \<Rightarrow> CBlock option) \<Rightarrow> CBlock \<Rightarrow> uint256 \<Rightarrow> (uint256 + uint256) option" where
  "CheckProofOfStake fTestNet mem mapBlockIndex chainActive GetHash checker GetTransaction ReadBlockFromDisk block hash0 =
     (if length (blk_vtx block) \<le> 1 then None
      else let tx = blk_vtx block ! 1 in
        if \<not> IsCoinStake tx then Some (Inl hash0)
        else let txin = tx_vin tx ! 0; prevout = ti_prevout txin in
        case GetTransaction (op_hash prevout) of
          None \<Rightarrow> Some (Inl hash0)
        | Some (txPrev, hashBlock) \<Rightarrow>
        if length (tx_vout txPrev) \<le> unat (op_n prevout) then None
        else do {
          v \<leftarrow> VerifyScript (checker tx 0) STANDARD_SCRIPT_VERIFY_FLAGS (ti_scriptSig txin)
                 (to_scriptPubKey (tx_vout txPrev ! unat (op_n prevout)));
          case v of
            Inl _ \<Rightarrow> Some (Inl hash0)
          | Inr _ \<Rightarrow>
             (case mapBlockIndex hashBlock of
                None \<Rightarrow> Some (Inl hash0)
              | Some p \<Rightarrow> do {
                  pindex \<leftarrow> mem p;
                  case ReadBlockFromDisk (GetBlockPos pindex) of
                    None \<Rightarrow> Some (Inl hash0)
                  | Some blockprev \<Rightarrow> do {
                      r \<leftarrow> CheckStakeKernelHash fTestNet mem mapBlockIndex chainActive GetHash 0 (bh_nBits (blk_header block)) blockprev txPrev
                             prevout (bh_nTime (blk_header block)) 0 True hash0 Map.empty;
                      Some (if kr_ok r then Inr (kr_hashProofOfStake r) else Inl (kr_hashProofOfStake r)) } }) })"

definition CheckCoinStakeTimestamp :: "int \<Rightarrow> int \<Rightarrow> bool" where
  "CheckCoinStakeTimestamp nTimeBlock nTimeTx \<longleftrightarrow> nTimeBlock = nTimeTx"

section \<open>Checksums of modifiers\<close>

definition GetStakeModifierChecksum :: "block_store \<Rightarrow> uint256 \<Rightarrow> CBlockIndex \<Rightarrow> u32 option" where
  "GetStakeModifierChecksum mem hashGenesisBlock b = do {
     prev \<leftarrow> (case bi_pprev b of
               None \<Rightarrow> if bi_phashBlock b = Some hashGenesisBlock then Some [] else None
             | Some q \<Rightarrow> map_option (\<lambda>c. Serialize_uint 4 (bi_nStakeModifierChecksum c)) (mem q));
     let hashChecksum = uint256_of_bytes (Hash (prev @ Serialize_uint 4 (bi_nFlags b) @ Serialize_uint 32 (bi_hashProofOfStake b) @
           Serialize_uint 8 (bi_nStakeModifier b)));
     Some (ucast (drop_bit (256 - 32) hashChecksum)) }"

definition CheckStakeModifierCheckpoints :: "bool \<Rightarrow> int \<Rightarrow> u32 \<Rightarrow> bool" where
  "CheckStakeModifierCheckpoints fTestNet nHeight nStakeModifierChecksum =
     (if fTestNet then True else if nHeight = 0 then nStakeModifierChecksum = 0xfd11f4e7 else True)"

section \<open>The next modifier can always be computed\<close>

text \<open>Every entry is indexed under its own hash.\<close>

definition wf_hashes :: "block_store \<Rightarrow> BlockMap \<Rightarrow> bool" where
  "wf_hashes mem mapBlockIndex \<longleftrightarrow> (\<forall>p b. mem p = Some b \<longrightarrow> (\<exists>h. bi_phashBlock b = Some h \<and> mapBlockIndex h = Some p))"

definition indexed :: "block_store \<Rightarrow> BlockMap \<Rightarrow> uint256 \<Rightarrow> bool" where
  "indexed mem mapBlockIndex h \<longleftrightarrow> (\<exists>p b. mapBlockIndex h = Some p \<and> mem p = Some b \<and> bi_phashBlock b = Some h)"

lemma prev_entry:
  assumes "wf_index mem" "mem p = Some b" "bi_pprev b = Some q"
  obtains c where "mem q = Some c" "bi_nHeight b = bi_nHeight c + 1" "nat (bi_nHeight c) < nat (bi_nHeight b)"
proof -
  from wf_indexD(3) [OF assms] obtain c where c: "mem q = Some c" "bi_nHeight b = bi_nHeight c + 1" by blast
  moreover have "0 \<le> bi_nHeight c" by (rule wf_indexD(1) [OF assms(1) c(1)])
  ultimately show thesis by (intro that) auto
qed

lemma last_modifier_walk_returns:
  assumes "wf_index mem" "mem p = Some b"
  shows "\<exists>q c. last_modifier_walk mem p = Some q \<and> mem q = Some c \<and>
    ((\<exists>k r d. walk_prev mem k p = Some r \<and> mem r = Some d \<and> GeneratedStakeModifier d) \<longrightarrow> GeneratedStakeModifier c)"
  using assms(2)
proof (induction "nat (bi_nHeight b)" arbitrary: p b rule: less_induct)
  case less
  show ?case
  proof (cases "bi_pprev b")
    case None
    have "r = p" if "walk_prev mem k p = Some r" for k r using that None less.prems by (cases k) auto
    then show ?thesis using None less.prems by (fastforce simp: last_modifier_walk.simps)
  next
    case (Some q)
    obtain c where c: "mem q = Some c" "nat (bi_nHeight c) < nat (bi_nHeight b)" by (rule prev_entry [OF assms(1) less.prems Some])
    show ?thesis
    proof (cases "GeneratedStakeModifier b")
      case True
      then show ?thesis using Some less.prems by (auto simp: last_modifier_walk.simps)
    next
      case False
      from less.hyps [OF c(2,1)] obtain r d where r: "last_modifier_walk mem q = Some r" "mem r = Some d"
        "(\<exists>k s e. walk_prev mem k q = Some s \<and> mem s = Some e \<and> GeneratedStakeModifier e) \<longrightarrow> GeneratedStakeModifier d" by blast
      have "\<exists>k s e. walk_prev mem k q = Some s \<and> mem s = Some e \<and> GeneratedStakeModifier e"
        if "walk_prev mem k p = Some s" "mem s = Some e" "GeneratedStakeModifier e" for k s e
        using that False less.prems Some by (cases k) auto
      then show ?thesis using False Some less.prems r by (subst last_modifier_walk.simps) auto
    qed
  qed
qed

lemma candidates_walk_returns:
  assumes "wf_index mem" "wf_hashes mem mapBlockIndex" "mem p = Some b"
  shows "\<exists>xs. candidates_walk mem (Some p) start = Some xs \<and> distinct (map snd xs) \<and>
    (\<forall>h \<in> set (map snd xs). \<exists>q c. mapBlockIndex h = Some q \<and> mem q = Some c \<and> bi_phashBlock c = Some h \<and> bi_nHeight c \<le> bi_nHeight b)"
  using assms(3)
proof (induction "nat (bi_nHeight b)" arbitrary: p b rule: less_induct)
  case less
  obtain h where h: "bi_phashBlock b = Some h" "mapBlockIndex h = Some p" using assms(2) less.prems by (auto simp: wf_hashes_def)
  show ?case
  proof (cases "GetBlockTime b \<ge> start")
    case False
    then show ?thesis using less.prems by (subst candidates_walk.simps) simp
  next
    case True
    show ?thesis
    proof (cases "bi_pprev b")
      case None
      have "candidates_walk mem None start = Some []" by (subst candidates_walk.simps) simp
      then show ?thesis using True None less.prems h by (subst candidates_walk.simps) simp
    next
      case (Some q)
      obtain c where c: "mem q = Some c" "bi_nHeight b = bi_nHeight c + 1" "nat (bi_nHeight c) < nat (bi_nHeight b)"
        by (rule prev_entry [OF assms(1) less.prems Some])
      from less.hyps [OF c(3,1)] obtain xs where xs: "candidates_walk mem (Some q) start = Some xs" "distinct (map snd xs)"
        "\<forall>h \<in> set (map snd xs). \<exists>q d. mapBlockIndex h = Some q \<and> mem q = Some d \<and> bi_phashBlock d = Some h \<and> bi_nHeight d \<le> bi_nHeight c"
        by blast
      have "h \<notin> set (map snd xs)" using xs(3) h(2) less.prems c(2) by fastforce
      moreover have "candidates_walk mem (Some p) start = Some ((GetBlockTime b, h) # xs)"
        using True Some less.prems h(1) xs(1) by (subst candidates_walk.simps) simp
      ultimately show ?thesis using xs(2,3) h less.prems c(2) by fastforce
    qed
  qed
qed

lemma select_loop_returns:
  assumes "\<forall>x \<in> set items. indexed mem mapBlockIndex (snd x)"
  shows "\<exists>best'. select_loop ps mem mapBlockIndex selected stop nPrev items v2 best = Some (Inr best') \<and>
    (best = None \<and> (\<forall>x \<in> set items. snd x \<in> set selected) \<and> best' = None \<or>
     (\<exists>s p. best' = Some (s, p) \<and> (best = Some (s, p) \<or> (\<exists>h b. h \<in> snd ` set items - set selected \<and> mapBlockIndex h = Some p \<and>
        mem p = Some b \<and> bi_phashBlock b = Some h))))"
  using assms
proof (induction items arbitrary: v2 best)
  case Nil
  then show ?case by (cases best) auto
next
  case (Cons x items)
  obtain p b where p: "mapBlockIndex (snd x) = Some p" "mem p = Some b" "bi_phashBlock b = Some (snd x)"
    using Cons.prems by (auto simp: indexed_def)
  have items: "\<forall>x \<in> set items. indexed mem mapBlockIndex (snd x)" using Cons.prems by simp
  show ?case
  proof (cases "best \<noteq> None \<and> GetBlockTime b > stop")
    case True
    then show ?thesis using p by auto
  next
    case False
    let ?f = "case v2 of None \<Rightarrow> bi_nHeight b \<ge> cp_nModifierUpdateBlock ps | Some f \<Rightarrow> f"
    let ?v2 = "Some ?f" and ?s = "selection_hash ?f b (snd x) nPrev"
    let ?best = "if snd x \<in> set selected then best else case best of None \<Rightarrow> Some (?s, p)
      | Some (hashBest, q) \<Rightarrow> if ?s < hashBest then Some (?s, p) else best"
    have step: "select_loop ps mem mapBlockIndex selected stop nPrev (x # items) v2 best =
        select_loop ps mem mapBlockIndex selected stop nPrev items ?v2 ?best"
      using False p by (auto simp: Let_def)
    from Cons.IH [OF items, of ?v2 ?best] obtain best' where
      b': "select_loop ps mem mapBlockIndex selected stop nPrev items ?v2 ?best = Some (Inr best')"
      "?best = None \<and> (\<forall>x \<in> set items. snd x \<in> set selected) \<and> best' = None \<or>
       (\<exists>s p. best' = Some (s, p) \<and> (?best = Some (s, p) \<or> (\<exists>h b. h \<in> snd ` set items - set selected \<and> mapBlockIndex h = Some p \<and>
          mem p = Some b \<and> bi_phashBlock b = Some h)))" by blast
    have new: "?best = best \<or> ?best = Some (?s, p) \<and> snd x \<notin> set selected" by (auto split: option.splits)
    have none: "?best = None \<longleftrightarrow> best = None \<and> snd x \<in> set selected" by (auto split: option.splits)
    show ?thesis
      unfolding step b'(1) using b'(2) new none p by (auto simp del: select_loop.simps)
  qed
qed

lemma SelectBlock_new:
  assumes "\<forall>x \<in> set items. indexed mem mapBlockIndex (snd x)" "\<not> snd ` set items \<subseteq> set selected"
  shows "\<exists>p b h. SelectBlockFromCandidates ps mem mapBlockIndex items selected stop nPrev = Some (Some p) \<and> mem p = Some b \<and>
    bi_phashBlock b = Some h \<and> h \<in> snd ` set items - set selected"
proof -
  obtain best' where b: "select_loop ps mem mapBlockIndex selected stop nPrev items None None = Some (Inr best')"
    "(\<forall>x \<in> set items. snd x \<in> set selected) \<and> best' = None \<or>
     (\<exists>s p. best' = Some (s, p) \<and> (\<exists>h b. h \<in> snd ` set items - set selected \<and> mapBlockIndex h = Some p \<and>
        mem p = Some b \<and> bi_phashBlock b = Some h))"
    using select_loop_returns [OF assms(1), of ps selected stop nPrev None None] by (elim exE conjE) (rule that, assumption, blast)
  then show ?thesis using assms(2) by (auto simp: SelectBlockFromCandidates_def)
qed

lemma section_returns: "n < 64 \<Longrightarrow> \<exists>a. GetStakeModifierSelectionIntervalSection fTestNet (int n) = Some a"
  by (simp add: GetStakeModifierSelectionIntervalSection_def)

lemma interval_value: "GetStakeModifierSelectionInterval fTestNet = Some 2087"
  by (cases fTestNet) (simp, code_simp)+

text \<open>The low bit of the hash of the block chosen in a round becomes the bit of that round.\<close>

lemma modifier_rounds_returns:
  assumes items: "\<forall>x \<in> set items. indexed mem mapBlockIndex (snd x)"
  shows "\<lbrakk>\<forall>n \<in> set rounds. n < 64; distinct rounds; distinct selected; set selected \<subseteq> snd ` set items;
      length selected + length rounds \<le> card (snd ` set items)\<rbrakk> \<Longrightarrow>
    \<exists>m hs. modifier_rounds fTestNet ps mem mapBlockIndex items nPrev rounds selected stop nNew = Some (Inr m) \<and>
      length hs = length rounds \<and> distinct hs \<and> set hs \<subseteq> snd ` set items - set selected \<and>
      (\<forall>i. bit m i \<longleftrightarrow> bit nNew i \<or> (\<exists>j < length rounds. rounds ! j = i \<and> bit (hs ! j) 0))"
proof (induction rounds arbitrary: selected stop nNew)
  case Nil
  show ?case by (rule exI [of _ nNew], rule exI [of _ "[]"]) simp
next
  case (Cons n rounds)
  obtain a where a: "GetStakeModifierSelectionIntervalSection fTestNet (int n) = Some a"
    using section_returns [of n fTestNet] Cons.prems(1) by auto
  have "length selected < card (snd ` set items)" using Cons.prems(5) by simp
  then have "\<not> snd ` set items \<subseteq> set selected"
    using card_mono [of "set selected" "snd ` set items"] card_length [of selected] by (auto simp: not_le)
  from SelectBlock_new [OF items this, of ps "stop + a" nPrev] obtain p b h where
    s: "SelectBlockFromCandidates ps mem mapBlockIndex items selected (stop + a) nPrev = Some (Some p)" "mem p = Some b"
    "bi_phashBlock b = Some h" "h \<in> snd ` set items - set selected" by blast
  let ?new = "nNew OR push_bit n (ucast (ucast h AND 1 :: u32)) :: u64"
  have step: "modifier_rounds fTestNet ps mem mapBlockIndex items nPrev (n # rounds) selected stop nNew =
      modifier_rounds fTestNet ps mem mapBlockIndex items nPrev rounds (h # selected) (stop + a) ?new"
    using a s(1-3) by (simp add: GetStakeEntropyBit_def Let_def)
  have bits: "bit ?new i \<longleftrightarrow> bit nNew i \<or> i = n \<and> bit h 0" for i
    using Cons.prems(1) by (auto simp: bit_or_iff bit_push_bit_iff bit_and_iff bit_1_iff bit_ucast_iff)
  have "\<forall>n \<in> set rounds. n < 64" "distinct rounds" "distinct (h # selected)" "set (h # selected) \<subseteq> snd ` set items"
    "length (h # selected) + length rounds \<le> card (snd ` set items)" using Cons.prems s(4) by auto
  from Cons.IH [OF this, of "stop + a" ?new] obtain m hs where m:
    "modifier_rounds fTestNet ps mem mapBlockIndex items nPrev rounds (h # selected) (stop + a) ?new = Some (Inr m)"
    "length hs = length rounds" "distinct hs" "set hs \<subseteq> snd ` set items - set (h # selected)"
    "\<forall>i. bit m i \<longleftrightarrow> bit ?new i \<or> (\<exists>j < length rounds. rounds ! j = i \<and> bit (hs ! j) 0)" by blast
  have "bit m i \<longleftrightarrow> bit nNew i \<or> (\<exists>j < length (n # rounds). (n # rounds) ! j = i \<and> bit ((h # hs) ! j) 0)" for i
    unfolding m(5) [rule_format] bits by (auto simp: Ex_less_Suc2)
  then show ?case
    unfolding step m(1) using m(2-4) s(4) by (intro exI [of _ m] exI [of _ "h # hs"]) auto
qed

lemma next_modifier_returns:
  assumes wf: "wf_index mem" "wf_hashes mem mapBlockIndex" and p: "mem p = Some b" "bi_nHeight b \<noteq> 0"
    and gen: "walk_prev mem k p = Some r" "mem r = Some d" "GeneratedStakeModifier d"
  shows "\<exists>m g. ComputeNextStakeModifier fTestNet literal ps mem mapBlockIndex (Some p) = Some (True, m, g) \<and>
    (if g then \<exists>hs. distinct hs \<and> length hs \<le> 64 \<and> (\<forall>h \<in> set hs. indexed mem mapBlockIndex h) \<and>
                 (\<forall>i. bit m i \<longleftrightarrow> i < length hs \<and> bit (hs ! i) 0)
     else \<exists>q c. last_modifier_walk mem p = Some q \<and> mem q = Some c \<and> GeneratedStakeModifier c \<and> m = bi_nStakeModifier c)"
proof -
  obtain q c where q: "last_modifier_walk mem p = Some q" "mem q = Some c" "GeneratedStakeModifier c"
    using last_modifier_walk_returns [OF wf(1) p(1)] gen by blast
  have last: "GetLastStakeModifier mem (Some p) = Some (Some (bi_nStakeModifier c, GetBlockTime c))"
    using q by (simp add: GetLastStakeModifier_def)
  show ?thesis
  proof (cases "GetBlockTime c div getIntervalVersion fTestNet \<ge> GetBlockTime b div getIntervalVersion fTestNet")
    case True
    then have "ComputeNextStakeModifier fTestNet literal ps mem mapBlockIndex (Some p) = Some (True, bi_nStakeModifier c, False)"
      using p last by (simp add: ComputeNextStakeModifier_def)
    then show ?thesis using q by auto
  next
    case False
    let ?start = "GetBlockTime b div getIntervalVersion fTestNet * getIntervalVersion fTestNet - 2087"
    from candidates_walk_returns [OF wf p(1), of ?start] obtain xs where xs: "candidates_walk mem (Some p) ?start = Some xs"
      "distinct (map snd xs)" and ix: "\<forall>h \<in> set (map snd xs). \<exists>q c. mapBlockIndex h = Some q \<and> mem q = Some c \<and>
        bi_phashBlock c = Some h \<and> bi_nHeight c \<le> bi_nHeight b" by (elim exE conjE)
    define v n where "v = sort (rev xs)" and "n = min 64 (length v)"
    have v: "set v = set xs" "length v = length xs" by (simp_all add: v_def)
    have "card (snd ` set v) = length v" using distinct_card [OF xs(2)] v by simp
    then have room: "length [] + length [0..<n] \<le> card (snd ` set v)" by (simp add: n_def)
    have items: "\<forall>x \<in> set v. indexed mem mapBlockIndex (snd x)" using ix v(1) unfolding indexed_def by fastforce
    have rounds: "\<forall>i \<in> set [0..<n]. i < 64" by (simp add: n_def)
    from modifier_rounds_returns [OF items rounds distinct_upt _ _ room, of fTestNet ps "bi_nStakeModifier c" ?start 0]
    obtain m hs where
      m: "modifier_rounds fTestNet ps mem mapBlockIndex v (bi_nStakeModifier c) [0..<n] [] ?start 0 = Some (Inr m)"
      "length hs = n" "distinct hs" "set hs \<subseteq> snd ` set v"
      and bits: "\<forall>i. bit m i \<longleftrightarrow> bit (0 :: u64) i \<or> (\<exists>j < length [0..<n]. [0..<n] ! j = i \<and> bit (hs ! j) 0)" by auto
    have "bit m i \<longleftrightarrow> i < length hs \<and> bit (hs ! i) 0" for i unfolding bits [rule_format] m(2) by auto
    moreover have "\<forall>h \<in> set hs. indexed mem mapBlockIndex h" using m(4) items by auto
    moreover have "ComputeNextStakeModifier fTestNet literal ps mem mapBlockIndex (Some p) = Some (True, m, True)"
      using False p last xs(1) m(1) unfolding n_def v_def
      by (simp only: ComputeNextStakeModifier_def option.case Option.bind.simps if_False interval_value Let_def prod.case sum.case)
    moreover have "n \<le> 64" by (simp add: n_def)
    ultimately show ?thesis using m(2,3) by (intro exI [of _ m] exI [of _ True] conjI) auto
  qed
qed

text \<open>C17. The next stake modifier can always be computed: on a well-formed index in which some block up to the previous one has
  generated a modifier, \<open>ComputeNextStakeModifier\<close> returns and succeeds, its rounds never run out of candidates. It returns the last
  modifier, or a new one made of the low bits of the hashes of distinct blocks, one per round and at most 64, and zeros
  above.\<close>

theorem ComputeNextStakeModifier_returns:
  assumes wf: "wf_index mem" "wf_hashes mem mapBlockIndex" and p: "mem p = Some b" "bi_nHeight b \<noteq> 0"
    and gen: "walk_prev mem k p = Some r" "mem r = Some d" "GeneratedStakeModifier d"
  shows "\<exists>m g. ComputeNextStakeModifier fTestNet literal ps mem mapBlockIndex (Some p) = Some (True, m, g) \<and>
    (if g then \<exists>hs. distinct hs \<and> length hs \<le> 64 \<and> (\<forall>h \<in> set hs. indexed mem mapBlockIndex h) \<and>
                 (\<forall>i. bit m i \<longleftrightarrow> i < length hs \<and> bit (hs ! i) 0)
     else \<exists>q c. last_modifier_walk mem p = Some q \<and> mem q = Some c \<and> GeneratedStakeModifier c \<and> m = bi_nStakeModifier c)"
  by (rule next_modifier_returns [OF assms])

text \<open>A chain of two blocks, the first of which has a modifier.\<close>

definition example_kernel :: block_store where
  "example_kernel =
     [0 \<mapsto> CBlockIndex_null\<lparr>bi_phashBlock := Some 10, bi_nFlags := BLOCK_STAKE_MODIFIER, bi_nStakeModifier := 5\<rparr>,
      1 \<mapsto> CBlockIndex_null\<lparr>bi_phashBlock := Some 11, bi_pprev := Some 0, bi_pskip := Some 0, bi_nHeight := 1, bi_nTime := 6000\<rparr>]"

lemma example_kernel_wf: "wf_index example_kernel" "wf_hashes example_kernel [10 \<mapsto> 0, 11 \<mapsto> 1]"
  unfolding wf_index_def wf_hashes_def
  by (auto simp: example_kernel_def CBlockIndex_null_def GetSkipHeight_def split: if_splits)

theorem ComputeNextStakeModifier_returns_witness:
  "\<exists>m g. ComputeNextStakeModifier False 0 mainParams example_kernel [10 \<mapsto> 0, 11 \<mapsto> 1] (Some 1) = Some (True, m, g)"
proof -
  let ?b = "CBlockIndex_null\<lparr>bi_phashBlock := Some 11, bi_pprev := Some 0, bi_pskip := Some 0, bi_nHeight := 1, bi_nTime := 6000\<rparr>"
  let ?d = "CBlockIndex_null\<lparr>bi_phashBlock := Some 10, bi_nFlags := BLOCK_STAKE_MODIFIER, bi_nStakeModifier := 5\<rparr>"
  have "example_kernel 1 = Some ?b" "example_kernel 0 = Some ?d" "walk_prev example_kernel 1 1 = Some 0"
    by (simp_all add: example_kernel_def)
  moreover have "GeneratedStakeModifier ?d" by (simp add: GeneratedStakeModifier_def)
  ultimately show ?thesis
    using ComputeNextStakeModifier_returns [OF example_kernel_wf, of 1 ?b 1 0 ?d False 0 mainParams] by auto
qed

section \<open>Searching and checking kernels\<close>

lemma drift_loop_spec:
  assumes "drift_loop hash hit t d is h0 = (ok, t', h')"
  shows "(ok \<longleftrightarrow> (\<exists>i \<in> set is. hit (hash (t + d - of_nat i)))) \<and>
    (ok \<longrightarrow> h' = hash t' \<and> hit h' \<and> (\<exists>i \<in> set is. t' = t + d - of_nat i))"
  using assms by (induction "is" arbitrary: h0) (auto simp: Let_def split: if_splits)

lemma drift_times:
  fixes t d :: u32
  assumes "unat t + unat d < 2 ^ 32"
  shows "(\<exists>i \<in> set [0..<unat d]. t' = t + d - of_nat i) \<longleftrightarrow> t < t' \<and> t' \<le> t + d"
proof -
  have sum: "unat (t + d) = unat t + unat d" using assms by (simp add: unat_word_ariths)
  have sub: "unat (t + d - of_nat i) = unat t + unat d - i" if "i < unat d" for i
    using that assms sum unat_sub [of "of_nat i" "t + d"] by (simp add: word_le_nat_alt unat_of_nat)
  show ?thesis
  proof
    assume "\<exists>i \<in> set [0..<unat d]. t' = t + d - of_nat i"
    then obtain i where "i < unat d" "t' = t + d - of_nat i" by auto
    then show "t < t' \<and> t' \<le> t + d" using sub sum by (simp add: word_less_nat_alt word_le_nat_alt)
  next
    assume t': "t < t' \<and> t' \<le> t + d"
    let ?i = "unat t + unat d - unat t'"
    have i: "?i < unat d" "unat t' \<le> unat t + unat d" using t' sum by (auto simp: word_less_nat_alt word_le_nat_alt)
    then have "unat (t + d - of_nat ?i) = unat t'" using sub [OF i(1)] by simp
    then have "t' = t + d - of_nat ?i" by (simp only: word_unat_eq_iff)
    then show "\<exists>i \<in> set [0..<unat d]. t' = t + d - of_nat i" using i(1) by (intro bexI [of _ ?i]) auto
  qed
qed

text \<open>C22. Staking finds exactly what validation accepts: when the coin is old enough and the kernel modifier can be found, the search of
  \<open>CheckStakeKernelHash\<close> over \<open>nHashDrift\<close> seconds succeeds exactly when some time after \<open>nTimeTx\<close> and up to the drift
  passes the check that validation makes, and the time and the hash it returns pass that check.\<close>

theorem kernel_search_matches_check:
  assumes prev: "unat (op_n prevout) < length (tx_vout txPrev)"
    and age: "unat (bh_nTime (blk_header blockFrom)) + 7200 \<le> unat nTimeTx" and drift: "unat nTimeTx + unat nHashDrift < 2 ^ 32"
    and modifier: "GetKernelStakeModifier fTestNet mem ix chain (GetHash (blk_header blockFrom)) = Some (Some m)"
    and tip: "deref mem (Tip chain) = Some tip"
  shows "let run = CheckStakeKernelHash fTestNet mem ix chain GetHash now nBits blockFrom txPrev prevout in
    \<exists>r. run nTimeTx nHashDrift False h0 mp = Some r \<and>
    (kr_ok r \<longleftrightarrow> (\<exists>t r'. nTimeTx < t \<and> t \<le> nTimeTx + nHashDrift \<and> run t 0 True 0 Map.empty = Some r' \<and> kr_ok r')) \<and>
    (kr_ok r \<longrightarrow> nTimeTx < kr_nTimeTx r \<and> kr_nTimeTx r \<le> nTimeTx + nHashDrift \<and>
       (\<exists>r'. run (kr_nTimeTx r) 0 True 0 Map.empty = Some r' \<and> kr_ok r' \<and> kr_hashProofOfStake r' = kr_hashProofOfStake r))"
proof -
  let ?run = "CheckStakeKernelHash fTestNet mem ix chain GetHash now nBits blockFrom txPrev prevout"
  let ?from = "bh_nTime (blk_header blockFrom)"
  obtain m0 mh mt where m: "m = (m0, mh, mt)" by (cases m)
  define hash where "hash = (\<lambda>t. stakeHash t (Serialize_uint 8 m0) (op_n prevout) (op_hash prevout) ?from)"
  define hit where "hit = (\<lambda>h. stakeTargetHit h (to_nValue (tx_vout txPrev ! unat (op_n prevout))) (fst (SetCompact nBits)))"
  have "unat (?from + nStakeMinAge) = unat ?from + 7200" using age drift by (simp add: unat_word_ariths)
  then have old: "\<not> t < ?from" "\<not> ?from + nStakeMinAge > t" if "nTimeTx \<le> t" for t
    using age that by (simp_all add: word_less_nat_alt word_le_nat_alt)
  have check: "?run t 0 True 0 Map.empty = Some \<lparr>kr_ok = hit (hash t), kr_nTimeTx = t, kr_hashProofOfStake = hash t,
      kr_mapHashedBlocks = Map.empty\<rparr>" if "nTimeTx \<le> t" for t
    using old [OF that] prev modifier m by (simp add: CheckStakeKernelHash_def Let_def hash_def hit_def)
  obtain ok t' h' where d: "drift_loop hash hit nTimeTx nHashDrift [0..<unat nHashDrift] h0 = (ok, t', h')"
    by (metis prod_cases3)
  have search: "?run nTimeTx nHashDrift False h0 mp =
      Some \<lparr>kr_ok = ok, kr_nTimeTx = t', kr_hashProofOfStake = h', kr_mapHashedBlocks = [bi_nHeight tip \<mapsto> now]\<rparr>"
    using old [OF order_refl] prev modifier tip d m by (simp add: CheckStakeKernelHash_def Let_def hash_def hit_def)
  note spec = drift_loop_spec [OF d] and times = drift_times [OF drift]
  have found: "ok \<longrightarrow> nTimeTx < t' \<and> t' \<le> nTimeTx + nHashDrift \<and> h' = hash t' \<and> hit h'"
    using conjunct2 [OF spec] unfolding times by blast
  have c: "(\<exists>r'. ?run t 0 True 0 Map.empty = Some r' \<and> kr_ok r') \<longleftrightarrow> hit (hash t)" if "nTimeTx < t" for t
    unfolding check [OF less_imp_le [OF that]] by simp
  have "ok \<longleftrightarrow> (\<exists>t. nTimeTx < t \<and> t \<le> nTimeTx + nHashDrift \<and> hit (hash t))"
    unfolding conj_assoc [symmetric] times [symmetric] using conjunct1 [OF spec] by auto
  also have "\<dots> \<longleftrightarrow> (\<exists>t. nTimeTx < t \<and> t \<le> nTimeTx + nHashDrift \<and> (\<exists>r'. ?run t 0 True 0 Map.empty = Some r' \<and> kr_ok r'))"
    by (simp only: c cong: conj_cong)
  finally have iff: "ok \<longleftrightarrow> (\<exists>t r'. nTimeTx < t \<and> t \<le> nTimeTx + nHashDrift \<and> ?run t 0 True 0 Map.empty = Some r' \<and> kr_ok r')"
    by (simp only: ex_simps)
  let ?r = "\<lparr>kr_ok = ok, kr_nTimeTx = t', kr_hashProofOfStake = h', kr_mapHashedBlocks = [bi_nHeight tip \<mapsto> now]\<rparr>"
  have again: "\<exists>r'. ?run t' 0 True 0 Map.empty = Some r' \<and> kr_ok r' \<and> kr_hashProofOfStake r' = h'" if ok
    using found that check [of t'] by (auto simp: less_imp_le)
  show ?thesis unfolding Let_def search
  proof (rule exI [of _ ?r], intro conjI refl impI)
    show "kr_ok ?r \<longleftrightarrow> (\<exists>t r'. nTimeTx < t \<and> t \<le> nTimeTx + nHashDrift \<and> ?run t 0 True 0 Map.empty = Some r' \<and> kr_ok r')"
      unfolding iff [symmetric] by simp
  qed (use found again in auto)
qed

lemma stakeTargetHit_iff:
  assumes "0 \<le> v" "v < 2 ^ 63"
  shows "stakeTargetHit h v t \<longleftrightarrow> uint h < (v div 100 * uint t) mod 2 ^ 256"
proof -
  have "uint (ucast (word_of_int v :: u64) :: uint256) = v"
    using assms by (simp add: unsigned_ucast_eq uint_word_of_int_eq take_bit_int_eq_self)
  then have "uint (ucast (word_of_int v :: u64) div (100 :: uint256)) = v div 100" by (simp add: uint_div)
  then show ?thesis by (simp add: stakeTargetHit_def Let_def word_less_def uint_word_ariths)
qed

text \<open>C25. The target of a kernel: the weight of an amount is a hundredth of it, rounded down, and the kernel hits when its hash is
  below the weight times the target, but modulo \<open>2 ^ 256\<close>. While the product fits, hitting is exact, and more coins never hurt; at the
  target \<open>2 ^ 231\<close>, below the limit of the proof-of-stake phase, an amount of 33.554432 coins has the product 0 and can never
  hit, though one hundredth of a millionth of a coin less hits with every hash below \<open>2 ^ 256 - 2 ^ 231\<close>.\<close>

theorem stake_target_weight:
  assumes "0 \<le> v" "v < 2 ^ 63"
  shows "(stakeTargetHit h v t \<longleftrightarrow> uint h < (v div 100 * uint t) mod 2 ^ 256) \<and>
    (v \<le> v' \<and> v' < 2 ^ 63 \<and> v' div 100 * uint t < 2 ^ 256 \<and> stakeTargetHit h v t \<longrightarrow> stakeTargetHit h v' t) \<and>
    \<not> stakeTargetHit h 3355443200 (push_bit 231 1) \<and>
    (stakeTargetHit h 3355443199 (push_bit 231 1) \<longleftrightarrow> h < - push_bit 231 1)"
proof -
  have p: "uint (push_bit 231 1 :: uint256) = 2 ^ 231" by (simp add: push_bit_eq_mult uint_word_ariths)
  have "uint (- push_bit 231 1 :: uint256) = 2 ^ 256 - 2 ^ 231" unfolding uint_word_ariths p by simp
  then have "stakeTargetHit h 3355443199 (push_bit 231 1) \<longleftrightarrow> h < - push_bit 231 1"
    using stakeTargetHit_iff [of 3355443199 h "push_bit 231 1"] unfolding p word_less_def by simp
  moreover have "\<not> stakeTargetHit h 3355443200 (push_bit 231 1)"
    using stakeTargetHit_iff [of 3355443200 h "push_bit 231 1"] unfolding p by simp
  moreover have "stakeTargetHit h v' t" if v': "v \<le> v'" "v' < 2 ^ 63" "v' div 100 * uint t < 2 ^ 256" "stakeTargetHit h v t" for v'
  proof -
    have "v div 100 * uint t \<le> v' div 100 * uint t" using v'(1) by (intro mult_right_mono zdiv_mono1) simp_all
    moreover have "0 \<le> v div 100 * uint t" using assms(1) by simp
    ultimately show ?thesis
      using v' assms stakeTargetHit_iff [OF assms] stakeTargetHit_iff [of v' h t] by (simp add: mod_pos_pos_trivial)
  qed
  ultimately show ?thesis using stakeTargetHit_iff [OF assms] by blast
qed

definition example_staking :: block_store where
  "example_staking = example_kernel(1 \<mapsto> CBlockIndex_null\<lparr>bi_phashBlock := Some 11, bi_pprev := Some 0, bi_nHeight := 1, bi_nTime := 6000,
     bi_nFlags := BLOCK_STAKE_MODIFIER, bi_nStakeModifier := 7\<rparr>)"

definition example_from :: CBlock where
  "example_from = \<lparr>blk_header = \<lparr>bh_nVersion = 3, bh_hashPrevBlock = 0, bh_hashMerkleRoot = 0, bh_nTime = 0, bh_nBits = 0x1d00ffff, bh_nNonce = 0\<rparr>,
     blk_vtx = [], blk_vchBlockSig = []\<rparr>"

lemma example_modifier:
  "GetKernelStakeModifier False example_staking [10 \<mapsto> 0, 11 \<mapsto> 1] [Some 0, Some 1] 10 = Some (Some (7, 1, 6000))"
proof -
  let ?walk = "kernel_walk example_staking [Some 0, Some 1] 2087"
  have "?walk 1 (chain_at [Some 0, Some 1] 2) 1 6000 = Some (Some (1, 1, 6000))" by (subst kernel_walk.simps) simp
  then have "?walk 0 (Some 1) 0 0 = Some (Some (1, 1, 6000))"
    by (subst kernel_walk.simps) (simp add: example_staking_def GeneratedStakeModifier_def GetBlockTime_def)
  then show ?thesis
    by (simp add: GetKernelStakeModifier_def interval_value chain_at_def)
       (simp add: example_staking_def example_kernel_def GetBlockTime_def CBlockIndex_null_def)
qed

theorem kernel_search_matches_check_witness:
  "\<exists>r. CheckStakeKernelHash False example_staking [10 \<mapsto> 0, 11 \<mapsto> 1] [Some 0, Some 1] (\<lambda>_. 10) 99 0x1d00ffff example_from example_tx
     \<lparr>op_hash = 5, op_n = 0\<rparr> 8000 60 False 0 Map.empty = Some r \<and>
     (kr_ok r \<longrightarrow> 8000 < kr_nTimeTx r \<and> kr_nTimeTx r \<le> 8060)"
proof -
  have "\<exists>tip. deref example_staking (Tip [Some 0, Some 1]) = Some tip" by (simp add: deref_def Tip_def example_staking_def)
  then obtain tip where tip: "deref example_staking (Tip [Some 0, Some 1]) = Some tip" by blast
  have "unat (op_n \<lparr>op_hash = 5, op_n = 0\<rparr>) < length (tx_vout example_tx)" by (simp add: example_tx_def)
  moreover have "unat (bh_nTime (blk_header example_from)) + 7200 \<le> unat (8000 :: u32)" by (simp add: example_from_def)
  moreover have "unat (8000 :: u32) + unat (60 :: u32) < 2 ^ 32" by simp
  ultimately show ?thesis
    using kernel_search_matches_check [OF _ _ _ example_modifier tip, of "\<lparr>op_hash = 5, op_n = 0\<rparr>" example_tx example_from 8000 60]
    unfolding Let_def by fastforce
qed

theorem stake_target_weight_witness: "\<not> stakeTargetHit 0 3355443200 (push_bit 231 1)"
  using stake_target_weight [of 0 0 0 0] by simp

section \<open>Two observations\<close>

text \<open>
  Below the upgrade height the selection hash of a proof-of-stake block does not depend on the block: all of them
  tie, and the first candidate in time order is chosen.
\<close>

theorem selection_hash_constant:
  "BI_IsProofOfStake b \<Longrightarrow> BI_IsProofOfStake b' \<Longrightarrow> selection_hash False b h n = selection_hash False b' h' n"
  by (simp add: selection_hash_def)

text \<open>The output a coinstake names is read from its transaction without a check that there is one.\<close>

theorem CheckProofOfStake_bad_index:
  assumes "length (blk_vtx block) > 1" "IsCoinStake (blk_vtx block ! 1)"
    and "GetTransaction (op_hash (ti_prevout (tx_vin (blk_vtx block ! 1) ! 0))) = Some (txPrev, hashBlock)"
    and "length (tx_vout txPrev) \<le> unat (op_n (ti_prevout (tx_vin (blk_vtx block ! 1) ! 0)))"
  shows "CheckProofOfStake fTestNet mem ix chain GetHash checker GetTransaction ReadBlockFromDisk block h = None"
  using assms by (simp add: CheckProofOfStake_def Let_def)

end
