(* ===== verification/BlockTree.thy ===== *)
theory BlockTree
  imports BlockChecks Kernel
begin

text \<open>
  The tree of block headers and the choice of the chain to follow, \<open>src/main.cpp\<close>: the order on candidates, adding a
  header, linking a block whose data has arrived, the search for the chain with the most work, and the reversal of
  an invalidation. \<open>setBlockIndexCandidates\<close>, a \<open>std::set\<close>, is the list of its elements in the order of its comparator;
  \<open>mapBlocksUnlinked\<close>, a \<open>std::multimap\<close>, is the list of its pairs, oldest first. \<open>None\<close> as a result is a
  read through a null or dangling pointer, a failed assertion or a loop that does not end.
\<close>

section \<open>Ordered sets\<close>

text \<open>A \<open>std::set\<close> with comparator \<open>before\<close>: elements that are not ordered either way are the same element.\<close>

fun oset_insert :: "('a \<Rightarrow> 'a \<Rightarrow> bool) \<Rightarrow> 'a \<Rightarrow> 'a list \<Rightarrow> 'a list" where
  "oset_insert before x [] = [x]"
| "oset_insert before x (y # ys) = (if before x y then x # y # ys else if before y x then y # oset_insert before x ys else y # ys)"

fun oset_erase :: "('a \<Rightarrow> 'a \<Rightarrow> bool) \<Rightarrow> 'a \<Rightarrow> 'a list \<Rightarrow> 'a list" where
  "oset_erase before x [] = []"
| "oset_erase before x (y # ys) = (if before x y then y # ys else if before y x then y # oset_erase before x ys else ys)"

definition is_oset :: "('a \<Rightarrow> 'a \<Rightarrow> bool) \<Rightarrow> 'a set \<Rightarrow> 'a list \<Rightarrow> bool" where
  "is_oset before elems xs \<longleftrightarrow> sorted_wrt before xs \<and> set xs \<subseteq> elems"

text \<open>The contract of a comparator: a strict total order on the elements that are ever put in the set.\<close>

locale set_comparator =
  fixes before :: "'a \<Rightarrow> 'a \<Rightarrow> bool" and elems :: "'a set"
  assumes irrefl: "\<not> before x x"
    and trans: "before x y \<Longrightarrow> before y z \<Longrightarrow> before x z"
    and total: "x \<in> elems \<Longrightarrow> y \<in> elems \<Longrightarrow> x \<noteq> y \<Longrightarrow> before x y \<or> before y x"
begin

lemma asym: "before x y \<Longrightarrow> \<not> before y x"
  using trans irrefl by blast

lemma insert_set: "is_oset before elems xs \<Longrightarrow> x \<in> elems \<Longrightarrow> set (oset_insert before x xs) = insert x (set xs)"
proof (induction xs)
  case (Cons y ys)
  then show ?case using total [of x y] by (auto simp: is_oset_def)
qed simp

lemma insert_oset: "is_oset before elems xs \<Longrightarrow> x \<in> elems \<Longrightarrow> is_oset before elems (oset_insert before x xs)"
proof (induction xs)
  case (Cons y ys)
  then have "is_oset before elems ys" by (simp add: is_oset_def)
  then show ?case using Cons insert_set [of ys x] trans by (auto simp: is_oset_def)
qed (simp add: is_oset_def)

lemma erase_filter: "is_oset before elems xs \<Longrightarrow> x \<in> elems \<Longrightarrow> oset_erase before x xs = filter (\<lambda>y. y \<noteq> x) xs"
proof (induction xs)
  case (Cons y ys)
  consider "before x y" | "before y x" | "y = x" using Cons.prems total [of x y] by (auto simp: is_oset_def)
  then show ?case
  proof cases
    case 1
    then have "\<forall>z \<in> set (y # ys). before x z" using Cons.prems trans [of x y] by (auto simp: is_oset_def)
    then have "\<forall>z \<in> set (y # ys). z \<noteq> x" using irrefl by blast
    then have "filter (\<lambda>z. z \<noteq> x) (y # ys) = y # ys" by (auto simp: filter_id_conv)
    then show ?thesis using 1 by simp
  next
    case 2
    then show ?thesis using Cons irrefl asym [of y x] by (auto simp: is_oset_def)
  next
    case 3
    then have "\<forall>z \<in> set ys. z \<noteq> x" using Cons.prems irrefl by (auto simp: is_oset_def)
    then have "filter (\<lambda>z. z \<noteq> x) ys = ys" by (auto simp: filter_id_conv)
    then show ?thesis using 3 irrefl by simp
  qed
qed simp

lemma erase_oset: "is_oset before elems xs \<Longrightarrow> x \<in> elems \<Longrightarrow> is_oset before elems (oset_erase before x xs)"
  by (simp add: erase_filter) (auto simp: is_oset_def sorted_wrt_filter)

lemma last_max: "is_oset before elems xs \<Longrightarrow> y \<in> set xs \<Longrightarrow> y = last xs \<or> before y (last xs)"
  by (cases xs rule: rev_cases) (auto simp: is_oset_def sorted_wrt_append)

lemma dropWhile_filter: "is_oset before elems xs \<Longrightarrow> dropWhile (\<lambda>x. before x y) xs = filter (\<lambda>x. \<not> before x y) xs"
proof (induction xs)
  case (Cons x xs)
  have "filter (\<lambda>z. \<not> before z y) xs = xs" if "\<not> before x y"
    using that Cons.prems trans by (auto simp: is_oset_def filter_id_conv)
  then show ?case using Cons by (auto simp: is_oset_def)
qed simp

end

section \<open>State\<close>

definition CBlockIndexWorkComparator :: "block_store \<Rightarrow> nat \<Rightarrow> nat \<Rightarrow> bool" where
  "CBlockIndexWorkComparator mem pa pb =
     (case (mem pa, mem pb) of
        (Some a, Some b) \<Rightarrow>
          if bi_nChainWork a > bi_nChainWork b then False
          else if bi_nChainWork a < bi_nChainWork b then True
          else if bi_nSequenceId a < bi_nSequenceId b then False
          else if bi_nSequenceId a > bi_nSequenceId b then True
          else if pa < pb then False
          else if pa > pb then True
          else False
      | _ \<Rightarrow> False)"

lemma CBlockIndexWorkComparator_iff:
  "CBlockIndexWorkComparator mem p q \<longleftrightarrow> (\<exists>a b. mem p = Some a \<and> mem q = Some b \<and>
     (bi_nChainWork a < bi_nChainWork b \<or>
      bi_nChainWork a = bi_nChainWork b \<and>
      (bi_nSequenceId b < bi_nSequenceId a \<or> bi_nSequenceId a = bi_nSequenceId b \<and> q < p)))"
  by (cases "mem p"; cases "mem q") (auto simp: CBlockIndexWorkComparator_def)

lemma CBlockIndexWorkComparator_trans:
  assumes "CBlockIndexWorkComparator mem x y" "CBlockIndexWorkComparator mem y z" shows "CBlockIndexWorkComparator mem x z"
proof -
  obtain a b where ab: "mem x = Some a" "mem y = Some b" "bi_nChainWork a < bi_nChainWork b \<or>
      bi_nChainWork a = bi_nChainWork b \<and>
      (bi_nSequenceId b < bi_nSequenceId a \<or> bi_nSequenceId a = bi_nSequenceId b \<and> y < x)"
    using assms(1) unfolding CBlockIndexWorkComparator_iff by blast
  obtain c where c: "mem z = Some c" "bi_nChainWork b < bi_nChainWork c \<or>
      bi_nChainWork b = bi_nChainWork c \<and>
      (bi_nSequenceId c < bi_nSequenceId b \<or> bi_nSequenceId b = bi_nSequenceId c \<and> z < y)"
    using assms(2) ab(2) unfolding CBlockIndexWorkComparator_iff by auto
  have "bi_nChainWork a < bi_nChainWork c \<or> bi_nChainWork a = bi_nChainWork c \<and>
      (bi_nSequenceId c < bi_nSequenceId a \<or> bi_nSequenceId a = bi_nSequenceId c \<and> z < x)"
    using ab(3) c(2) by (elim disjE conjE) (simp_all, (metis less_trans)+)
  then show ?thesis unfolding CBlockIndexWorkComparator_iff using ab(1) c(1) by simp
qed

interpretation work: set_comparator "CBlockIndexWorkComparator mem" "dom mem" for mem
proof
  show "\<not> CBlockIndexWorkComparator mem x x" for x by (simp add: CBlockIndexWorkComparator_iff)
  show "CBlockIndexWorkComparator mem x y \<or> CBlockIndexWorkComparator mem y x"
    if "x \<in> dom mem" "y \<in> dom mem" "x \<noteq> y" for x y
    using that by (auto simp: CBlockIndexWorkComparator_iff not_less_iff_gr_or_eq)
qed (rule CBlockIndexWorkComparator_trans)

text \<open>The globals of \<open>main.cpp\<close> that describe the tree.\<close>

record block_tree =
  bt_mem :: block_store
  bt_mapBlockIndex :: "(uint256 \<times> nat) list"
  bt_chainActive :: CChain
  bt_setBlockIndexCandidates :: "nat list"
  bt_mapBlocksUnlinked :: "(nat option \<times> nat) list"
  bt_pindexBestInvalid :: "nat option"
  bt_pindexBestHeader :: "nat option"
  bt_setDirtyBlockIndex :: "nat set"
  bt_nBlockSequenceId :: u32
  bt_setStakeSeen :: "(COutPoint \<times> u32) set"
  bt_mapProofOfStake :: "uint256 \<rightharpoonup> uint256"

definition candidates_insert :: "nat \<Rightarrow> block_tree \<Rightarrow> block_tree" where
  "candidates_insert p t =
     t\<lparr>bt_setBlockIndexCandidates := oset_insert (CBlockIndexWorkComparator (bt_mem t)) p (bt_setBlockIndexCandidates t)\<rparr>"

definition candidates_erase :: "nat \<Rightarrow> block_tree \<Rightarrow> block_tree" where
  "candidates_erase p t =
     t\<lparr>bt_setBlockIndexCandidates := oset_erase (CBlockIndexWorkComparator (bt_mem t)) p (bt_setBlockIndexCandidates t)\<rparr>"

section \<open>The chain with the most work\<close>

definition failed :: "CBlockIndex \<Rightarrow> bool" where
  "failed b \<longleftrightarrow> bi_nStatus b AND BLOCK_FAILED_MASK \<noteq> 0"

definition missing_data :: "CBlockIndex \<Rightarrow> bool" where
  "missing_data b \<longleftrightarrow> \<not> (bi_nStatus b AND BLOCK_HAVE_DATA \<noteq> 0)"

text \<open>The walk of \<open>FindMostWorkChain\<close> from a candidate to the active chain: the first block that cannot be used.\<close>

partial_function (option) candidate_walk :: "block_store \<Rightarrow> CChain \<Rightarrow> nat option \<Rightarrow> nat option option" where
  "candidate_walk mem chainActive pindexTest =
     (case pindexTest of None \<Rightarrow> Some None
      | Some p \<Rightarrow> do {
          b \<leftarrow> mem p;
          c \<leftarrow> Contains mem chainActive p;
          if c then Some None
          else if \<not> (bi_nChainTx b \<noteq> 0 \<or> bi_nHeight b = 0) then None
          else if failed b \<or> missing_data b then Some (Some p)
          else candidate_walk mem chainActive (bi_pprev b) })"

text \<open>The removal of a chain of candidates that ends at \<open>pindexTest\<close>.\<close>

partial_function (option) drop_walk :: "bool \<Rightarrow> nat \<Rightarrow> nat option \<Rightarrow> block_tree \<Rightarrow> block_tree option" where
  "drop_walk fFailedChain pindexTest pindexFailed t =
     (if pindexFailed = Some pindexTest then Some t
      else do {
        p \<leftarrow> pindexFailed;
        b \<leftarrow> bt_mem t p;
        let t1 = (if fFailedChain
                  then t\<lparr>bt_mem := (bt_mem t)(p \<mapsto> b\<lparr>bi_nStatus := bi_nStatus b OR BLOCK_FAILED_CHILD\<rparr>)\<rparr>
                  else t\<lparr>bt_mapBlocksUnlinked := bt_mapBlocksUnlinked t @ [(bi_pprev b, p)]\<rparr>);
        drop_walk fFailedChain pindexTest (bi_pprev b) (candidates_erase p t1) })"

definition raise_best_invalid :: "nat \<Rightarrow> block_tree \<Rightarrow> block_tree option" where
  "raise_best_invalid pindexNew t =
     (case bt_pindexBestInvalid t of
        None \<Rightarrow> Some (t\<lparr>bt_pindexBestInvalid := Some pindexNew\<rparr>)
      | Some q \<Rightarrow> do {
          b \<leftarrow> bt_mem t pindexNew;
          c \<leftarrow> bt_mem t q;
          Some (if bi_nChainWork b > bi_nChainWork c then t\<lparr>bt_pindexBestInvalid := Some pindexNew\<rparr> else t) })"

partial_function (option) FindMostWorkChain :: "block_tree \<Rightarrow> (nat option \<times> block_tree) option" where
  "FindMostWorkChain t =
     (if bt_setBlockIndexCandidates t = [] then Some (None, t)
      else do {
        let pindexNew = last (bt_setBlockIndexCandidates t);
        stop \<leftarrow> candidate_walk (bt_mem t) (bt_chainActive t) (Some pindexNew);
        case stop of
          None \<Rightarrow> Some (Some pindexNew, t)
        | Some pindexTest \<Rightarrow> do {
            b \<leftarrow> bt_mem t pindexTest;
            t1 \<leftarrow> (if failed b then raise_best_invalid pindexNew t else Some t);
            t2 \<leftarrow> drop_walk (failed b) pindexTest (Some pindexNew) t1;
            FindMostWorkChain (candidates_erase pindexTest t2) } })"

definition PruneBlockIndexCandidates :: "block_tree \<Rightarrow> block_tree option" where
  "PruneBlockIndexCandidates t = do {
     rest \<leftarrow> (if bt_setBlockIndexCandidates t = [] then Some []
             else do {
               tip \<leftarrow> Tip (bt_chainActive t);
               Some (dropWhile (\<lambda>p. CBlockIndexWorkComparator (bt_mem t) p tip) (bt_setBlockIndexCandidates t)) });
     if rest = [] then None else Some (t\<lparr>bt_setBlockIndexCandidates := rest\<rparr>) }"

section \<open>The search for the chain with the most work\<close>

text \<open>\<open>usable\<close>: no block between the active chain and \<open>p\<close> is known to be invalid or without data. \<open>hopeless\<close>: one of
  them is known to be invalid.\<close>

definition off_chain :: "block_store \<Rightarrow> CChain \<Rightarrow> nat \<Rightarrow> CBlockIndex \<Rightarrow> bool" where
  "off_chain mem chain q b \<longleftrightarrow> mem q = Some b \<and> chain_at chain (bi_nHeight b) \<noteq> Some q"

definition usable :: "block_store \<Rightarrow> CChain \<Rightarrow> nat \<Rightarrow> bool" where
  "usable mem chain p \<longleftrightarrow>
     (\<forall>n q b. walk_prev mem n p = Some q \<and> off_chain mem chain q b \<longrightarrow> \<not> failed b \<and> \<not> missing_data b)"

definition hopeless :: "block_store \<Rightarrow> CChain \<Rightarrow> nat \<Rightarrow> bool" where
  "hopeless mem chain p \<longleftrightarrow> (\<exists>n q b. walk_prev mem n p = Some q \<and> off_chain mem chain q b \<and> failed b)"

text \<open>The data of \<open>p\<close> and of everything below it has been received.\<close>

definition complete :: "block_store \<Rightarrow> nat \<Rightarrow> bool" where
  "complete mem p \<longleftrightarrow> (\<forall>n q b. walk_prev mem n p = Some q \<and> mem q = Some b \<longrightarrow> bi_nChainTx b \<noteq> 0 \<or> bi_nHeight b = 0)"

definition marked :: "block_store \<Rightarrow> CChain \<Rightarrow> block_store \<Rightarrow> bool" where
  "marked mem chain mem' \<longleftrightarrow>
     (\<forall>x. mem' x = mem x \<or>
        (\<exists>b. mem x = Some b \<and> mem' x = Some (b\<lparr>bi_nStatus := bi_nStatus b OR BLOCK_FAILED_CHILD\<rparr>) \<and> hopeless mem chain x))"

subsection \<open>What marking blocks keeps\<close>

definition same_tree :: "block_store \<Rightarrow> block_store \<Rightarrow> bool" where
  "same_tree mem mem' \<longleftrightarrow>
     (\<forall>x. map_option (bi_nStatus_update (\<lambda>_. 0)) (mem x) = map_option (bi_nStatus_update (\<lambda>_. 0)) (mem' x))"

lemma same_tree_sym: "same_tree mem mem' \<Longrightarrow> same_tree mem' mem"
  by (simp add: same_tree_def)

lemma same_tree_trans: "same_tree m1 m2 \<Longrightarrow> same_tree m2 m3 \<Longrightarrow> same_tree m1 m3"
  by (simp add: same_tree_def)

lemma same_treeE:
  assumes "same_tree mem mem'" "mem x = Some b"
  obtains s where "mem' x = Some (b\<lparr>bi_nStatus := s\<rparr>)"
proof -
  obtain b' where b': "mem' x = Some b'" "b'\<lparr>bi_nStatus := 0\<rparr> = b\<lparr>bi_nStatus := 0\<rparr>"
    using assms unfolding same_tree_def by (metis (mono_tags, lifting) map_option_eq_Some option.map(2))
  have "b' = b'\<lparr>bi_nStatus := 0, bi_nStatus := bi_nStatus b'\<rparr>" by simp
  also have "\<dots> = b\<lparr>bi_nStatus := bi_nStatus b'\<rparr>" by (simp only: b'(2)) simp
  finally show ?thesis using b'(1) that by simp
qed

lemma same_tree_dom: "same_tree mem mem' \<Longrightarrow> dom mem' = dom mem"
  unfolding same_tree_def dom_def by (metis (mono_tags) option.map_disc_iff)

text \<open>Walks and well-formedness depend on the pointers and heights only.\<close>

definition links :: "block_store \<Rightarrow> nat \<Rightarrow> (nat option \<times> nat option \<times> int) option" where
  "links mem p = map_option (\<lambda>b. (bi_pprev b, bi_pskip b, bi_nHeight b)) (mem p)"

lemma links_walk: assumes "links mem' = links mem" shows "walk_prev mem' n p = walk_prev mem n p"
proof (induction n arbitrary: p)
  case (Suc n)
  have "links mem' p = links mem p" using assms by simp
  then show ?case using Suc by (cases "mem p"; cases "mem' p") (auto simp: links_def split: Option.bind_splits)
qed simp

lemma links_wf: assumes "links mem' = links mem" "wf_index mem" shows "wf_index mem'"
  unfolding wf_index_def
proof (intro allI impI)
  fix p b'
  assume b': "mem' p = Some b'"
  have eq: "links mem' x = links mem x" for x using assms(1) by simp
  obtain b where b: "mem p = Some b" "bi_pprev b = bi_pprev b'" "bi_pskip b = bi_pskip b'" "bi_nHeight b = bi_nHeight b'"
    using eq [of p] b' by (cases "mem p") (auto simp: links_def)
  have "\<exists>c. mem' q = Some c \<and> bi_nHeight b = bi_nHeight c + 1" if "bi_pprev b = Some q" for q
    using wf_indexD(3) [OF assms(2) b(1) that] eq [of q] by (cases "mem' q") (auto simp: links_def)
  moreover have "bi_pskip b = (if bi_nHeight b = 0 then None
      else walk_prev mem' (nat (bi_nHeight b - GetSkipHeight (bi_nHeight b))) p)"
    using assms(2) b(1) by (simp add: links_walk [OF assms(1)] wf_index_def)
  ultimately show "0 \<le> bi_nHeight b' \<and> (bi_pprev b' = None \<longleftrightarrow> bi_nHeight b' = 0) \<and>
      (\<forall>q. bi_pprev b' = Some q \<longrightarrow> (\<exists>c. mem' q = Some c \<and> bi_nHeight b' = bi_nHeight c + 1)) \<and>
      bi_pskip b' = (if bi_nHeight b' = 0 then None else walk_prev mem' (nat (bi_nHeight b' - GetSkipHeight (bi_nHeight b'))) p)"
    using wf_indexD(1,2) [OF assms(2) b(1)] b(2-4) by simp
qed

lemma same_tree_links: assumes "same_tree mem mem'" shows "links mem' = links mem"
proof
  fix p
  show "links mem' p = links mem p"
  proof (cases "mem p")
    case None
    then have "mem' p = None" using same_tree_dom [OF assms] by (metis domIff)
    then show ?thesis using None by (simp add: links_def)
  qed (auto elim!: same_treeE [OF assms] simp: links_def)
qed

lemmas same_tree_walk = links_walk [OF same_tree_links]
lemmas same_tree_wf = links_wf [OF same_tree_links]

lemma same_tree_comparator:
  assumes "same_tree mem mem'" shows "CBlockIndexWorkComparator mem' = CBlockIndexWorkComparator mem"
proof (intro ext)
  fix p q
  consider "mem p = None" | "mem q = None" | a b where "mem p = Some a" "mem q = Some b" by fastforce
  then show "CBlockIndexWorkComparator mem' p q = CBlockIndexWorkComparator mem p q"
  proof cases
    case 1
    then have "mem' p = None" using same_tree_dom [OF assms] by (metis domIff)
    then show ?thesis using 1 by (simp add: CBlockIndexWorkComparator_iff)
  next
    case 2
    then have "mem' q = None" using same_tree_dom [OF assms] by (metis domIff)
    then show ?thesis using 2 by (simp add: CBlockIndexWorkComparator_iff)
  next
    case (3 a b)
    then obtain s r where "mem' p = Some (a\<lparr>bi_nStatus := s\<rparr>)" "mem' q = Some (b\<lparr>bi_nStatus := r\<rparr>)"
      by (metis same_treeE [OF assms])
    then show ?thesis using 3 by (simp add: CBlockIndexWorkComparator_iff)
  qed
qed

lemma same_tree_complete: assumes "same_tree mem mem'" "complete mem p" shows "complete mem' p"
  unfolding complete_def
proof (intro allI impI)
  fix n q b'
  assume a: "walk_prev mem' n p = Some q \<and> mem' q = Some b'"
  then obtain s where "mem q = Some (b'\<lparr>bi_nStatus := s\<rparr>)" by (auto elim: same_treeE [OF same_tree_sym [OF assms(1)]])
  then show "bi_nChainTx b' \<noteq> 0 \<or> bi_nHeight b' = 0"
    using assms(2) a unfolding complete_def same_tree_walk [OF assms(1)] by fastforce
qed

lemma failed_child [simp]: "failed (b\<lparr>bi_nStatus := bi_nStatus b OR BLOCK_FAILED_CHILD\<rparr>)"
proof -
  have "bit (64 :: u32) 6" "bit (96 :: u32) 6" by simp_all
  then have "bit ((x OR 64) AND 96) 6" for x :: u32 by (simp only: bit_and_iff bit_or_iff simp_thms)
  moreover have "\<not> bit (0 :: u32) 6" by simp
  ultimately have "(x OR 64) AND 96 \<noteq> 0" for x :: u32 by metis
  then show ?thesis by (simp add: failed_def)
qed

lemma missing_data_child [simp]:
  "missing_data (b\<lparr>bi_nStatus := bi_nStatus b OR BLOCK_FAILED_CHILD\<rparr>) \<longleftrightarrow> missing_data b"
  by (simp add: missing_data_def bit.conj_disj_distrib2)

lemma marked_refl [simp]: "marked mem chain mem"
  by (simp add: marked_def)

lemma marked_same_tree: "marked mem chain mem' \<Longrightarrow> same_tree mem mem'"
  unfolding same_tree_def
proof
  fix x
  assume "marked mem chain mem'"
  then show "map_option (bi_nStatus_update (\<lambda>_. 0)) (mem x) = map_option (bi_nStatus_update (\<lambda>_. 0)) (mem' x)"
    unfolding marked_def by (elim allE [of _ x] disjE exE conjE) simp_all
qed

lemma off_chain_marked:
  assumes "marked mem chain mem'"
  shows "off_chain mem' chain q b' \<longleftrightarrow> mem' q = Some b' \<and> (\<exists>b. off_chain mem chain q b)"
proof (cases "mem' q")
  case None
  then show ?thesis by (simp add: off_chain_def)
next
  case (Some c)
  then obtain s where "mem q = Some (c\<lparr>bi_nStatus := s\<rparr>)" by (rule same_treeE [OF same_tree_sym [OF marked_same_tree [OF assms]]])
  then show ?thesis using Some by (auto simp: off_chain_def)
qed

lemma hopeless_up: "walk_prev mem n p = Some q \<Longrightarrow> hopeless mem chain q \<Longrightarrow> hopeless mem chain p"
  unfolding hopeless_def by (metis bind.bind_lunit walk_prev_add)

lemma hopeless_marked:
  assumes m: "marked mem chain mem'" shows "hopeless mem' chain p \<longleftrightarrow> hopeless mem chain p"
proof
  note walk = same_tree_walk [OF marked_same_tree [OF m]]
  assume "hopeless mem' chain p"
  then obtain n q b' where q: "walk_prev mem n p = Some q" "off_chain mem' chain q b'" "failed b'"
    unfolding hopeless_def walk by blast
  obtain b where b: "off_chain mem chain q b" "mem' q = Some b'" using q(2) off_chain_marked [OF m] by blast
  have "mem q = Some b'" if "\<not> hopeless mem chain q" using m b(2) that unfolding marked_def by metis
  then have "hopeless mem chain q" using b(1) q(3) unfolding hopeless_def off_chain_def by (metis option.inject walk_prev.simps(1))
  then show "hopeless mem chain p" by (rule hopeless_up [OF q(1)])
next
  note walk = same_tree_walk [OF marked_same_tree [OF m]]
  assume "hopeless mem chain p"
  then obtain n q b where q: "walk_prev mem' n p = Some q" "off_chain mem chain q b" "failed b"
    unfolding hopeless_def walk by blast
  have "\<exists>b'. mem' q = Some b' \<and> failed b'" using m q(2,3) unfolding marked_def off_chain_def
    by (metis failed_child option.inject)
  then show "hopeless mem' chain p" using q off_chain_marked [OF m] unfolding hopeless_def by metis
qed

lemma usable_marked:
  assumes m: "marked mem chain mem'" shows "usable mem' chain p \<longleftrightarrow> usable mem chain p"
proof -
  note walk = same_tree_walk [OF marked_same_tree [OF m]]
  have split: "usable mem chain p \<longleftrightarrow> \<not> hopeless mem chain p \<and>
      (\<forall>n q b. walk_prev mem n p = Some q \<and> off_chain mem chain q b \<longrightarrow> \<not> missing_data b)" for mem
    unfolding usable_def hopeless_def by blast
  have "(\<exists>b'. off_chain mem' chain q b' \<and> missing_data b') \<longleftrightarrow> (\<exists>b. off_chain mem chain q b \<and> missing_data b)" for q
  proof (cases "mem' q = mem q")
    case True
    then show ?thesis by (simp add: off_chain_def)
  next
    case False
    then obtain b where "mem q = Some b" "mem' q = Some (b\<lparr>bi_nStatus := bi_nStatus b OR BLOCK_FAILED_CHILD\<rparr>)"
      using m unfolding marked_def by metis
    then show ?thesis by (simp add: off_chain_def)
  qed
  then show ?thesis unfolding split hopeless_marked [OF m] walk by blast
qed

lemma marked_trans:
  assumes m: "marked m1 chain m2" "marked m2 chain m3" shows "marked m1 chain m3"
  unfolding marked_def
proof
  fix x
  let ?mark = "\<lambda>b. b\<lparr>bi_nStatus := bi_nStatus b OR BLOCK_FAILED_CHILD\<rparr>"
  have idem: "?mark (?mark b) = ?mark b" for b by (cases b) (simp add: or.assoc)
  consider "m2 x = m1 x" | b where "m1 x = Some b" "m2 x = Some (?mark b)" "hopeless m1 chain x"
    using m(1) unfolding marked_def by metis
  then show "m3 x = m1 x \<or> (\<exists>b. m1 x = Some b \<and> m3 x = Some (?mark b) \<and> hopeless m1 chain x)"
  proof cases
    case 1
    then show ?thesis using m(2) hopeless_marked [OF m(1)] unfolding marked_def by metis
  next
    case (2 b)
    have "m3 x = Some (?mark b) \<or> m3 x = Some (?mark (?mark b))" using m(2) 2(2) unfolding marked_def by (metis option.inject)
    then show ?thesis using 2 unfolding idem by blast
  qed
qed

subsection \<open>The walks\<close>

lemma chain_closed:
  assumes "wf_index mem" "is_chain mem chain" "mem p = Some b" "chain_at chain (bi_nHeight b) = Some p" "walk_prev mem n p = Some q"
  shows "\<not> off_chain mem chain q c"
proof
  assume c: "off_chain mem chain q c"
  obtain t d where t: "chain = chain_of mem t" "mem t = Some d"
    using assms(2,4) by (auto simp: is_chain_def chain_at_def split: if_splits)
  have n: "int n \<le> bi_nHeight b" by (rule walk_prev_ge [OF assms(1,3,5)])
  obtain q' c' where "walk_prev mem n p = Some q'" "mem q' = Some c'" "bi_nHeight c' = bi_nHeight b - int n"
    using walk_prev_height [OF assms(1,3) n] by blast
  then have h: "bi_nHeight c = bi_nHeight b - int n" using c assms(5) by (simp add: off_chain_def)
  have "chain_at (chain_of mem t) (bi_nHeight c) = chain_at (chain_of mem p) (bi_nHeight c)"
    using chain_of_prefix [OF assms(1) t(2) assms(3), of "bi_nHeight c"] assms(4) t(1) n h by simp
  also have "\<dots> = Some q" using chain_of_at [of mem p b "bi_nHeight c"] assms(3,5) n h by simp
  finally show False using c t(1) by (simp add: off_chain_def)
qed

lemma candidate_walk_correct:
  assumes "wf_index mem" "is_chain mem chain" "mem p = Some b" "complete mem p"
  shows "candidate_walk mem chain (Some p) = Some None \<and> usable mem chain p \<or>
    (\<exists>n q c. candidate_walk mem chain (Some p) = Some (Some q) \<and> walk_prev mem n p = Some q \<and> off_chain mem chain q c \<and>
      (failed c \<or> missing_data c))"
  using assms(3,4)
proof (induction "nat (bi_nHeight b)" arbitrary: p b rule: less_induct)
  case less
  have tx: "bi_nChainTx b \<noteq> 0 \<or> bi_nHeight b = 0"
    using less.prems unfolding complete_def by (metis walk_prev.simps(1))
  have con: "Contains mem chain p = Some (chain_at chain (bi_nHeight b) = Some p)" using less.prems(1) by (simp add: Contains_def)
  consider (on) "chain_at chain (bi_nHeight b) = Some p"
    | (bad) "off_chain mem chain p b" "failed b \<or> missing_data b"
    | (ok) "off_chain mem chain p b" "\<not> failed b" "\<not> missing_data b"
    using less.prems(1) unfolding off_chain_def by blast
  then show ?case
  proof cases
    case on
    then have "candidate_walk mem chain (Some p) = Some None"
      using less.prems(1) con by (subst candidate_walk.simps) simp
    moreover have "usable mem chain p"
      unfolding usable_def using chain_closed [OF assms(1,2) less.prems(1) on] by blast
    ultimately show ?thesis by blast
  next
    case bad
    then have "candidate_walk mem chain (Some p) = Some (Some p)"
      using less.prems(1) con tx by (subst candidate_walk.simps) (simp add: off_chain_def)
    moreover have "walk_prev mem 0 p = Some p" by simp
    ultimately show ?thesis using bad by blast
  next
    case ok
    then have step: "candidate_walk mem chain (Some p) = candidate_walk mem chain (bi_pprev b)"
      using less.prems(1) con tx by (subst candidate_walk.simps) (auto simp: off_chain_def)
    have self: "usable mem chain p" if "\<And>n q c. walk_prev mem (Suc n) p = Some q \<Longrightarrow> off_chain mem chain q c \<Longrightarrow> \<not> failed c \<and> \<not> missing_data c"
      unfolding usable_def
    proof (intro allI impI)
      fix n q c
      assume a: "walk_prev mem n p = Some q \<and> off_chain mem chain q c"
      show "\<not> failed c \<and> \<not> missing_data c"
        using that a ok by (cases n) (auto simp: off_chain_def simp del: walk_prev.simps(2))
    qed
    show ?thesis
    proof (cases "bi_pprev b")
      case None
      then have "usable mem chain p" using self less.prems(1) by simp
      moreover have "candidate_walk mem chain None = Some None" by (subst candidate_walk.simps) simp
      ultimately show ?thesis using step None by simp
    next
      case (Some r)
      obtain d where d: "mem r = Some d" "bi_nHeight b = bi_nHeight d + 1" using wf_indexD(3) [OF assms(1) less.prems(1) Some] by auto
      have walk: "walk_prev mem (Suc n) p = walk_prev mem n r" for n using less.prems(1) Some by simp
      have "complete mem r" using less.prems(2) walk unfolding complete_def by metis
      moreover have "nat (bi_nHeight d) < nat (bi_nHeight b)" using d(2) wf_indexD(1) [OF assms(1) d(1)] by simp
      ultimately show ?thesis
        using less.hyps [OF _ d(1)] step Some self walk unfolding usable_def by metis
    qed
  qed
qed

lemma drop_walk_correct:
  assumes "wf_index (bt_mem t)" "bt_mem t p = Some b" "walk_prev (bt_mem t) n p = Some q" "off_chain (bt_mem t) (bt_chainActive t) q c"
    and "fFailedChain \<Longrightarrow> failed c"
    and "is_oset (CBlockIndexWorkComparator (bt_mem t)) (dom (bt_mem t)) (bt_setBlockIndexCandidates t)"
  shows "\<exists>t'. drop_walk fFailedChain q (Some p) t = Some t' \<and> marked (bt_mem t) (bt_chainActive t) (bt_mem t') \<and>
    bt_chainActive t' = bt_chainActive t \<and> bt_pindexBestInvalid t' = bt_pindexBestInvalid t \<and>
    bt_setBlockIndexCandidates t' = filter (\<lambda>x. \<forall>m < n. walk_prev (bt_mem t) m p \<noteq> Some x) (bt_setBlockIndexCandidates t)"
  using assms
proof (induction n arbitrary: p b c t)
  case 0
  then show ?case by (intro exI [of _ t]) (simp add: drop_walk.simps)
next
  case (Suc n)
  note pr = Suc.prems
  let ?mem = "bt_mem t"
  obtain r where r: "bi_pprev b = Some r" "walk_prev ?mem n r = Some q" using pr(2,3) by (auto split: Option.bind_splits)
  have "q \<noteq> p"
  proof
    assume "q = p"
    obtain q' c' where "walk_prev ?mem (Suc n) p = Some q'" "?mem q' = Some c'" "bi_nHeight c' = bi_nHeight b - int (Suc n)"
      using walk_prev_height [OF pr(1,2) walk_prev_ge [OF pr(1-3)]] by blast
    then show False using pr(2,3) \<open>q = p\<close> by simp
  qed
  define t1 where "t1 = (if fFailedChain
      then t\<lparr>bt_mem := ?mem(p \<mapsto> b\<lparr>bi_nStatus := bi_nStatus b OR BLOCK_FAILED_CHILD\<rparr>)\<rparr>
      else t\<lparr>bt_mapBlocksUnlinked := bt_mapBlocksUnlinked t @ [(bi_pprev b, p)]\<rparr>)"
  have hope: "hopeless ?mem (bt_chainActive t) p" if fFailedChain using pr(3-5) that unfolding hopeless_def by blast
  have mk: "marked ?mem (bt_chainActive t) (bt_mem t1)" using pr(2) hope by (auto simp: t1_def marked_def)
  note st = marked_same_tree [OF mk]
  define t2 where "t2 = candidates_erase p t1"
  have t2: "bt_mem t2 = bt_mem t1" "bt_chainActive t2 = bt_chainActive t" "bt_pindexBestInvalid t2 = bt_pindexBestInvalid t"
    "bt_setBlockIndexCandidates t2 = filter (\<lambda>x. x \<noteq> p) (bt_setBlockIndexCandidates t)"
    using work.erase_filter [OF pr(6), of p] pr(2) same_tree_comparator [OF st] by (auto simp: t2_def candidates_erase_def t1_def)
  have os: "is_oset (CBlockIndexWorkComparator (bt_mem t2)) (dom (bt_mem t2)) (bt_setBlockIndexCandidates t2)"
    using pr(6) unfolding t2 same_tree_comparator [OF st] same_tree_dom [OF st] by (auto simp: is_oset_def sorted_wrt_filter)
  obtain d where d: "?mem r = Some d" using wf_indexD(3) [OF pr(1,2) r(1)] by blast
  obtain s where s: "bt_mem t2 r = Some (d\<lparr>bi_nStatus := s\<rparr>)" unfolding t2 by (rule same_treeE [OF st d])
  obtain c' where c': "off_chain (bt_mem t2) (bt_chainActive t2) q c'" "fFailedChain \<Longrightarrow> failed c'"
    using pr(4,5) \<open>q \<noteq> p\<close> by (auto simp: off_chain_def t2 t1_def)
  obtain t' where t': "drop_walk fFailedChain q (Some r) t2 = Some t'" "marked (bt_mem t2) (bt_chainActive t2) (bt_mem t')"
    "bt_chainActive t' = bt_chainActive t2" "bt_pindexBestInvalid t' = bt_pindexBestInvalid t2"
    "bt_setBlockIndexCandidates t' = filter (\<lambda>x. \<forall>m < n. walk_prev (bt_mem t2) m r \<noteq> Some x) (bt_setBlockIndexCandidates t2)"
    using Suc.IH [OF _ s _ c' os] same_tree_wf [OF st pr(1)] r(2) same_tree_walk [OF st] by (auto simp: t2(1))
  have "drop_walk fFailedChain q (Some p) t = Some t'"
    using t'(1) pr(2) \<open>q \<noteq> p\<close> r(1) unfolding t2_def t1_def by (subst drop_walk.simps) (simp add: Let_def)
  moreover have "(\<forall>m < Suc n. walk_prev ?mem m p \<noteq> Some x) \<longleftrightarrow> x \<noteq> p \<and> (\<forall>m < n. walk_prev ?mem m r \<noteq> Some x)" for x
    using pr(2) r(1) by (auto simp: less_Suc_eq_0_disj)
  ultimately show ?case
    using t' t2 marked_trans [OF mk] same_tree_walk [OF st] by (intro exI [of _ t']) (simp add: conj_commute)
qed

subsection \<open>The search\<close>

definition tree_ok :: "block_tree \<Rightarrow> bool" where
  "tree_ok t \<longleftrightarrow> wf_index (bt_mem t) \<and> is_chain (bt_mem t) (bt_chainActive t) \<and>
     is_oset (CBlockIndexWorkComparator (bt_mem t)) (dom (bt_mem t)) (bt_setBlockIndexCandidates t) \<and>
     (\<forall>p \<in> set (bt_setBlockIndexCandidates t). complete (bt_mem t) p) \<and>
     (\<forall>q. bt_pindexBestInvalid t = Some q \<longrightarrow> q \<in> dom (bt_mem t))"

lemma same_tree_is_chain: assumes "same_tree mem mem'" "is_chain mem chain" shows "is_chain mem' chain"
proof -
  have "chain_of mem' p = chain_of mem p \<and> mem' p \<noteq> None" if "mem p = Some b" for p b
    using that by (auto elim!: same_treeE [OF assms(1)] simp: chain_of_def same_tree_walk [OF assms(1)])
  then show ?thesis using assms(2) unfolding is_chain_def by fastforce
qed

lemma raise_best_invalid_correct:
  assumes "p \<in> dom (bt_mem t)" "\<forall>q. bt_pindexBestInvalid t = Some q \<longrightarrow> q \<in> dom (bt_mem t)"
  shows "\<exists>r \<in> dom (bt_mem t). raise_best_invalid p t = Some (t\<lparr>bt_pindexBestInvalid := Some r\<rparr>)"
proof (cases "bt_pindexBestInvalid t")
  case (Some q)
  then obtain b c where "bt_mem t p = Some b" "bt_mem t q = Some c" using assms by blast
  moreover have "t\<lparr>bt_pindexBestInvalid := Some q\<rparr> = t" using Some by (cases t) simp
  ultimately show ?thesis using Some assms(1) by (auto simp: raise_best_invalid_def intro: bexI [of _ q])
qed (use assms in \<open>auto simp: raise_best_invalid_def\<close>)

lemma FindMostWorkChain_step:
  assumes ok: "tree_ok t" and ne: "bt_setBlockIndexCandidates t \<noteq> []"
    and bad: "candidate_walk (bt_mem t) (bt_chainActive t) (Some (last (bt_setBlockIndexCandidates t))) = Some (Some q)"
      "walk_prev (bt_mem t) n (last (bt_setBlockIndexCandidates t)) = Some q"
      "off_chain (bt_mem t) (bt_chainActive t) q c" "failed c \<or> missing_data c"
  shows "\<exists>t' drops. FindMostWorkChain t = FindMostWorkChain t' \<and> tree_ok t' \<and>
    marked (bt_mem t) (bt_chainActive t) (bt_mem t') \<and> bt_chainActive t' = bt_chainActive t \<and>
    bt_setBlockIndexCandidates t' = filter (\<lambda>x. x \<notin> drops) (bt_setBlockIndexCandidates t) \<and>
    last (bt_setBlockIndexCandidates t) \<in> drops \<and> (\<forall>x \<in> drops. \<not> usable (bt_mem t) (bt_chainActive t) x)"
proof -
  let ?mem = "bt_mem t" and ?chain = "bt_chainActive t" and ?cands = "bt_setBlockIndexCandidates t"
  let ?new = "last ?cands"
  have os: "is_oset (CBlockIndexWorkComparator ?mem) (dom ?mem) ?cands" and wf: "wf_index ?mem" using ok by (auto simp: tree_ok_def)
  have new: "?new \<in> dom ?mem" using os ne by (auto simp: is_oset_def dest: last_in_set)
  then obtain b where b: "?mem ?new = Some b" by blast
  have c: "?mem q = Some c" using bad(3) by (simp add: off_chain_def)
  obtain t1 where t1: "(if failed c then raise_best_invalid ?new t else Some t) = Some t1" "bt_mem t1 = ?mem" "bt_chainActive t1 = ?chain"
    "bt_setBlockIndexCandidates t1 = ?cands" "\<forall>r. bt_pindexBestInvalid t1 = Some r \<longrightarrow> r \<in> dom ?mem"
  proof (cases "failed c")
    case True
    obtain r where "r \<in> dom ?mem" "raise_best_invalid ?new t = Some (t\<lparr>bt_pindexBestInvalid := Some r\<rparr>)"
      using raise_best_invalid_correct [OF new] ok by (auto simp: tree_ok_def)
    then show ?thesis using True that [of "t\<lparr>bt_pindexBestInvalid := Some r\<rparr>"] by simp
  qed (use ok that [of t] in \<open>simp add: tree_ok_def\<close>)
  obtain t2 where t2: "drop_walk (failed c) q (Some ?new) t1 = Some t2" "marked ?mem ?chain (bt_mem t2)"
    "bt_chainActive t2 = ?chain" "bt_pindexBestInvalid t2 = bt_pindexBestInvalid t1"
    "bt_setBlockIndexCandidates t2 = filter (\<lambda>x. \<forall>m < n. walk_prev ?mem m ?new \<noteq> Some x) ?cands"
    using drop_walk_correct [of t1 ?new b n q c "failed c"] wf b bad(2,3) os t1(2-4) by auto
  note st = marked_same_tree [OF t2(2)]
  define drops where "drops = {x. \<exists>m \<le> n. walk_prev ?mem m ?new = Some x}"
  have os2: "is_oset (CBlockIndexWorkComparator (bt_mem t2)) (dom (bt_mem t2)) (bt_setBlockIndexCandidates t2)"
    using os unfolding t2(5) same_tree_comparator [OF st] same_tree_dom [OF st] by (auto simp: is_oset_def sorted_wrt_filter)
  have "q \<in> dom (bt_mem t2)" using c same_tree_dom [OF st] by auto
  from work.erase_filter [OF os2 this] bad(2)
  have cands: "bt_setBlockIndexCandidates (candidates_erase q t2) = filter (\<lambda>x. x \<notin> drops) ?cands"
    unfolding candidates_erase_def drops_def t2(5) by (auto simp: le_less intro!: filter_cong)
  have fields: "bt_mem (candidates_erase q t2) = bt_mem t2" "bt_chainActive (candidates_erase q t2) = ?chain"
    "bt_pindexBestInvalid (candidates_erase q t2) = bt_pindexBestInvalid t1" using t2 by (simp_all add: candidates_erase_def)
  have "tree_ok (candidates_erase q t2)"
    unfolding tree_ok_def fields cands
    using ok t1(5) same_tree_wf [OF st wf] same_tree_is_chain [OF st] same_tree_complete [OF st] same_tree_comparator [OF st] same_tree_dom [OF st]
    by (auto simp: tree_ok_def is_oset_def sorted_wrt_filter)
  moreover have "\<not> usable ?mem ?chain x" if x: "x \<in> drops" for x
  proof -
    obtain m where m: "m \<le> n" "walk_prev ?mem m ?new = Some x" using x by (auto simp: drops_def)
    then have "walk_prev ?mem (n - m) x = Some q" using bad(2) walk_prev_add [of ?mem m "n - m" ?new] by simp
    then show ?thesis using bad(3,4) unfolding usable_def by blast
  qed
  moreover have "?new \<in> drops" unfolding drops_def by (auto intro: exI [of _ 0])
  moreover have "FindMostWorkChain t = FindMostWorkChain (candidates_erase q t2)"
    using ne bad(1) c t1(1) t2(1) by (subst FindMostWorkChain.simps) simp
  ultimately show ?thesis using fields t2(2) cands by (intro exI [of _ "candidates_erase q t2"] exI [of _ drops]) simp
qed

text \<open>C13. The node follows the best chain it can: from a consistent tree, \<open>FindMostWorkChain\<close> returns, no assertion
  fails and no null pointer is read. It returns the candidate with the most work, the earliest among equals, that has no
  block known to be invalid or missing above the active chain, or \<open>NULL\<close> if every candidate has one. It drops only candidates
  that cannot be used, marks only descendants of invalid blocks, leaves the active chain alone, and the tree stays
  consistent.\<close>

theorem FindMostWorkChain_best:
  assumes "tree_ok t"
  shows "\<exists>r t'. FindMostWorkChain t = Some (r, t') \<and> tree_ok t' \<and>
    marked (bt_mem t) (bt_chainActive t) (bt_mem t') \<and> bt_chainActive t' = bt_chainActive t \<and>
    set (bt_setBlockIndexCandidates t') \<subseteq> set (bt_setBlockIndexCandidates t) \<and>
    (\<forall>c \<in> set (bt_setBlockIndexCandidates t).
       usable (bt_mem t) (bt_chainActive t) c \<longrightarrow> c \<in> set (bt_setBlockIndexCandidates t')) \<and>
    (case r of
       None \<Rightarrow> \<forall>c \<in> set (bt_setBlockIndexCandidates t). \<not> usable (bt_mem t) (bt_chainActive t) c
     | Some p \<Rightarrow> p \<in> set (bt_setBlockIndexCandidates t) \<and> usable (bt_mem t) (bt_chainActive t) p \<and>
         (\<forall>c \<in> set (bt_setBlockIndexCandidates t).
            usable (bt_mem t) (bt_chainActive t) c \<longrightarrow> c = p \<or> CBlockIndexWorkComparator (bt_mem t) c p))"
  using assms
proof (induction "length (bt_setBlockIndexCandidates t)" arbitrary: t rule: less_induct)
  case less
  let ?mem = "bt_mem t" and ?chain = "bt_chainActive t" and ?cands = "bt_setBlockIndexCandidates t"
  show ?case
  proof (cases "?cands = []")
    case True
    then have "FindMostWorkChain t = Some (None, t)" by (subst FindMostWorkChain.simps) simp
    then show ?thesis using True less.prems by simp
  next
    case False
    have os: "is_oset (CBlockIndexWorkComparator ?mem) (dom ?mem) ?cands" using less.prems by (simp add: tree_ok_def)
    have new: "last ?cands \<in> set ?cands" using False by simp
    then obtain b where b: "?mem (last ?cands) = Some b" using os by (auto simp: is_oset_def)
    have "complete ?mem (last ?cands)" using less.prems new by (simp add: tree_ok_def)
    from candidate_walk_correct [OF _ _ b this] less.prems
    consider (good) "candidate_walk ?mem ?chain (Some (last ?cands)) = Some None" "usable ?mem ?chain (last ?cands)"
      | (bad) n q c where "candidate_walk ?mem ?chain (Some (last ?cands)) = Some (Some q)" "walk_prev ?mem n (last ?cands) = Some q"
          "off_chain ?mem ?chain q c" "failed c \<or> missing_data c"
      unfolding tree_ok_def by blast
    then show ?thesis
    proof cases
      case good
      then have "FindMostWorkChain t = Some (Some (last ?cands), t)" using False by (subst FindMostWorkChain.simps) simp
      then show ?thesis using less.prems new good(2) work.last_max [OF os] by (intro exI conjI) auto
    next
      case (bad n q c)
      obtain t1 drops where t1: "FindMostWorkChain t = FindMostWorkChain t1" "tree_ok t1" "marked ?mem ?chain (bt_mem t1)"
        "bt_chainActive t1 = ?chain" "bt_setBlockIndexCandidates t1 = filter (\<lambda>x. x \<notin> drops) ?cands"
        "last ?cands \<in> drops" "\<forall>x \<in> drops. \<not> usable ?mem ?chain x"
        using FindMostWorkChain_step [OF less.prems False bad] by blast
      have "length (bt_setBlockIndexCandidates t1) < length ?cands"
        unfolding t1(5) using new t1(6) by (intro length_filter_less) auto
      from less.hyps [OF this t1(2)] obtain r t' where r: "FindMostWorkChain t1 = Some (r, t')" "tree_ok t'"
        "marked (bt_mem t1) ?chain (bt_mem t')" "bt_chainActive t' = ?chain"
        "set (bt_setBlockIndexCandidates t') \<subseteq> set (bt_setBlockIndexCandidates t1)"
        "\<forall>c \<in> set (bt_setBlockIndexCandidates t1). usable ?mem ?chain c \<longrightarrow> c \<in> set (bt_setBlockIndexCandidates t')"
        "case r of None \<Rightarrow> \<forall>c \<in> set (bt_setBlockIndexCandidates t1). \<not> usable ?mem ?chain c
         | Some p \<Rightarrow> p \<in> set (bt_setBlockIndexCandidates t1) \<and> usable ?mem ?chain p \<and>
           (\<forall>c \<in> set (bt_setBlockIndexCandidates t1). usable ?mem ?chain c \<longrightarrow> c = p \<or> CBlockIndexWorkComparator ?mem c p)"
        unfolding t1(4) usable_marked [OF t1(3)] same_tree_comparator [OF marked_same_tree [OF t1(3)]] by blast
      moreover have "marked ?mem ?chain (bt_mem t')" by (rule marked_trans [OF t1(3) r(3)])
      ultimately show ?thesis using t1(1,7) unfolding t1(5) by (intro exI [of _ r] exI [of _ t']) (auto split: option.splits)
    qed
  qed
qed

text \<open>A tree with two blocks on the genesis block: the one with more work is known to be invalid.\<close>

definition sample_block :: "uint256 \<Rightarrow> u32 \<Rightarrow> CBlockIndex" where
  "sample_block nWork nStatus = CBlockIndex_null\<lparr>bi_nHeight := 1, bi_pprev := Some 0, bi_pskip := Some 0, bi_nChainWork := nWork,
     bi_nTx := 1, bi_nChainTx := 2, bi_nStatus := nStatus\<rparr>"

definition sample_store :: block_store where
  "sample_store = [0 \<mapsto> CBlockIndex_null\<lparr>bi_nTx := 1, bi_nChainTx := 1, bi_nStatus := 8\<rparr>,
     1 \<mapsto> sample_block 3 (BLOCK_HAVE_DATA OR BLOCK_FAILED_VALID), 2 \<mapsto> sample_block 2 BLOCK_HAVE_DATA]"

definition sample_tree :: block_tree where
  "sample_tree = \<lparr>bt_mem = sample_store, bt_mapBlockIndex = [], bt_chainActive = [Some 0], bt_setBlockIndexCandidates = [0, 2, 1],
     bt_mapBlocksUnlinked = [], bt_pindexBestInvalid = None, bt_pindexBestHeader = None, bt_setDirtyBlockIndex = {},
     bt_nBlockSequenceId = 1, bt_setStakeSeen = {}, bt_mapProofOfStake = Map.empty\<rparr>"

lemma sample_walk:
  "walk_prev sample_store (Suc n) 0 = None" "walk_prev sample_store (Suc n) 1 = (if n = 0 then Some 0 else None)"
  "walk_prev sample_store (Suc n) 2 = (if n = 0 then Some 0 else None)"
  by (cases n; simp add: sample_store_def sample_block_def CBlockIndex_null_def)+

lemma sample_tree_ok: "tree_ok sample_tree"
proof -
  have "wf_index sample_store"
    unfolding wf_index_def
    by (auto simp: sample_walk numeral_2_eq_2 GetSkipHeight_def) (auto simp: sample_store_def sample_block_def CBlockIndex_null_def GetSkipHeight_def sample_walk split: if_splits)
  moreover have "chain_of sample_store 0 = [Some 0]" by code_simp
  then have "is_chain sample_store [Some 0]" by (auto simp: is_chain_def sample_store_def intro!: exI [of _ 0])
  moreover have "is_oset (CBlockIndexWorkComparator sample_store) (dom sample_store) [0, 2, 1]"
    by (simp add: is_oset_def CBlockIndexWorkComparator_iff sample_store_def sample_block_def CBlockIndex_null_def)
  moreover have "complete sample_store p" if "p \<in> {0, 1, 2}" for p
    unfolding complete_def by (auto simp: sample_store_def sample_block_def CBlockIndex_null_def split: if_splits)
  ultimately show ?thesis by (simp add: tree_ok_def sample_tree_def)
qed

theorem FindMostWorkChain_best_witness:
  "\<exists>t'. FindMostWorkChain sample_tree = Some (Some 2, t') \<and> bt_chainActive t' = [Some 0]"
proof -
  let ?u = "usable sample_store [Some 0]"
  have on: "chain_at [Some 0] 0 = Some (0 :: nat)" "chain_at [Some (0 :: nat)] 1 = None" by (simp_all add: chain_at_def)
  have "off_chain sample_store [Some 0] 1 (sample_block 3 (BLOCK_HAVE_DATA OR BLOCK_FAILED_VALID))" "walk_prev sample_store 0 1 = Some 1"
    by (simp_all add: off_chain_def sample_store_def sample_block_def on CBlockIndex_null_def)
  moreover have "failed (sample_block 3 (BLOCK_HAVE_DATA OR BLOCK_FAILED_VALID))" by (simp add: failed_def sample_block_def)
  ultimately have u1: "\<not> ?u 1" unfolding usable_def by blast
  have "\<not> failed b \<and> \<not> missing_data b" if "walk_prev sample_store n 2 = Some q \<and> off_chain sample_store [Some 0] q b" for n q b
  proof -
    have "q = 0 \<or> q = 2" using that by (cases n) (auto simp: sample_walk simp del: walk_prev.simps(2) split: if_splits)
    then show ?thesis using that
      by (auto simp: off_chain_def on sample_store_def sample_block_def CBlockIndex_null_def failed_def missing_data_def)
  qed
  then have u2: "?u 2" unfolding usable_def by blast
  have less: "\<not> CBlockIndexWorkComparator sample_store 2 0"
    by (simp add: CBlockIndexWorkComparator_iff sample_store_def sample_block_def CBlockIndex_null_def)
  from FindMostWorkChain_best [OF sample_tree_ok] u1 u2 less show ?thesis
    by (auto simp: sample_tree_def split: option.splits)
qed

text \<open>Pruning removes exactly the candidates that are worse than the tip; its assertion holds while the tip itself, or something
  better, is a candidate.\<close>

theorem PruneBlockIndexCandidates_correct:
  assumes "tree_ok t" "Tip (bt_chainActive t) = Some tip" "c \<in> set (bt_setBlockIndexCandidates t)" "\<not> CBlockIndexWorkComparator (bt_mem t) c tip"
  shows "PruneBlockIndexCandidates t =
    Some (t\<lparr>bt_setBlockIndexCandidates := filter (\<lambda>p. \<not> CBlockIndexWorkComparator (bt_mem t) p tip) (bt_setBlockIndexCandidates t)\<rparr>)"
proof -
  have "is_oset (CBlockIndexWorkComparator (bt_mem t)) (dom (bt_mem t)) (bt_setBlockIndexCandidates t)" using assms(1) by (simp add: tree_ok_def)
  from work.dropWhile_filter [OF this, of tip] assms show ?thesis
    by (auto simp: PruneBlockIndexCandidates_def filter_empty_conv)
qed

end
