(* ===== verification/Headers.thy ===== *)
theory Headers
  imports BlockTree
begin

text \<open>
  Growing the tree of block headers, \<open>src/main.cpp\<close>: \<open>AddToBlockIndex\<close>, \<open>AcceptBlockHeader\<close>, \<open>ReceivedBlockTransactions\<close>
  and \<open>ReconsiderBlock\<close>. The address of a new entry is a parameter; that it is unused is a hypothesis. \<open>pnext\<close> is left
  out, as it is never read.
\<close>

section \<open>Adding a header\<close>

text \<open>A new entry \<open>p\<close>, already in the store, is linked to its predecessor \<open>q\<close>.\<close>

definition link_header :: "node \<Rightarrow> bool \<Rightarrow> u64 \<Rightarrow> uint256 \<Rightarrow> nat \<Rightarrow> nat \<Rightarrow> block_tree \<Rightarrow> block_tree option" where
  "link_header nd fTestNet literal hash p q t = do {
     prev \<leftarrow> bt_mem t q;
     b \<leftarrow> bt_mem t p;
     mem1 \<leftarrow> BuildSkip ((bt_mem t)(p \<mapsto> b\<lparr>bi_pprev := Some q, bi_nHeight := bi_nHeight prev + 1\<rparr>)) p;
     b1 \<leftarrow> mem1 p;
     trust \<leftarrow> GetBlockTrust b1;
     let b2 = b1\<lparr>bi_bnChainTrust := bi_bnChainTrust prev + trust\<rparr>;
     entropy \<leftarrow> GetStakeEntropyBit b2;
     let b3 = snd (SetStakeEntropyBit entropy b2);
     let proof0 = (case bt_mapProofOfStake t hash of None \<Rightarrow> 0 | Some h \<Rightarrow> h);
     let b4 = (if BI_IsProofOfStake b3 then b3\<lparr>bi_hashProofOfStake := proof0\<rparr> else b3);
     let t1 = (if BI_IsProofOfStake b3 then t\<lparr>bt_mapProofOfStake := (bt_mapProofOfStake t)(hash \<mapsto> proof0)\<rparr> else t);
     (ok, nStakeModifier, fGenerated) \<leftarrow>
       ComputeNextStakeModifier fTestNet literal (nd_params nd) (mem1(p \<mapsto> b4)) (map_of (bt_mapBlockIndex t)) (Some q);
     let b5 = SetStakeModifier nStakeModifier fGenerated b4;
     checksum \<leftarrow> GetStakeModifierChecksum (mem1(p \<mapsto> b5)) (nd_hashGenesisBlock nd) b5;
     Some (t1\<lparr>bt_mem := mem1(p \<mapsto> b5\<lparr>bi_nStakeModifierChecksum := checksum\<rparr>)\<rparr>) }"

definition AddToBlockIndex :: "node \<Rightarrow> bool \<Rightarrow> u64 \<Rightarrow> nat \<Rightarrow> CBlock \<Rightarrow> block_tree \<Rightarrow> (nat \<times> block_tree) option" where
  "AddToBlockIndex nd fTestNet literal fresh block t =
     (let hash = nd_GetHash nd (blk_header block) in
      case map_of (bt_mapBlockIndex t) hash of
        Some p \<Rightarrow> Some (p, t)
      | None \<Rightarrow> do {
          let b0 = (CBlockIndex_new block)\<lparr>bi_nSequenceId := 0, bi_phashBlock := Some hash\<rparr>;
          let t0 = t\<lparr>bt_mem := (bt_mem t)(fresh \<mapsto> b0), bt_mapBlockIndex := (hash, fresh) # bt_mapBlockIndex t,
                     bt_setStakeSeen := (if BI_IsProofOfStake b0 then insert (bi_prevoutStake b0, bi_nStakeTime b0) (bt_setStakeSeen t)
                                         else bt_setStakeSeen t)\<rparr>;
          t1 \<leftarrow> (case map_of (bt_mapBlockIndex t0) (bh_hashPrevBlock (blk_header block)) of
                  None \<Rightarrow> Some t0
                | Some q \<Rightarrow> link_header nd fTestNet literal hash fresh q t0);
          b1 \<leftarrow> bt_mem t1 fresh;
          prevWork \<leftarrow> (case bi_pprev b1 of None \<Rightarrow> Some 0 | Some q \<Rightarrow> map_option bi_nChainWork (bt_mem t1 q));
          nProof \<leftarrow> GetBlockProof b1;
          (raised, b2) \<leftarrow> RaiseValidity BLOCK_VALID_TREE (b1\<lparr>bi_nChainWork := prevWork + nProof\<rparr>);
          let mem2 = (bt_mem t1)(fresh \<mapsto> b2);
          best \<leftarrow> (case bt_pindexBestHeader t1 of
                    None \<Rightarrow> Some (Some fresh)
                  | Some h \<Rightarrow> do { c \<leftarrow> mem2 h; Some (if bi_nChainWork c < bi_nChainWork b2 then Some fresh else Some h) });
          Some (fresh, t1\<lparr>bt_mem := mem2, bt_pindexBestHeader := best,
                          bt_setDirtyBlockIndex := insert fresh (bt_setDirtyBlockIndex t1)\<rparr>) })"

text \<open>The checks read the tree through the node.\<close>

definition tree_node :: "node \<Rightarrow> block_tree \<Rightarrow> node" where
  "tree_node nd t = nd\<lparr>nd_mem := bt_mem t, nd_mapBlockIndex := map_of (bt_mapBlockIndex t), nd_chainActive := bt_chainActive t\<rparr>"

definition AcceptBlockHeader ::
  "node \<Rightarrow> bool \<Rightarrow> u64 \<Rightarrow> nat \<Rightarrow> CBlock \<Rightarrow> block_tree \<Rightarrow> ((reject + nat) \<times> block_tree) option" where
  "AcceptBlockHeader nd fTestNet literal fresh block t =
     (let header = blk_header block; hash = nd_GetHash nd header in
      case map_of (bt_mapBlockIndex t) hash of
        Some p \<Rightarrow> do { b \<leftarrow> bt_mem t p; Some (if failed b then Inl (reject_invalid 0 ''duplicate'') else Inr p, t) }
      | None \<Rightarrow>
         (case CheckBlockHeader nd header False of
            Some r \<Rightarrow> Some (Inl r, t)
          | None \<Rightarrow> do {
              prev \<leftarrow> (if hash = nd_hashGenesisBlock nd then Some (Inr None)
                      else case map_of (bt_mapBlockIndex t) (bh_hashPrevBlock header) of
                             None \<Rightarrow> Some (Inl (reject_dos 0 0 ''bad-prevblk''))
                           | Some q \<Rightarrow> do {
                               c \<leftarrow> bt_mem t q;
                               Some (if failed c then Inl (reject_dos 100 REJECT_INVALID ''bad-prevblk'') else Inr (Some q)) });
              case prev of
                Inl r \<Rightarrow> Some (Inl r, t)
              | Inr pindexPrev \<Rightarrow> do {
                  res \<leftarrow> ContextualCheckBlockHeader (tree_node nd t) header pindexPrev;
                  case res of
                    Some r \<Rightarrow> Some (Inl r, t)
                  | None \<Rightarrow> do { (p, t') \<leftarrow> AddToBlockIndex nd fTestNet literal fresh block t; Some (Inr p, t') } } }))"

section \<open>Linking a block whose data has arrived\<close>

text \<open>The queue of \<open>ReceivedBlockTransactions\<close>: a block all of whose ancestors are complete is counted, numbered and made a
  candidate unless it is worse than the tip, and the blocks that waited for it follow.\<close>

definition link_block :: "nat \<Rightarrow> block_tree \<Rightarrow> block_tree option" where
  "link_block p t = do {
     b \<leftarrow> bt_mem t p;
     nPrev \<leftarrow> (case bi_pprev b of None \<Rightarrow> Some 0 | Some q \<Rightarrow> map_option bi_nChainTx (bt_mem t q));
     let t1 = t\<lparr>bt_mem := (bt_mem t)(p \<mapsto> b\<lparr>bi_nChainTx := nPrev + bi_nTx b, bi_nSequenceId := bt_nBlockSequenceId t\<rparr>),
                bt_nBlockSequenceId := bt_nBlockSequenceId t + 1\<rparr>;
     Some (case Tip (bt_chainActive t1) of
             None \<Rightarrow> candidates_insert p t1
           | Some tip \<Rightarrow> if \<not> CBlockIndexWorkComparator (bt_mem t1) p tip then candidates_insert p t1 else t1) }"

lemma link_block_unlinked: "link_block p t = Some t1 \<Longrightarrow> bt_mapBlocksUnlinked t1 = bt_mapBlocksUnlinked t"
  by (auto simp: link_block_def candidates_insert_def Let_def split: Option.bind_splits option.splits if_splits)

function link_queue :: "nat list \<Rightarrow> block_tree \<Rightarrow> block_tree option" where
  "link_queue [] t = Some t"
| "link_queue (p # queue) t =
     (case link_block p t of
        None \<Rightarrow> None
      | Some t1 \<Rightarrow>
          link_queue (queue @ map snd (filter (\<lambda>(k, _). k = Some p) (bt_mapBlocksUnlinked t1)))
            (t1\<lparr>bt_mapBlocksUnlinked := filter (\<lambda>(k, _). k \<noteq> Some p) (bt_mapBlocksUnlinked t1)\<rparr>))"
  by pat_completeness auto

termination
proof (relation "measure (\<lambda>(queue, t). length queue + length (bt_mapBlocksUnlinked t))")
  fix p queue t t1
  assume "link_block p t = Some t1"
  then have "bt_mapBlocksUnlinked t1 = bt_mapBlocksUnlinked t" by (rule link_block_unlinked)
  then show "((queue @ map snd (filter (\<lambda>(k, _). k = Some p) (bt_mapBlocksUnlinked t1)),
      t1\<lparr>bt_mapBlocksUnlinked := filter (\<lambda>(k, _). k \<noteq> Some p) (bt_mapBlocksUnlinked t1)\<rparr>), p # queue, t)
    \<in> measure (\<lambda>(queue, t). length queue + length (bt_mapBlocksUnlinked t))"
    using sum_length_filter_compl [of "\<lambda>(k, _). k = Some p" "bt_mapBlocksUnlinked t"] by (simp add: case_prod_beta')
qed simp

definition ReceivedBlockTransactions :: "CBlock \<Rightarrow> nat \<Rightarrow> CDiskBlockPos \<Rightarrow> block_tree \<Rightarrow> block_tree option" where
  "ReceivedBlockTransactions block p pos t = do {
     b \<leftarrow> bt_mem t p;
     let b1 = (if IsProofOfStake (blk_vtx block) then SetProofOfStake b else b);
     let b2 = b1\<lparr>bi_nTx := word_of_nat (length (blk_vtx block)), bi_nChainTx := 0, bi_nFile := dp_nFile pos,
                 bi_nDataPos := dp_nPos pos, bi_nUndoPos := 0, bi_nStatus := bi_nStatus b1 OR BLOCK_HAVE_DATA\<rparr>;
     (raised, b3) \<leftarrow> RaiseValidity BLOCK_VALID_TRANSACTIONS b2;
     let t1 = t\<lparr>bt_mem := (bt_mem t)(p \<mapsto> b3), bt_setDirtyBlockIndex := insert p (bt_setDirtyBlockIndex t)\<rparr>;
     case bi_pprev b3 of
       None \<Rightarrow> link_queue [p] t1
     | Some q \<Rightarrow> do {
         c \<leftarrow> bt_mem t1 q;
         if bi_nChainTx c \<noteq> 0 then link_queue [p] t1
         else do {
           valid \<leftarrow> BI_IsValid BLOCK_VALID_TREE c;
           Some (if valid then t1\<lparr>bt_mapBlocksUnlinked := bt_mapBlocksUnlinked t1 @ [(Some q, p)]\<rparr> else t1) } } }"

section \<open>Taking an invalidation back\<close>

text \<open>The walk over \<open>mapBlockIndex\<close>: a block that counts as invalid and descends from \<open>pindex\<close> is cleared.\<close>

definition reconsider_entry :: "nat \<Rightarrow> int \<Rightarrow> nat \<Rightarrow> block_tree \<Rightarrow> block_tree option" where
  "reconsider_entry pindex nHeight p t = do {
     b \<leftarrow> bt_mem t p;
     valid \<leftarrow> BI_IsValid BLOCK_VALID_TRANSACTIONS b;
     anc \<leftarrow> (if valid then Some None else GetAncestor (bt_mem t) p nHeight);
     if \<not> valid \<and> anc = Some pindex then do {
       let b1 = b\<lparr>bi_nStatus := bi_nStatus b AND NOT BLOCK_FAILED_MASK\<rparr>;
       let t1 = t\<lparr>bt_mem := (bt_mem t)(p \<mapsto> b1), bt_setDirtyBlockIndex := insert p (bt_setDirtyBlockIndex t)\<rparr>;
       valid1 \<leftarrow> BI_IsValid BLOCK_VALID_TRANSACTIONS b1;
       t2 \<leftarrow> (if valid1 \<and> bi_nChainTx b1 \<noteq> 0 then do {
                tip \<leftarrow> Tip (bt_chainActive t1);
                Some (if CBlockIndexWorkComparator (bt_mem t1) tip p then candidates_insert p t1 else t1) }
              else Some t1);
       Some (if bt_pindexBestInvalid t2 = Some p then t2\<lparr>bt_pindexBestInvalid := None\<rparr> else t2) }
     else Some t }"

fun reconsider_loop :: "nat \<Rightarrow> int \<Rightarrow> (uint256 \<times> nat) list \<Rightarrow> block_tree \<Rightarrow> block_tree option" where
  "reconsider_loop pindex nHeight [] t = Some t"
| "reconsider_loop pindex nHeight ((h, p) # entries) t =
     do { t1 \<leftarrow> reconsider_entry pindex nHeight p t; reconsider_loop pindex nHeight entries t1 }"

partial_function (option) clear_ancestors :: "nat option \<Rightarrow> block_tree \<Rightarrow> block_tree option" where
  "clear_ancestors pindex t =
     (case pindex of None \<Rightarrow> Some t
      | Some p \<Rightarrow> do {
          b \<leftarrow> bt_mem t p;
          let t1 = (if failed b
                    then t\<lparr>bt_mem := (bt_mem t)(p \<mapsto> b\<lparr>bi_nStatus := bi_nStatus b AND NOT BLOCK_FAILED_MASK\<rparr>),
                           bt_setDirtyBlockIndex := insert p (bt_setDirtyBlockIndex t)\<rparr>
                    else t);
          clear_ancestors (bi_pprev b) t1 })"

definition ReconsiderBlock :: "nat \<Rightarrow> block_tree \<Rightarrow> block_tree option" where
  "ReconsiderBlock pindex t = do {
     b \<leftarrow> bt_mem t pindex;
     t1 \<leftarrow> reconsider_loop pindex (bi_nHeight b) (bt_mapBlockIndex t) t;
     clear_ancestors (Some pindex) t1 }"

section \<open>The next modifier in a larger tree\<close>

text \<open>A modifier that has been computed stays the same when entries are added to the index.\<close>

lemma last_modifier_walk_mono: "last_modifier_walk mem p = Some q \<Longrightarrow> mem \<subseteq>\<^sub>m mem' \<Longrightarrow> last_modifier_walk mem' p = Some q"
proof (induction rule: last_modifier_walk.raw_induct [rotated, consumes 1])
  case (1 walk mem p q)
  then obtain b where b: "mem p = Some b" by (auto split: Option.bind_splits)
  then have "mem' p = Some b" using 1(3) by (auto simp: map_le_def dom_def)
  then show ?case using 1 b by (subst last_modifier_walk.simps) (auto split: option.splits if_splits)
qed

lemma candidates_walk_mono:
  "candidates_walk mem ptr start = Some xs \<Longrightarrow> mem \<subseteq>\<^sub>m mem' \<Longrightarrow> candidates_walk mem' ptr start = Some xs"
proof (induction rule: candidates_walk.raw_induct [rotated, consumes 1])
  case (1 walk mem ptr start xs)
  show ?case
  proof (cases ptr)
    case None
    then show ?thesis using 1 by (subst candidates_walk.simps) simp
  next
    case (Some p)
    then obtain b where b: "mem p = Some b" using 1 by (auto split: Option.bind_splits)
    then have "mem' p = Some b" using 1(3) by (auto simp: map_le_def dom_def)
    then show ?thesis using 1 b Some by (subst candidates_walk.simps) (auto split: Option.bind_splits if_splits)
  qed
qed

lemma select_loop_mono:
  "select_loop ps mem M selected stop nPrev items v2 best = Some (Inr r) \<Longrightarrow> mem \<subseteq>\<^sub>m mem' \<Longrightarrow> M \<subseteq>\<^sub>m M' \<Longrightarrow>
   select_loop ps mem' M' selected stop nPrev items v2 best = Some (Inr r)"
proof (induction items arbitrary: v2 best)
  case (Cons item items)
  obtain p where p: "M (snd item) = Some p" using Cons.prems(1) by (auto split: option.splits)
  obtain b where b: "mem p = Some b" using Cons.prems(1) p by (auto split: Option.bind_splits)
  have "M' (snd item) = Some p" "mem' p = Some b" using p b Cons.prems(2,3) by (auto simp: map_le_def dom_def)
  then show ?case using Cons p b by (auto simp: Let_def split: if_splits Option.bind_splits)
qed simp

lemma select_block_mono:
  assumes "SelectBlockFromCandidates ps mem M vSorted selected stop nPrev = Some (Some p)" "mem \<subseteq>\<^sub>m mem'" "M \<subseteq>\<^sub>m M'"
  shows "SelectBlockFromCandidates ps mem' M' vSorted selected stop nPrev = Some (Some p)"
proof -
  obtain z where z: "select_loop ps mem M selected stop nPrev vSorted None None = Some z"
    using assms(1) by (auto simp: SelectBlockFromCandidates_def)
  then obtain best where "z = Inr best" "map_option snd best = Some p"
    using assms(1) by (cases z) (simp_all add: SelectBlockFromCandidates_def)
  with z have best: "select_loop ps mem M selected stop nPrev vSorted None None = Some (Inr best)" "map_option snd best = Some p" by simp_all
  then show ?thesis using select_loop_mono [OF best(1) assms(2,3)] by (simp add: SelectBlockFromCandidates_def)
qed

lemma modifier_rounds_mono:
  "modifier_rounds fTestNet ps mem M vSorted nPrev rounds selected stop nNew = Some (Inr m) \<Longrightarrow> mem \<subseteq>\<^sub>m mem' \<Longrightarrow> M \<subseteq>\<^sub>m M' \<Longrightarrow>
   modifier_rounds fTestNet ps mem' M' vSorted nPrev rounds selected stop nNew = Some (Inr m)"
proof (induction rounds arbitrary: selected stop nNew)
  case (Cons nRound rounds)
  let ?sel = "\<lambda>a. SelectBlockFromCandidates ps mem M vSorted selected (stop + a) nPrev"
  note step = Cons.prems(1) [unfolded modifier_rounds.simps Let_def]
  obtain a where a: "GetStakeModifierSelectionIntervalSection fTestNet (int nRound) = Some a"
    using step by (cases "GetStakeModifierSelectionIntervalSection fTestNet (int nRound)") simp_all
  note step = step [unfolded a Option.bind.bind_lunit]
  obtain r where r: "?sel a = Some r" using step by (cases "?sel a") simp_all
  note step = step [unfolded r Option.bind.bind_lunit]
  obtain p where p: "r = Some p" using step by (cases r) simp_all
  note step = step [unfolded p option.case]
  obtain b where b: "mem p = Some b" using step by (cases "mem p") simp_all
  note step = step [unfolded b Option.bind.bind_lunit]
  obtain e where e: "GetStakeEntropyBit b = Some e" using step by (cases "GetStakeEntropyBit b") simp_all
  note step = step [unfolded e Option.bind.bind_lunit]
  obtain h where h: "bi_phashBlock b = Some h" using step by (cases "bi_phashBlock b") simp_all
  note step = step [unfolded h Option.bind.bind_lunit]
  have b': "mem' p = Some b" using b Cons.prems(2) by (auto simp: map_le_def dom_def)
  show ?case
    unfolding modifier_rounds.simps a Option.bind.bind_lunit Let_def select_block_mono [OF r [unfolded p] Cons.prems(2,3)] option.case b' e h
    by (rule Cons.IH [OF step Cons.prems(2,3)])
qed simp

lemma next_modifier_mono:
  assumes run: "ComputeNextStakeModifier fTestNet literal ps mem M (Some q) = Some (True, m, g)" and le: "mem \<subseteq>\<^sub>m mem'" "M \<subseteq>\<^sub>m M'"
  shows "ComputeNextStakeModifier fTestNet literal ps mem' M' (Some q) = Some (True, m, g)"
proof -
  have keep: "mem' x = Some b" if "mem x = Some b" for x b using that le(1) by (auto simp: map_le_def dom_def)
  obtain prev where prev: "mem q = Some prev" using run by (auto simp: ComputeNextStakeModifier_def split: Option.bind_splits)
  show ?thesis
  proof (cases "bi_nHeight prev = 0")
    case True
    then show ?thesis using run prev keep [OF prev] by (simp add: ComputeNextStakeModifier_def)
  next
    case False
    obtain x b where x: "last_modifier_walk mem q = Some x" "mem x = Some b"
      using run prev False by (auto simp: ComputeNextStakeModifier_def GetLastStakeModifier_def bind_eq_Some_conv)
    have last: "GetLastStakeModifier mem' (Some q) = GetLastStakeModifier mem (Some q)"
      using x last_modifier_walk_mono [OF x(1) le(1)] keep [OF x(2)] by (simp add: GetLastStakeModifier_def)
    obtain n t where l: "GetLastStakeModifier mem (Some q) = Some (Some (n, t))"
      using run prev False x by (auto simp: ComputeNextStakeModifier_def GetLastStakeModifier_def split: if_splits)
    define iv where "iv = getIntervalVersion fTestNet"
    note run' = run [unfolded ComputeNextStakeModifier_def option.case prev Option.bind.bind_lunit Let_def l prod.case iv_def [symmetric]]
    show ?thesis
    proof (cases "GetBlockTime prev div iv \<le> t div iv")
      case True
      then show ?thesis using run' keep [OF prev] False l by (simp add: ComputeNextStakeModifier_def last iv_def)
    next
      case new: False
      define start where "start = GetBlockTime prev div iv * iv - 2087"
      obtain xs where xs: "candidates_walk mem (Some q) start = Some xs"
        using run' False new by (cases "candidates_walk mem (Some q) start") (simp_all add: interval_value start_def)
      let ?rounds = "\<lambda>mem M. modifier_rounds fTestNet ps mem M (sort (rev xs)) n [0..<min 64 (length xs)] [] start 0"
      obtain y where y: "?rounds mem M = Some y"
        using run' False new xs by (cases "?rounds mem M") (simp_all add: interval_value start_def [symmetric])
      have rounds: "?rounds mem M = Some (Inr m)" "g"
        using run' False new xs y by (cases y; simp add: interval_value start_def [symmetric])+
      have "candidates_walk mem' (Some q) start = Some xs" "?rounds mem' M' = Some (Inr m)"
        using candidates_walk_mono [OF xs le(1)] modifier_rounds_mono [OF rounds(1) le] by simp_all
      then show ?thesis
        using keep [OF prev] False new l rounds(2)
        by (simp add: ComputeNextStakeModifier_def last Let_def interval_value start_def iv_def)
    qed
  qed
qed

section \<open>Adding headers keeps the tree\<close>

lemma GetBlockTrust_total: "\<exists>w. GetBlockTrust b = Some w"
proof -
  have "fst (SetCompact (bi_nBits b)) + 1 \<noteq> 0" using SetCompact_not_max [of "bi_nBits b"] eq_neg_iff_add_eq_0 by blast
  then show ?thesis by (simp add: GetBlockTrust_def uint256_div_def Let_def)
qed

lemma GetBlockProof_total: "\<exists>w. GetBlockProof b = Some w"
proof -
  have "fst (SetCompact (bi_nBits b)) + 1 \<noteq> 0" using SetCompact_not_max [of "bi_nBits b"] eq_neg_iff_add_eq_0 by blast
  then show ?thesis by (auto simp: GetBlockProof_def uint256_div_def split: prod.splits)
qed

lemma next_modifier_total:
  assumes "wf_index mem" "wf_hashes mem M" "mem q = Some c"
    and "\<And>p b. mem p = Some b \<Longrightarrow> bi_nHeight b = 1 \<Longrightarrow> bi_nHeight c \<noteq> 0 \<Longrightarrow> GeneratedStakeModifier b"
  shows "\<exists>m g. ComputeNextStakeModifier fTestNet literal ps mem M (Some q) = Some (True, m, g) \<and> (bi_nHeight c = 0 \<longrightarrow> g)"
proof (cases "bi_nHeight c = 0")
  case True
  then show ?thesis using assms(3) by (intro exI [of _ literal] exI [of _ True]) (simp add: ComputeNextStakeModifier_def)
next
  case False
  let ?n = "nat (bi_nHeight c - 1)"
  have "0 \<le> bi_nHeight c" by (rule wf_indexD(1) [OF assms(1,3)])
  then have n: "int ?n \<le> bi_nHeight c" "bi_nHeight c - int ?n = 1" using False by simp_all
  from walk_prev_height [OF assms(1,3) n(1)] obtain r d where
    "walk_prev mem ?n q = Some r" "mem r = Some d" "bi_nHeight d = 1" unfolding n(2) by blast
  then show ?thesis using next_modifier_returns [OF assms(1-3) False] assms(4) False by blast
qed

text \<open>What the fields that \<open>link_header\<close> sets leave alone.\<close>

definition body :: "CBlockIndex \<Rightarrow> CBlockIndex" where
  "body b = b\<lparr>bi_pprev := None, bi_pskip := None, bi_nHeight := 0, bi_bnChainTrust := 0, bi_nFlags := 0, bi_hashProofOfStake := 0,
     bi_nStakeModifier := 0, bi_nStakeModifierChecksum := 0\<rparr>"

lemma body_select [simp]:
"bi_nStatus (body b) = bi_nStatus b" "bi_phashBlock (body b) = bi_phashBlock b" "bi_nTx (body b) = bi_nTx b" "bi_nChainTx (body b) = bi_nChainTx b" "bi_nVersion (body b) = bi_nVersion b" "bi_hashMerkleRoot (body b) = bi_hashMerkleRoot b" "bi_nTime (body b) = bi_nTime b" "bi_nBits (body b) = bi_nBits b" "bi_nNonce (body b) = bi_nNonce b"
  by (simp_all add: body_def)

lemma body_eqD:
  assumes "body b = body c"
  shows "bi_nStatus b = bi_nStatus c" "bi_phashBlock b = bi_phashBlock c" "bi_nTx b = bi_nTx c" "bi_nChainTx b = bi_nChainTx c" "bi_nVersion b = bi_nVersion c" "bi_hashMerkleRoot b = bi_hashMerkleRoot c" "bi_nTime b = bi_nTime c" "bi_nBits b = bi_nBits c" "bi_nNonce b = bi_nNonce c"
  by (metis assms body_select)+

lemma CBlockIndex_new_select:
  "bi_nStatus (CBlockIndex_new block) = 0" "bi_nTx (CBlockIndex_new block) = 0" "bi_nChainTx (CBlockIndex_new block) = 0"
  "bi_nVersion (CBlockIndex_new block) = bh_nVersion (blk_header block)"
  "bi_hashMerkleRoot (CBlockIndex_new block) = bh_hashMerkleRoot (blk_header block)"
  "bi_nTime (CBlockIndex_new block) = bh_nTime (blk_header block)" "bi_nBits (CBlockIndex_new block) = bh_nBits (blk_header block)"
  "bi_nNonce (CBlockIndex_new block) = bh_nNonce (blk_header block)"
  by (simp_all add: CBlockIndex_new_def SetProofOfStake_def CBlockIndex_null_def Let_def)

lemma SetStakeEntropyBit_body: "body (snd (SetStakeEntropyBit e b)) = body b"
  by (simp add: SetStakeEntropyBit_def body_def)

text \<open>Only \<open>SetStakeModifier\<close> sets the flag of a generated modifier.\<close>

lemma GeneratedStakeModifier_bit: "GeneratedStakeModifier b \<longleftrightarrow> bit (bi_nFlags b) 2"
proof -
  have "push_bit 2 1 = (4 :: u32)" by simp
  then show ?thesis unfolding GeneratedStakeModifier_def bit_iff_and_push_bit_not_eq_0 by simp
qed

lemma SetStakeModifier_generated:
  "\<not> GeneratedStakeModifier b \<Longrightarrow> GeneratedStakeModifier (SetStakeModifier m g b) = g \<and> bi_nStakeModifier (SetStakeModifier m g b) = m"
  unfolding GeneratedStakeModifier_bit by (simp add: SetStakeModifier_def Let_def bit_or_iff)

lemma SetStakeEntropyBit_generated: "GeneratedStakeModifier (snd (SetStakeEntropyBit e b)) = GeneratedStakeModifier b"
  unfolding GeneratedStakeModifier_bit by (auto simp: SetStakeEntropyBit_def bit_or_iff)

lemma CBlockIndex_new_generated: "\<not> GeneratedStakeModifier (CBlockIndex_new block)"
  unfolding GeneratedStakeModifier_bit
  by (simp add: CBlockIndex_new_def SetProofOfStake_def CBlockIndex_null_def Let_def bit_or_iff)

lemma wf_hashes_add:
  assumes "wf_hashes mem (map_of M)" "map_of M hash = None" "bi_phashBlock b = Some hash"
  shows "wf_hashes (mem(p \<mapsto> b)) (map_of ((hash, p) # M))"
  unfolding wf_hashes_def
proof (intro allI impI)
  fix x c
  assume c: "(mem(p \<mapsto> b)) x = Some c"
  show "\<exists>h. bi_phashBlock c = Some h \<and> map_of ((hash, p) # M) h = Some x"
  proof (cases "x = p")
    case False
    then obtain h where "bi_phashBlock c = Some h" "map_of M h = Some x" using assms(1) c unfolding wf_hashes_def by auto
    then show ?thesis using assms(2) by (intro exI [of _ h]) auto
  qed (use c assms(3) in simp)
qed

lemma link_header_correct:
  assumes wf: "wf_index mem" "wf_hashes mem (map_of M)" "\<And>p b. mem p = Some b \<Longrightarrow> bi_nHeight b = 1 \<Longrightarrow> GeneratedStakeModifier b"
    and new: "mem p = None" "map_of M hash = None" "bi_phashBlock b0 = Some hash" "\<not> GeneratedStakeModifier b0"
    and q: "mem q = Some prev"
    and t: "bt_mem t = mem(p \<mapsto> b0)" "bt_mapBlockIndex t = (hash, p) # M"
  shows "\<exists>b m. link_header nd fTestNet literal hash p q t = Some (t\<lparr>bt_mapProofOfStake := m, bt_mem := mem(p \<mapsto> b)\<rparr>) \<and>
    wf_index (mem(p \<mapsto> b)) \<and> bi_pprev b = Some q \<and> bi_nHeight b = bi_nHeight prev + 1 \<and> body b = body b0 \<and>
    (bi_nHeight b = 1 \<longrightarrow> GeneratedStakeModifier b) \<and>
    ComputeNextStakeModifier fTestNet literal (nd_params nd) mem (map_of M) (Some q) =
      Some (True, bi_nStakeModifier b, GeneratedStakeModifier b)"
proof -
  have pq: "q \<noteq> p" using new(1) q by auto
  define bp where "bp = b0\<lparr>bi_pprev := Some q, bi_nHeight := bi_nHeight prev + 1\<rparr>"
  obtain s where s: "BuildSkip (mem(p \<mapsto> bp)) p = Some (mem(p \<mapsto> bp\<lparr>bi_pskip := s\<rparr>))" "wf_index (mem(p \<mapsto> bp\<lparr>bi_pskip := s\<rparr>))"
    using wf_index_add [OF wf(1) new(1) q, of bp] by (auto simp: bp_def)
  define b1 where "b1 = bp\<lparr>bi_pskip := s\<rparr>"
  have wf': "wf_index (mem(p \<mapsto> b))" if "bi_pprev b = bi_pprev b1" "bi_pskip b = bi_pskip b1" "bi_nHeight b = bi_nHeight b1" for b
    by (rule links_wf [OF _ s(2)]) (use that in \<open>auto simp: links_def b1_def fun_eq_iff\<close>)
  obtain w where w: "GetBlockTrust b1 = Some w" using GetBlockTrust_total by blast
  define b2 where "b2 = b1\<lparr>bi_bnChainTrust := bi_bnChainTrust prev + w\<rparr>"
  have e: "GetStakeEntropyBit b2 = Some (ucast hash AND 1)" using new(3) by (simp add: GetStakeEntropyBit_def b2_def b1_def bp_def)
  define b3 where "b3 = snd (SetStakeEntropyBit (ucast hash AND 1) b2)"
  define h0 where "h0 = (case bt_mapProofOfStake t hash of None \<Rightarrow> 0 | Some h \<Rightarrow> h)"
  define b4 where "b4 = (if BI_IsProofOfStake b3 then b3\<lparr>bi_hashProofOfStake := h0\<rparr> else b3)"
  have l4: "bi_pprev b4 = bi_pprev b1" "bi_pskip b4 = bi_pskip b1" "bi_nHeight b4 = bi_nHeight b1" "bi_phashBlock b4 = Some hash"
    using new(3) by (simp_all add: b4_def b3_def b2_def SetStakeEntropyBit_def b1_def bp_def)
  have h1: "bi_nHeight b1 = bi_nHeight prev + 1" "bi_pprev b1 = Some q" by (simp_all add: b1_def bp_def)
  obtain m g where mg: "ComputeNextStakeModifier fTestNet literal (nd_params nd) mem (map_of M) (Some q) = Some (True, m, g)"
    "bi_nHeight prev = 0 \<longrightarrow> g" using next_modifier_total [OF wf(1,2) q] wf(3) by blast
  have run: "ComputeNextStakeModifier fTestNet literal (nd_params nd) (mem(p \<mapsto> b4)) (map_of ((hash, p) # M)) (Some q) = Some (True, m, g)"
    by (rule next_modifier_mono [OF mg(1)]) (use new(1,2) in \<open>auto simp: map_le_def dom_def\<close>)
  define b5 where "b5 = SetStakeModifier m g b4"
  have l5: "bi_pprev b5 = Some q" "bi_pskip b5 = bi_pskip b1" "bi_nHeight b5 = bi_nHeight prev + 1"
    using l4 h1 by (simp_all add: b5_def SetStakeModifier_def Let_def)
  obtain ck where ck: "GetStakeModifierChecksum (mem(p \<mapsto> b5)) (nd_hashGenesisBlock nd) b5 = Some ck"
    using l5(1) q pq by (simp add: GetStakeModifierChecksum_def Let_def)
  let ?b = "b5\<lparr>bi_nStakeModifierChecksum := ck\<rparr>"
  have "\<not> GeneratedStakeModifier b4"
    using new(4) SetStakeEntropyBit_generated [of "ucast hash AND 1" b2]
    by (simp add: b4_def b3_def b2_def b1_def bp_def GeneratedStakeModifier_def)
  from SetStakeModifier_generated [OF this, of m g] have gen: "GeneratedStakeModifier ?b = g" "bi_nStakeModifier ?b = m"
    by (simp_all add: b5_def GeneratedStakeModifier_def)
  have "body ?b = body b3" by (simp add: body_def b5_def SetStakeModifier_def b4_def Let_def)
  also have "\<dots> = body b0" by (simp add: b3_def SetStakeEntropyBit_body) (simp add: body_def b2_def b1_def bp_def)
  finally have bd: "body ?b = body b0" .
  define m' where "m' = (if BI_IsProofOfStake b3 then (bt_mapProofOfStake t)(hash \<mapsto> h0) else bt_mapProofOfStake t)"
  have mt: "bt_mem t q = Some prev" "bt_mem t p = Some b0" "(bt_mem t)(p \<mapsto> bp) = mem(p \<mapsto> bp)" using t(1) q pq by simp_all
  have "link_header nd fTestNet literal hash p q t = Some (t\<lparr>bt_mapProofOfStake := m', bt_mem := mem(p \<mapsto> ?b)\<rparr>)"
    using s(1) w e run ck unfolding b1_def [symmetric]
    unfolding link_header_def Let_def mt Option.bind.bind_lunit bp_def [symmetric] t(2)
    by (cases "BI_IsProofOfStake b3")
      (simp_all add: b2_def [symmetric] b3_def [symmetric] h0_def [symmetric] b4_def b5_def m'_def)
  then show ?thesis using wf' [of ?b] l5 h1 bd gen mg by (intro exI [of _ ?b] exI [of _ m']) simp
qed

text \<open>The invariant: the tree is consistent, every entry is found under its hash and only there, the chain work of an entry is that
  of its predecessor and its own, and the best header has the most work.\<close>

definition prev_work :: "block_store \<Rightarrow> CBlockIndex \<Rightarrow> uint256" where
  "prev_work mem b = (case bi_pprev b of None \<Rightarrow> 0 | Some q \<Rightarrow> (case mem q of None \<Rightarrow> 0 | Some c \<Rightarrow> bi_nChainWork c))"

definition header_ok :: "block_tree \<Rightarrow> bool" where
  "header_ok t \<longleftrightarrow> tree_ok t \<and> wf_hashes (bt_mem t) (map_of (bt_mapBlockIndex t)) \<and>
     (\<forall>h p. map_of (bt_mapBlockIndex t) h = Some p \<longrightarrow> (\<exists>b. bt_mem t p = Some b \<and> bi_phashBlock b = Some h)) \<and>
     (\<forall>p b. bt_mem t p = Some b \<longrightarrow>
        (bi_nHeight b = 1 \<longrightarrow> GeneratedStakeModifier b) \<and>
        (\<exists>w. GetBlockProof b = Some w \<and> bi_nChainWork b = prev_work (bt_mem t) b + w) \<and>
        (\<exists>q c. bt_pindexBestHeader t = Some q \<and> bt_mem t q = Some c \<and> bi_nChainWork b \<le> bi_nChainWork c)) \<and>
     (\<forall>q. bt_pindexBestHeader t = Some q \<longrightarrow> q \<in> dom (bt_mem t))"

lemma wf_index_add_root:
  assumes "wf_index mem" "mem p = None" "bi_pprev b = None" "bi_pskip b = None" "bi_nHeight b = 0"
  shows "wf_index (mem(p \<mapsto> b))"
  unfolding wf_index_def
proof (intro allI impI)
  fix x d
  assume x: "(mem(p \<mapsto> b)) x = Some d"
  have le: "mem \<subseteq>\<^sub>m mem(p \<mapsto> b)" using assms(2) by (auto simp: map_le_def dom_def)
  show "0 \<le> bi_nHeight d \<and> (bi_pprev d = None \<longleftrightarrow> bi_nHeight d = 0) \<and>
      (\<forall>q. bi_pprev d = Some q \<longrightarrow> (\<exists>c. (mem(p \<mapsto> b)) q = Some c \<and> bi_nHeight d = bi_nHeight c + 1)) \<and>
      bi_pskip d = (if bi_nHeight d = 0 then None else walk_prev (mem(p \<mapsto> b)) (nat (bi_nHeight d - GetSkipHeight (bi_nHeight d))) x)"
  proof (cases "x = p")
    case True
    then show ?thesis using x assms(3-5) by auto
  next
    case False
    then have d: "mem x = Some d" using x by simp
    have "bi_pskip d = walk_prev (mem(p \<mapsto> b)) (nat (bi_nHeight d - GetSkipHeight (bi_nHeight d))) x" if "bi_nHeight d \<noteq> 0"
      using wf_indexD(4) [OF assms(1) d that] wf_indexD(1) [OF assms(1) d] that skip_height [of "bi_nHeight d"]
        walk_prev_height [OF assms(1) d, of "nat (bi_nHeight d - GetSkipHeight (bi_nHeight d))"]
        walk_prev_mono [OF le, of "nat (bi_nHeight d - GetSkipHeight (bi_nHeight d))" x] by auto
    moreover have "\<exists>c. (mem(p \<mapsto> b)) y = Some c \<and> bi_nHeight d = bi_nHeight c + 1" if "bi_pprev d = Some y" for y
      using wf_indexD(3) [OF assms(1) d that] assms(2) by (cases "y = p") auto
    moreover have "bi_pskip d = None" if "bi_nHeight d = 0" using assms(1) d that by (auto simp: wf_index_def)
    ultimately show ?thesis using wf_indexD(1,2) [OF assms(1) d] by simp
  qed
qed

lemma walk_prev_extend:
  assumes "wf_index mem" "mem x = Some b" "mem p = None"
  shows "walk_prev (mem(p \<mapsto> c)) n x = walk_prev mem n x"
  using assms(2)
proof (induction n arbitrary: x b)
  case (Suc n)
  have x: "x \<noteq> p" using Suc.prems assms(3) by auto
  show ?case
  proof (cases "bi_pprev b")
    case None
    then show ?thesis using Suc.prems x by simp
  next
    case (Some q)
    then obtain d where "mem q = Some d" using wf_indexD(3) [OF assms(1) Suc.prems] by blast
    then show ?thesis using Suc Some x by simp
  qed
qed simp

lemma tree_ok_extend:
  assumes ok: "tree_ok t" and new: "bt_mem t p = None" and wf: "wf_index ((bt_mem t)(p \<mapsto> c))"
    and t': "bt_mem t' = (bt_mem t)(p \<mapsto> c)" "bt_chainActive t' = bt_chainActive t"
      "bt_setBlockIndexCandidates t' = bt_setBlockIndexCandidates t" "bt_pindexBestInvalid t' = bt_pindexBestInvalid t"
  shows "tree_ok t'"
proof -
  let ?mem = "bt_mem t" and ?mem' = "(bt_mem t)(p \<mapsto> c)"
  note wf0 = ok [unfolded tree_ok_def, THEN conjunct1]
  have ch: "chain_of ?mem' x = chain_of ?mem x" if "?mem x = Some b" for x b
    using that new walk_prev_extend [OF wf0 that new] by (auto simp: chain_of_def)
  have "is_chain ?mem' (bt_chainActive t)"
    using ok ch unfolding tree_ok_def is_chain_def by (metis fun_upd_apply new not_None_eq)
  moreover have "is_oset (CBlockIndexWorkComparator ?mem') (dom ?mem') (bt_setBlockIndexCandidates t)"
  proof -
    have "CBlockIndexWorkComparator ?mem' x y" if "CBlockIndexWorkComparator ?mem x y" for x y
      using that new unfolding CBlockIndexWorkComparator_iff by (auto split: if_splits)
    then show ?thesis using ok unfolding tree_ok_def is_oset_def by (auto intro: sorted_wrt_mono_rel)
  qed
  moreover have "complete ?mem' x" if x: "x \<in> set (bt_setBlockIndexCandidates t)" for x
  proof -
    obtain b where b: "?mem x = Some b" using ok x unfolding tree_ok_def is_oset_def by blast
    have "?mem q \<noteq> None" if "walk_prev ?mem n x = Some q" for n q
      using walk_prev_height [OF wf0 b walk_prev_ge [OF wf0 b that]] that by auto
    then show ?thesis using ok x new unfolding tree_ok_def complete_def walk_prev_extend [OF wf0 b new]
      by (metis fun_upd_apply)
  qed
  ultimately show ?thesis using ok wf unfolding tree_ok_def t' by auto
qed

lemma linked_entry:
  fixes block :: CBlock
  defines "hash \<equiv> \<lambda>nd :: node. nd_GetHash nd (blk_header block)"
  assumes ok: "header_ok t" and new: "bt_mem t p = None" "map_of (bt_mapBlockIndex t) (hash nd) = None"
    and self: "bh_hashPrevBlock (blk_header block) \<noteq> hash nd"
    and b0: "b0 = (CBlockIndex_new block)\<lparr>bi_nSequenceId := 0, bi_phashBlock := Some (hash nd)\<rparr>"
    and t0: "bt_mem t0 = (bt_mem t)(p \<mapsto> b0)" "bt_mapBlockIndex t0 = (hash nd, p) # bt_mapBlockIndex t"
  shows "\<exists>b m. (case map_of (bt_mapBlockIndex t0) (bh_hashPrevBlock (blk_header block)) of
        None \<Rightarrow> Some t0 | Some q \<Rightarrow> link_header nd fTestNet literal (hash nd) p q t0) =
      Some (t0\<lparr>bt_mapProofOfStake := m, bt_mem := (bt_mem t)(p \<mapsto> b)\<rparr>) \<and>
    wf_index ((bt_mem t)(p \<mapsto> b)) \<and> bi_pprev b = map_of (bt_mapBlockIndex t) (bh_hashPrevBlock (blk_header block)) \<and>
    body b = body b0 \<and> (bi_nHeight b = 1 \<longrightarrow> GeneratedStakeModifier b) \<and>
    (\<forall>q. bi_pprev b = Some q \<longrightarrow> ComputeNextStakeModifier fTestNet literal (nd_params nd) (bt_mem t) (map_of (bt_mapBlockIndex t)) (Some q) =
      Some (True, bi_nStakeModifier b, GeneratedStakeModifier b))"
proof -
  let ?q = "map_of (bt_mapBlockIndex t) (bh_hashPrevBlock (blk_header block))"
  have q: "map_of (bt_mapBlockIndex t0) (bh_hashPrevBlock (blk_header block)) = ?q" using self t0(2) by simp
  have wf: "wf_index (bt_mem t)" using ok by (simp add: header_ok_def tree_ok_def)
  have root: "bi_pprev b0 = None" "bi_pskip b0 = None" "bi_nHeight b0 = 0"
    unfolding b0 CBlockIndex_new_def SetProofOfStake_def Let_def by (simp_all add: CBlockIndex_null_def)
  show ?thesis
  proof (cases ?q)
    case None
    have "t0\<lparr>bt_mapProofOfStake := bt_mapProofOfStake t0, bt_mem := (bt_mem t)(p \<mapsto> b0)\<rparr> = t0" using t0(1) by (cases t0) simp
    then show ?thesis using None q root wf_index_add_root [OF wf new(1) root]
      by (intro exI [of _ b0] exI [of _ "bt_mapProofOfStake t0"]) simp
  next
    case (Some r)
    then obtain prev where prev: "bt_mem t r = Some prev" using ok unfolding header_ok_def by blast
    have "bi_phashBlock b0 = Some (hash nd)" "\<not> GeneratedStakeModifier b0"
      using CBlockIndex_new_generated [of block] by (simp_all add: b0 GeneratedStakeModifier_def)
    from link_header_correct [OF wf _ _ new this prev t0, of nd fTestNet literal] ok
    show ?thesis unfolding q Some header_ok_def by auto
  qed
qed

text \<open>The invariant survives a new entry that has the work of its predecessor and its own.\<close>

lemma header_ok_extend:
  assumes ok: "header_ok t" and new: "bt_mem t p = None" "map_of (bt_mapBlockIndex t) hash = None"
    and wf: "wf_index ((bt_mem t)(p \<mapsto> b))" and b: "bi_phashBlock b = Some hash" "bi_nHeight b = 1 \<longrightarrow> GeneratedStakeModifier b"
      "GetBlockProof b = Some w" "bi_nChainWork b = prev_work (bt_mem t) b + w"
    and best: "bt_pindexBestHeader t' = (case bt_pindexBestHeader t of None \<Rightarrow> Some p
        | Some h \<Rightarrow> (case bt_mem t h of None \<Rightarrow> None | Some c \<Rightarrow> if bi_nChainWork c < bi_nChainWork b then Some p else Some h))"
    and t': "bt_mem t' = (bt_mem t)(p \<mapsto> b)" "bt_mapBlockIndex t' = (hash, p) # bt_mapBlockIndex t" "bt_chainActive t' = bt_chainActive t"
      "bt_setBlockIndexCandidates t' = bt_setBlockIndexCandidates t" "bt_pindexBestInvalid t' = bt_pindexBestInvalid t"
  shows "header_ok t'"
proof -
  let ?mem = "bt_mem t" and ?mem' = "(bt_mem t)(p \<mapsto> b)"
  have ok': "tree_ok t" "wf_hashes ?mem (map_of (bt_mapBlockIndex t))" using ok by (auto simp: header_ok_def)
  have old: "GeneratedStakeModifier c" if "?mem x = Some c" "bi_nHeight c = 1" for x c
    using ok that unfolding header_ok_def by blast
  have pw: "prev_work ?mem' c = prev_work ?mem c" if x: "?mem' x = Some c" for x c
  proof -
    have "q \<noteq> p" if q: "bi_pprev c = Some q" for q
    proof
      assume "q = p"
      then have "bi_nHeight c = bi_nHeight b + 1" using wf_indexD(3) [OF wf x q] by simp
      then have "?mem x = Some c" using x by (auto split: if_splits)
      then have "\<exists>d. ?mem q = Some d" using wf_indexD(3) [OF _ _ q, of ?mem x] ok'(1) unfolding tree_ok_def by blast
      then show False using new(1) \<open>q = p\<close> by simp
    qed
    then show ?thesis by (auto simp: prev_work_def split: option.splits)
  qed
  have work: "\<exists>w. GetBlockProof c = Some w \<and> bi_nChainWork c = prev_work ?mem' c + w" if "?mem' x = Some c" for x c
  proof (cases "x = p")
    case True
    then show ?thesis using that b(3,4) pw [OF that] by auto
  next
    case False
    then show ?thesis using that ok pw [OF that] unfolding header_ok_def by auto
  qed
  have top: "\<exists>q d. bt_pindexBestHeader t' = Some q \<and> ?mem' q = Some d \<and> bi_nChainWork c \<le> bi_nChainWork d \<and> bi_nChainWork b \<le> bi_nChainWork d"
    if "?mem' x = Some c" for x c
  proof (cases "bt_pindexBestHeader t")
    case None
    then have "?mem x = None" using ok unfolding header_ok_def by (metis not_None_eq option.distinct(1))
    then show ?thesis using that best None by (auto split: if_splits)
  next
    case (Some h)
    obtain d where d: "?mem h = Some d" using ok Some unfolding header_ok_def by blast
    have "bi_nChainWork c \<le> bi_nChainWork d" if "?mem x = Some c" using ok Some d that unfolding header_ok_def by fastforce
    moreover have "h \<noteq> p" using new(1) d by auto
    ultimately show ?thesis using that best Some d by (cases "x = p") (auto intro: order_trans less_imp_le)
  qed
  have hashes: "\<exists>c. ?mem' x = Some c \<and> bi_phashBlock c = Some h" if hx: "map_of ((hash, p) # bt_mapBlockIndex t) h = Some x" for h x
  proof (cases "h = hash")
    case False
    then have "map_of (bt_mapBlockIndex t) h = Some x" using hx by simp
    then obtain c where "?mem x = Some c" "bi_phashBlock c = Some h" using ok unfolding header_ok_def by blast
    then show ?thesis using new(1) by (auto split: if_splits)
  qed (use hx b(1) in simp)
  have "\<forall>q. bt_pindexBestHeader t' = Some q \<longrightarrow> q \<in> dom ?mem'" using top [of p b] by auto
  moreover have "GeneratedStakeModifier c" if "?mem' x = Some c" "bi_nHeight c = 1" for x c
    using that b(2) old by (auto split: if_splits)
  ultimately show ?thesis
    unfolding header_ok_def t'(1,2)
    using tree_ok_extend [OF ok'(1) new(1) wf t'(1,3-5)] wf_hashes_add [OF ok'(2) new(2) b(1), of p] work top hashes by blast
qed

text \<open>Adding a block whose hash is known changes nothing and returns its entry;
  adding a new one succeeds, changes no other entry, and the new entry is found under its hash, has the header of the
  block, is linked to its predecessor if that is known, and counts the work of the chain below it. Its stake modifier is the one that the
  tree before gives for its predecessor. Heights, skip pointers, chain work and the best header are right afterwards for the whole tree. The address of the new entry is unused, and
  the block is not its own predecessor.\<close>

lemma AddToBlockIndex_keeps:
  fixes block :: CBlock
  assumes "header_ok t" "bt_mem t fresh = None" "bh_hashPrevBlock (blk_header block) \<noteq> nd_GetHash nd (blk_header block)"
  shows "let hash = nd_GetHash nd (blk_header block); prevHash = bh_hashPrevBlock (blk_header block) in
    \<exists>p t' b. AddToBlockIndex nd fTestNet literal fresh block t = Some (p, t') \<and> header_ok t' \<and>
      map_of (bt_mapBlockIndex t') hash = Some p \<and> bt_mem t' p = Some b \<and> bi_phashBlock b = Some hash \<and>
      (if map_of (bt_mapBlockIndex t) hash \<noteq> None then t' = t
       else p = fresh \<and> (\<forall>x. x \<noteq> fresh \<longrightarrow> bt_mem t' x = bt_mem t x) \<and>
         bi_pprev b = map_of (bt_mapBlockIndex t) prevHash \<and>
         (prevHash = 0 \<or> bi_pprev b \<noteq> None \<longrightarrow> GetBlockHeader (bt_mem t') b = Some (blk_header block)) \<and>
         (\<forall>q. bi_pprev b = Some q \<longrightarrow>
            ComputeNextStakeModifier fTestNet literal (nd_params nd) (bt_mem t) (map_of (bt_mapBlockIndex t)) (Some q) =
              Some (True, bi_nStakeModifier b, GeneratedStakeModifier b)) \<and>
         BI_IsValid BLOCK_VALID_TREE b = Some True \<and> bi_nTx b = 0 \<and> bi_nChainTx b = 0 \<and>
         bt_chainActive t' = bt_chainActive t \<and> bt_setBlockIndexCandidates t' = bt_setBlockIndexCandidates t)"
proof (cases "map_of (bt_mapBlockIndex t) (nd_GetHash nd (blk_header block))")
  case (Some p)
  moreover obtain b where "bt_mem t p = Some b" "bi_phashBlock b = Some (nd_GetHash nd (blk_header block))"
    using assms(1) Some unfolding header_ok_def by blast
  ultimately show ?thesis using assms(1) by (simp add: AddToBlockIndex_def Let_def)
next
  case None
  let ?hd = "blk_header block" and ?mem = "bt_mem t"
  define hash where "hash = nd_GetHash nd ?hd"
  define b0 where "b0 = (CBlockIndex_new block)\<lparr>bi_nSequenceId := 0, bi_phashBlock := Some hash\<rparr>"
  define t0 where "t0 = t\<lparr>bt_mem := ?mem(fresh \<mapsto> b0), bt_mapBlockIndex := (hash, fresh) # bt_mapBlockIndex t,
     bt_setStakeSeen := (if BI_IsProofOfStake b0 then insert (bi_prevoutStake b0, bi_nStakeTime b0) (bt_setStakeSeen t) else bt_setStakeSeen t)\<rparr>"
  have t0: "bt_mem t0 = ?mem(fresh \<mapsto> b0)" "bt_mapBlockIndex t0 = (hash, fresh) # bt_mapBlockIndex t" by (simp_all add: t0_def)
  obtain b m where b: "(case map_of (bt_mapBlockIndex t0) (bh_hashPrevBlock ?hd) of
        None \<Rightarrow> Some t0 | Some q \<Rightarrow> link_header nd fTestNet literal hash fresh q t0) =
      Some (t0\<lparr>bt_mapProofOfStake := m, bt_mem := ?mem(fresh \<mapsto> b)\<rparr>)"
    "wf_index (?mem(fresh \<mapsto> b))" "bi_pprev b = map_of (bt_mapBlockIndex t) (bh_hashPrevBlock ?hd)" "body b = body b0"
    "bi_nHeight b = 1 \<longrightarrow> GeneratedStakeModifier b"
    "\<forall>q. bi_pprev b = Some q \<longrightarrow> ComputeNextStakeModifier fTestNet literal (nd_params nd) (bt_mem t) (map_of (bt_mapBlockIndex t)) (Some q) =
      Some (True, bi_nStakeModifier b, GeneratedStakeModifier b)"
    using linked_entry [OF assms(1,2) None assms(3) _ t0 [unfolded hash_def], of fTestNet literal]
    unfolding hash_def b0_def by blast
  have fields: "bi_nStatus b = 0" "bi_phashBlock b = Some hash" "bi_nTx b = 0" "bi_nChainTx b = 0" "bi_nVersion b = bh_nVersion ?hd"
    "bi_hashMerkleRoot b = bh_hashMerkleRoot ?hd" "bi_nTime b = bh_nTime ?hd" "bi_nBits b = bh_nBits ?hd" "bi_nNonce b = bh_nNonce ?hd"
    by (simp_all add: body_eqD [OF b(4)] b0_def CBlockIndex_new_select)
  obtain w where w: "GetBlockProof b = Some w" using GetBlockProof_total by blast
  define b2 where "b2 = b\<lparr>bi_nChainWork := prev_work ?mem b + w, bi_nStatus := 2\<rparr>"
  have raise: "RaiseValidity BLOCK_VALID_TREE (b\<lparr>bi_nChainWork := prev_work ?mem b + w\<rparr>) = Some (True, b2)"
    using fields(1) by (simp add: RaiseValidity_def b2_def)
  have q: "\<exists>c. ?mem q = Some c \<and> bi_phashBlock c = Some (bh_hashPrevBlock ?hd)" if "bi_pprev b = Some q" for q
    using that b(3) assms(1) unfolding header_ok_def by simp
  then have pf: "bi_pprev b \<noteq> Some fresh" using assms(2) by auto
  have pw: "(case bi_pprev b of None \<Rightarrow> Some 0 | Some q \<Rightarrow> map_option bi_nChainWork ((?mem(fresh \<mapsto> b)) q)) = Some (prev_work ?mem b)"
    using q pf by (auto simp: prev_work_def split: option.splits)
  define best where "best = (case bt_pindexBestHeader t of None \<Rightarrow> Some fresh
      | Some h \<Rightarrow> (case ?mem h of None \<Rightarrow> None | Some c \<Rightarrow> if bi_nChainWork c < bi_nChainWork b2 then Some fresh else Some h))"
  have best: "(case bt_pindexBestHeader t of None \<Rightarrow> Some (Some fresh)
      | Some h \<Rightarrow> do { c \<leftarrow> (?mem(fresh \<mapsto> b2)) h; Some (if bi_nChainWork c < bi_nChainWork b2 then Some fresh else Some h) }) = Some best"
  proof (cases "bt_pindexBestHeader t")
    case (Some h)
    then obtain c where "?mem h = Some c" using assms(1) unfolding header_ok_def by blast
    then show ?thesis using Some assms(2) by (cases "h = fresh") (simp_all add: best_def)
  qed (simp add: best_def)
  define t' where "t' = t0\<lparr>bt_mapProofOfStake := m, bt_mem := ?mem(fresh \<mapsto> b2), bt_pindexBestHeader := best,
      bt_setDirtyBlockIndex := insert fresh (bt_setDirtyBlockIndex t)\<rparr>"
  define t1 where "t1 = t0\<lparr>bt_mapProofOfStake := m, bt_mem := ?mem(fresh \<mapsto> b)\<rparr>"
  have t1: "bt_mem t1 = ?mem(fresh \<mapsto> b)" "bt_pindexBestHeader t1 = bt_pindexBestHeader t"
    "t1\<lparr>bt_mem := ?mem(fresh \<mapsto> b2), bt_pindexBestHeader := best, bt_setDirtyBlockIndex := insert fresh (bt_setDirtyBlockIndex t1)\<rparr> = t'"
    by (simp_all add: t1_def t'_def t0_def)
  have upd: "(?mem(fresh \<mapsto> b)) fresh = Some b" "(?mem(fresh \<mapsto> b))(fresh \<mapsto> b2) = ?mem(fresh \<mapsto> b2)" by simp_all
  have run: "AddToBlockIndex nd fTestNet literal fresh block t = Some (fresh, t')"
    unfolding AddToBlockIndex_def Let_def hash_def [symmetric] None [folded hash_def] option.case b0_def [symmetric] t0_def [symmetric]
      b(1) t1_def [symmetric] Option.bind.bind_lunit t1 upd pw w raise prod.case best ..
  have "wf_index (?mem(fresh \<mapsto> b2))" by (rule links_wf [OF _ b(2)]) (auto simp: links_def b2_def fun_eq_iff)
  then have ok: "header_ok t'"
    using header_ok_extend [OF assms(1,2) None [folded hash_def], of b2 w t'] fields b(5) w
    by (simp add: t'_def t0_def best_def b2_def GeneratedStakeModifier_def GetBlockProof_def prev_work_def)
  have "GetBlockHeader (?mem(fresh \<mapsto> b2)) b2 = Some ?hd" if "bh_hashPrevBlock ?hd = 0 \<or> bi_pprev b \<noteq> None"
    using that q pf fields by (cases "bi_pprev b") (auto simp: GetBlockHeader_def b2_def)
  moreover have "BI_IsValid BLOCK_VALID_TREE b2 = Some True" by (simp add: BI_IsValid_def b2_def)
  moreover have "bi_nStakeModifier b2 = bi_nStakeModifier b" "GeneratedStakeModifier b2 = GeneratedStakeModifier b" "bi_pprev b2 = bi_pprev b"
    by (simp_all add: b2_def GeneratedStakeModifier_def)
  ultimately show ?thesis
    unfolding Let_def hash_def [symmetric] using run ok None b(3,6) fields
    by (intro exI [of _ fresh] exI [of _ t'] exI [of _ b2]) (simp add: t'_def t0_def b2_def hash_def)
qed

section \<open>Accepting a header\<close>

lemma past_times_total:
  assumes "wf_index mem" shows "(\<forall>p. ptr = Some p \<longrightarrow> p \<in> dom mem) \<Longrightarrow> \<exists>ts. past_times n mem ptr = Some ts \<and> (ptr \<noteq> None \<and> n \<noteq> 0 \<longrightarrow> ts \<noteq> [])"
proof (induction n arbitrary: ptr)
  case (Suc n)
  show ?case
  proof (cases ptr)
    case (Some p)
    then obtain b where b: "mem p = Some b" using Suc.prems by blast
    have "\<forall>q. bi_pprev b = Some q \<longrightarrow> q \<in> dom mem" using wf_indexD(3) [OF assms b] by blast
    from Suc.IH [OF this] show ?thesis using Some b by auto
  qed simp
qed simp

lemma super_majority_total:
  assumes "wf_index mem" shows "(\<forall>p. ptr = Some p \<longrightarrow> p \<in> dom mem) \<Longrightarrow> \<exists>k. super_majority_loop n v mem ptr r f = Some k"
proof (induction n arbitrary: ptr f)
  case (Suc n)
  show ?case
  proof (cases "f < r \<and> ptr \<noteq> None")
    case True
    then obtain p b where b: "ptr = Some p" "mem p = Some b" using Suc.prems by blast
    have "\<forall>q. bi_pprev b = Some q \<longrightarrow> q \<in> dom mem" using wf_indexD(3) [OF assms b(2)] by blast
    from Suc.IH [OF this] show ?thesis using True b by (simp add: deref_def)
  qed auto
qed simp

lemma last_checkpoint_in: "last_checkpoint M cps = Some p \<Longrightarrow> \<exists>h. M h = Some p"
  by (induction M cps rule: last_checkpoint.induct) (auto split: option.splits)

lemma ContextualCheckBlockHeader_total:
  assumes "header_ok t" "nd_GetHash nd header \<noteq> nd_hashGenesisBlock nd \<Longrightarrow> \<exists>p \<in> dom (bt_mem t). ptr = Some p"
  shows "\<exists>r. ContextualCheckBlockHeader (tree_node nd t) header ptr = Some r"
proof (cases "nd_GetHash nd header = nd_hashGenesisBlock nd")
  case True
  then show ?thesis by (simp add: ContextualCheckBlockHeader_def tree_node_def)
next
  case False
  let ?nd = "tree_node nd t" and ?mem = "bt_mem t"
  have wf: "wf_index ?mem" using assms(1) by (simp add: header_ok_def tree_ok_def)
  obtain p prev where p: "ptr = Some p" "?mem p = Some prev" using assms(2) [OF False] by blast
  then have dom: "\<forall>p. ptr = Some p \<longrightarrow> p \<in> dom ?mem" by auto
  from past_times_total [OF wf dom, of 11] p(1) obtain ts where "past_times 11 ?mem (Some p) = Some ts" "ts \<noteq> []" by auto
  then have med: "\<exists>m. GetMedianTimePast ?mem p = Some m" by (simp add: GetMedianTimePast_def)
  have out: "\<exists>x. outdated ?nd v k ptr = Some x" for v k
    using super_majority_total [OF wf dom] by (fastforce simp: outdated_def IsSuperMajority_def tree_node_def)
  have cp: "\<exists>x. (case GetLastCheckpoint ?nd of None \<Rightarrow> Some None | Some q \<Rightarrow> map_option Some (?mem q)) = Some x"
  proof (cases "GetLastCheckpoint ?nd")
    case (Some q)
    then obtain h where "map_of (bt_mapBlockIndex t) h = Some q"
      by (auto simp: GetLastCheckpoint_def tree_node_def dest!: last_checkpoint_in split: if_splits)
    then show ?thesis using assms(1) Some unfolding header_ok_def by fastforce
  qed simp
  obtain m x o1 o2 where "GetMedianTimePast ?mem p = Some m" "outdated ?nd (bh_nVersion header) 2 ptr = Some o1"
    "outdated ?nd (bh_nVersion header) 3 ptr = Some o2"
    "(case GetLastCheckpoint ?nd of None \<Rightarrow> Some None | Some q \<Rightarrow> map_option Some (?mem q)) = Some x"
    using med out cp by metis
  then show ?thesis using p False
    by (simp add: ContextualCheckBlockHeader_def Let_def tree_node_def)
qed

lemma CheckBlockHeader_no_pow [simp]: "CheckBlockHeader nd header False = None"
  by (simp add: CheckBlockHeader_def)

text \<open>C18. The tree of headers stays consistent as it grows. \<open>AcceptBlockHeader\<close> always returns: no assertion fails and no null pointer is
  read. A rejection leaves the tree as it is. A header that is accepted is found under its hash; if it is new, no other entry
  changes, it has the header of the block, its predecessor is a known block that is not marked invalid and against which
  the header passed its checks, and its stake modifier, with the flag that tells whether it was newly generated, is the one computed from the
  tree below it, which always succeeds. Heights, skip pointers, chain work and
  the best header are right afterwards for the whole tree, as they were before. The address of the new entry is unused, and the block is not its own
  predecessor.\<close>

theorem AcceptBlockHeader_keeps:
  fixes block :: CBlock and nd :: node
  assumes "header_ok t" "bt_mem t fresh = None" "bh_hashPrevBlock (blk_header block) \<noteq> nd_GetHash nd (blk_header block)"
  shows "let header = blk_header block; hash = nd_GetHash nd header in
    \<exists>r t'. AcceptBlockHeader nd fTestNet literal fresh block t = Some (r, t') \<and> header_ok t' \<and>
      (case r of
         Inl e \<Rightarrow> t' = t
       | Inr p \<Rightarrow> \<exists>b. map_of (bt_mapBlockIndex t') hash = Some p \<and> bt_mem t' p = Some b \<and> bi_phashBlock b = Some hash \<and> \<not> failed b \<and>
           (if map_of (bt_mapBlockIndex t) hash \<noteq> None then t' = t
            else p = fresh \<and> (\<forall>x. x \<noteq> fresh \<longrightarrow> bt_mem t' x = bt_mem t x) \<and>
              (hash \<noteq> nd_hashGenesisBlock nd \<longrightarrow>
                 GetBlockHeader (bt_mem t') b = Some header \<and>
                 (\<exists>q c. bi_pprev b = Some q \<and> bt_mem t q = Some c \<and> \<not> failed c \<and> bi_phashBlock c = Some (bh_hashPrevBlock header) \<and>
                    ContextualCheckBlockHeader (tree_node nd t) header (Some q) = Some None \<and>
                    ComputeNextStakeModifier fTestNet literal (nd_params nd) (bt_mem t) (map_of (bt_mapBlockIndex t)) (Some q) =
                      Some (True, bi_nStakeModifier b, GeneratedStakeModifier b)))))"
proof (cases "map_of (bt_mapBlockIndex t) (nd_GetHash nd (blk_header block))")
  case (Some p)
  then obtain b where "bt_mem t p = Some b" "bi_phashBlock b = Some (nd_GetHash nd (blk_header block))"
    using assms(1) unfolding header_ok_def by blast
  then show ?thesis using assms(1) Some by (auto simp: AcceptBlockHeader_def Let_def)
next
  case None
  define header hash where "header = blk_header block" and "hash = nd_GetHash nd header"
  note folds = header_def [symmetric] hash_def [symmetric]
  note None' = None [folded header_def, folded hash_def]
  from AddToBlockIndex_keeps [OF assms, of fTestNet literal] obtain t' b where
    add: "AddToBlockIndex nd fTestNet literal fresh block t = Some (fresh, t')" "header_ok t'" "map_of (bt_mapBlockIndex t') hash = Some fresh"
      "bt_mem t' fresh = Some b" "bi_phashBlock b = Some hash" "\<forall>x. x \<noteq> fresh \<longrightarrow> bt_mem t' x = bt_mem t x"
      "bi_pprev b = map_of (bt_mapBlockIndex t) (bh_hashPrevBlock header)"
      "bi_pprev b \<noteq> None \<longrightarrow> GetBlockHeader (bt_mem t') b = Some header" "BI_IsValid BLOCK_VALID_TREE b = Some True"
      "\<forall>q. bi_pprev b = Some q \<longrightarrow> ComputeNextStakeModifier fTestNet literal (nd_params nd) (bt_mem t) (map_of (bt_mapBlockIndex t)) (Some q) =
        Some (True, bi_nStakeModifier b, GeneratedStakeModifier b)"
    unfolding Let_def folds None' by auto
  have nf: "\<not> failed b" using add(9) by (auto simp: BI_IsValid_def failed_def split: if_splits)
  show ?thesis
  proof (cases "hash = nd_hashGenesisBlock nd")
    case True
    then have "ContextualCheckBlockHeader (tree_node nd t) header None = Some None"
      by (simp add: ContextualCheckBlockHeader_def tree_node_def hash_def)
    then have "AcceptBlockHeader nd fTestNet literal fresh block t = Some (Inr fresh, t')"
      using True add(1) unfolding AcceptBlockHeader_def Let_def folds None' by simp
    then show ?thesis using add nf True None' unfolding Let_def folds by (intro exI [of _ "Inr fresh"] exI [of _ t']) simp
  next
    case False
    show ?thesis
    proof (cases "map_of (bt_mapBlockIndex t) (bh_hashPrevBlock header)")
      case None
      then have "AcceptBlockHeader nd fTestNet literal fresh block t = Some (Inl (reject_dos 0 0 ''bad-prevblk''), t)"
        using False unfolding AcceptBlockHeader_def Let_def folds None' by simp
      then show ?thesis using assms(1) by simp
    next
      case (Some q)
      then obtain c where c: "bt_mem t q = Some c" "bi_phashBlock c = Some (bh_hashPrevBlock header)"
        using assms(1) unfolding header_ok_def by blast
      obtain res where res: "ContextualCheckBlockHeader (tree_node nd t) header (Some q) = Some res"
        using ContextualCheckBlockHeader_total [OF assms(1), of nd header "Some q"] c(1) by auto
      have run: "AcceptBlockHeader nd fTestNet literal fresh block t =
          (if failed c then Some (Inl (reject_dos 100 REJECT_INVALID ''bad-prevblk''), t)
           else case res of Some r \<Rightarrow> Some (Inl r, t) | None \<Rightarrow> Some (Inr fresh, t'))"
        using False Some c(1) res add(1) unfolding AcceptBlockHeader_def Let_def folds None' by (simp split: option.splits)
      show ?thesis
      proof (cases "failed c \<or> res \<noteq> None")
        case True
        then show ?thesis using run assms(1) by (auto split: option.splits)
      next
        case False
        then have "AcceptBlockHeader nd fTestNet literal fresh block t = Some (Inr fresh, t')" using run by simp
        then show ?thesis using add nf False None' Some c res unfolding Let_def folds
          by (intro exI [of _ "Inr fresh"] exI [of _ t']) simp
      qed
    qed
  qed
qed

text \<open>A tree that holds the genesis block, and a block on top of it.\<close>

definition genesis_tree :: block_tree where
  "genesis_tree = \<lparr>bt_mem = [0 \<mapsto> CBlockIndex_null\<lparr>bi_phashBlock := Some 1, bi_nTx := 1, bi_nChainTx := 1, bi_nStatus := 8\<rparr>],
     bt_mapBlockIndex = [(1, 0)], bt_chainActive = [Some 0], bt_setBlockIndexCandidates = [0], bt_mapBlocksUnlinked = [],
     bt_pindexBestInvalid = None, bt_pindexBestHeader = Some 0, bt_setDirtyBlockIndex = {}, bt_nBlockSequenceId = 1,
     bt_setStakeSeen = {}, bt_mapProofOfStake = Map.empty\<rparr>"

definition second_block :: CBlock where
  "second_block = \<lparr>blk_header = \<lparr>bh_nVersion = 3, bh_hashPrevBlock = 1, bh_hashMerkleRoot = 0, bh_nTime = 5, bh_nBits = 0x1d00ffff, bh_nNonce = 7\<rparr>,
     blk_vtx = [], blk_vchBlockSig = []\<rparr>"

definition hashing_node :: node where
  "hashing_node = example_node\<lparr>nd_GetHash := (\<lambda>header. ucast (bh_nNonce header)), nd_hashGenesisBlock := 1\<rparr>"

lemma genesis_tree_ok: "header_ok genesis_tree"
proof -
  let ?mem = "bt_mem genesis_tree"
  have "chain_of ?mem 0 = [Some 0]" by code_simp
  then have "is_chain ?mem [Some 0]" by (auto simp: is_chain_def genesis_tree_def intro!: exI [of _ 0])
  moreover have "wf_index ?mem" by (auto simp: wf_index_def genesis_tree_def CBlockIndex_null_def split: if_splits)
  moreover have "complete ?mem 0" by (auto simp: complete_def genesis_tree_def CBlockIndex_null_def split: if_splits)
  moreover have "GetBlockProof (CBlockIndex_null\<lparr>bi_phashBlock := Some 1, bi_nTx := 1, bi_nChainTx := 1, bi_nStatus := 8\<rparr>) = Some 0" by code_simp
  ultimately show ?thesis
    by (auto simp: header_ok_def tree_ok_def is_oset_def wf_hashes_def genesis_tree_def prev_work_def split: if_splits)
       (auto simp: CBlockIndex_null_def)
qed

theorem AcceptBlockHeader_keeps_witness:
  "\<exists>t'. AcceptBlockHeader hashing_node False 0 4 second_block genesis_tree = Some (Inr 4, t') \<and> header_ok t' \<and>
     bt_mem t' 0 = bt_mem genesis_tree 0"
proof -
  have hyp: "bt_mem genesis_tree 4 = None"
    "bh_hashPrevBlock (blk_header second_block) \<noteq> nd_GetHash hashing_node (blk_header second_block)"
    by (simp_all add: genesis_tree_def second_block_def hashing_node_def)
  have new: "map_of (bt_mapBlockIndex genesis_tree) (nd_GetHash hashing_node (blk_header second_block)) = None"
    "map_of (bt_mapBlockIndex genesis_tree) (bh_hashPrevBlock (blk_header second_block)) = Some 0"
    "nd_GetHash hashing_node (blk_header second_block) \<noteq> nd_hashGenesisBlock hashing_node"
    "\<exists>b. bt_mem genesis_tree 0 = Some b \<and> \<not> failed b"
    by (simp_all add: genesis_tree_def second_block_def hashing_node_def failed_def)
  have "ContextualCheckBlockHeader (tree_node hashing_node genesis_tree) (blk_header second_block) (Some 0) = Some None"
    by code_simp
  then have "AcceptBlockHeader hashing_node False 0 4 second_block genesis_tree =
      do { (p, t') \<leftarrow> AddToBlockIndex hashing_node False 0 4 second_block genesis_tree; Some (Inr p, t') }"
    using new by (auto simp: AcceptBlockHeader_def Let_def)
  then show ?thesis using AcceptBlockHeader_keeps [OF genesis_tree_ok hyp, of False 0] new(1)
    by (auto simp: Let_def split: Option.bind_splits)
qed

end
