(* ===== verification/Linking.thy ===== *)
theory Linking
  imports Headers
begin

text \<open>
  Blocks arrive in any order. \<open>ReceivedBlockTransactions\<close> (\<open>src/main.cpp\<close>) links a block as soon as all its ancestors have
  arrived and parks it in \<open>mapBlocksUnlinked\<close> until then. The invariant of that bookkeeping, and that the function keeps it.
\<close>

section \<open>The invariant\<close>

text \<open>The number of transactions in the chain that ends in \<open>p\<close>, with \<open>n\<close> predecessors.\<close>

fun chain_txs :: "block_store \<Rightarrow> nat \<Rightarrow> nat \<Rightarrow> nat" where
  "chain_txs mem 0 p = (case mem p of None \<Rightarrow> 0 | Some b \<Rightarrow> unat (bi_nTx b))"
| "chain_txs mem (Suc n) p =
     (case mem p of None \<Rightarrow> 0
      | Some b \<Rightarrow> unat (bi_nTx b) + (case bi_pprev b of None \<Rightarrow> 0 | Some q \<Rightarrow> chain_txs mem n q))"

definition count_txs :: "block_store \<Rightarrow> nat \<Rightarrow> nat" where
  "count_txs mem p = (case mem p of None \<Rightarrow> 0 | Some b \<Rightarrow> chain_txs mem (nat (bi_nHeight b)) p)"

definition linked :: "block_store \<Rightarrow> nat \<Rightarrow> bool" where
  "linked mem p \<longleftrightarrow> (\<exists>b. mem p = Some b \<and> bi_nChainTx b \<noteq> 0)"

definition invalid_parent :: "block_store \<Rightarrow> CBlockIndex \<Rightarrow> bool" where
  "invalid_parent mem b \<longleftrightarrow> (\<exists>q c. bi_pprev b = Some q \<and> mem q = Some c \<and> failed c)"

text \<open>
  Linked blocks count their chain and have linked predecessors; candidates and the tip are linked; a parked block has
  arrived, is not linked and waits for a predecessor that is not linked; a block that has arrived is linked, parked, or
  in the list \<open>queue\<close> of blocks about to be linked, unless its predecessor is invalid. The headers of all entries are valid.
\<close>

definition counts_ok :: "block_store \<Rightarrow> bool" where
  "counts_ok mem \<longleftrightarrow> (\<forall>p b. mem p = Some b \<and> bi_nChainTx b \<noteq> 0 \<longrightarrow>
     unat (bi_nChainTx b) = count_txs mem p \<and> (\<forall>q. bi_pprev b = Some q \<longrightarrow> linked mem q))"

definition waits :: "block_store \<Rightarrow> nat option \<times> nat \<Rightarrow> bool" where
  "waits mem e \<longleftrightarrow> (\<exists>q b. fst e = Some q \<and> mem (snd e) = Some b \<and> bi_pprev b = Some q \<and> \<not> linked mem q \<and> bi_nChainTx b = 0 \<and> bi_nTx b \<noteq> 0)"

definition ready :: "block_store \<Rightarrow> nat \<Rightarrow> bool" where
  "ready mem p \<longleftrightarrow> (\<exists>b. mem p = Some b \<and> bi_nChainTx b = 0 \<and> bi_nTx b \<noteq> 0 \<and> (\<forall>q. bi_pprev b = Some q \<longrightarrow> linked mem q))"

definition linking_queue_ok :: "nat list \<Rightarrow> block_tree \<Rightarrow> bool" where
  "linking_queue_ok queue t \<longleftrightarrow> tree_ok t \<and> counts_ok (bt_mem t) \<and>
     (\<forall>p b. bt_mem t p = Some b \<longrightarrow> BLOCK_VALID_TREE \<le> bi_nStatus b AND BLOCK_VALID_MASK) \<and>
     (\<forall>p \<in> set (bt_setBlockIndexCandidates t). linked (bt_mem t) p) \<and>
     (\<forall>p. Tip (bt_chainActive t) = Some p \<longrightarrow> linked (bt_mem t) p) \<and>
     (\<forall>e \<in> set (bt_mapBlocksUnlinked t). waits (bt_mem t) e) \<and>
     (\<forall>p \<in> set queue. ready (bt_mem t) p) \<and> distinct (queue @ map snd (bt_mapBlocksUnlinked t)) \<and>
     (\<forall>p b. bt_mem t p = Some b \<and> bi_nTx b \<noteq> 0 \<and> bi_nChainTx b = 0 \<longrightarrow>
        p \<in> set queue \<or> (bi_pprev b, p) \<in> set (bt_mapBlocksUnlinked t) \<or> invalid_parent (bt_mem t) b)"

definition linking_ok :: "block_tree \<Rightarrow> bool" where
  "linking_ok t \<longleftrightarrow> linking_queue_ok [] t"

section \<open>Counting\<close>

lemma count_txs_step:
  assumes "wf_index mem" "mem p = Some b"
  shows "count_txs mem p = unat (bi_nTx b) + (case bi_pprev b of None \<Rightarrow> 0 | Some q \<Rightarrow> count_txs mem q)"
proof (cases "bi_pprev b")
  case None
  then show ?thesis using assms wf_indexD(2) [OF assms] by (simp add: count_txs_def)
next
  case (Some q)
  then obtain c where "mem q = Some c" "bi_nHeight b = bi_nHeight c + 1" using wf_indexD(3) [OF assms] by blast
  moreover from this have "nat (bi_nHeight b) = Suc (nat (bi_nHeight c))" using wf_indexD(1) [OF assms(1)] by (simp add: Suc_nat_eq_nat_zadd1)
  ultimately show ?thesis using assms Some by (simp add: count_txs_def)
qed

text \<open>Counts depend on the entries of the chain only.\<close>

lemma count_txs_cong:
  assumes "wf_index mem" "wf_index mem'" "mem p = Some b"
    and "\<And>n q c. walk_prev mem n p = Some q \<Longrightarrow> mem q = Some c \<Longrightarrow>
      \<exists>c'. mem' q = Some c' \<and> bi_nTx c' = bi_nTx c \<and> bi_pprev c' = bi_pprev c"
  shows "count_txs mem' p = count_txs mem p"
  using assms(3,4)
proof (induction "nat (bi_nHeight b)" arbitrary: p b rule: less_induct)
  case less
  obtain b' where b': "mem' p = Some b'" "bi_nTx b' = bi_nTx b" "bi_pprev b' = bi_pprev b" using less.prems(2) [of 0] less.prems(1) by auto
  show ?case
  proof (cases "bi_pprev b")
    case None
    then show ?thesis using count_txs_step [OF assms(1) less.prems(1)] count_txs_step [OF assms(2) b'(1)] b' by simp
  next
    case (Some q)
    obtain c where c: "mem q = Some c" "nat (bi_nHeight c) < nat (bi_nHeight b)"
      by (rule prev_entry [OF assms(1) less.prems(1) Some])
    have "count_txs mem' q = count_txs mem q"
    proof (rule less.hyps [OF c(2,1)])
      fix n r d
      assume "walk_prev mem n q = Some r" "mem r = Some d"
      then show "\<exists>c'. mem' r = Some c' \<and> bi_nTx c' = bi_nTx d \<and> bi_pprev c' = bi_pprev d"
        using less.prems(2) [of "Suc n" r d] less.prems(1) Some by simp
    qed
    then show ?thesis using count_txs_step [OF assms(1) less.prems(1)] count_txs_step [OF assms(2) b'(1)] b' Some by simp
  qed
qed

lemma linked_ancestors:
  assumes "wf_index mem" "counts_ok mem" "linked mem p" "walk_prev mem n p = Some q" shows "linked mem q"
  using assms(3,4)
proof (induction n arbitrary: p)
  case (Suc n)
  then obtain b r where "mem p = Some b" "bi_pprev b = Some r" "walk_prev mem n r = Some q" by (auto split: Option.bind_splits)
  moreover from this have "linked mem r" using assms(2) Suc.prems(1) unfolding counts_ok_def linked_def by fastforce
  ultimately show ?case using Suc.IH by blast
qed simp

lemma linked_complete: assumes "wf_index mem" "counts_ok mem" "linked mem p" shows "complete mem p"
  unfolding complete_def using linked_ancestors [OF assms] unfolding linked_def by fastforce

section \<open>Linking one block\<close>

lemma links_is_chain: assumes "links mem' = links mem" shows "is_chain mem' chain \<longleftrightarrow> is_chain mem chain"
proof -
  have "(mem' p = None \<longleftrightarrow> mem p = None) \<and> chain_of mem' p = chain_of mem p" for p
    using links_walk [OF assms] fun_cong [OF assms, of p] by (cases "mem p"; cases "mem' p") (auto simp: links_def chain_of_def)
  then show ?thesis by (simp add: is_chain_def)
qed

lemma comparator_other:
  "x \<noteq> p \<Longrightarrow> y \<noteq> p \<Longrightarrow> CBlockIndexWorkComparator (mem(p \<mapsto> b)) x y = CBlockIndexWorkComparator mem x y"
  by (simp add: CBlockIndexWorkComparator_iff)

text \<open>A change of an entry that is not linked, which keeps its pointers, disturbs neither the order of the candidates nor the chains.\<close>

lemma tree_ok_update:
  assumes ok: "tree_ok t" and b: "bt_mem t p = Some b" "p \<notin> set (bt_setBlockIndexCandidates t)"
    and b': "bi_pprev b' = bi_pprev b" "bi_pskip b' = bi_pskip b" "bi_nHeight b' = bi_nHeight b"
    and t': "bt_mem t' = (bt_mem t)(p \<mapsto> b')" "bt_chainActive t' = bt_chainActive t" "bt_pindexBestInvalid t' = bt_pindexBestInvalid t"
    and c: "bt_setBlockIndexCandidates t' = (if worse then bt_setBlockIndexCandidates t
        else oset_insert (CBlockIndexWorkComparator (bt_mem t')) p (bt_setBlockIndexCandidates t))"
    and com: "\<And>x. x \<in> set (bt_setBlockIndexCandidates t') \<Longrightarrow> complete (bt_mem t') x"
  shows "tree_ok t' \<and> set (bt_setBlockIndexCandidates t') = (if worse then {} else {p}) \<union> set (bt_setBlockIndexCandidates t)"
proof -
  let ?mem = "bt_mem t" and ?c = "bt_setBlockIndexCandidates t"
  have l: "links (bt_mem t') = links ?mem" using b b' by (auto simp: links_def fun_eq_iff t'(1))
  have dom: "dom (bt_mem t') = dom ?mem" using b(1) t'(1) by auto
  have os: "is_oset (CBlockIndexWorkComparator (bt_mem t')) (dom (bt_mem t')) ?c"
  proof -
    have "CBlockIndexWorkComparator (bt_mem t') x y" if "x \<in> set ?c" "y \<in> set ?c" "CBlockIndexWorkComparator ?mem x y" for x y
    proof -
      have "x \<noteq> p" "y \<noteq> p" using that b(2) by auto
      then show ?thesis using that(3) comparator_other [of x p y ?mem b'] unfolding t'(1) by simp
    qed
    moreover have "sorted_wrt (CBlockIndexWorkComparator ?mem) ?c" using ok by (simp add: tree_ok_def is_oset_def)
    ultimately have "sorted_wrt (CBlockIndexWorkComparator (bt_mem t')) ?c" by (rule sorted_wrt_mono_rel)
    then show ?thesis using ok dom by (simp add: tree_ok_def is_oset_def)
  qed
  have p: "p \<in> dom (bt_mem t')" using t'(1) by simp
  have os': "is_oset (CBlockIndexWorkComparator (bt_mem t')) (dom (bt_mem t')) (bt_setBlockIndexCandidates t') \<and>
      set (bt_setBlockIndexCandidates t') = (if worse then {} else {p}) \<union> set ?c"
    unfolding c using os work.insert_oset [OF os p] work.insert_set [OF os p] by simp
  have "wf_index (bt_mem t')" "is_chain (bt_mem t') (bt_chainActive t')"
    using ok links_wf [OF l] links_is_chain [OF l] t'(2) by (simp_all add: tree_ok_def)
  moreover have "\<forall>q. bt_pindexBestInvalid t' = Some q \<longrightarrow> q \<in> dom (bt_mem t')" using ok unfolding dom t'(3) by (simp add: tree_ok_def)
  ultimately have "tree_ok t'" using com os' unfolding tree_ok_def by simp
  then show ?thesis using os' by simp
qed

lemma link_block_run:
  assumes ok: "linking_queue_ok (p # queue) t" and bound: "count_txs (bt_mem t) p < 2 ^ 32"
  obtains b v t1 where "link_block p t = Some t1" "bt_mem t p = Some b" "unat v = count_txs (bt_mem t) p" "v \<noteq> 0"
    "bt_mem t1 = (bt_mem t)(p \<mapsto> b\<lparr>bi_nChainTx := v, bi_nSequenceId := bt_nBlockSequenceId t\<rparr>)"
    "bt_chainActive t1 = bt_chainActive t" "bt_pindexBestInvalid t1 = bt_pindexBestInvalid t" "bt_mapBlocksUnlinked t1 = bt_mapBlocksUnlinked t"
    "bt_setBlockIndexCandidates t1 =
      (if \<exists>tip. Tip (bt_chainActive t) = Some tip \<and> CBlockIndexWorkComparator (bt_mem t1) p tip then bt_setBlockIndexCandidates t
       else oset_insert (CBlockIndexWorkComparator (bt_mem t1)) p (bt_setBlockIndexCandidates t))"
proof -
  let ?mem = "bt_mem t"
  have wf: "wf_index ?mem" and co: "counts_ok ?mem" using ok by (simp_all add: linking_queue_ok_def tree_ok_def)
  obtain b where b: "?mem p = Some b" "bi_nTx b \<noteq> 0" "\<forall>q. bi_pprev b = Some q \<longrightarrow> linked ?mem q"
    using ok by (auto simp: linking_queue_ok_def ready_def)
  obtain k where k: "(case bi_pprev b of None \<Rightarrow> Some 0 | Some q \<Rightarrow> map_option bi_nChainTx (?mem q)) = Some k"
    "unat k = (case bi_pprev b of None \<Rightarrow> 0 | Some q \<Rightarrow> count_txs ?mem q)"
  proof (cases "bi_pprev b")
    case (Some q)
    then obtain c where "?mem q = Some c" "bi_nChainTx c \<noteq> 0" using b(3) by (auto simp: linked_def)
    then show ?thesis using that [of "bi_nChainTx c"] Some co unfolding counts_ok_def by simp
  qed (use that [of 0] in simp)
  define v where "v = k + bi_nTx b"
  have "unat k + unat (bi_nTx b) = count_txs ?mem p" using count_txs_step [OF wf b(1)] k(2) by simp
  then have v: "unat v = count_txs ?mem p" using bound unfolding v_def by (simp add: unat_word_ariths)
  have "unat (bi_nTx b) \<noteq> 0" using b(2) by (simp add: unat_eq_0)
  then have v0: "v \<noteq> 0" using v count_txs_step [OF wf b(1)] by (metis add_eq_0_iff_both_eq_0 unat_0)
  define t0 where "t0 = t\<lparr>bt_mem := ?mem(p \<mapsto> b\<lparr>bi_nChainTx := v, bi_nSequenceId := bt_nBlockSequenceId t\<rparr>),
      bt_nBlockSequenceId := bt_nBlockSequenceId t + 1\<rparr>"
  define t1 where "t1 = (case Tip (bt_chainActive t0) of None \<Rightarrow> candidates_insert p t0
      | Some tip \<Rightarrow> if \<not> CBlockIndexWorkComparator (bt_mem t0) p tip then candidates_insert p t0 else t0)"
  have run: "link_block p t = Some t1" unfolding link_block_def b(1) Option.bind.bind_lunit k(1) Let_def v_def [symmetric] t0_def [symmetric] t1_def ..
  have "bt_setBlockIndexCandidates t1 =
      (if \<exists>tip. Tip (bt_chainActive t) = Some tip \<and> CBlockIndexWorkComparator (bt_mem t1) p tip then bt_setBlockIndexCandidates t
       else oset_insert (CBlockIndexWorkComparator (bt_mem t1)) p (bt_setBlockIndexCandidates t))"
    by (auto simp: t1_def t0_def candidates_insert_def split: option.splits)
  moreover have "bt_mem t1 = ?mem(p \<mapsto> b\<lparr>bi_nChainTx := v, bi_nSequenceId := bt_nBlockSequenceId t\<rparr>)"
    "bt_chainActive t1 = bt_chainActive t" "bt_pindexBestInvalid t1 = bt_pindexBestInvalid t" "bt_mapBlocksUnlinked t1 = bt_mapBlocksUnlinked t"
    by (auto simp: t1_def t0_def candidates_insert_def split: option.splits)
  ultimately show ?thesis using that run b(1) v v0 by blast
qed

lemma oset_insert_subset: "set (oset_insert before x xs) \<subseteq> insert x (set xs)"
  by (induction xs) auto

text \<open>Once \<open>p\<close> is linked, the blocks that waited for it are ready.\<close>

lemma queue_kept:
  assumes ok: "linking_queue_ok (p # queue) t" and b: "bt_mem t p = Some b"
    and b': "bi_nChainTx b' \<noteq> 0" "bi_pprev b' = bi_pprev b" "bi_nStatus b' = bi_nStatus b"
    and mem2: "mem2 = (bt_mem t)(p \<mapsto> b')"
    and U2: "U2 = filter (\<lambda>(k, _). k \<noteq> Some p) (bt_mapBlocksUnlinked t)"
    and q2: "queue2 = queue @ map snd (filter (\<lambda>(k, _). k = Some p) (bt_mapBlocksUnlinked t))"
  shows "(\<forall>e \<in> set U2. waits mem2 e)" "(\<forall>x \<in> set queue2. ready mem2 x)" "distinct (queue2 @ map snd U2)"
    "\<forall>x c. mem2 x = Some c \<and> bi_nTx c \<noteq> 0 \<and> bi_nChainTx c = 0 \<longrightarrow>
       x \<in> set queue2 \<or> (bi_pprev c, x) \<in> set U2 \<or> invalid_parent mem2 c"
proof -
  let ?mem = "bt_mem t" and ?U = "bt_mapBlocksUnlinked t"
  have same: "mem2 x = ?mem x" if "x \<noteq> p" for x using that mem2 by simp
  have lk: "linked mem2 x \<longleftrightarrow> x = p \<or> linked ?mem x" for x using b'(1) by (auto simp: linked_def mem2)
  have U: "\<forall>e \<in> set ?U. waits ?mem e" "distinct (map snd ?U)" "set queue \<inter> snd ` set ?U = {}" "distinct queue"
    "\<forall>x \<in> set queue. ready ?mem x" "p \<notin> set queue"
    using ok by (auto simp: linking_queue_ok_def)
  have Up: "snd e \<noteq> p" if "e \<in> set ?U" for e using ok that unfolding linking_queue_ok_def by force
  show "\<forall>e \<in> set U2. waits mem2 e"
  proof
    fix e
    assume "e \<in> set U2"
    then have e: "waits ?mem e" "snd e \<noteq> p" "fst e \<noteq> Some p" using U(1) Up by (auto simp: U2)
    then show "waits mem2 e" unfolding waits_def lk using same [OF e(2)] by auto
  qed
  show "\<forall>x \<in> set queue2. ready mem2 x"
  proof
    fix x
    assume x: "x \<in> set queue2"
    consider "x \<in> set queue" | "(Some p, x) \<in> set ?U" using x by (auto simp: q2)
    then show "ready mem2 x"
    proof cases
      case 1
      then have "x \<noteq> p" "ready ?mem x" using U(5,6) by auto
      then show ?thesis unfolding ready_def lk using same by auto
    next
      case 2
      then have "waits ?mem (Some p, x)" "x \<noteq> p" using U(1) Up [OF 2] by auto
      then show ?thesis unfolding ready_def waits_def lk using same by auto
    qed
  qed
  have inj: "inj_on snd (set ?U)" using U(2) by (simp add: distinct_map)
  have "snd ` set (filter P ?U) \<inter> snd ` set (filter (\<lambda>x. \<not> P x) ?U) = {}" for P using inj by (auto dest: inj_onD)
  from this [of "\<lambda>(k, _). k = Some p"] show "distinct (queue2 @ map snd U2)"
    using U(2-4) by (auto simp: q2 U2 distinct_map_filter split_def)
  show "\<forall>x c. mem2 x = Some c \<and> bi_nTx c \<noteq> 0 \<and> bi_nChainTx c = 0 \<longrightarrow>
      x \<in> set queue2 \<or> (bi_pprev c, x) \<in> set U2 \<or> invalid_parent mem2 c"
  proof (intro allI impI)
    fix x c
    assume x: "mem2 x = Some c \<and> bi_nTx c \<noteq> 0 \<and> bi_nChainTx c = 0"
    then have xp: "x \<noteq> p" using b'(1) by (auto simp: mem2)
    then have "?mem x = Some c" using x same by simp
    then have "x \<in> set queue \<or> (bi_pprev c, x) \<in> set ?U \<or> invalid_parent ?mem c" using ok x xp unfolding linking_queue_ok_def by auto
    moreover have "invalid_parent mem2 c" if inv: "invalid_parent ?mem c"
    proof -
      obtain q d where q: "bi_pprev c = Some q" "?mem q = Some d" "failed d"
        using inv unfolding invalid_parent_def by blast
      have "\<exists>d'. mem2 q = Some d' \<and> bi_nStatus d' = bi_nStatus d" using q(2) b b'(3) by (auto simp: mem2)
      then show ?thesis using q(1,3) unfolding invalid_parent_def failed_def by auto
    qed
    ultimately show "x \<in> set queue2 \<or> (bi_pprev c, x) \<in> set U2 \<or> invalid_parent mem2 c"
      by (cases "bi_pprev c = Some p") (force simp: q2 U2)+
  qed
qed

text \<open>One round of the queue.\<close>

lemma link_step:
  assumes ok: "linking_queue_ok (p # queue) t" and bound: "count_txs (bt_mem t) p < 2 ^ 32"
    and t1: "link_block p t = Some t1"
    and t2: "t2 = t1\<lparr>bt_mapBlocksUnlinked := filter (\<lambda>(k, _). k \<noteq> Some p) (bt_mapBlocksUnlinked t1)\<rparr>"
    and q2: "queue2 = queue @ map snd (filter (\<lambda>(k, _). k = Some p) (bt_mapBlocksUnlinked t1))"
  shows "linking_queue_ok queue2 t2 \<and> linked (bt_mem t2) p \<and> bt_chainActive t2 = bt_chainActive t \<and>
    (p \<in> set (bt_setBlockIndexCandidates t2) \<or> (\<exists>tip. Tip (bt_chainActive t) = Some tip \<and> CBlockIndexWorkComparator (bt_mem t2) p tip)) \<and>
    set (bt_setBlockIndexCandidates t) \<subseteq> set (bt_setBlockIndexCandidates t2) \<and>
    (\<forall>x. x \<noteq> p \<longrightarrow> bt_mem t2 x = bt_mem t x) \<and> (\<forall>x. count_txs (bt_mem t2) x = count_txs (bt_mem t) x) \<and>
    (\<forall>x. map_option bi_nTx (bt_mem t2 x) = map_option bi_nTx (bt_mem t x))"
proof -
  let ?mem = "bt_mem t" and ?mem2 = "bt_mem t2"
  obtain b v t1' where b: "?mem p = Some b" and v: "unat v = count_txs ?mem p" "v \<noteq> 0" and t1': "link_block p t = Some t1'"
    and m: "bt_mem t1' = ?mem(p \<mapsto> b\<lparr>bi_nChainTx := v, bi_nSequenceId := bt_nBlockSequenceId t\<rparr>)"
    and f: "bt_chainActive t1' = bt_chainActive t" "bt_pindexBestInvalid t1' = bt_pindexBestInvalid t" "bt_mapBlocksUnlinked t1' = bt_mapBlocksUnlinked t"
    and c: "bt_setBlockIndexCandidates t1' =
      (if \<exists>tip. Tip (bt_chainActive t) = Some tip \<and> CBlockIndexWorkComparator (bt_mem t1') p tip then bt_setBlockIndexCandidates t
       else oset_insert (CBlockIndexWorkComparator (bt_mem t1')) p (bt_setBlockIndexCandidates t))"
    by (rule link_block_run [OF ok bound])
  have e: "t1' = t1" using t1 t1' by simp
  note m1 = m [unfolded e] and f1 = f [unfolded e] and c1 = c [unfolded e]
  have fields: "?mem2 = bt_mem t1" "bt_chainActive t2 = bt_chainActive t" "bt_setBlockIndexCandidates t2 = bt_setBlockIndexCandidates t1"
    "bt_pindexBestInvalid t2 = bt_pindexBestInvalid t" "bt_mapBlocksUnlinked t2 = filter (\<lambda>(k, _). k \<noteq> Some p) (bt_mapBlocksUnlinked t)"
    using f1 by (simp_all add: t2)
  define b' where "b' = b\<lparr>bi_nChainTx := v, bi_nSequenceId := bt_nBlockSequenceId t\<rparr>"
  have m2: "?mem2 = ?mem(p \<mapsto> b')" using m1 fields(1) by (simp add: b'_def)
  have ok': "tree_ok t" "counts_ok ?mem" "ready ?mem p" "p \<notin> set (map snd (bt_mapBlocksUnlinked t))" "p \<notin> set queue"
    using ok by (auto simp: linking_queue_ok_def)
  have wf: "wf_index ?mem" using ok'(1) by (simp add: tree_ok_def)
  have rb: "bi_nChainTx b = 0" "\<forall>q. bi_pprev b = Some q \<longrightarrow> linked ?mem q" using ok'(3) b by (auto simp: ready_def)
  have pc: "p \<notin> set (bt_setBlockIndexCandidates t)" using ok b rb(1) unfolding linking_queue_ok_def linked_def by fastforce
  have l: "links ?mem2 = links ?mem" using b by (auto simp: links_def fun_eq_iff m2 b'_def)
  have wf2: "wf_index ?mem2" by (rule links_wf [OF l wf])
  have lk: "linked ?mem2 x \<longleftrightarrow> x = p \<or> linked ?mem x" for x using v(2) by (auto simp: linked_def m2 b'_def)
  have cnt: "count_txs ?mem2 x = count_txs ?mem x" for x
  proof (cases "?mem x")
    case None
    then show ?thesis using m2 b by (simp add: count_txs_def) (metis option.distinct(1))
  next
    case (Some c)
    have "\<exists>d'. ?mem2 q = Some d' \<and> bi_nTx d' = bi_nTx d \<and> bi_pprev d' = bi_pprev d" if "?mem q = Some d" for q d
      using that b by (auto simp: m2 b'_def)
    then show ?thesis by (intro count_txs_cong [OF wf wf2 Some]) blast
  qed
  have co2: "counts_ok ?mem2"
    unfolding counts_ok_def cnt lk using ok'(2) rb(2) v(1) unfolding counts_ok_def by (auto simp: m2 b'_def)
  have lc: "linked ?mem2 x" if "x \<in> set (bt_setBlockIndexCandidates t2)" for x
  proof -
    have "set (bt_setBlockIndexCandidates t2) \<subseteq> insert p (set (bt_setBlockIndexCandidates t))"
      unfolding fields(3) c1 using oset_insert_subset [of _ p] by simp blast
    then show ?thesis using that ok lk unfolding linking_queue_ok_def by blast
  qed
  define worse where "worse \<longleftrightarrow> (\<exists>tip. Tip (bt_chainActive t) = Some tip \<and> CBlockIndexWorkComparator ?mem2 p tip)"
  have c2: "bt_setBlockIndexCandidates t2 = (if worse then bt_setBlockIndexCandidates t
      else oset_insert (CBlockIndexWorkComparator ?mem2) p (bt_setBlockIndexCandidates t))"
    unfolding worse_def fields(1,3) by (rule c1)
  have l': "bi_pprev b' = bi_pprev b" "bi_pskip b' = bi_pskip b" "bi_nHeight b' = bi_nHeight b" by (simp_all add: b'_def)
  have tree: "tree_ok t2" "set (bt_setBlockIndexCandidates t2) = (if worse then {} else {p}) \<union> set (bt_setBlockIndexCandidates t)"
    using tree_ok_update [OF ok'(1) b pc l' m2 fields(2,4) c2 linked_complete [OF wf2 co2 lc]] by simp_all
  have same: "?mem2 x = ?mem x" if "x \<noteq> p" for x using that m2 by simp
  have kept: "\<forall>e \<in> set (bt_mapBlocksUnlinked t2). waits ?mem2 e" "\<forall>x \<in> set queue2. ready ?mem2 x"
    "distinct (queue2 @ map snd (bt_mapBlocksUnlinked t2))"
    "\<forall>x c. ?mem2 x = Some c \<and> bi_nTx c \<noteq> 0 \<and> bi_nChainTx c = 0 \<longrightarrow>
       x \<in> set queue2 \<or> (bi_pprev c, x) \<in> set (bt_mapBlocksUnlinked t2) \<or> invalid_parent ?mem2 c"
    using queue_kept [OF ok b _ _ _ m2 fields(5), of queue2] v(2) f1(3) q2 by (simp_all add: b'_def)
  have level: "BLOCK_VALID_TREE \<le> bi_nStatus c AND BLOCK_VALID_MASK" if "?mem2 x = Some c" for x c
    using that ok b by (auto simp: linking_queue_ok_def m2 b'_def split: if_splits)
  have "linking_queue_ok queue2 t2"
    unfolding linking_queue_ok_def fields(2)
    using tree(1) co2 lc lk ok kept level unfolding linking_queue_ok_def by simp
  moreover have "map_option bi_nTx (?mem2 x) = map_option bi_nTx (?mem x)" for x using b by (simp add: m2 b'_def)
  ultimately show ?thesis using lk tree(2) same cnt fields(2) worse_def by auto
qed

section \<open>The queue\<close>

lemma comparator_cong: "mem' x = mem x \<Longrightarrow> mem' y = mem y \<Longrightarrow> CBlockIndexWorkComparator mem' x y = CBlockIndexWorkComparator mem x y"
  by (simp add: CBlockIndexWorkComparator_iff)

lemma link_queue_correct:
  "linking_queue_ok queue t \<Longrightarrow> \<forall>x. count_txs (bt_mem t) x < 2 ^ 32 \<Longrightarrow>
   \<exists>t'. link_queue queue t = Some t' \<and> linking_ok t' \<and> (\<forall>x \<in> set queue. linked (bt_mem t') x) \<and>
     (\<forall>x. linked (bt_mem t) x \<longrightarrow> bt_mem t' x = bt_mem t x) \<and> bt_chainActive t' = bt_chainActive t \<and>
     (\<forall>x. map_option bi_nTx (bt_mem t' x) = map_option bi_nTx (bt_mem t x)) \<and>
     set (bt_setBlockIndexCandidates t) \<subseteq> set (bt_setBlockIndexCandidates t') \<and>
     (\<forall>x. linked (bt_mem t') x \<and> \<not> linked (bt_mem t) x \<longrightarrow> x \<in> set (bt_setBlockIndexCandidates t') \<or>
        (\<exists>tip. Tip (bt_chainActive t) = Some tip \<and> CBlockIndexWorkComparator (bt_mem t') x tip))"
proof (induction queue t rule: link_queue.induct)
  case (2 p queue t)
  obtain t1 where t1: "link_block p t = Some t1" using 2(3) link_block_run [OF 2(2)] by blast
  define queue2 where "queue2 = queue @ map snd (filter (\<lambda>(k, _). k = Some p) (bt_mapBlocksUnlinked t1))"
  define t2 where "t2 = t1\<lparr>bt_mapBlocksUnlinked := filter (\<lambda>(k, _). k \<noteq> Some p) (bt_mapBlocksUnlinked t1)\<rparr>"
  have s: "linking_queue_ok queue2 t2" "linked (bt_mem t2) p" "bt_chainActive t2 = bt_chainActive t"
    "p \<in> set (bt_setBlockIndexCandidates t2) \<or> (\<exists>tip. Tip (bt_chainActive t) = Some tip \<and> CBlockIndexWorkComparator (bt_mem t2) p tip)"
    "set (bt_setBlockIndexCandidates t) \<subseteq> set (bt_setBlockIndexCandidates t2)"
    "\<forall>x. x \<noteq> p \<longrightarrow> bt_mem t2 x = bt_mem t x" "\<forall>x. count_txs (bt_mem t2) x = count_txs (bt_mem t) x"
    "\<forall>x. map_option bi_nTx (bt_mem t2 x) = map_option bi_nTx (bt_mem t x)"
    using link_step [OF 2(2) _ t1 t2_def queue2_def] 2(3) by blast+
  obtain t' where t': "link_queue queue2 t2 = Some t'" "linking_ok t'" "\<forall>x \<in> set queue2. linked (bt_mem t') x"
    "\<forall>x. linked (bt_mem t2) x \<longrightarrow> bt_mem t' x = bt_mem t2 x" "bt_chainActive t' = bt_chainActive t"
    "\<forall>x. map_option bi_nTx (bt_mem t' x) = map_option bi_nTx (bt_mem t2 x)" "set (bt_setBlockIndexCandidates t2) \<subseteq> set (bt_setBlockIndexCandidates t')"
    and new: "\<forall>x. linked (bt_mem t') x \<and> \<not> linked (bt_mem t2) x \<longrightarrow> x \<in> set (bt_setBlockIndexCandidates t') \<or>
        (\<exists>tip. Tip (bt_chainActive t) = Some tip \<and> CBlockIndexWorkComparator (bt_mem t') x tip)"
    using 2(1) [OF t1, folded queue2_def t2_def, OF s(1)] 2(3) s(3,7) by auto
  have np: "\<not> linked (bt_mem t) p" using 2(2) by (auto simp: linking_queue_ok_def ready_def linked_def)
  have lk: "linked (bt_mem t2) x" if "linked (bt_mem t) x" for x using that np s(6) unfolding linked_def by metis
  have tip: "bt_mem t' tip = bt_mem t2 tip" if "Tip (bt_chainActive t) = Some tip" for tip
    using that 2(2) lk t'(4) unfolding linking_queue_ok_def by blast
  have "p \<in> set (bt_setBlockIndexCandidates t') \<or> (\<exists>tip. Tip (bt_chainActive t) = Some tip \<and> CBlockIndexWorkComparator (bt_mem t') p tip)"
    using s(2,4) t'(4,7) tip comparator_cong [of "bt_mem t'" p "bt_mem t2"] by blast
  moreover have "linked (bt_mem t') p" using s(2) t'(4) by (simp add: linked_def)
  moreover have "x = p" if "linked (bt_mem t2) x" "\<not> linked (bt_mem t) x" for x using that s(6) unfolding linked_def by metis
  moreover have "link_queue (p # queue) t = Some t'" using t1 t'(1) by (simp add: queue2_def t2_def)
  moreover have "\<forall>x. linked (bt_mem t) x \<longrightarrow> bt_mem t' x = bt_mem t x" using lk np s(6) t'(4) by metis
  moreover have "\<forall>x \<in> set queue. linked (bt_mem t') x" using t'(3) by (simp add: queue2_def)
  ultimately show ?case using t'(2,5-7) new s(5,8) by (intro exI [of _ t']) auto
qed (simp add: linking_ok_def)

section \<open>Receiving a block\<close>

text \<open>The entry after the data of its block has been recorded.\<close>

definition received_entry :: "CBlock \<Rightarrow> CDiskBlockPos \<Rightarrow> CBlockIndex \<Rightarrow> CBlockIndex option" where
  "received_entry block pos b =
     (let b1 = (if IsProofOfStake (blk_vtx block) then SetProofOfStake b else b)
      in map_option snd (RaiseValidity BLOCK_VALID_TRANSACTIONS
           (b1\<lparr>bi_nTx := word_of_nat (length (blk_vtx block)), bi_nChainTx := 0, bi_nFile := dp_nFile pos,
               bi_nDataPos := dp_nPos pos, bi_nUndoPos := 0, bi_nStatus := bi_nStatus b1 OR BLOCK_HAVE_DATA\<rparr>)))"

lemma status_words:
  fixes s :: u32
  shows "(s OR 8) AND 96 = s AND 96" "(s OR 8) AND 7 = s AND 7" "((s AND NOT 7) OR 3) AND 96 = s AND 96" "((s AND NOT 7) OR 3) AND 7 = 3"
  by (simp_all add: bit.conj_disj_distrib2 and.assoc)

lemma received_entry_props:
  assumes "BLOCK_VALID_TREE \<le> bi_nStatus b AND BLOCK_VALID_MASK"
  obtains b' where "received_entry block pos b = Some b'" "bi_pprev b' = bi_pprev b" "bi_pskip b' = bi_pskip b" "bi_nHeight b' = bi_nHeight b"
    "bi_nTx b' = word_of_nat (length (blk_vtx block))" "bi_nChainTx b' = 0" "failed b' \<longleftrightarrow> failed b"
    "BLOCK_VALID_TREE \<le> bi_nStatus b' AND BLOCK_VALID_MASK"
proof -
  define c where "c = (if IsProofOfStake (blk_vtx block) then SetProofOfStake b else b)\<lparr>bi_nTx := word_of_nat (length (blk_vtx block)),
      bi_nChainTx := 0, bi_nFile := dp_nFile pos, bi_nDataPos := dp_nPos pos, bi_nUndoPos := 0, bi_nStatus := bi_nStatus b OR BLOCK_HAVE_DATA\<rparr>"
  have c: "bi_pprev c = bi_pprev b" "bi_pskip c = bi_pskip b" "bi_nHeight c = bi_nHeight b" "bi_nTx c = word_of_nat (length (blk_vtx block))"
    "bi_nChainTx c = 0" "bi_nStatus c = bi_nStatus b OR 8" by (simp_all add: c_def SetProofOfStake_def)
  have r: "received_entry block pos b = map_option snd (RaiseValidity BLOCK_VALID_TRANSACTIONS c)"
    by (simp add: received_entry_def c_def SetProofOfStake_def Let_def)
  have f: "failed c \<longleftrightarrow> failed b" by (simp add: failed_def c(6) status_words(1))
  show ?thesis
  proof (cases "\<not> failed b \<and> bi_nStatus c AND BLOCK_VALID_MASK < BLOCK_VALID_TRANSACTIONS")
    case True
    let ?b = "c\<lparr>bi_nStatus := (bi_nStatus c AND NOT BLOCK_VALID_MASK) OR BLOCK_VALID_TRANSACTIONS\<rparr>"
    have "received_entry block pos b = Some ?b" using True f by (simp add: r RaiseValidity_def failed_def)
    moreover have st: "bi_nStatus ?b = (bi_nStatus c AND NOT 7) OR 3" by simp
    have "failed ?b \<longleftrightarrow> failed c" unfolding failed_def st status_words(3) ..
    then have "failed ?b \<longleftrightarrow> failed b" using f by simp
    moreover have "BLOCK_VALID_TREE \<le> bi_nStatus ?b AND BLOCK_VALID_MASK" unfolding st status_words(4) by simp
    ultimately show ?thesis using that [of ?b] c by simp
  next
    case False
    then have "received_entry block pos b = Some c" using f by (auto simp: r RaiseValidity_def failed_def)
    then show ?thesis using that [of c] c f assms status_words(2) by simp
  qed
qed

text \<open>Recording the data keeps the invariant, up to the block itself, which is ready or waits.\<close>

lemma linking_received:
  assumes ok: "linking_ok t" and b: "bt_mem t p = Some b" "bi_nTx b = 0" "bi_nChainTx b = 0"
    and b': "bi_pprev b' = bi_pprev b" "bi_pskip b' = bi_pskip b" "bi_nHeight b' = bi_nHeight b" "bi_nTx b' \<noteq> 0" "bi_nChainTx b' = 0"
      "failed b' \<longleftrightarrow> failed b" "BLOCK_VALID_TREE \<le> bi_nStatus b' AND BLOCK_VALID_MASK"
    and t1: "t1 = t\<lparr>bt_mem := (bt_mem t)(p \<mapsto> b'), bt_setDirtyBlockIndex := D, bt_mapBlocksUnlinked := bt_mapBlocksUnlinked t @ U\<rparr>"
    and place: "(queue = [p] \<and> U = [] \<and> (\<forall>q. bi_pprev b = Some q \<longrightarrow> linked (bt_mem t) q)) \<or>
      (\<exists>q. bi_pprev b = Some q \<and> \<not> linked (bt_mem t) q \<and> queue = [] \<and> (U = [(Some q, p)] \<or> U = [] \<and> (\<exists>c. bt_mem t q = Some c \<and> failed c)))"
  shows "linking_queue_ok queue t1"
proof -
  let ?mem = "bt_mem t" and ?mem1 = "(bt_mem t)(p \<mapsto> b')"
  have ok': "tree_ok t" "counts_ok ?mem" "\<forall>x \<in> set (bt_setBlockIndexCandidates t). linked ?mem x"
    "\<forall>x. Tip (bt_chainActive t) = Some x \<longrightarrow> linked ?mem x" "\<forall>e \<in> set (bt_mapBlocksUnlinked t). waits ?mem e"
    "distinct (map snd (bt_mapBlocksUnlinked t))" "\<forall>x c. ?mem x = Some c \<longrightarrow> BLOCK_VALID_TREE \<le> bi_nStatus c AND BLOCK_VALID_MASK"
    using ok by (auto simp: linking_ok_def linking_queue_ok_def)
  have lk: "linked ?mem1 x \<longleftrightarrow> linked ?mem x" for x using b(1,3) b'(5) by (auto simp: linked_def)
  have np: "\<not> linked ?mem p" using b by (simp add: linked_def)
  have wf: "wf_index ?mem" using ok'(1) by (simp add: tree_ok_def)
  have l: "links ?mem1 = links ?mem" using b(1) b'(1-3) by (auto simp: links_def fun_eq_iff)
  have wf1: "wf_index ?mem1" by (rule links_wf [OF l wf])
  have Up: "snd e \<noteq> p" if "e \<in> set (bt_mapBlocksUnlinked t)" for e using that ok'(5) b by (auto simp: waits_def)
  have cnt: "count_txs ?mem1 x = count_txs ?mem x" if x: "linked ?mem x" for x
  proof -
    obtain c where "?mem x = Some c" using x by (auto simp: linked_def)
    moreover have "q \<noteq> p" if "walk_prev ?mem n x = Some q" for n q using linked_ancestors [OF wf ok'(2) x that] np by auto
    ultimately show ?thesis by (intro count_txs_cong [OF wf wf1]) auto
  qed
  have co1: "counts_ok ?mem1"
    unfolding counts_ok_def
  proof (intro allI impI)
    fix x c
    assume c: "?mem1 x = Some c \<and> bi_nChainTx c \<noteq> 0"
    then have x: "?mem x = Some c" "linked ?mem x" using b'(5) by (auto simp: linked_def split: if_splits)
    show "unat (bi_nChainTx c) = count_txs ?mem1 x \<and> (\<forall>q. bi_pprev c = Some q \<longrightarrow> linked ?mem1 q)"
      unfolding lk cnt [OF x(2)] using c x(1) ok'(2) unfolding counts_ok_def by blast
  qed
  have m1: "bt_mem t1 = ?mem1" "bt_chainActive t1 = bt_chainActive t" "bt_pindexBestInvalid t1 = bt_pindexBestInvalid t"
    "bt_setBlockIndexCandidates t1 = bt_setBlockIndexCandidates t" "bt_mapBlocksUnlinked t1 = bt_mapBlocksUnlinked t @ U" by (simp_all add: t1)
  have pc: "p \<notin> set (bt_setBlockIndexCandidates t)" using ok'(3) np by blast
  have "tree_ok t1"
    using tree_ok_update [OF ok'(1) b(1) pc b'(1-3) m1(1-3), of True] linked_complete [OF wf1 co1] ok'(3) lk m1(1,4) by simp
  moreover have "waits ?mem1 e" if "e \<in> set (bt_mapBlocksUnlinked t)" for e
    using that ok'(5) Up [OF that] unfolding waits_def lk by auto
  moreover have "waits ?mem1 e" if e: "e \<in> set U" for e
  proof -
    obtain q where "e = (Some q, p)" "bi_pprev b = Some q" "\<not> linked ?mem q" using e place by (auto simp del: prod.collapse)
    then show ?thesis using b'(1,4,5) unfolding waits_def lk by simp
  qed
  moreover have "ready ?mem1 x" if "x \<in> set queue" for x
    using that place b'(1,4,5) unfolding ready_def lk by auto
  moreover have "distinct (queue @ map snd (bt_mapBlocksUnlinked t @ U))"
  proof -
    have "p \<notin> snd ` set (bt_mapBlocksUnlinked t)" using Up by blast
    then show ?thesis using place ok'(6) by (auto simp: image_iff)
  qed
  moreover have "x \<in> set queue \<or> (bi_pprev c, x) \<in> set (bt_mapBlocksUnlinked t @ U) \<or> invalid_parent ?mem1 c"
    if c: "?mem1 x = Some c" "bi_nTx c \<noteq> 0" "bi_nChainTx c = 0" for x c
  proof -
    have inv: "invalid_parent ?mem1 d" if "bi_pprev d = Some q" "?mem q = Some e" "failed e" for d q e
      using that b(1) b'(6) unfolding invalid_parent_def by (cases "q = p") auto
    show ?thesis
    proof (cases "x = p")
      case True
      then show ?thesis using c(1) place b'(1) inv by auto
    next
      case False
      then have "(bi_pprev c, x) \<in> set (bt_mapBlocksUnlinked t) \<or> invalid_parent ?mem c"
        using c ok unfolding linking_ok_def linking_queue_ok_def by auto
      then show ?thesis using inv unfolding invalid_parent_def [of ?mem] by auto
    qed
  qed
  moreover have "BLOCK_VALID_TREE \<le> bi_nStatus c AND BLOCK_VALID_MASK" if "?mem1 x = Some c" for x c
    using that ok'(7) b'(7) by (auto split: if_splits)
  ultimately show ?thesis
    unfolding linking_queue_ok_def m1 using co1 lk ok'(3,4) by auto
qed

lemma ReceivedBlockTransactions_entry:
  assumes "bt_mem t p = Some b" "received_entry block pos b = Some b'"
    and "t1 = t\<lparr>bt_mem := (bt_mem t)(p \<mapsto> b'), bt_setDirtyBlockIndex := insert p (bt_setDirtyBlockIndex t)\<rparr>"
  shows "ReceivedBlockTransactions block p pos t =
    (case bi_pprev b' of
       None \<Rightarrow> link_queue [p] t1
     | Some q \<Rightarrow> do {
         c \<leftarrow> bt_mem t1 q;
         if bi_nChainTx c \<noteq> 0 then link_queue [p] t1
         else do {
           valid \<leftarrow> BI_IsValid BLOCK_VALID_TREE c;
           Some (if valid then t1\<lparr>bt_mapBlocksUnlinked := bt_mapBlocksUnlinked t1 @ [(Some q, p)]\<rparr> else t1) } })"
proof -
  obtain raised where "RaiseValidity BLOCK_VALID_TRANSACTIONS ((if IsProofOfStake (blk_vtx block) then SetProofOfStake b else b)
      \<lparr>bi_nTx := word_of_nat (length (blk_vtx block)), bi_nChainTx := 0, bi_nFile := dp_nFile pos, bi_nDataPos := dp_nPos pos, bi_nUndoPos := 0,
        bi_nStatus := bi_nStatus (if IsProofOfStake (blk_vtx block) then SetProofOfStake b else b) OR BLOCK_HAVE_DATA\<rparr>) = Some (raised, b')"
    using assms(2) unfolding received_entry_def Let_def by auto
  then show ?thesis
    unfolding ReceivedBlockTransactions_def assms(1,3) Let_def Option.bind.bind_lunit prod.case by simp
qed

text \<open>C19. Blocks may arrive in any order: recording the data of a block never fails an assertion or reads a null pointer, and keeps the
  bookkeeping consistent. A block is linked at once if all its ancestors have arrived, together with every block that
  was parked behind it; every block that has been linked this way is a candidate for the best chain unless the tip is better. Blocks
  that were linked before are not touched. The entry has no data yet, the block has transactions, and no chain has \<open>2 ^ 32\<close> of them.\<close>

theorem ReceivedBlockTransactions_links:
  fixes block :: CBlock
  assumes "linking_ok t" "bt_mem t p = Some b" "bi_nTx b = 0" "bi_nChainTx b = 0"
    and "0 < length (blk_vtx block)" "length (blk_vtx block) < 2 ^ 32"
    and "\<forall>x. count_txs ((bt_mem t)(p \<mapsto> b\<lparr>bi_nTx := word_of_nat (length (blk_vtx block))\<rparr>)) x < 2 ^ 32"
  shows "\<exists>t' b'. ReceivedBlockTransactions block p pos t = Some t' \<and> linking_ok t' \<and>
    bt_mem t' p = Some b' \<and> unat (bi_nTx b') = length (blk_vtx block) \<and>
    ((\<forall>q. bi_pprev b = Some q \<longrightarrow> linked (bt_mem t) q) \<longrightarrow> linked (bt_mem t') p) \<and>
    (\<forall>x. linked (bt_mem t) x \<longrightarrow> bt_mem t' x = bt_mem t x) \<and> bt_chainActive t' = bt_chainActive t \<and>
    set (bt_setBlockIndexCandidates t) \<subseteq> set (bt_setBlockIndexCandidates t') \<and>
    (\<forall>x. linked (bt_mem t') x \<and> \<not> linked (bt_mem t) x \<longrightarrow> x \<in> set (bt_setBlockIndexCandidates t') \<or>
       (\<exists>tip. Tip (bt_chainActive t) = Some tip \<and> CBlockIndexWorkComparator (bt_mem t') x tip))"
proof -
  let ?mem = "bt_mem t" and ?n = "word_of_nat (length (blk_vtx block)) :: u32"
  have lv: "\<forall>x c. ?mem x = Some c \<longrightarrow> BLOCK_VALID_TREE \<le> bi_nStatus c AND BLOCK_VALID_MASK" and wf: "wf_index ?mem"
    using assms(1) by (simp_all add: linking_ok_def linking_queue_ok_def tree_ok_def)
  have n: "unat ?n = length (blk_vtx block)" "?n \<noteq> 0" using assms(5,6) by (simp_all add: unat_of_nat word_unat_eq_iff)
  have lvb: "BLOCK_VALID_TREE \<le> bi_nStatus b AND BLOCK_VALID_MASK" using lv assms(2) by blast
  obtain b' where b': "received_entry block pos b = Some b'" "bi_pprev b' = bi_pprev b" "bi_pskip b' = bi_pskip b" "bi_nHeight b' = bi_nHeight b"
    "bi_nTx b' = ?n" "bi_nChainTx b' = 0" "failed b' \<longleftrightarrow> failed b" "BLOCK_VALID_TREE \<le> bi_nStatus b' AND BLOCK_VALID_MASK"
    by (rule received_entry_props [OF lvb])
  define t1 where "t1 = t\<lparr>bt_mem := ?mem(p \<mapsto> b'), bt_setDirtyBlockIndex := insert p (bt_setDirtyBlockIndex t)\<rparr>"
  note run = ReceivedBlockTransactions_entry [OF assms(2) b'(1) t1_def]
  have m1: "bt_mem t1 = ?mem(p \<mapsto> b')" "bt_chainActive t1 = bt_chainActive t" "bt_setBlockIndexCandidates t1 = bt_setBlockIndexCandidates t"
    by (simp_all add: t1_def)
  have lk: "linked (bt_mem t1) x \<longleftrightarrow> linked ?mem x" for x using assms(2,4) b'(6) by (auto simp: linked_def m1)
  have t1p: "bt_mem t1 x = ?mem x" if "linked ?mem x" for x using that assms(2,4) by (auto simp: m1 linked_def)
  let ?park = "\<lambda>U. t1\<lparr>bt_mapBlocksUnlinked := bt_mapBlocksUnlinked t @ U\<rparr>"
  have park: "linking_queue_ok queue (?park U)" if "(queue = [p] \<and> U = [] \<and> (\<forall>q. bi_pprev b = Some q \<longrightarrow> linked ?mem q)) \<or>
      (\<exists>q. bi_pprev b = Some q \<and> \<not> linked ?mem q \<and> queue = [] \<and> (U = [(Some q, p)] \<or> U = [] \<and> (\<exists>c. ?mem q = Some c \<and> failed c)))" for queue U
    by (rule linking_received [OF assms(1-4) b'(2-4) _ b'(6-8) _ that]) (use n(2) b'(5) in \<open>simp_all add: t1_def\<close>)
  have t1e: "?park [] = t1" by (simp add: t1_def)
  show ?thesis
  proof (cases "\<forall>q. bi_pprev b = Some q \<longrightarrow> linked ?mem q")
    case True
    have ok1: "linking_queue_ok [p] t1" using park [of "[p]" "[]"] True t1e by simp
    let ?m0 = "?mem(p \<mapsto> b\<lparr>bi_nTx := ?n\<rparr>)"
    have "links (bt_mem t1) = links ?m0" "links ?m0 = links ?mem" using assms(2) b'(2-4) by (auto simp: m1 links_def fun_eq_iff)
    then have w: "wf_index ?m0" "wf_index (bt_mem t1)" using links_wf wf by metis+
    have "count_txs (bt_mem t1) x = count_txs ?m0 x" for x
    proof (cases "?m0 x")
      case (Some c)
      show ?thesis by (rule count_txs_cong [OF w Some]) (use b'(2,5) in \<open>auto simp: m1 split: if_splits\<close>)
    qed (simp add: count_txs_def m1 split: if_splits)
    then have cnt: "\<forall>x. count_txs (bt_mem t1) x < 2 ^ 32" using assms(7) by simp
    obtain t' where t': "link_queue [p] t1 = Some t'" "linking_ok t'" "linked (bt_mem t') p" "\<forall>x. map_option bi_nTx (bt_mem t' x) = map_option bi_nTx (bt_mem t1 x)"
      "\<forall>x. linked ?mem x \<longrightarrow> bt_mem t' x = ?mem x" "bt_chainActive t' = bt_chainActive t"
      "set (bt_setBlockIndexCandidates t) \<subseteq> set (bt_setBlockIndexCandidates t')"
      "\<forall>x. linked (bt_mem t') x \<and> \<not> linked ?mem x \<longrightarrow> x \<in> set (bt_setBlockIndexCandidates t') \<or>
        (\<exists>tip. Tip (bt_chainActive t) = Some tip \<and> CBlockIndexWorkComparator (bt_mem t') x tip)"
      using link_queue_correct [OF ok1 cnt] t1p unfolding lk m1(2,3) by auto
    have "ReceivedBlockTransactions block p pos t = Some t'"
      unfolding run t'(1) using True b'(2) by (auto simp: linked_def m1(1) assms(2,4) split: option.splits)
    moreover have "\<exists>b''. bt_mem t' p = Some b'' \<and> unat (bi_nTx b'') = length (blk_vtx block)"
      using t'(4) [rule_format, of p] b'(5) n(1) by (auto simp: m1)
    ultimately show ?thesis using t'(2,3,5-8) by auto
  next
    case False
    then obtain q where q: "bi_pprev b = Some q" "\<not> linked ?mem q" by blast
    obtain c where c: "?mem q = Some c" using wf_indexD(3) [OF wf assms(2) q(1)] by blast
    have qp: "q \<noteq> p" using q(1) c wf_indexD(3) [OF wf assms(2) q(1)] assms(2) by auto
    define U where "U = (if failed c then [] else [(Some q, p)])"
    have ok1: "linking_ok (?park U)" unfolding linking_ok_def by (rule park) (use q c in \<open>auto simp: U_def\<close>)
    have "BI_IsValid BLOCK_VALID_TREE c = Some (\<not> failed c)" using lv c by (simp add: BI_IsValid_def failed_def)
    then have "ReceivedBlockTransactions block p pos t = Some (?park U)"
      unfolding run b'(2) q(1) using qp c q(2) t1e by (simp add: m1(1) linked_def U_def t1_def)
    moreover have "bt_mem (?park U) p = Some b'" "unat (bi_nTx b') = length (blk_vtx block)" using m1(1) b'(5) n(1) by simp_all
    ultimately show ?thesis using ok1 q t1p lk m1 by (intro exI [of _ "?park U"] exI [of _ b']) simp
  qed
qed

text \<open>The genesis block, a header on top of it whose data is missing, and a block that waits for it.\<close>

definition waiting_store :: block_store where
  "waiting_store =
     [0 \<mapsto> CBlockIndex_null\<lparr>bi_nTx := 1, bi_nChainTx := 1, bi_nStatus := 11\<rparr>,
      1 \<mapsto> CBlockIndex_null\<lparr>bi_nHeight := 1, bi_pprev := Some 0, bi_pskip := Some 0, bi_nChainWork := 1, bi_nStatus := 2\<rparr>,
      2 \<mapsto> CBlockIndex_null\<lparr>bi_nHeight := 2, bi_pprev := Some 1, bi_pskip := Some 0, bi_nChainWork := 2, bi_nTx := 1, bi_nStatus := 11\<rparr>]"

definition waiting_tree :: block_tree where
  "waiting_tree = sample_tree\<lparr>bt_mem := waiting_store, bt_setBlockIndexCandidates := [0], bt_mapBlocksUnlinked := [(Some 1, 2)]\<rparr>"

lemma waiting_walk:
  "walk_prev waiting_store (Suc 0) 1 = Some 0" "walk_prev waiting_store (Suc (Suc 0)) 2 = Some 0"
  by (simp_all add: waiting_store_def CBlockIndex_null_def)

lemma waiting_store_cases:
  assumes "waiting_store x = Some c" obtains "x = 0" | "x = 1" | "x = 2"
  using assms by (auto simp: waiting_store_def split: if_splits)

lemma waiting_wf: "wf_index waiting_store"
  unfolding wf_index_def
proof (intro allI impI)
  fix x c
  assume c: "waiting_store x = Some c"
  have s: "GetSkipHeight 1 = 0" "GetSkipHeight 2 = 0" by (simp_all add: GetSkipHeight_def InvertLowestOne_def)
  show "0 \<le> bi_nHeight c \<and> (bi_pprev c = None \<longleftrightarrow> bi_nHeight c = 0) \<and>
      (\<forall>q. bi_pprev c = Some q \<longrightarrow> (\<exists>d. waiting_store q = Some d \<and> bi_nHeight c = bi_nHeight d + 1)) \<and>
      bi_pskip c = (if bi_nHeight c = 0 then None else walk_prev waiting_store (nat (bi_nHeight c - GetSkipHeight (bi_nHeight c))) x)"
    by (rule waiting_store_cases [OF c])
      (use c s waiting_walk in \<open>auto simp: waiting_store_def CBlockIndex_null_def numeral_2_eq_2\<close>)
qed

lemma waiting_counts:
  "count_txs waiting_store 0 = 1" "linked waiting_store 0" "\<not> linked waiting_store 1" "\<not> linked waiting_store 2"
  by (simp_all add: count_txs_def waiting_store_def CBlockIndex_null_def linked_def)

lemma waiting_tree_ok: "linking_ok waiting_tree"
proof -
  have co: "counts_ok waiting_store"
    unfolding counts_ok_def
  proof (intro allI impI)
    fix x c
    assume c: "waiting_store x = Some c \<and> bi_nChainTx c \<noteq> 0"
    then have "x = 0" using waiting_counts(3,4) waiting_store_cases [of x c] unfolding linked_def by metis
    then show "unat (bi_nChainTx c) = count_txs waiting_store x \<and> (\<forall>q. bi_pprev c = Some q \<longrightarrow> linked waiting_store q)"
      using c by (simp add: waiting_counts(1)) (auto simp: waiting_store_def CBlockIndex_null_def)
  qed
  have "chain_of waiting_store 0 = [Some 0]" by code_simp
  then have "is_chain waiting_store [Some 0]" by (auto simp: is_chain_def waiting_store_def intro!: exI [of _ 0])
  then have "tree_ok waiting_tree"
    using waiting_wf linked_complete [OF waiting_wf co waiting_counts(2)]
    by (simp add: tree_ok_def waiting_tree_def sample_tree_def is_oset_def) (simp add: waiting_store_def)
  moreover have "waits waiting_store (Some 1, 2)"
    using waiting_counts(3) unfolding waits_def by (simp add: waiting_store_def CBlockIndex_null_def)
  moreover have "BLOCK_VALID_TREE \<le> bi_nStatus c AND BLOCK_VALID_MASK" "bi_nTx c \<noteq> 0 \<Longrightarrow> bi_nChainTx c = 0 \<Longrightarrow> (bi_pprev c, x) = (Some 1, 2)"
    if "waiting_store x = Some c" for x c
    using that by (auto simp: waiting_store_def CBlockIndex_null_def split: if_splits)
  ultimately show ?thesis
    unfolding linking_ok_def linking_queue_ok_def using co waiting_counts(2) by (auto simp: waiting_tree_def sample_tree_def Tip_def)
qed

theorem ReceivedBlockTransactions_links_witness:
  "\<exists>t'. ReceivedBlockTransactions example_block 1 \<lparr>dp_nFile = 0, dp_nPos = 8\<rparr> waiting_tree = Some t' \<and> linking_ok t' \<and> linked (bt_mem t') 1"
proof -
  let ?b = "CBlockIndex_null\<lparr>bi_nHeight := 1, bi_pprev := Some 0, bi_pskip := Some 0, bi_nChainWork := 1, bi_nStatus := 2\<rparr>"
  have b: "bt_mem waiting_tree 1 = Some ?b" by (simp add: waiting_tree_def waiting_store_def)
  have z: "bi_nTx ?b = 0" "bi_nChainTx ?b = 0" "bi_pprev ?b = Some 0" by (simp_all add: CBlockIndex_null_def)
  have v: "0 < length (blk_vtx example_block)" "length (blk_vtx example_block) < 2 ^ 32" by (simp_all add: example_block_def)
  let ?m = "(bt_mem waiting_tree)(1 \<mapsto> ?b\<lparr>bi_nTx := word_of_nat (length (blk_vtx example_block))\<rparr>)"
  have "count_txs ?m 0 = 1" by (simp add: count_txs_def waiting_tree_def waiting_store_def CBlockIndex_null_def example_block_def)
  moreover have "count_txs ?m 1 = 2" by (simp add: count_txs_def waiting_tree_def waiting_store_def CBlockIndex_null_def example_block_def)
  moreover have "count_txs ?m 2 = 3"
    by (simp add: count_txs_def waiting_tree_def waiting_store_def CBlockIndex_null_def example_block_def eval_nat_numeral)
  moreover have "count_txs ?m x = 0" if "x \<noteq> 0" "x \<noteq> 1" "x \<noteq> 2" for x
    using that by (simp add: count_txs_def waiting_tree_def waiting_store_def)
  ultimately have "count_txs ?m x \<le> 3" for x by (cases "x = 0"; cases "x = 1"; cases "x = 2") simp_all
  moreover have "(3 :: nat) < 2 ^ 32" by simp
  ultimately have "\<forall>x. count_txs ?m x < 2 ^ 32" by (blast intro: le_less_trans)
  from ReceivedBlockTransactions_links [OF waiting_tree_ok b z(1,2) v this, of "\<lparr>dp_nFile = 0, dp_nPos = 8\<rparr>"] show ?thesis
    using z(3) waiting_counts(2) by (auto simp: waiting_tree_def)
qed

end
