(* ===== verification/Bloom.thy ===== *)
theory Bloom
  imports Standard "HOL-Library.Monad_Syntax"
begin

text \<open>
  Bloom filters, \<open>src/bloom.h\<close> and \<open>bloom.cpp\<close>, with the hash \<open>MurmurHash3\<close> of \<open>src/hash.cpp\<close>. A peer sends a filter and is
  then told only of transactions that match it. The constructor that computes the size from a
  false-positive rate uses floating point and is left out; filters arrive by deserialization. \<open>None\<close> as a result is a
  remainder by zero, when the filter has no bytes. The loads of 32-bit words are little-endian.
\<close>

section \<open>MurmurHash3\<close>

definition ROTL32 :: "u32 \<Rightarrow> nat \<Rightarrow> u32" where
  "ROTL32 x r = push_bit r x OR drop_bit (32 - r) x"

definition murmur_mix :: "u32 \<Rightarrow> u32" where
  "murmur_mix k1 = ROTL32 (k1 * 0xcc9e2d51) 15 * 0x1b873593"

definition murmur_tail :: "bytes \<Rightarrow> u32 \<Rightarrow> u32" where
  "murmur_tail tail h1 =
     (if length tail AND 3 = 0 then h1
      else let k1 = (if length tail AND 3 \<ge> 3 then push_bit 16 (ucast (tail ! 2)) else 0) XOR
                    (if length tail AND 3 \<ge> 2 then push_bit 8 (ucast (tail ! 1)) else 0) XOR ucast (tail ! 0)
           in h1 XOR murmur_mix k1)"

fun murmur_body :: "bytes \<Rightarrow> u32 \<Rightarrow> u32" where
  "murmur_body (a # b # c # d # rest) h1 =
     murmur_body rest (ROTL32 (h1 XOR murmur_mix (word_of_nat (le_nat [a, b, c, d]))) 13 * 5 + 0xe6546b64)"
| "murmur_body tail h1 = murmur_tail tail h1"

definition MurmurHash3 :: "u32 \<Rightarrow> bytes \<Rightarrow> u32" where
  "MurmurHash3 nHashSeed vDataToHash =
     (let h1 = murmur_body vDataToHash nHashSeed XOR word_of_nat (length vDataToHash);
          h2 = (h1 XOR drop_bit 16 h1) * 0x85ebca6b;
          h3 = (h2 XOR drop_bit 13 h2) * 0xc2b2ae35
      in h3 XOR drop_bit 16 h3)"

section \<open>Filters\<close>

abbreviation (input) MAX_BLOOM_FILTER_SIZE :: nat where "MAX_BLOOM_FILTER_SIZE \<equiv> 36000"
abbreviation (input) MAX_HASH_FUNCS :: u32 where "MAX_HASH_FUNCS \<equiv> 50"
abbreviation (input) BLOOM_UPDATE_ALL :: u8 where "BLOOM_UPDATE_ALL \<equiv> 1"
abbreviation (input) BLOOM_UPDATE_P2PUBKEY_ONLY :: u8 where "BLOOM_UPDATE_P2PUBKEY_ONLY \<equiv> 2"
abbreviation (input) BLOOM_UPDATE_MASK :: u8 where "BLOOM_UPDATE_MASK \<equiv> 3"

record CBloomFilter =
  bf_vData :: bytes
  bf_isFull :: bool
  bf_isEmpty :: bool
  bf_nHashFuncs :: u32
  bf_nTweak :: u32
  bf_nFlags :: u8

definition CBloomFilter_new :: CBloomFilter where
  "CBloomFilter_new = \<lparr>bf_vData = [], bf_isFull = True, bf_isEmpty = False, bf_nHashFuncs = 0, bf_nTweak = 0, bf_nFlags = 0\<rparr>"

definition bloom_Hash :: "CBloomFilter \<Rightarrow> nat \<Rightarrow> bytes \<Rightarrow> nat option" where
  "bloom_Hash f nHashNum vDataToHash =
     (if length (bf_vData f) * 8 = 0 then None
      else Some (unat (MurmurHash3 (word_of_nat nHashNum * 0xFBA4C795 + bf_nTweak f) vDataToHash) mod (length (bf_vData f) * 8)))"

definition set_bit_at :: "nat \<Rightarrow> bytes \<Rightarrow> bytes" where
  "set_bit_at nIndex vData = vData[nIndex div 8 := vData ! (nIndex div 8) OR push_bit (7 AND nIndex) 1]"

definition bit_at :: "nat \<Rightarrow> bytes \<Rightarrow> bool" where
  "bit_at nIndex vData \<longleftrightarrow> vData ! (nIndex div 8) AND push_bit (7 AND nIndex) 1 \<noteq> 0"

fun insert_bits :: "CBloomFilter \<Rightarrow> bytes \<Rightarrow> nat list \<Rightarrow> bytes \<Rightarrow> bytes option" where
  "insert_bits f vKey [] vData = Some vData"
| "insert_bits f vKey (i # ks) vData = do { nIndex \<leftarrow> bloom_Hash f i vKey; insert_bits f vKey ks (set_bit_at nIndex vData) }"

definition bloom_insert :: "bytes \<Rightarrow> CBloomFilter \<Rightarrow> CBloomFilter option" where
  "bloom_insert vKey f =
     (if bf_isFull f then Some f
      else do {
        vData \<leftarrow> insert_bits f vKey [0..<unat (bf_nHashFuncs f)] (bf_vData f);
        Some (f\<lparr>bf_vData := vData, bf_isEmpty := False\<rparr>) })"

definition insert_COutPoint :: "COutPoint \<Rightarrow> CBloomFilter \<Rightarrow> CBloomFilter option" where
  "insert_COutPoint outpoint f = bloom_insert (Serialize_COutPoint outpoint) f"

definition insert_uint256 :: "uint256 \<Rightarrow> CBloomFilter \<Rightarrow> CBloomFilter option" where
  "insert_uint256 hash f = bloom_insert (Serialize_uint 32 hash) f"

fun contains_bits :: "CBloomFilter \<Rightarrow> bytes \<Rightarrow> nat list \<Rightarrow> bool option" where
  "contains_bits f vKey [] = Some True"
| "contains_bits f vKey (i # ks) =
     do { nIndex \<leftarrow> bloom_Hash f i vKey; if \<not> bit_at nIndex (bf_vData f) then Some False else contains_bits f vKey ks }"

definition bloom_contains :: "bytes \<Rightarrow> CBloomFilter \<Rightarrow> bool option" where
  "bloom_contains vKey f =
     (if bf_isFull f then Some True
      else if bf_isEmpty f then Some False
      else contains_bits f vKey [0..<unat (bf_nHashFuncs f)])"

definition contains_COutPoint :: "COutPoint \<Rightarrow> CBloomFilter \<Rightarrow> bool option" where
  "contains_COutPoint outpoint f = bloom_contains (Serialize_COutPoint outpoint) f"

definition contains_uint256 :: "uint256 \<Rightarrow> CBloomFilter \<Rightarrow> bool option" where
  "contains_uint256 hash f = bloom_contains (Serialize_uint 32 hash) f"

definition bloom_clear :: "CBloomFilter \<Rightarrow> CBloomFilter" where
  "bloom_clear f = f\<lparr>bf_vData := replicate (length (bf_vData f)) 0, bf_isFull := False, bf_isEmpty := True\<rparr>"

definition IsWithinSizeConstraints :: "CBloomFilter \<Rightarrow> bool" where
  "IsWithinSizeConstraints f \<longleftrightarrow> length (bf_vData f) \<le> MAX_BLOOM_FILTER_SIZE \<and> bf_nHashFuncs f \<le> MAX_HASH_FUNCS"

definition UpdateEmptyFull :: "CBloomFilter \<Rightarrow> CBloomFilter" where
  "UpdateEmptyFull f = f\<lparr>bf_isFull := list_all (\<lambda>b. b = 0xff) (bf_vData f), bf_isEmpty := list_all (\<lambda>b. b = 0) (bf_vData f)\<rparr>"

section \<open>Transactions\<close>

text \<open>Whether the filter contains a data element of a script.\<close>

function script_hit :: "CBloomFilter \<Rightarrow> bytes \<Rightarrow> bool option" where
  "script_hit f [] = Some False"
| "script_hit f (c # cs) =
     (case GetOp2 (c # cs) of (ok, pc, opcode, data) \<Rightarrow>
        if \<not> ok then Some False
        else case (if length data \<noteq> 0 then bloom_contains data f else Some False) of
               None \<Rightarrow> None
             | Some True \<Rightarrow> Some True
             | Some False \<Rightarrow> script_hit f pc)"
  by pat_completeness auto
termination
  by (relation "measure (\<lambda>(f, pc). length pc)") (auto dest: GetOp2_decreases)

definition update_match :: "uint256 \<Rightarrow> nat \<Rightarrow> CTxOut \<Rightarrow> CBloomFilter \<Rightarrow> CBloomFilter option" where
  "update_match hash i txout f =
     (if bf_nFlags f AND BLOOM_UPDATE_MASK = BLOOM_UPDATE_ALL then insert_COutPoint \<lparr>op_hash = hash, op_n = word_of_nat i\<rparr> f
      else if bf_nFlags f AND BLOOM_UPDATE_MASK = BLOOM_UPDATE_P2PUBKEY_ONLY then
        (case Solver (to_scriptPubKey txout) of (ok, type, vSolutions) \<Rightarrow>
           if ok \<and> (type = TX_PUBKEY \<or> type = TX_MULTISIG) then insert_COutPoint \<lparr>op_hash = hash, op_n = word_of_nat i\<rparr> f else Some f)
      else Some f)"

fun relevant_outputs :: "uint256 \<Rightarrow> nat \<Rightarrow> CTxOut list \<Rightarrow> bool \<Rightarrow> CBloomFilter \<Rightarrow> (bool \<times> CBloomFilter) option" where
  "relevant_outputs hash i [] fFound f = Some (fFound, f)"
| "relevant_outputs hash i (txout # vout) fFound f = do {
     hit \<leftarrow> script_hit f (to_scriptPubKey txout);
     if hit then do { f1 \<leftarrow> update_match hash i txout f; relevant_outputs hash (i + 1) vout True f1 }
     else relevant_outputs hash (i + 1) vout fFound f }"

fun relevant_inputs :: "CTxIn list \<Rightarrow> CBloomFilter \<Rightarrow> bool option" where
  "relevant_inputs [] f = Some False"
| "relevant_inputs (txin # vin) f = do {
     spends \<leftarrow> contains_COutPoint (ti_prevout txin) f;
     if spends then Some True
     else do { hit \<leftarrow> script_hit f (ti_scriptSig txin); if hit then Some True else relevant_inputs vin f } }"

definition IsRelevantAndUpdate :: "CTransaction \<Rightarrow> CBloomFilter \<Rightarrow> (bool \<times> CBloomFilter) option" where
  "IsRelevantAndUpdate tx f =
     (if bf_isFull f then Some (True, f)
      else if bf_isEmpty f then Some (False, f)
      else do {
        let hash = CTransaction_GetHash tx;
        found \<leftarrow> contains_uint256 hash f;
        (fFound, f1) \<leftarrow> relevant_outputs hash 0 (tx_vout tx) found f;
        if fFound then Some (True, f1) else do { r \<leftarrow> relevant_inputs (tx_vin tx) f1; Some (r, f1) } })"

section \<open>Serialization\<close>

definition Serialize_CBloomFilter :: "CBloomFilter \<Rightarrow> bytes" where
  "Serialize_CBloomFilter f =
     Serialize_bytes (bf_vData f) @ Serialize_uint 4 (bf_nHashFuncs f) @ Serialize_uint 4 (bf_nTweak f) @ Serialize_uint 1 (bf_nFlags f)"

text \<open>Reading leaves the two flags as they are.\<close>

definition Unserialize_CBloomFilter :: "CBloomFilter \<Rightarrow> CBloomFilter reader" where
  "Unserialize_CBloomFilter f bs =
     (case Unserialize_bytes bs of
        Inl e \<Rightarrow> Inl e
      | Inr (vData, r) \<Rightarrow>
         (case Unserialize_uint 4 r of
            Inl e \<Rightarrow> Inl e
          | Inr (nHashFuncs, r') \<Rightarrow>
             (case Unserialize_uint 4 r' of
                Inl e \<Rightarrow> Inl e
              | Inr (nTweak, r'') \<Rightarrow>
                 (case Unserialize_uint 1 r'' of
                    Inl e \<Rightarrow> Inl e
                  | Inr (nFlags, r''') \<Rightarrow>
                      Inr (f\<lparr>bf_vData := vData, bf_nHashFuncs := nHashFuncs, bf_nTweak := nTweak, bf_nFlags := nFlags\<rparr>, r''')))))"

text \<open>The published test vectors, as in \<open>src/test/hash_tests.cpp\<close>.\<close>

lemma and_3: "n AND (3 :: nat) = n mod 4"
proof -
  have "n AND mask 2 = n mod 4" by (simp add: take_bit_eq_mod flip: take_bit_eq_mask)
  then show ?thesis by (simp add: mask_eq_exp_minus_1)
qed

lemmas murmur_eval = and_3 MurmurHash3_def murmur_tail_def murmur_mix_def ROTL32_def Let_def

theorem MurmurHash3_vectors:
  "MurmurHash3 0xFBA4C795 [] = 0x6a396f08" "MurmurHash3 0 [0xff] = 0xfd6cf10d" "MurmurHash3 0 [0x00, 0x11, 0x22] = 0x8eb51c3d"
  "MurmurHash3 0 [0x00, 0x11, 0x22, 0x33] = 0xb4471bf8" "MurmurHash3 0 [0x00, 0x11, 0x22, 0x33, 0x44, 0x55, 0x66] = 0xb074502c"
  "MurmurHash3 0 [0x00, 0x11, 0x22, 0x33, 0x44, 0x55, 0x66, 0x77, 0x88] = 0xb4698def"
  by (simp_all add: murmur_eval)

section \<open>Bits\<close>

lemma and_7: "(7 :: nat) AND n = n mod 8"
proof -
  have "n AND mask 3 = n mod 8" by (simp add: take_bit_eq_mod flip: take_bit_eq_mask)
  then show ?thesis by (simp add: mask_eq_exp_minus_1 and.commute)
qed

lemma bit_at_iff: "bit_at n v \<longleftrightarrow> bit (v ! (n div 8)) (n mod 8)"
proof -
  have "(push_bit (n mod 8) 1 :: u8) = 2 ^ (n mod 8)" by (simp add: push_bit_eq_mult)
  then show ?thesis unfolding bit_at_def and_7 by (simp add: and_exp_eq_0_iff_not_bit)
qed

lemma length_set_bit_at [simp]: "length (set_bit_at n v) = length v"
  by (simp add: set_bit_at_def)

lemma bit_at_set_bit_at:
  assumes "n div 8 < length v" shows "bit_at k (set_bit_at n v) \<longleftrightarrow> bit_at k v \<or> k = n"
proof (cases "k div 8 = n div 8")
  case True
  have "k = n \<longleftrightarrow> k mod 8 = n mod 8" using True by (metis mult_div_mod_eq)
  moreover have "bit (v ! (n div 8) OR push_bit (n mod 8) 1) (k mod 8) \<longleftrightarrow> bit (v ! (n div 8)) (k mod 8) \<or> k mod 8 = n mod 8"
    by (auto simp: bit_or_iff bit_exp_iff possible_bit_word)
  ultimately show ?thesis using True assms unfolding bit_at_iff set_bit_at_def and_7 by simp
qed (auto simp: bit_at_iff set_bit_at_def)

section \<open>What inserting keeps\<close>

text \<open>A filter that has no bytes must be marked full; \<open>UpdateEmptyFull\<close> sees to it.\<close>

definition bloom_ok :: "CBloomFilter \<Rightarrow> bool" where
  "bloom_ok f \<longleftrightarrow> bf_vData f \<noteq> [] \<or> bf_isFull f"

text \<open>\<open>f'\<close> has the parameters of \<open>f\<close> and at least its bits.\<close>

definition bloom_grows :: "CBloomFilter \<Rightarrow> CBloomFilter \<Rightarrow> bool" where
  "bloom_grows f f' \<longleftrightarrow> length (bf_vData f') = length (bf_vData f) \<and> bf_nHashFuncs f' = bf_nHashFuncs f \<and> bf_nTweak f' = bf_nTweak f \<and>
     bf_nFlags f' = bf_nFlags f \<and> (\<forall>k < length (bf_vData f) * 8. bit_at k (bf_vData f) \<longrightarrow> bit_at k (bf_vData f'))"

lemma bloom_grows_refl [simp]: "bloom_grows f f"
  by (simp add: bloom_grows_def)

lemma bloom_grows_trans: "bloom_grows f g \<Longrightarrow> bloom_grows g h \<Longrightarrow> bloom_grows f h"
  by (auto simp: bloom_grows_def)

lemma bloom_Hash_grows: "bloom_grows f f' \<Longrightarrow> bloom_Hash f' i key = bloom_Hash f i key"
  by (simp add: bloom_grows_def bloom_Hash_def)

lemma bloom_Hash_bound: "bloom_Hash f i key = Some n \<Longrightarrow> n < length (bf_vData f) * 8"
  by (auto simp: bloom_Hash_def split: if_splits)

lemma insert_bits_spec:
  assumes "bf_vData f \<noteq> []" "length v = length (bf_vData f)"
  shows "\<exists>v'. insert_bits f key ks v = Some v' \<and> length v' = length v \<and>
    (\<forall>k < length v * 8. bit_at k v' \<longleftrightarrow> bit_at k v \<or> (\<exists>i \<in> set ks. bloom_Hash f i key = Some k))"
  using assms(2)
proof (induction ks arbitrary: v)
  case (Cons i ks)
  obtain n where n: "bloom_Hash f i key = Some n" using assms(1) by (simp add: bloom_Hash_def)
  have b: "n div 8 < length v" using bloom_Hash_bound [OF n] Cons.prems by (simp add: less_mult_imp_div_less)
  show ?case using Cons.IH [of "set_bit_at n v"] Cons.prems n by (auto simp: bit_at_set_bit_at [OF b])
qed simp

lemma contains_bits_iff:
  assumes "bf_vData f \<noteq> []"
  shows "contains_bits f key ks = Some (\<forall>i \<in> set ks. \<forall>n. bloom_Hash f i key = Some n \<longrightarrow> bit_at n (bf_vData f))"
proof (induction ks)
  case (Cons i ks)
  moreover obtain n where "bloom_Hash f i key = Some n" using assms by (simp add: bloom_Hash_def)
  ultimately show ?case by simp
qed simp

lemma bloom_insert_spec:
  assumes "bloom_ok f"
  shows "\<exists>f'. bloom_insert key f = Some f' \<and> bloom_grows f f' \<and> bf_isFull f' = bf_isFull f \<and> (bf_isEmpty f' \<longrightarrow> bf_isEmpty f) \<and>
    bloom_contains key f' = Some True"
proof (cases "bf_isFull f")
  case True
  then show ?thesis by (simp add: bloom_insert_def bloom_contains_def)
next
  case False
  then have ne: "bf_vData f \<noteq> []" using assms by (simp add: bloom_ok_def)
  obtain v where v: "insert_bits f key [0..<unat (bf_nHashFuncs f)] (bf_vData f) = Some v" "length v = length (bf_vData f)"
    "\<forall>k < length (bf_vData f) * 8. bit_at k v \<longleftrightarrow> bit_at k (bf_vData f) \<or> (\<exists>i \<in> set [0..<unat (bf_nHashFuncs f)]. bloom_Hash f i key = Some k)"
    using insert_bits_spec [OF ne refl] by blast
  let ?f = "f\<lparr>bf_vData := v, bf_isEmpty := False\<rparr>"
  have g: "bloom_grows f ?f" using v(2,3) by (simp add: bloom_grows_def)
  have "v \<noteq> []" using v(2) ne by auto
  moreover have "bit_at n v" if "i < unat (bf_nHashFuncs f)" "bloom_Hash f i key = Some n" for i n
    using v(3) that bloom_Hash_bound [OF that(2)] by auto
  ultimately have "bloom_contains key ?f = Some True"
    using False bloom_Hash_grows [OF g] by (simp add: bloom_contains_def contains_bits_iff)
  then show ?thesis using False v(1) g by (simp add: bloom_insert_def)
qed

lemma bloom_contains_grows:
  assumes "bloom_ok f" "bloom_contains key f = Some True" "bloom_grows f f'" "bf_isFull f \<longrightarrow> bf_isFull f'" "bf_isEmpty f' \<longrightarrow> bf_isFull f' \<or> bf_isEmpty f"
  shows "bloom_contains key f' = Some True"
proof (cases "bf_isFull f'")
  case True
  then show ?thesis by (simp add: bloom_contains_def)
next
  case False
  then have ne: "bf_vData f \<noteq> []" "\<not> bf_isFull f" using assms(1,4) by (auto simp: bloom_ok_def)
  then have ne': "bf_vData f' \<noteq> []" "\<not> bf_isEmpty f'" using assms(2,3,5) False by (auto simp: bloom_grows_def bloom_contains_def split: if_splits)
  have "bit_at n (bf_vData f')" if i: "i < unat (bf_nHashFuncs f')" "bloom_Hash f' i key = Some n" for i n
  proof -
    have h: "bloom_Hash f i key = Some n" using i(2) bloom_Hash_grows [OF assms(3)] by simp
    then have "bit_at n (bf_vData f)"
      using assms(2,3) i(1) ne by (auto simp: bloom_contains_def contains_bits_iff bloom_grows_def split: if_splits)
    then show ?thesis using assms(3) bloom_Hash_bound [OF h] by (simp add: bloom_grows_def)
  qed
  then show ?thesis using False ne' by (simp add: bloom_contains_def contains_bits_iff)
qed

section \<open>No false negatives\<close>

text \<open>\<open>f'\<close> answers yes whenever \<open>f\<close> does.\<close>

definition bloom_refines :: "CBloomFilter \<Rightarrow> CBloomFilter \<Rightarrow> bool" where
  "bloom_refines f f' \<longleftrightarrow> bloom_ok f' \<and> bloom_grows f f' \<and> bf_isFull f' = bf_isFull f \<and> (bf_isEmpty f' \<longrightarrow> bf_isEmpty f)"

lemma bloom_refines_refl: "bloom_ok f \<Longrightarrow> bloom_refines f f"
  by (simp add: bloom_refines_def)

lemma bloom_refines_trans: "bloom_refines f g \<Longrightarrow> bloom_refines g h \<Longrightarrow> bloom_refines f h"
  unfolding bloom_refines_def using bloom_grows_trans by blast

lemma bloom_refines_contains:
  "bloom_ok f \<Longrightarrow> bloom_contains key f = Some True \<Longrightarrow> bloom_refines f f' \<Longrightarrow> bloom_contains key f' = Some True"
  unfolding bloom_refines_def by (rule bloom_contains_grows) auto

lemma bloom_ok_grows: "bloom_ok f \<Longrightarrow> bloom_grows f f' \<Longrightarrow> bf_isFull f' = bf_isFull f \<Longrightarrow> bloom_ok f'"
  by (auto simp: bloom_ok_def bloom_grows_def)

lemma bloom_insert_total:
  assumes "bloom_ok f"
  obtains f' where "bloom_insert key f = Some f'" "bloom_refines f f'" "bloom_contains key f' = Some True"
  using bloom_insert_spec [OF assms, of key] bloom_ok_grows [OF assms] unfolding bloom_refines_def by blast

lemma bloom_contains_total: "bloom_ok f \<Longrightarrow> \<exists>r. bloom_contains key f = Some r"
  by (auto simp: bloom_contains_def bloom_ok_def contains_bits_iff)

lemma script_hit_total: "bloom_ok f \<Longrightarrow> \<exists>r. script_hit f pc = Some r"
proof (induction f pc rule: script_hit.induct)
  case (2 f c cs)
  obtain ok pc opcode data where g: "GetOp2 (c # cs) = (ok, pc, opcode, data)" by (cases "GetOp2 (c # cs)")
  obtain r where r: "(if length data \<noteq> 0 then bloom_contains data f else Some False) = Some r"
    using bloom_contains_total [OF 2(2)] by (cases "length data = 0") auto
  show ?case
  proof (cases "ok \<and> \<not> r")
    case True
    then have "\<exists>r. script_hit f pc = Some r" using 2(1) [OF g [symmetric] _ _ _ _ _ 2(2), of pc "(opcode, data)" opcode data False] r by simp
    then show ?thesis using True g r by simp
  next
    case False
    then show ?thesis using g r by (cases r) auto
  qed
qed auto

text \<open>The outputs for which a filter adds the outpoint when it matches them: all of them, those that pay to public keys, or none.\<close>

definition updates_on :: "CBloomFilter \<Rightarrow> CTxOut \<Rightarrow> bool" where
  "updates_on f txout \<longleftrightarrow>
     bf_nFlags f AND BLOOM_UPDATE_MASK = BLOOM_UPDATE_ALL \<or>
     bf_nFlags f AND BLOOM_UPDATE_MASK = BLOOM_UPDATE_P2PUBKEY_ONLY \<and>
     (case Solver (to_scriptPubKey txout) of (ok, type, vSolutions) \<Rightarrow> ok \<and> (type = TX_PUBKEY \<or> type = TX_MULTISIG))"

lemma update_match_eq:
  "update_match hash i txout f =
    (if updates_on f txout then bloom_insert (Serialize_COutPoint \<lparr>op_hash = hash, op_n = word_of_nat i\<rparr>) f else Some f)"
  by (auto simp: update_match_def updates_on_def insert_COutPoint_def split: prod.split)

lemma relevant_outputs_same:
  "relevant_outputs hash i vout found f = Some (r, f') \<Longrightarrow> \<forall>txout \<in> set vout. \<not> updates_on f txout \<Longrightarrow> f' = f"
proof (induction vout arbitrary: i found)
  case (Cons txout vout)
  then show ?case by (cases "script_hit f (to_scriptPubKey txout)") (auto simp: update_match_eq split: if_splits)
qed simp

lemma IsRelevantAndUpdate_same:
  assumes "IsRelevantAndUpdate tx f = Some (r, f')" "\<forall>txout \<in> set (tx_vout tx). \<not> updates_on f txout"
  shows "f' = f"
proof (cases "bf_isFull f \<or> bf_isEmpty f")
  case False
  then obtain found b f1 where "relevant_outputs (CTransaction_GetHash tx) 0 (tx_vout tx) found f = Some (b, f1)" "f' = f1"
    using assms(1) by (auto simp: IsRelevantAndUpdate_def Let_def bind_eq_Some_conv split: if_splits)
  then show ?thesis using relevant_outputs_same assms(2) by blast
qed (use assms(1) in \<open>auto simp: IsRelevantAndUpdate_def split: if_splits\<close>)

lemma update_match_total: "bloom_ok f \<Longrightarrow> \<exists>f'. update_match hash i txout f = Some f' \<and> bloom_refines f f'"
  unfolding update_match_def insert_COutPoint_def
  by (auto intro: bloom_refines_refl elim: bloom_insert_total split: prod.splits)

lemma relevant_outputs_total:
  "bloom_ok f \<Longrightarrow> \<exists>r f'. relevant_outputs hash i vout found f = Some (r, f') \<and> bloom_refines f f' \<and> (found \<longrightarrow> r)"
proof (induction vout arbitrary: i found f)
  case Nil
  then show ?case by (simp add: bloom_refines_refl)
next
  case (Cons txout vout)
  obtain hit where hit: "script_hit f (to_scriptPubKey txout) = Some hit" using script_hit_total [OF Cons.prems] by blast
  show ?case
  proof (cases hit)
    case True
    obtain f1 where f1: "update_match hash i txout f = Some f1" "bloom_refines f f1" using update_match_total [OF Cons.prems] by blast
    then have "bloom_ok f1" by (simp add: bloom_refines_def)
    from Cons.IH [OF this, of "i + 1" True] show ?thesis using True hit f1 by (auto intro: bloom_refines_trans)
  qed (use Cons hit in simp)
qed

lemma relevant_inputs_total: "bloom_ok f \<Longrightarrow> \<exists>r. relevant_inputs vin f = Some r"
proof (induction vin)
  case (Cons txin vin)
  obtain a b where "contains_COutPoint (ti_prevout txin) f = Some a" "script_hit f (ti_scriptSig txin) = Some b"
    using bloom_contains_total [OF Cons.prems] script_hit_total [OF Cons.prems] unfolding contains_COutPoint_def by blast
  then show ?case using Cons by (cases a; cases b) auto
qed auto

lemma IsRelevantAndUpdate_total: "bloom_ok f \<Longrightarrow> \<exists>r f'. IsRelevantAndUpdate tx f = Some (r, f') \<and> bloom_refines f f'"
proof -
  assume ok: "bloom_ok f"
  obtain found where found: "contains_uint256 (CTransaction_GetHash tx) f = Some found"
    using bloom_contains_total [OF ok] unfolding contains_uint256_def by blast
  obtain r f1 where f1: "relevant_outputs (CTransaction_GetHash tx) 0 (tx_vout tx) found f = Some (r, f1)" "bloom_refines f f1"
    using relevant_outputs_total [OF ok] by blast
  then obtain b where "relevant_inputs (tx_vin tx) f1 = Some b" using relevant_inputs_total unfolding bloom_refines_def by blast
  then show ?thesis using found f1 ok by (auto simp: IsRelevantAndUpdate_def Let_def bloom_refines_refl)
qed

text \<open>The operations a node applies to a filter it has been sent.\<close>

inductive bloom_run :: "CBloomFilter \<Rightarrow> CBloomFilter \<Rightarrow> bool" for f where
  run_start: "bloom_run f f"
| run_insert: "bloom_run f g \<Longrightarrow> bloom_insert key g = Some h \<Longrightarrow> bloom_run f h"
| run_relevant: "bloom_run f g \<Longrightarrow> IsRelevantAndUpdate tx g = Some (r, h) \<Longrightarrow> bloom_run f h"

lemma bloom_run_refines: "bloom_run f g \<Longrightarrow> bloom_ok f \<Longrightarrow> bloom_refines f g"
proof (induction rule: bloom_run.induct)
  case (run_insert g key h)
  then show ?case by (metis bloom_insert_total bloom_refines_def bloom_refines_trans option.inject)
next
  case (run_relevant g tx r h)
  then have "bloom_ok g" by (simp add: bloom_refines_def)
  from IsRelevantAndUpdate_total [OF this, of tx] run_relevant show ?case by (auto intro: bloom_refines_trans)
qed (simp add: bloom_refines_refl)

lemma script_hit_refines:
  "script_hit f pc = Some True \<Longrightarrow> bloom_ok f \<Longrightarrow> bloom_refines f g \<Longrightarrow> script_hit g pc = Some True"
proof (induction f pc rule: script_hit.induct)
  case (2 f c cs)
  obtain ok pc opcode data where g: "GetOp2 (c # cs) = (ok, pc, opcode, data)" by (cases "GetOp2 (c # cs)")
  have ok: ok using 2(2) g by (auto split: if_splits)
  have okg: "bloom_ok g" using 2(4) by (simp add: bloom_refines_def)
  let ?has = "\<lambda>f. if length data \<noteq> 0 then bloom_contains data f else Some False"
  obtain r where r: "?has f = Some r" using bloom_contains_total [OF 2(3)] by (cases "length data = 0") auto
  obtain r' where r': "?has g = Some r'" using bloom_contains_total [OF okg] by (cases "length data = 0") auto
  have mono: "r \<longrightarrow> r'" using r r' bloom_refines_contains [OF 2(3) _ 2(4)] by (auto split: if_splits)
  have "script_hit g pc = Some True" if "\<not> r"
    using 2(1) [OF g [symmetric] _ _ _ _ _ _ 2(3,4), of pc "(opcode, data)" opcode data False] 2(2) ok g r that by simp
  then show ?case using ok g r' mono by (cases r') auto
qed simp

lemma updates_on_refines: "bloom_refines f g \<Longrightarrow> updates_on g txout = updates_on f txout"
  by (simp add: updates_on_def bloom_refines_def bloom_grows_def)

lemma relevant_outputs_hit:
  assumes "updates_on f (vout ! j)" "bloom_ok f" "j < length vout"
    and "script_hit f (to_scriptPubKey (vout ! j)) = Some True"
  shows "\<exists>f'. relevant_outputs hash i vout found f = Some (True, f') \<and> bloom_refines f f' \<and>
    contains_COutPoint \<lparr>op_hash = hash, op_n = word_of_nat (i + j)\<rparr> f' = Some True"
  using assms
proof (induction vout arbitrary: i j found f)
  case (Cons txout vout)
  obtain hit where hit: "script_hit f (to_scriptPubKey txout) = Some hit" using script_hit_total [OF Cons.prems(2)] by blast
  define out where "out = \<lparr>op_hash = hash, op_n = word_of_nat i :: u32\<rparr>"
  obtain f1 where f1: "bloom_insert (Serialize_COutPoint out) f = Some f1" "bloom_refines f f1"
    "bloom_contains (Serialize_COutPoint out) f1 = Some True" by (rule bloom_insert_total [OF Cons.prems(2)])
  have upd: "update_match hash i txout f = Some (if updates_on f txout then f1 else f)"
    using f1(1) by (simp add: update_match_eq out_def)
  define g where "g = (if hit \<and> updates_on f txout then f1 else f)"
  have g: "relevant_outputs hash i (txout # vout) found f = relevant_outputs hash (i + 1) vout (hit \<or> found) g" "bloom_refines f g"
    using hit upd f1(2) bloom_refines_refl [OF Cons.prems(2)] by (simp_all add: g_def)
  have okg: "bloom_ok g" using g(2) by (simp add: bloom_refines_def)
  show ?case
  proof (cases j)
    case 0
    then have h: hit using hit Cons.prems(4) by simp
    obtain r f' where f': "relevant_outputs hash (i + 1) vout (hit \<or> found) g = Some (r, f')" "bloom_refines g f'" "r"
      using relevant_outputs_total [OF okg, of hash "i + 1" vout "hit \<or> found"] h by auto
    have "bloom_contains (Serialize_COutPoint out) f' = Some True"
      using bloom_refines_contains [OF okg _ f'(2)] f1(3) h Cons.prems(1) 0 by (simp add: g_def)
    then show ?thesis using g f' 0 bloom_refines_trans [OF g(2) f'(2)] by (simp add: contains_COutPoint_def out_def)
  next
    case (Suc k)
    have "script_hit g (to_scriptPubKey (vout ! k)) = Some True"
      by (rule script_hit_refines [OF _ Cons.prems(2) g(2)]) (use Cons.prems(4) Suc in simp)
    from Cons.IH [OF _ okg _ this, of "i + 1" "hit \<or> found"] Cons.prems(1,3) Suc updates_on_refines [OF g(2)]
    show ?thesis unfolding g(1) using bloom_refines_trans [OF g(2)] by fastforce
  qed
qed simp

lemma relevant_inputs_hit:
  "bloom_ok f \<Longrightarrow> txin \<in> set vin \<Longrightarrow> contains_COutPoint (ti_prevout txin) f = Some True \<Longrightarrow> relevant_inputs vin f = Some True"
proof (induction vin)
  case (Cons x vin)
  obtain a where a: "contains_COutPoint (ti_prevout x) f = Some a" using bloom_contains_total [OF Cons.prems(1)] unfolding contains_COutPoint_def by blast
  obtain b where b: "script_hit f (ti_scriptSig x) = Some b" using script_hit_total [OF Cons.prems(1)] by blast
  show ?case using Cons a b by (cases a; cases b) auto
qed simp

lemma IsRelevantAndUpdate_spend:
  assumes "bloom_ok f" "txin \<in> set (tx_vin tx)" "contains_COutPoint (ti_prevout txin) f = Some True"
  shows "\<exists>f'. IsRelevantAndUpdate tx f = Some (True, f')"
proof (cases "bf_isFull f")
  case False
  then have ne: "\<not> bf_isEmpty f" using assms(3) by (auto simp: contains_COutPoint_def bloom_contains_def)
  obtain found where found: "contains_uint256 (CTransaction_GetHash tx) f = Some found"
    using bloom_contains_total [OF assms(1)] unfolding contains_uint256_def by blast
  obtain r f1 where f1: "relevant_outputs (CTransaction_GetHash tx) 0 (tx_vout tx) found f = Some (r, f1)" "bloom_refines f f1"
    using relevant_outputs_total [OF assms(1)] by blast
  have "contains_COutPoint (ti_prevout txin) f1 = Some True"
    using bloom_refines_contains [OF assms(1) _ f1(2)] assms(3) unfolding contains_COutPoint_def by blast
  then have "relevant_inputs (tx_vin tx) f1 = Some True" using relevant_inputs_hit [OF _ assms(2)] f1(2) unfolding bloom_refines_def by blast
  then show ?thesis using False ne found f1 by (cases r) (auto simp: IsRelevantAndUpdate_def Let_def)
qed (simp add: IsRelevantAndUpdate_def)

lemma IsRelevantAndUpdate_match:
  fixes tx :: CTransaction
  assumes "bloom_ok f" "updates_on f (tx_vout tx ! i)" "\<not> bf_isEmpty f" "i < length (tx_vout tx)"
    and "script_hit f (to_scriptPubKey (tx_vout tx ! i)) = Some True"
  obtains f1 where "IsRelevantAndUpdate tx f = Some (True, f1)" "bloom_ok f1"
    "contains_COutPoint \<lparr>op_hash = CTransaction_GetHash tx, op_n = word_of_nat i\<rparr> f1 = Some True"
proof -
  let ?hash = "CTransaction_GetHash tx"
  obtain found where found: "contains_uint256 ?hash f = Some found"
    using bloom_contains_total [OF assms(1)] unfolding contains_uint256_def by blast
  obtain f1 where f1: "relevant_outputs ?hash 0 (tx_vout tx) found f = Some (True, f1)" "bloom_refines f f1"
    "contains_COutPoint \<lparr>op_hash = ?hash, op_n = word_of_nat i\<rparr> f1 = Some True"
    using relevant_outputs_hit [of f "tx_vout tx" i ?hash 0 found] assms by auto
  define f2 where "f2 = (if bf_isFull f then f else f1)"
  have "IsRelevantAndUpdate tx f = Some (True, f2)" using assms(3) found f1(1) by (simp add: IsRelevantAndUpdate_def Let_def f2_def)
  moreover have "bloom_ok f2" "contains_COutPoint \<lparr>op_hash = ?hash, op_n = word_of_nat i\<rparr> f2 = Some True"
    using f1 assms(1) by (auto simp: f2_def bloom_refines_def contains_COutPoint_def bloom_contains_def)
  ultimately show thesis by (rule that)
qed

lemma bloom_run_contains:
  assumes "bloom_ok f" "bloom_contains key f = Some True" "bloom_run f g"
  shows "bloom_ok g" "bloom_contains key g = Some True"
proof -
  have g: "bloom_refines f g" by (rule bloom_run_refines [OF assms(3,1)])
  then show "bloom_ok g" by (simp add: bloom_refines_def)
  show "bloom_contains key g = Some True" by (rule bloom_refines_contains [OF assms(1,2) g])
qed

text \<open>C34. A filter has no false negatives, and it follows the money as far as its flags ask for it. On a filter that is marked full if it has
  no bytes, inserting always returns; an element that was inserted is contained after whatever insertions and transactions follow (as long
  as the filter is not cleared). If the filter is not marked empty, a data element of an output matches and the flags ask to add such outputs (all of them, or the output pays to a
  public key or a multisignature script and the flags ask for those), the transaction is relevant, and so is, whatever insertions and transactions
  happen in between, every transaction that spends this output. A transaction without outputs that the flags ask for leaves the filter as it is.\<close>

theorem bloom_no_false_negatives:
  assumes "bloom_ok f"
  shows "(\<exists>f1. bloom_insert key f = Some f1 \<and> (\<forall>g. bloom_run f1 g \<longrightarrow> bloom_contains key g = Some True)) \<and>
    (\<forall>tx r g. (\<forall>txout \<in> set (tx_vout tx). \<not> updates_on f txout) \<and> IsRelevantAndUpdate tx f = Some (r, g) \<longrightarrow> g = f) \<and>
    (\<forall>tx i. updates_on f (tx_vout tx ! i) \<and> \<not> bf_isEmpty f \<and> i < length (tx_vout tx) \<and>
       script_hit f (to_scriptPubKey (tx_vout tx ! i)) = Some True \<longrightarrow>
       (\<exists>f1. IsRelevantAndUpdate tx f = Some (True, f1) \<and>
          (\<forall>g spend txin. bloom_run f1 g \<and> txin \<in> set (tx_vin spend) \<and>
             ti_prevout txin = \<lparr>op_hash = CTransaction_GetHash tx, op_n = word_of_nat i\<rparr> \<longrightarrow>
             (\<exists>g'. IsRelevantAndUpdate spend g = Some (True, g')))))"
proof (intro conjI allI impI)
  obtain f1 where f1: "bloom_insert key f = Some f1" "bloom_refines f f1" "bloom_contains key f1 = Some True"
    by (rule bloom_insert_total [OF assms])
  then have "bloom_ok f1" by (simp add: bloom_refines_def)
  then show "\<exists>f1. bloom_insert key f = Some f1 \<and> (\<forall>g. bloom_run f1 g \<longrightarrow> bloom_contains key g = Some True)"
    using f1 bloom_run_contains by blast
next
  show "g = f" if "(\<forall>txout \<in> set (tx_vout tx). \<not> updates_on f txout) \<and> IsRelevantAndUpdate tx f = Some (r, g)" for tx r g
    using IsRelevantAndUpdate_same that by blast
next
  fix tx :: CTransaction and i
  assume a: "updates_on f (tx_vout tx ! i) \<and> \<not> bf_isEmpty f \<and> i < length (tx_vout tx) \<and>
       script_hit f (to_scriptPubKey (tx_vout tx ! i)) = Some True"
  define out where "out = \<lparr>op_hash = CTransaction_GetHash tx, op_n = word_of_nat i :: u32\<rparr>"
  obtain f1 where f1: "IsRelevantAndUpdate tx f = Some (True, f1)" "bloom_ok f1" "contains_COutPoint out f1 = Some True"
    unfolding out_def using a by (elim conjE) (rule IsRelevantAndUpdate_match [OF assms])
  have "\<exists>g'. IsRelevantAndUpdate spend g = Some (True, g')"
    if s: "bloom_run f1 g" "txin \<in> set (tx_vin spend)" "ti_prevout txin = out" for g spend txin
    using bloom_run_contains [OF f1(2) _ s(1)] f1(3) IsRelevantAndUpdate_spend [OF _ s(2)]
    unfolding contains_COutPoint_def s(3) by blast
  then show "\<exists>f1. IsRelevantAndUpdate tx f = Some (True, f1) \<and>
          (\<forall>g spend txin. bloom_run f1 g \<and> txin \<in> set (tx_vin spend) \<and>
             ti_prevout txin = \<lparr>op_hash = CTransaction_GetHash tx, op_n = word_of_nat i\<rparr> \<longrightarrow>
             (\<exists>g'. IsRelevantAndUpdate spend g = Some (True, g')))" using f1(1) unfolding out_def by blast
qed

text \<open>A filter of two bytes with two hash functions, in which \<open>01 02 03\<close> sets the bits 4 and 10. Another element is inserted and found; an
  output that pushes \<open>01 02 03\<close> makes its transaction relevant, and so is a transaction that spends the output.\<close>

definition example_filter :: CBloomFilter where
  "example_filter = \<lparr>bf_vData = [0x10, 4], bf_isFull = False, bf_isEmpty = False, bf_nHashFuncs = 2, bf_nTweak = 0, bf_nFlags = 1\<rparr>"

definition example_pay :: CTransaction where
  "example_pay = \<lparr>tx_nVersion = 1, tx_vin = [], tx_vout = [\<lparr>to_nValue = 5, to_scriptPubKey = [3, 1, 2, 3], to_nRounds = 0\<rparr>], tx_nLockTime = 0\<rparr>"

definition example_spend :: CTransaction where
  "example_spend = \<lparr>tx_nVersion = 1, tx_vin = [\<lparr>ti_prevout = \<lparr>op_hash = CTransaction_GetHash example_pay, op_n = 0\<rparr>, ti_scriptSig = [], ti_nSequence = 0\<rparr>],
     tx_vout = [], tx_nLockTime = 0\<rparr>"

lemma example_filter_hit: "script_hit example_filter [3, 1, 2, 3] = Some True"
proof -
  have "MurmurHash3 0 [1, 2, 3] = 0x80d1d204" "MurmurHash3 0xFBA4C795 [1, 2, 3] = 0x79d363ea" by (simp_all add: murmur_eval)
  then have "bloom_Hash example_filter 0 [1, 2, 3] = Some 4" "bloom_Hash example_filter 1 [1, 2, 3] = Some 10"
    by (simp_all add: bloom_Hash_def example_filter_def)
  then have "bloom_contains [1, 2, 3] example_filter = Some True"
    by (simp add: bloom_contains_def example_filter_def bit_at_def upt_rec)
  moreover have "GetOp2 [3, 1, 2, 3] = (True, [], 3, [1, 2, 3])" by code_simp
  ultimately show ?thesis by simp
qed

theorem bloom_no_false_negatives_witness:
  "(\<exists>f1. bloom_insert [7] example_filter = Some f1 \<and> bloom_contains [7] f1 = Some True) \<and>
   (\<exists>f1 f2. IsRelevantAndUpdate example_pay example_filter = Some (True, f1) \<and> IsRelevantAndUpdate example_spend f1 = Some (True, f2))"
proof -
  have "bloom_ok example_filter" by (simp add: bloom_ok_def example_filter_def)
  note n = bloom_no_false_negatives [OF this, of "[7]"]
  have hyp: "bf_nFlags example_filter = 1" "\<not> bf_isEmpty example_filter" "length (tx_vout example_pay) = 1"
    "to_scriptPubKey (tx_vout example_pay ! 0) = [3, 1, 2, 3]" by (simp_all add: example_filter_def example_pay_def)
  have "\<exists>f1. IsRelevantAndUpdate example_pay example_filter = Some (True, f1) \<and>
      (\<forall>g spend txin. bloom_run f1 g \<and> txin \<in> set (tx_vin spend) \<and>
         ti_prevout txin = \<lparr>op_hash = CTransaction_GetHash example_pay, op_n = word_of_nat 0\<rparr> \<longrightarrow>
         (\<exists>g'. IsRelevantAndUpdate spend g = Some (True, g')))"
    using example_filter_hit hyp by (intro conjunct2 [OF conjunct2 [OF n], rule_format] conjI) (simp_all add: updates_on_def)
  then obtain f1 where f1: "IsRelevantAndUpdate example_pay example_filter = Some (True, f1)"
    "\<forall>g spend txin. bloom_run f1 g \<and> txin \<in> set (tx_vin spend) \<and>
       ti_prevout txin = \<lparr>op_hash = CTransaction_GetHash example_pay, op_n = word_of_nat 0\<rparr> \<longrightarrow>
       (\<exists>g'. IsRelevantAndUpdate spend g = Some (True, g'))" by blast
  have "\<exists>f2. IsRelevantAndUpdate example_spend f1 = Some (True, f2)"
    by (rule f1(2) [rule_format, of f1 "hd (tx_vin example_spend)"]) (simp add: example_spend_def run_start)
  with f1(1) conjunct1 [OF n] run_start show ?thesis by blast
qed

section \<open>Received filters\<close>

interpretation u8: codec "Serialize_uint 1" "Unserialize_uint 1" "\<lambda>_ :: u8. True"
  by (rule uint_codec) simp

text \<open>A filter that has been received and prepared never divides by zero, and the wire format is read back.\<close>

theorem UpdateEmptyFull_ok: "bloom_ok (UpdateEmptyFull f)"
  by (cases "bf_vData f") (simp_all add: bloom_ok_def UpdateEmptyFull_def)

theorem CBloomFilter_roundtrip:
  fixes f g :: CBloomFilter
  assumes "length (bf_vData f) \<le> MAX_SIZE"
  shows "Unserialize_CBloomFilter g (Serialize_CBloomFilter f @ r) =
    Inr (f\<lparr>bf_isFull := bf_isFull g, bf_isEmpty := bf_isEmpty g\<rparr>, r)"
  using assms unfolding Unserialize_CBloomFilter_def Serialize_CBloomFilter_def append_assoc
  by (simp add: u8.read_write u32.read_write bytevec.read_write del: One_nat_def)

end
