(* ===== verification/Spec2Isabelle.thy ===== *)
theory Spec2Isabelle
  imports InterpreterFlags InterpreterLimits Compressor ConnectBlock Orphans Linking Bloom
begin

text \<open>
  \<^bold>\<open>FairCoin: the consensus core of the node.\<close>

  The program (\<open>src/src\<close>) is a node of a block chain of the Bitcoin family with proof of work in its first blocks and
  proof of stake afterwards. Peers and the disk hand it transactions and blocks as bytes. They are decoded
  (\<open>serialize.h\<close>, \<open>primitives/\<close>), checked without context (\<open>CheckTransaction\<close>, \<open>CheckBlock\<close>), placed in the
  tree of block headers (\<open>chain.h\<close>, with the difficulty of \<open>pow.cpp\<close> and the stake kernel of \<open>kernel.cpp\<close>), and connected:
  \<open>ConnectBlock\<close> looks up the outputs a block spends in a stack of caches over the coins database (\<open>coins.cpp\<close>,
  \<open>txdb.cpp\<close>), runs the script interpreter on every spend (\<open>script/interpreter.cpp\<close>), accounts for the money, and writes
  undo data from which \<open>DisconnectBlock\<close> can take the block back. This development models that path and leaves aside
  what surrounds it: network, wallet, remote procedure calls and user interface.

  \<^bold>\<open>Conventions.\<close> A machine integer is a word of its width where wrap-around or bits matter, and an \<^typ>\<open>int\<close> or
  \<^typ>\<open>nat\<close> with its range written out where the code stays in range. \<open>uint256\<close> is a 256-bit word; \<open>Uint256\<close> shows that the
  limb loops of the code compute its arithmetic. A byte vector is a list of 8-bit words. A thrown exception or an error code
  is a value of a sum type; a failed assertion, a null pointer and a read outside a vector are \<^const>\<open>None\<close>. Loops
  are recursive functions with a termination proof. The walks along the pointers of the block index could run
  forever on a cyclic index; they are partial functions, and that they return on every well-formed index is proved. No
  definition uses fuel.

  \<^bold>\<open>Theories, in the order of their imports.\<close>

  \<^item> \<open>Prelude\<close>: machine types, little-endian bytes, lemma collections and the list and word facts that are shared.
  \<^item> \<open>Script\<close> (\<open>script/script.h\<close>, \<open>script.cpp\<close>): opcodes, script numbers at the level of bits, pushes, the
    decoder \<open>GetOp2\<close>, \<open>FindAndDelete\<close> and the scans. Round trips of numbers and pushes.
  \<^item> \<open>Hashing\<close> (\<open>crypto/\<close>, \<open>hash.h\<close>, \<open>hash.cpp\<close>): SHA-1, SHA-256, SHA-512, RIPEMD-160, HMAC and the combined
    hashes. The locale \<open>md_hasher\<close> states the contract of the buffering that the four classes share; each class interprets it,
    and the digest is shown to depend only on the concatenation of what was written.
  \<^item> \<open>SigEncoding\<close> (\<open>script/script_error.*\<close>, the head of \<open>interpreter.cpp\<close>, \<open>eccryptoverify.cpp\<close>): error
    codes, flags, and the checks of signature and key encodings, which accept exactly the strict DER grammar.
  \<^item> \<open>Interpreter\<close> (\<open>EvalScript\<close>, \<open>VerifyScript\<close>), one function per group of opcodes; \<open>InterpreterFlags\<close>: flags
    only restrict; \<open>InterpreterLimits\<close>: the reachable states as an inductive relation and the limits that hold in
    them; \<open>Spending\<close>: what the interpreter decides on the script forms in use.
  \<^item> \<open>Serialize\<close> (\<open>serialize.h\<close>), \<open>Transaction\<close> (\<open>primitives/transaction.*\<close>, \<open>primitives/block.h\<close>, \<open>amount.*\<close>): the
    wire format. The locale \<open>codec\<close> is the contract of a reader and a writer, with the combination of codecs proved once;
    integers, sizes, vectors, transactions and blocks interpret it, so that the wire format is a bijection.
  \<^item> \<open>Sighash\<close> (the end of \<open>interpreter.cpp\<close>, \<open>script/sigcache.cpp\<close>, \<open>pubkey.h\<close>): the hash that is signed, equal
    to a reference algorithm that edits a copy of the transaction, and the caching signature checker.
  \<^item> \<open>Standard\<close> (\<open>script/standard.*\<close>, block signatures of \<open>primitives/block.cpp\<close>): the template matcher,
    destinations, and signing and checking of blocks.
  \<^item> \<open>Merkle\<close> (\<open>primitives/block.cpp\<close>, \<open>merkleblock.*\<close>): merkle trees, branches and partial trees.
  \<^item> \<open>TxCoins\<close> (\<open>CCoins\<close> of \<open>coins.*\<close>, \<open>undo.h\<close>): the unspent outputs of one transaction, spending them, and the undo record
    of an input. \<open>Compressor\<close> (\<open>compressor.*\<close>, the serialization of \<open>CCoins\<close> and of undo data): the compact formats on disk, what
    they can hold (\<open>recordable\<close>) and what comes back (\<open>disk_coins\<close>: of a negative version only seven bits).
  \<^item> \<open>Coins\<close> (\<open>coins.*\<close>, \<open>txdb.cpp\<close>): the views on unspent outputs. The database view holds the bytes that
    \<open>Compressor\<close> writes and reads them back; the two key operations this needs are fields of its record. The locales \<open>coins_reader\<close>
    and \<open>coins_view\<close> are the contract of a view, with what it can hold (\<open>keeps\<close>) and what it makes of it (\<open>stored\<close>) as
    parameters; the database interprets it, and a cache over any view that keeps it keeps
    it again, so that the tip cache and the cache of a block interpret it as well (\<open>db\<close>, \<open>tip\<close>, \<open>view\<close>). \<open>BlockCoins\<close>: the
    effect of a block on the coins and its reversal.
  \<^item> \<open>Uint256\<close> (\<open>uint256.*\<close>), \<open>Chain\<close> (\<open>chain.*\<close>: index entries in a store of pointers, the skip list, the active
    chain, forks and locators), \<open>Pow\<close> (\<open>pow.cpp\<close>, \<open>chainparams.cpp\<close>: difficulty and work).
  \<^item> \<open>TxChecks\<close>, \<open>BlockChecks\<close>, \<open>ConnectBlock\<close> (\<open>main.cpp\<close> with \<open>checkpoints.cpp\<close>, \<open>spork.cpp\<close>,
    \<open>masternode-payments.cpp\<close>, \<open>masternode-budget.cpp\<close> as far as the checks read them): the validation of
    transactions and blocks. Rejections carry the level, code and reason of the code. An accepted transaction
    spends only what exists and is mature; an accepted block changes the coins exactly by its transactions and, while the sums fit
    62 bits, keeps the recorded supply exact and below the maximum; it can be taken back, but for the coinstake flag of spent coins.
  \<^item> \<open>Kernel\<close> (\<open>kernel.cpp\<close>): the stake modifier, the kernel hash and its weighted target, the search of the minter
    and the check of the validator, which agree.
  \<^item> \<open>BlockTree\<close>, \<open>Headers\<close>, \<open>Linking\<close> (\<open>main.cpp\<close>): the tree of block headers. The locale \<open>set_comparator\<close> is the
    contract that \<open>std::set\<close> asks of its order; the order on candidates interprets it (\<open>work\<close>). Accepting a header keeps the
    tree right, blocks may arrive in any order, and the search for the chain with the most work returns the best candidate that can be used.
  \<^item> \<open>Orphans\<close> (\<open>main.cpp\<close>): the pool of transactions whose inputs are unknown; its index and its bounds in every reachable state.
  \<^item> \<open>Bloom\<close> (\<open>bloom.*\<close>, \<open>MurmurHash3\<close> of \<open>hash.cpp\<close>): the filters of light clients, which have no false negatives and follow
    the outputs they match.

  \<^bold>\<open>Parameters.\<close> Code outside the program is an argument of the definitions that call it: elliptic-curve
  operations (signature verification, the validity and decompression of public keys, key stores), the hash of a block
  header (the Quark chain of sphlib functions), the clock, random numbers, what the disk returns, the votes of the
  masternodes, and the settings of the command line. A theorem that needs something of them says so in a named hypothesis
  (\<open>decompress_ok\<close> in \<open>Compressor\<close> and in the invariant \<open>db_inv\<close> of the database, for example), and its witness gives a function that has it.

  \<^bold>\<open>What the proofs showed about the code.\<close> Some behaviours are stated as theorems although they are
  hardly meant: the trust of a proof-of-stake block is always 0 (\<open>block_work\<close>), a proof-of-stake block that pays to a key
  hash can be signed but not accepted (\<open>CheckBlockSignature_p2pkh\<close>), disconnecting loses the coinstake flag of a
  spent transaction (\<open>disconnect_drops_coinstake\<close>), a proof-of-work block may claim its fees twice (\<open>claim_limit\<close>), and
  the weighted stake target wraps (\<open>stake_target_weight\<close>), as does the average of the last targets on the regression test network
  (\<open>regtest_average_wraps\<close>). The signature whose two numbers are zero passes the encoding check, against its comment
  (\<open>zero_signature_accepted\<close>).

  \<^bold>\<open>Not modelled.\<close> Switching the active chain (\<open>ActivateBestChain\<close>, \<open>ConnectTip\<close>, \<open>DisconnectTip\<close>, \<open>InvalidateBlock\<close>), which flushes to
  disk and notifies the wallet; the memory pool; base-58 and other text encodings; floating-point priorities and the sizing of Bloom filters; the optional address, spent and time-stamp indexes; block files and
  LevelDB below the database view; threads and locks (every definition is the code run under its lock); the network
  (\<open>net.cpp\<close> and the message handlers of \<open>main.cpp\<close>), the wallet, the gossip of masternodes, budgets and instant
  send, remote procedure calls, the miner's loop, the graphical interface; sphlib, LevelDB, secp256k1, univalue and other
  vendored code.
\<close>

end
